(* ===== verification/Gonvex_Prelude.thy ===== *)
theory Gonvex_Prelude
  imports Main "HOL-Library.Char_ord" "HOL-Library.List_Lexorder"
begin

text \<open>
  Shared vocabulary of the development: the lemma collections the component theories
  extend, the parts of Go's standard library the modelled code calls (white-space
  trimming, splitting, decimal conversion, 64-bit wrap-around, stable sorting) and the
  generic list facts several components need.

  A Go string is its sequence of bytes, here a \<open>char list\<close>; the white-space functions
  recognise exactly the UTF-8 encodings of the runes for which \<open>unicode.IsSpace\<close> holds.
\<close>

named_theorems defs_simps \<open>unfolding equations of guards and small helpers\<close>
named_theorems inv_intros \<open>introduction rules of component invariants\<close>

section \<open>Outcomes of a Go function\<close>

text \<open>
  A function that returns \<open>(value, error)\<close> and may index out of range: the value, the
  error, or a panic of the goroutine.
\<close>

datatype ('e, 'a) outcome = Ok (the_ok: 'a) | Err (the_err: 'e) | Panic

fun bind_outcome :: "('e, 'a) outcome \<Rightarrow> ('a \<Rightarrow> ('e, 'b) outcome) \<Rightarrow> ('e, 'b) outcome" where
  "bind_outcome (Ok x) f = f x"
| "bind_outcome (Err e) f = Err e"
| "bind_outcome Panic f = Panic"

fun map_err :: "('e \<Rightarrow> 'f) \<Rightarrow> ('e, 'a) outcome \<Rightarrow> ('f, 'a) outcome" where
  "map_err h (Ok x) = Ok x"
| "map_err h (Err e) = Err (h e)"
| "map_err h Panic = Panic"

fun is_ok :: "('e, 'a) outcome \<Rightarrow> bool" where
  "is_ok (Ok x) = True"
| "is_ok _ = False"

lemma is_ok_obtain: "is_ok r \<Longrightarrow> \<exists>x. r = Ok x"
  by (cases r) auto

lemma bind_outcome_Ok:
  "bind_outcome r f = Ok y \<longleftrightarrow> (\<exists>x. r = Ok x \<and> f x = Ok y)"
  by (cases r) auto

lemma map_err_Ok [simp]: "map_err h r = Ok x \<longleftrightarrow> r = Ok x"
  by (cases r) auto

section \<open>Strings\<close>

definition ascii_space :: "char \<Rightarrow> bool" where
  "ascii_space c \<longleftrightarrow> c \<in> {CHR 0x09, CHR 0x0A, CHR 0x0B, CHR 0x0C, CHR 0x0D, CHR 0x20}"

definition space2 :: "char \<Rightarrow> char \<Rightarrow> bool" where
  "space2 a b \<longleftrightarrow> a = CHR 0xC2 \<and> b \<in> {CHR 0x85, CHR 0xA0}"

definition space3 :: "char \<Rightarrow> char \<Rightarrow> char \<Rightarrow> bool" where
  "space3 a b c \<longleftrightarrow>
     a = CHR 0xE1 \<and> b = CHR 0x9A \<and> c = CHR 0x80
   \<or> a = CHR 0xE2 \<and> b = CHR 0x80 \<and>
       c \<in> {CHR 0x80, CHR 0x81, CHR 0x82, CHR 0x83, CHR 0x84, CHR 0x85, CHR 0x86, CHR 0x87,
            CHR 0x88, CHR 0x89, CHR 0x8A, CHR 0xA8, CHR 0xA9, CHR 0xAF}
   \<or> a = CHR 0xE2 \<and> b = CHR 0x81 \<and> c = CHR 0x9F
   \<or> a = CHR 0xE3 \<and> b = CHR 0x80 \<and> c = CHR 0x80"

text \<open>The number of bytes of the white-space rune a string starts with, 0 if none.\<close>

fun space_len :: "string \<Rightarrow> nat" where
  "space_len (a # b # c # s) =
     (if ascii_space a then 1 else if space2 a b then 2 else if space3 a b c then 3 else 0)"
| "space_len [a, b] = (if ascii_space a then 1 else if space2 a b then 2 else 0)"
| "space_len [a] = (if ascii_space a then 1 else 0)"
| "space_len [] = 0"

text \<open>The same read backwards: the white-space rune a reversed string starts with.\<close>

fun rspace_len :: "string \<Rightarrow> nat" where
  "rspace_len (c # b # a # s) =
     (if ascii_space c then 1 else if space2 b c then 2 else if space3 a b c then 3 else 0)"
| "rspace_len [b, a] = (if ascii_space b then 1 else if space2 a b then 2 else 0)"
| "rspace_len [a] = (if ascii_space a then 1 else 0)"
| "rspace_len [] = 0"

lemma space_len_le: "space_len s \<le> length s"
  by (cases s rule: space_len.cases) auto

lemma rspace_len_le: "rspace_len s \<le> length s"
  by (cases s rule: rspace_len.cases) auto

lemma space_len_drop_less: "0 < space_len s \<Longrightarrow> length s - space_len s < length s"
  using space_len_le [of s] by linarith

lemma rspace_len_drop_less: "0 < rspace_len s \<Longrightarrow> length s - rspace_len s < length s"
  using rspace_len_le [of s] by linarith

function trim_left :: "string \<Rightarrow> string" where
  "trim_left s = (if space_len s = 0 then s else trim_left (drop (space_len s) s))"
  by pat_completeness auto
termination
  by (relation "measure length") (auto simp: space_len_drop_less)

function trim_rev :: "string \<Rightarrow> string" where
  "trim_rev s = (if rspace_len s = 0 then s else trim_rev (drop (rspace_len s) s))"
  by pat_completeness auto
termination
  by (relation "measure length") (auto simp: rspace_len_drop_less)

declare trim_left.simps [simp del] trim_rev.simps [simp del]

text \<open>\<open>strings.TrimSpace\<close>.\<close>

definition trim_space :: "string \<Rightarrow> string" where
  "trim_space s = rev (trim_rev (rev (trim_left s)))"

lemma trim_left_no_space: "space_len (trim_left s) = 0"
  by (induction s rule: trim_left.induct) (metis trim_left.simps)

lemma trim_rev_no_space: "rspace_len (trim_rev s) = 0"
  by (induction s rule: trim_rev.induct) (metis trim_rev.simps)

lemma trim_left_id: "space_len s = 0 \<Longrightarrow> trim_left s = s"
  by (subst trim_left.simps) simp

lemma trim_rev_id: "rspace_len s = 0 \<Longrightarrow> trim_rev s = s"
  by (subst trim_rev.simps) simp

lemma trim_rev_suffix: "\<exists>p. s = p @ trim_rev s"
proof (induction s rule: trim_rev.induct)
  case (1 s)
  show ?case
  proof (cases "rspace_len s = 0")
    case True
    then show ?thesis by (simp add: trim_rev_id)
  next
    case False
    with "1" obtain p where "drop (rspace_len s) s = p @ trim_rev (drop (rspace_len s) s)"
      by blast
    then have "s = (take (rspace_len s) s @ p) @ trim_rev s"
      by (metis False append.assoc append_take_drop_id trim_rev.simps)
    then show ?thesis by blast
  qed
qed

lemma space_len_prefix: "space_len (s @ t) = 0 \<Longrightarrow> space_len s = 0"
  by (cases s rule: space_len.cases; cases t rule: space_len.cases) (auto split: if_splits)

lemma trim_space_no_space: "space_len (trim_space s) = 0"
proof -
  obtain p where "rev (trim_left s) = p @ trim_rev (rev (trim_left s))"
    using trim_rev_suffix by blast
  then have "trim_left s = trim_space s @ rev p"
    by (metis rev_append rev_rev_ident trim_space_def)
  then show ?thesis
    by (metis space_len_prefix trim_left_no_space)
qed

lemma trim_space_idem [simp]: "trim_space (trim_space s) = trim_space s"
proof -
  have "trim_left (trim_space s) = trim_space s"
    by (simp add: trim_left_id trim_space_no_space)
  then have "trim_space (trim_space s) = rev (trim_rev (trim_rev (rev (trim_left s))))"
    by (simp add: trim_space_def)
  then show ?thesis
    by (simp add: trim_rev_id trim_rev_no_space trim_space_def)
qed

lemma trim_space_Nil [simp]: "trim_space [] = []"
  by (simp add: trim_space_def trim_left_id trim_rev_id)

text \<open>\<open>strings.Split\<close> by a one-byte separator: never the empty list.\<close>

fun split_on :: "char \<Rightarrow> string \<Rightarrow> string list" where
  "split_on sep [] = [[]]"
| "split_on sep (c # s) =
     (if c = sep then [] # split_on sep s
      else (case split_on sep s of [] \<Rightarrow> [[c]] | p # ps \<Rightarrow> (c # p) # ps))"

lemma split_on_not_Nil [simp]: "split_on sep s \<noteq> []"
  by (induction s) (auto split: list.splits)

text \<open>
  \<open>strings.IndexByte\<close> and the two halves of \<open>strings.SplitN(s, sep, 2)\<close>: the text before
  the first separator and, if there is one, the text after it.
\<close>

fun cut :: "char \<Rightarrow> string \<Rightarrow> string \<times> string option" where
  "cut sep [] = ([], None)"
| "cut sep (c # s) =
     (if c = sep then ([], Some s) else (case cut sep s of (a, b) \<Rightarrow> (c # a, b)))"

lemma cut_None_iff: "snd (cut sep s) = None \<longleftrightarrow> sep \<notin> set s"
  by (induction s) (auto split: prod.splits)

lemma cut_append: "sep \<notin> set a \<Longrightarrow> cut sep (a @ sep # b) = (a, Some b)"
  by (induction a) auto

lemma cut_without: "sep \<notin> set a \<Longrightarrow> cut sep a = (a, None)"
  by (induction a) auto

text \<open>\<open>strings.Join\<close>.\<close>

fun join_with :: "string \<Rightarrow> string list \<Rightarrow> string" where
  "join_with sep [] = []"
| "join_with sep [s] = s"
| "join_with sep (s # t # ss) = s @ sep @ join_with sep (t # ss)"

lemma split_on_append:
  "sep \<notin> set s \<Longrightarrow> split_on sep (s @ sep # t) = s # split_on sep t"
  by (induction s) auto

lemma split_on_without: "sep \<notin> set s \<Longrightarrow> split_on sep s = [s]"
  by (induction s) auto

lemma split_on_join:
  assumes "ss \<noteq> []" and "\<And>s. s \<in> set ss \<Longrightarrow> sep \<notin> set s"
  shows "split_on sep (join_with [sep] ss) = ss"
  using assms
  by (induction "[sep]" ss rule: join_with.induct) (auto simp: split_on_append split_on_without)

text \<open>\<open>strings.HasPrefix\<close> followed by \<open>strings.TrimPrefix\<close>.\<close>

fun strip_prefix :: "string \<Rightarrow> string \<Rightarrow> string option" where
  "strip_prefix [] s = Some s"
| "strip_prefix (p # ps) [] = None"
| "strip_prefix (p # ps) (c # s) = (if p = c then strip_prefix ps s else None)"

definition has_prefix :: "string \<Rightarrow> string \<Rightarrow> bool" where
  "has_prefix p s \<longleftrightarrow> strip_prefix p s \<noteq> None"

lemma strip_prefix_append [simp]: "strip_prefix p (p @ s) = Some s"
  by (induction p) auto

lemma strip_prefix_Some: "strip_prefix p s = Some t \<longleftrightarrow> s = p @ t"
  by (induction p s rule: strip_prefix.induct) auto

text \<open>\<open>strings.Fields\<close>: the maximal runs without white space.\<close>

function fields_from :: "string \<Rightarrow> string \<Rightarrow> string list" where
  "fields_from acc s =
     (case s of
        [] \<Rightarrow> (if acc = [] then [] else [rev acc])
      | c # t \<Rightarrow>
         (if space_len s = 0 then fields_from (c # acc) t
          else (if acc = [] then [] else [rev acc]) @ fields_from [] (drop (space_len s) s)))"
  by pat_completeness auto
termination
  by (relation "measure (\<lambda>(acc, s). length s)") (use space_len_drop_less in fastforce)+

declare fields_from.simps [simp del]

definition str_fields :: "string \<Rightarrow> string list" where
  "str_fields s = fields_from [] s"

section \<open>Decimal numbers and 64-bit wrap-around\<close>

abbreviation max_int64 :: int where "max_int64 \<equiv> 9223372036854775807"
abbreviation min_int64 :: int where "min_int64 \<equiv> - 9223372036854775808"

text \<open>The value a 64-bit two's complement register holds after computing \<open>x\<close>.\<close>

definition wrap64 :: "int \<Rightarrow> int" where
  "wrap64 x = (x + 9223372036854775808) mod 18446744073709551616 - 9223372036854775808"

lemma wrap64_id: "min_int64 \<le> x \<Longrightarrow> x \<le> max_int64 \<Longrightarrow> wrap64 x = x"
  by (simp add: wrap64_def)

lemma wrap64_range: "min_int64 \<le> wrap64 x \<and> wrap64 x \<le> max_int64"
proof -
  have "(x + 9223372036854775808) mod 18446744073709551616 < 18446744073709551616"
    and "0 \<le> (x + 9223372036854775808) mod 18446744073709551616"
    by simp_all
  then show ?thesis by (simp add: wrap64_def)
qed

text \<open>Sums of two values of the type wrap at most once.\<close>

lemma wrap64_overflow:
  assumes "max_int64 < x" and "x \<le> 2 * max_int64 + 1"
  shows "wrap64 x = x - 18446744073709551616"
proof -
  have "(x + 9223372036854775808) mod 18446744073709551616
      = (x + 9223372036854775808 - 18446744073709551616) mod 18446744073709551616"
    by (rule minus_mod_self2 [symmetric])
  also have "\<dots> = x + 9223372036854775808 - 18446744073709551616"
    using assms by (intro mod_pos_pos_trivial) auto
  finally show ?thesis by (simp add: wrap64_def)
qed

definition digit_char :: "nat \<Rightarrow> char" where
  "digit_char d = char_of (48 + d)"

definition digit_value :: "char \<Rightarrow> nat option" where
  "digit_value c = (let n = of_char c :: nat in if 48 \<le> n \<and> n \<le> 57 then Some (n - 48) else None)"

lemma digit_value_char [simp]: "d < 10 \<Longrightarrow> digit_value (digit_char d) = Some d"
  by (simp add: digit_value_def digit_char_def)

text \<open>\<open>strconv.Itoa\<close> on the natural numbers.\<close>

fun nat_dec :: "nat \<Rightarrow> string" where
  "nat_dec n = (if n < 10 then [digit_char n] else nat_dec (n div 10) @ [digit_char (n mod 10)])"

declare nat_dec.simps [simp del]

definition int_dec :: "int \<Rightarrow> string" where
  "int_dec i = (if i < 0 then CHR ''-'' # nat_dec (nat (- i)) else nat_dec (nat i))"

fun digits_value :: "int \<Rightarrow> string \<Rightarrow> int option" where
  "digits_value acc [] = Some acc"
| "digits_value acc (c # s) =
     (case digit_value c of None \<Rightarrow> None | Some d \<Rightarrow> digits_value (10 * acc + int d) s)"

lemma digits_value_append:
  "digits_value acc (s @ t) =
     (case digits_value acc s of None \<Rightarrow> None | Some v \<Rightarrow> digits_value v t)"
  by (induction s arbitrary: acc) (auto split: option.splits)

lemma digits_value_dec: "digits_value 0 (nat_dec n) = Some (int n)"
proof (induction n rule: nat_dec.induct)
  case (1 n)
  show ?case
  proof (cases "n < 10")
    case True
    then show ?thesis by (simp add: nat_dec.simps)
  next
    case False
    with "1" show ?thesis by (simp add: nat_dec.simps [of n] digits_value_append zmod_int zdiv_int)
  qed
qed

lemma nat_dec_not_Nil [simp]: "nat_dec n \<noteq> []"
  by (simp add: nat_dec.simps)

lemma nat_dec_inj: "nat_dec m = nat_dec n \<Longrightarrow> m = n"
  by (metis digits_value_dec of_nat_eq_iff option.inject)

lemma nat_dec_digits: "c \<in> set (nat_dec n) \<Longrightarrow> digit_value c \<noteq> None"
proof (induction n rule: nat_dec.induct)
  case (1 n)
  show ?case
  proof (cases "n < 10")
    case True
    with "1.prems" show ?thesis by (simp add: nat_dec.simps)
  next
    case False
    with "1" show ?thesis by (auto simp: nat_dec.simps [of n])
  qed
qed

text \<open>
  \<open>strconv.Atoi\<close>: an optional sign, at least one decimal digit, nothing else, and a value
  of the type \<open>int\<close>.
\<close>

definition atoi :: "string \<Rightarrow> int option" where
  "atoi s =
     (let (neg, ds) = (case s of [] \<Rightarrow> (False, [])
                       | c # t \<Rightarrow> if c = CHR ''-'' then (True, t)
                                 else if c = CHR ''+'' then (False, t) else (False, s))
      in if ds = [] then None
         else case digits_value 0 ds of
                None \<Rightarrow> None
              | Some v \<Rightarrow> (let i = (if neg then - v else v)
                          in if min_int64 \<le> i \<and> i \<le> max_int64 then Some i else None))"

lemma digit_value_sign [simp]: "digit_value (CHR ''-'') = None" "digit_value (CHR ''+'') = None"
  by (simp_all add: digit_value_def)

lemma atoi_signed:
  assumes "digits_value 0 ds = Some v" and "ds \<noteq> []" and "0 \<le> v" and "v \<le> max_int64 + 1"
  shows "atoi (CHR ''-'' # ds) = Some (- v)"
  using assms unfolding atoi_def Let_def by simp

lemma atoi_unsigned:
  assumes "digits_value 0 (c # t) = Some v" and "0 \<le> v" and "v \<le> max_int64"
  shows "atoi (c # t) = Some v"
proof -
  have "digit_value c \<noteq> None" using assms(1) by (auto split: option.splits)
  then have "c \<noteq> CHR ''-''" "c \<noteq> CHR ''+''" using digit_value_sign by metis+
  with assms show ?thesis
    unfolding atoi_def Let_def by (simp del: digits_value.simps)
qed

lemma atoi_int_dec:
  assumes "min_int64 \<le> i" and "i \<le> max_int64"
  shows "atoi (int_dec i) = Some i"
proof (cases "i < 0")
  case True
  have "int (nat (- i)) \<le> max_int64 + 1" using assms by linarith
  then have "atoi (CHR ''-'' # nat_dec (nat (- i))) = Some (- int (nat (- i)))"
    by (rule atoi_signed [OF digits_value_dec nat_dec_not_Nil of_nat_0_le_iff])
  with True show ?thesis by (simp add: int_dec_def)
next
  case False
  obtain c t where ct: "nat_dec (nat i) = c # t"
    using nat_dec_not_Nil [of "nat i"] by (cases "nat_dec (nat i)") auto
  have "digits_value 0 (c # t) = Some (int (nat i))" using digits_value_dec [of "nat i"] ct by metis
  moreover have "0 \<le> int (nat i)" "int (nat i) \<le> max_int64" using assms by linarith+
  ultimately have "atoi (c # t) = Some (int (nat i))" by (rule atoi_unsigned)
  with False ct show ?thesis by (simp add: int_dec_def)
qed

lemma atoi_range: "atoi s = Some i \<Longrightarrow> min_int64 \<le> i \<and> i \<le> max_int64"
  by (auto simp: atoi_def Let_def split: option.splits if_splits prod.splits)

text \<open>Go's integer division truncates towards zero.\<close>

definition go_div :: "int \<Rightarrow> int \<Rightarrow> int" where
  "go_div a b = sgn a * sgn b * (\<bar>a\<bar> div \<bar>b\<bar>)"

lemma go_div_nonneg: "0 \<le> a \<Longrightarrow> 0 < b \<Longrightarrow> go_div a b = a div b"
  by (cases "a = 0") (auto simp: go_div_def)

section \<open>Stable sorting by a key\<close>

text \<open>
  \<open>sort.SliceStable\<close> with a comparison that is \<open><\<close> on a key is the library's
  \<open>sort_key\<close>; \<open>sort.Strings\<close> is \<open>sort\<close>.
\<close>

lemma distinct_sort_key [simp]: "distinct (sort_key f xs) = distinct xs"
  by (rule distinct_sort)

lemma map_sort_key_nth_le:
  "i \<le> j \<Longrightarrow> j < length xs \<Longrightarrow> f (sort_key f xs ! i) \<le> f (sort_key f xs ! j)"
  using sorted_nth_mono [of "map f (sort_key f xs)" i j] by simp

section \<open>Lists and association lists\<close>

lemma filter_remove_other [simp]: "filter (\<lambda>x. x \<noteq> a) (filter (\<lambda>x. x \<noteq> a) xs) = filter (\<lambda>x. x \<noteq> a) xs"
  by simp

lemma distinct_map_filter': "distinct (map f xs) \<Longrightarrow> distinct (map f (filter P xs))"
  by (rule distinct_map_filter)

lemma length_filter_partition:
  "length (filter P xs) + length (filter (\<lambda>x. \<not> P x) xs) = length xs"
  by (rule sum_length_filter_compl)

text \<open>
  A list of entries updated where a predicate holds: what one SQL \<open>UPDATE\<close> does to a
  table kept as a list of rows.
\<close>

definition update_where :: "('a \<Rightarrow> bool) \<Rightarrow> ('a \<Rightarrow> 'a) \<Rightarrow> 'a list \<Rightarrow> 'a list" where
  "update_where P f xs = map (\<lambda>x. if P x then f x else x) xs"

lemma length_update_where [simp]: "length (update_where P f xs) = length xs"
  by (simp add: update_where_def)

lemma set_update_where: "set (update_where P f xs) = f ` {x \<in> set xs. P x} \<union> {x \<in> set xs. \<not> P x}"
  by (auto simp: update_where_def)

lemma map_update_where:
  "(\<And>x. x \<in> set xs \<Longrightarrow> P x \<Longrightarrow> k (f x) = k x) \<Longrightarrow> map k (update_where P f xs) = map k xs"
  by (auto simp: update_where_def)

text \<open>The row with a given key, where keys are unique.\<close>

definition find_key :: "('a \<Rightarrow> 'k) \<Rightarrow> 'k \<Rightarrow> 'a list \<Rightarrow> 'a option" where
  "find_key k i xs = find (\<lambda>x. k x = i) xs"

lemma find_key_Cons [simp]: "find_key k i (x # xs) = (if k x = i then Some x else find_key k i xs)"
  by (simp add: find_key_def)

lemma find_key_Nil [simp]: "find_key k i [] = None"
  by (simp add: find_key_def)

lemma find_key_None_iff: "find_key k i xs = None \<longleftrightarrow> i \<notin> k ` set xs"
  by (induction xs) auto

lemma find_key_Some: "find_key k i xs = Some x \<Longrightarrow> x \<in> set xs \<and> k x = i"
  by (induction xs) (auto split: if_splits)

lemma find_key_in: "distinct (map k xs) \<Longrightarrow> x \<in> set xs \<Longrightarrow> find_key k (k x) xs = Some x"
  by (induction xs) (auto simp: rev_image_eqI)

lemma find_key_append:
  "find_key k i (xs @ ys) = (case find_key k i xs of None \<Rightarrow> find_key k i ys | Some x \<Rightarrow> Some x)"
  by (induction xs) auto

lemma find_key_update_where:
  assumes "\<And>x. k (f x) = k x"
  shows "find_key k i (update_where P f xs) =
    map_option (\<lambda>x. if P x then f x else x) (find_key k i xs)"
  by (induction xs) (auto simp: update_where_def assms)

section \<open>Invariants of step relations\<close>

text \<open>
  The contract of a component that is a step relation: an invariant of the initial states that
  every step keeps. The components with a step relation interpret it on their own model.
\<close>

locale step_invariant =
  fixes init :: "'s \<Rightarrow> bool" and step :: "'s \<Rightarrow> 's \<Rightarrow> bool" and inv :: "'s \<Rightarrow> bool"
  assumes inv_init: "init s \<Longrightarrow> inv s"
    and inv_step: "inv s \<Longrightarrow> step s s' \<Longrightarrow> inv s'"
begin

lemma inv_steps: "step\<^sup>*\<^sup>* s s' \<Longrightarrow> inv s \<Longrightarrow> inv s'"
  by (induction rule: rtranclp_induct) (auto intro: inv_step)

lemma inv_reachable: "init s \<Longrightarrow> step\<^sup>*\<^sup>* s s' \<Longrightarrow> inv s'"
  using inv_steps inv_init by blast

end

section \<open>The first rows of an ordered selection\<close>

lemma take_sort_key_le:
  assumes "x \<in> set (take n (sort_key f xs))" and "y \<in> set xs" and "y \<notin> set (take n (sort_key f xs))"
  shows "f x \<le> f y" and "length (take n (sort_key f xs)) = n"
proof -
  obtain i where i: "i < n" "i < length xs" "x = sort_key f xs ! i"
    using assms(1) by (auto simp: in_set_conv_nth)
  obtain j where j: "j < length xs" "y = sort_key f xs ! j"
    using assms(2) by (metis in_set_conv_nth length_sort set_sort)
  have "n \<le> j"
  proof (rule ccontr)
    assume "\<not> n \<le> j"
    then have "y = take n (sort_key f xs) ! j" "j < length (take n (sort_key f xs))" using j by auto
    then show False using assms(3) nth_mem by blast
  qed
  then show "f x \<le> f y" using i j map_sort_key_nth_le [of i j xs f] by simp
  show "length (take n (sort_key f xs)) = n" using \<open>n \<le> j\<close> j by simp
qed

lemma distinct_map_take_sort:
  "distinct (map g xs) \<Longrightarrow> distinct (map g (take n (sort_key f xs)))"
  using distinct_map [of g "sort_key f xs"] distinct_map [of g xs]
  by (simp add: take_map [symmetric] distinct_take)

end
