(* ===== verification/App_Auth.thy ===== *)
theory App_Auth
  imports Gonvex_Prelude
begin

text \<open>
  The sign-in of an application's users (\<open>app_auth.go\<close>): the OAuth transactions, the
  one-time authorization codes with their PKCE challenge, the sessions and the rotating
  refresh tokens of a login (a family), and their revocation. The tables are partial maps
  from the hash of a token, their primary key, to the row; times are nanoseconds of one
  clock. SHA-256 is the argument \<open>sha\<close>, the random bytes are arguments, and \<open>io n\<close> tells
  how the \<open>n\<close>-th statement of an operation ended.
\<close>

section \<open>Tokens\<close>

definition base64_char :: "nat \<Rightarrow> char" where
  "base64_char n = (''ABCDEFGHIJKLMNOPQRSTUVWXYZabcdefghijklmnopqrstuvwxyz0123456789-_'') ! (n mod 64)"

text \<open>\<open>base64.RawURLEncoding\<close>: three bytes give four characters, the rest is not padded.\<close>

fun base64_raw_url :: "string \<Rightarrow> string" where
  "base64_raw_url (a # b # c # s) =
     (let x = of_char a; y = of_char b; z = of_char c
      in base64_char (x div 4) # base64_char (x mod 4 * 16 + y div 16)
         # base64_char (y mod 16 * 4 + z div 64) # base64_char (z mod 64) # base64_raw_url s)"
| "base64_raw_url [a, b] =
     (let x = of_char a; y = of_char b
      in [base64_char (x div 4), base64_char (x mod 4 * 16 + y div 16), base64_char (y mod 16 * 4)])"
| "base64_raw_url [a] =
     (let x = of_char a in [base64_char (x div 4), base64_char (x mod 4 * 16)])"
| "base64_raw_url [] = []"

definition sha256Hex :: "(string \<Rightarrow> string) \<Rightarrow> string \<Rightarrow> string" where
  "sha256Hex sha s = base64_raw_url (sha s)"

definition pkceChallenge :: "(string \<Rightarrow> string) \<Rightarrow> string \<Rightarrow> string" where
  "pkceChallenge sha verifier = base64_raw_url (sha verifier)"

definition randomID :: "string \<Rightarrow> string \<Rightarrow> string" where
  "randomID prefix bytes = prefix @ ''_'' @ base64_raw_url bytes"

definition newAppAuthToken :: "string \<Rightarrow> string \<Rightarrow> string \<Rightarrow> string" where
  "newAppAuthToken kind rnd secret = ''gvx_'' @ randomID kind rnd @ ''.'' @ base64_raw_url secret"

section \<open>Tables\<close>

record auth_transaction =
  at_project :: string
  at_redirect :: string
  at_state :: string
  at_challenge :: string
  at_nonce :: string
  at_google_redirect :: string
  at_expires :: int

record auth_code =
  ac_project :: string
  ac_user :: string
  ac_redirect :: string
  ac_challenge :: string
  ac_expires :: int
  ac_used :: "int option"

record auth_session =
  as_project :: string
  as_user :: string
  as_family :: string
  as_expires :: int
  as_revoked :: "int option"
  as_seen :: "int option"

record refresh_row =
  rr_family :: string
  rr_project :: string
  rr_user :: string
  rr_expires :: int
  rr_used :: "int option"
  rr_revoked :: "int option"

record auth_user =
  au_id :: string
  au_project :: string
  au_subject :: string
  au_email :: string
  au_verified :: bool
  au_name :: string
  au_picture :: string
  au_disabled :: "int option"
  au_created :: int
  au_signed_in :: int

record auth_db =
  db_transactions :: "string \<rightharpoonup> auth_transaction"
  db_codes :: "string \<rightharpoonup> auth_code"
  db_sessions :: "string \<rightharpoonup> auth_session"
  db_refresh :: "string \<rightharpoonup> refresh_row"
  db_users :: "auth_user list"

definition empty_auth_db :: auth_db where
  "empty_auth_db = \<lparr>db_transactions = Map.empty, db_codes = Map.empty, db_sessions = Map.empty,
     db_refresh = Map.empty, db_users = []\<rparr>"

text \<open>\<open>DELETE FROM t WHERE p\<close> and \<open>UPDATE t SET f WHERE p\<close> on a table.\<close>

definition delete_rows :: "('r \<Rightarrow> bool) \<Rightarrow> ('k \<rightharpoonup> 'r) \<Rightarrow> ('k \<rightharpoonup> 'r)" where
  "delete_rows p t = (\<lambda>k. case t k of None \<Rightarrow> None | Some r \<Rightarrow> if p r then None else Some r)"

definition update_rows :: "('r \<Rightarrow> bool) \<Rightarrow> ('r \<Rightarrow> 'r) \<Rightarrow> ('k \<rightharpoonup> 'r) \<Rightarrow> ('k \<rightharpoonup> 'r)" where
  "update_rows p f t = (\<lambda>k. case t k of None \<Rightarrow> None | Some r \<Rightarrow> Some (if p r then f r else r))"

lemma delete_rows_Some: "delete_rows p t k = Some r \<longleftrightarrow> t k = Some r \<and> \<not> p r"
  by (auto simp: delete_rows_def split: option.splits)

lemma update_rows_Some: "update_rows p f t k = Some r \<longleftrightarrow> (\<exists>r0. t k = Some r0 \<and> r = (if p r0 then f r0 else r0))"
  by (auto simp: update_rows_def split: option.splits)

lemma update_rows_None [simp]: "update_rows p f t k = None \<longleftrightarrow> t k = None"
  by (auto simp: update_rows_def split: option.splits)

definition one_second :: int where "one_second = 1000000000"
definition authTransactionTTL :: int where "authTransactionTTL = 10 * 60 * one_second"
definition authCodeTTL :: int where "authCodeTTL = 5 * 60 * one_second"
definition appSessionTTL :: int where "appSessionTTL = 15 * 60 * one_second"
definition appRefreshSessionTTL :: int where "appRefreshSessionTTL = 30 * 24 * 60 * 60 * one_second"
definition appRefreshReuseGrace :: int where "appRefreshReuseGrace = 5 * one_second"

lemmas ttl_defs = one_second_def authTransactionTTL_def authCodeTTL_def appSessionTTL_def
  appRefreshSessionTTL_def appRefreshReuseGrace_def

text \<open>
  How a statement ended: carried out, failed, or carried out with the answer lost. Only for
  a commit does the last differ from a failure: what a transaction did before is undone.
\<close>

datatype io_end = Done | Failed | Answer_lost

datatype auth_error = Store_unavailable | Invalid_grant string | Invalid_state | Statement_failed
  | Not_a_session | Session_invalid | Other_project

definition tx_commit :: "io_end \<Rightarrow> 'db \<Rightarrow> 'db \<Rightarrow> 'a \<Rightarrow> 'db \<times> (auth_error, 'a) outcome" where
  "tx_commit e old new r = (case e of Done \<Rightarrow> (new, Ok r) | Failed \<Rightarrow> (old, Err Statement_failed)
     | Answer_lost \<Rightarrow> (new, Err Statement_failed))"

section \<open>OAuth transactions and codes\<close>

definition saveAuthTransaction ::
    "(string \<Rightarrow> string) \<Rightarrow> (nat \<Rightarrow> io_end) \<Rightarrow> int \<Rightarrow> string \<Rightarrow> auth_transaction \<Rightarrow> auth_db \<Rightarrow> auth_db \<times> (auth_error, unit) outcome" where
  "saveAuthTransaction sha io now token t db =
    (if io 0 \<noteq> Done then (db, Err Store_unavailable)
     else let db1 = (if io 1 = Failed then db
                     else db\<lparr>db_transactions := delete_rows (\<lambda>r. at_expires r \<le> now) (db_transactions db)\<rparr>);
              h = sha256Hex sha token
          in if db_transactions db1 h \<noteq> None then (db1, Err Statement_failed)
             else tx_commit (io 2) db1 (db1\<lparr>db_transactions := (db_transactions db1)(h \<mapsto> t\<lparr>at_expires := now + authTransactionTTL\<rparr>)\<rparr>) ())"

definition consumeAuthTransaction ::
    "(string \<Rightarrow> string) \<Rightarrow> (nat \<Rightarrow> io_end) \<Rightarrow> int \<Rightarrow> string \<Rightarrow> auth_db \<Rightarrow> auth_db \<times> (auth_error, auth_transaction) outcome" where
  "consumeAuthTransaction sha io now token db =
    (if io 0 \<noteq> Done then (db, Err Store_unavailable)
     else if io 1 = Failed then (db, Err Statement_failed)
     else let h = sha256Hex sha token in
       case db_transactions db h of
         None \<Rightarrow> (db, Err (if io 1 = Done then Invalid_state else Statement_failed))
       | Some t \<Rightarrow>
           if at_expires t \<le> now then (db, Err (if io 1 = Done then Invalid_state else Statement_failed))
           else tx_commit (io 1) db (db\<lparr>db_transactions := (db_transactions db)(h := None)\<rparr>) t)"

definition createAppAuthCode ::
    "(string \<Rightarrow> string) \<Rightarrow> (nat \<Rightarrow> io_end) \<Rightarrow> int \<Rightarrow> string \<Rightarrow> auth_transaction \<Rightarrow> string \<Rightarrow> auth_db \<Rightarrow> auth_db \<times> (auth_error, string) outcome" where
  "createAppAuthCode sha io now bytes t user db =
    (let code = randomID ''authcode'' bytes; h = sha256Hex sha code in
     if io 0 \<noteq> Done then (db, Err Store_unavailable)
     else let db1 = (if io 1 = Failed then db
                     else db\<lparr>db_codes := delete_rows (\<lambda>c. ac_expires c \<le> now \<or> ac_used c \<noteq> None) (db_codes db)\<rparr>)
          in if db_codes db1 h \<noteq> None then (db1, Err Statement_failed)
             else tx_commit (io 2) db1
               (db1\<lparr>db_codes := (db_codes db1)(h \<mapsto> \<lparr>ac_project = at_project t, ac_user = user, ac_redirect = at_redirect t,
                  ac_challenge = at_challenge t, ac_expires = now + authCodeTTL, ac_used = None\<rparr>)\<rparr>) code)"

section \<open>Writes of a transaction\<close>

text \<open>
  What a transaction has written is seen by others from its commit on; until then it holds
  the lock of the row it selected \<open>FOR UPDATE\<close>.
\<close>

datatype auth_write =
    Code_used string int
  | Refresh_used string int
  | New_session string auth_session
  | New_refresh string refresh_row

fun apply_write :: "auth_write \<Rightarrow> auth_db \<Rightarrow> auth_db" where
  "apply_write (Code_used h t) db = db\<lparr>db_codes := (db_codes db)(h := map_option (\<lambda>c. c\<lparr>ac_used := Some t\<rparr>) (db_codes db h))\<rparr>"
| "apply_write (Refresh_used h t) db =
     db\<lparr>db_refresh := (db_refresh db)(h := map_option (\<lambda>r. if rr_used r = None then r\<lparr>rr_used := Some t\<rparr> else r) (db_refresh db h))\<rparr>"
| "apply_write (New_session h s) db = db\<lparr>db_sessions := (db_sessions db)(h \<mapsto> s)\<rparr>"
| "apply_write (New_refresh h r) db = db\<lparr>db_refresh := (db_refresh db)(h \<mapsto> r)\<rparr>"

definition apply_writes :: "auth_write list \<Rightarrow> auth_db \<Rightarrow> auth_db" where
  "apply_writes ws db = fold apply_write ws db"

record auth_random =
  rd_family :: string
  rd_access_id :: string
  rd_access_secret :: string
  rd_refresh_id :: string
  rd_refresh_secret :: string

record session_grant =
  sg_access :: string
  sg_access_expires :: int
  sg_refresh :: string
  sg_refresh_expires :: int
  sg_family :: string

text \<open>The primary keys refuse a hash that is there already.\<close>

definition issueAppAuthSessionGrant ::
    "(string \<Rightarrow> string) \<Rightarrow> (nat \<Rightarrow> io_end) \<Rightarrow> int \<Rightarrow> auth_random \<Rightarrow> string \<Rightarrow> string \<Rightarrow> string \<Rightarrow> int \<Rightarrow> auth_db
     \<Rightarrow> (auth_error, auth_write list \<times> session_grant) outcome" where
  "issueAppAuthSessionGrant sha io now rnd project user family refresh_expires db =
    (if io 6 \<noteq> Done \<or> io 7 \<noteq> Done then Err Statement_failed
     else let access = newAppAuthToken ''session'' (rd_access_id rnd) (rd_access_secret rnd);
              refresh = newAppAuthToken ''refresh'' (rd_refresh_id rnd) (rd_refresh_secret rnd);
              ah = sha256Hex sha access; rh = sha256Hex sha refresh
          in if io 8 \<noteq> Done \<or> db_sessions db ah \<noteq> None then Err Statement_failed
             else if io 9 \<noteq> Done \<or> db_refresh db rh \<noteq> None then Err Statement_failed
             else Ok ([New_session ah \<lparr>as_project = project, as_user = user, as_family = family,
                          as_expires = now + appSessionTTL, as_revoked = None, as_seen = None\<rparr>,
                       New_refresh rh \<lparr>rr_family = family, rr_project = project, rr_user = user,
                          rr_expires = refresh_expires, rr_used = None, rr_revoked = None\<rparr>],
                      \<lparr>sg_access = access, sg_access_expires = now + appSessionTTL, sg_refresh = refresh,
                       sg_refresh_expires = refresh_expires, sg_family = family\<rparr>))"

definition active_user :: "string \<Rightarrow> string \<Rightarrow> auth_db \<Rightarrow> auth_user option" where
  "active_user user project db =
    find (\<lambda>u. au_id u = user \<and> au_project u = project \<and> au_disabled u = None) (db_users db)"

text \<open>The writes of a grant follow the mark on the row that paid for it.\<close>

definition grant_after ::
    "auth_write \<Rightarrow> auth_user \<Rightarrow> (auth_error, auth_write list \<times> session_grant) outcome
     \<Rightarrow> (auth_error, auth_write list \<times> session_grant \<times> auth_user) outcome" where
  "grant_after w u r = bind_outcome r (\<lambda>(ws, g). Ok (w # ws, g, u))"

section \<open>The exchange of a code\<close>

definition invalid_code :: auth_error where
  "invalid_code = Invalid_grant ''invalid or expired authorization code''"

definition open_exchange ::
    "(string \<Rightarrow> string) \<Rightarrow> (nat \<Rightarrow> io_end) \<Rightarrow> int \<Rightarrow> auth_random \<Rightarrow> string \<Rightarrow> string \<Rightarrow> string \<Rightarrow> string \<Rightarrow> auth_db
     \<Rightarrow> (auth_error, auth_write list \<times> session_grant \<times> auth_user) outcome" where
  "open_exchange sha io now rnd project code verifier redirect db =
    (if io 0 \<noteq> Done then Err Store_unavailable
     else if io 1 \<noteq> Done \<or> io 2 \<noteq> Done then Err Statement_failed
     else case db_codes db (sha256Hex sha code) of
       None \<Rightarrow> Err invalid_code
     | Some c \<Rightarrow>
         if ac_used c \<noteq> None \<or> ac_expires c \<le> now then Err invalid_code
         else if ac_project c \<noteq> project \<or> ac_redirect c \<noteq> redirect \<or> ac_challenge c \<noteq> pkceChallenge sha verifier
         then Err (Invalid_grant ''authorization code does not match this client'')
         else if io 3 \<noteq> Done \<or> io 4 \<noteq> Done then Err Statement_failed
         else case active_user (ac_user c) project db of
           None \<Rightarrow> Err (Invalid_grant ''account is unavailable'')
         | Some u \<Rightarrow>
             if io 5 \<noteq> Done then Err Statement_failed
             else grant_after (Code_used (sha256Hex sha code) now) u
                    (issueAppAuthSessionGrant sha io now rnd project (ac_user c) (randomID ''family'' (rd_family rnd))
                       (now + appRefreshSessionTTL) db))"

definition exchangeAppAuthCode ::
    "(string \<Rightarrow> string) \<Rightarrow> (nat \<Rightarrow> io_end) \<Rightarrow> int \<Rightarrow> auth_random \<Rightarrow> string \<Rightarrow> string \<Rightarrow> string \<Rightarrow> string \<Rightarrow> auth_db
     \<Rightarrow> auth_db \<times> (auth_error, session_grant \<times> auth_user) outcome" where
  "exchangeAppAuthCode sha io now rnd project code verifier redirect db =
    (case open_exchange sha io now rnd project code verifier redirect db of
       Err e \<Rightarrow> (db, Err e)
     | Panic \<Rightarrow> (db, Panic)
     | Ok (ws, g, u) \<Rightarrow> tx_commit (io 10) db (apply_writes ws db) (g, u))"

section \<open>The rotation of a refresh token\<close>

definition revoke_sessions :: "(auth_session \<Rightarrow> bool) \<Rightarrow> int \<Rightarrow> auth_db \<Rightarrow> auth_db" where
  "revoke_sessions p now db = db\<lparr>db_sessions := update_rows p
     (\<lambda>s. s\<lparr>as_revoked := Some (case as_revoked s of None \<Rightarrow> now | Some t \<Rightarrow> t)\<rparr>) (db_sessions db)\<rparr>"

definition revoke_refresh :: "(refresh_row \<Rightarrow> bool) \<Rightarrow> int \<Rightarrow> auth_db \<Rightarrow> auth_db" where
  "revoke_refresh p now db = db\<lparr>db_refresh := update_rows p
     (\<lambda>r. r\<lparr>rr_revoked := Some (case rr_revoked r of None \<Rightarrow> now | Some t \<Rightarrow> t)\<rparr>) (db_refresh db)\<rparr>"

definition revoke_family :: "int \<Rightarrow> string \<Rightarrow> auth_db \<Rightarrow> auth_db" where
  "revoke_family now family db =
     revoke_refresh (\<lambda>r. rr_family r = family) now (revoke_sessions (\<lambda>s. as_family s = family) now db)"

definition revokeAppAuthFamilyTx :: "(nat \<Rightarrow> io_end) \<Rightarrow> int \<Rightarrow> string \<Rightarrow> auth_db \<Rightarrow> (auth_error, auth_db) outcome" where
  "revokeAppAuthFamilyTx io now family db =
    (if family = '''' then Ok db
     else if io 3 \<noteq> Done \<or> io 4 \<noteq> Done then Err Statement_failed
     else Ok (revoke_family now family db))"

text \<open>
  The locked read decides: the token is rotated, or it was used before its grace ended and
  the whole family is to be revoked.
\<close>

datatype refresh_step =
    Rotate "auth_write list" session_grant auth_user
  | Replayed string string string

definition invalid_refresh :: auth_error where
  "invalid_refresh = Invalid_grant ''invalid or expired refresh token''"

definition open_refresh ::
    "(string \<Rightarrow> string) \<Rightarrow> (nat \<Rightarrow> io_end) \<Rightarrow> int \<Rightarrow> auth_random \<Rightarrow> string \<Rightarrow> string \<Rightarrow> auth_db
     \<Rightarrow> (auth_error, refresh_step) outcome" where
  "open_refresh sha io now rnd project token db =
    (if io 0 \<noteq> Done then Err Store_unavailable
     else if io 1 \<noteq> Done \<or> io 2 \<noteq> Done then Err Statement_failed
     else case db_refresh db (sha256Hex sha token) of
       None \<Rightarrow> Err invalid_refresh
     | Some r \<Rightarrow>
         if rr_project r \<noteq> project \<or> rr_revoked r \<noteq> None \<or> rr_expires r < now then Err invalid_refresh
         else case rr_used r of
           Some used \<Rightarrow>
             if now - used \<le> appRefreshReuseGrace
             then Err (Invalid_grant ''refresh token was already rotated; use the latest session'')
             else Ok (Replayed (rr_family r) (rr_project r) (rr_user r))
         | None \<Rightarrow>
             if io 3 \<noteq> Done \<or> io 4 \<noteq> Done then Err Statement_failed
             else case active_user (rr_user r) project db of
               None \<Rightarrow> Err (Invalid_grant ''account is unavailable'')
             | Some u \<Rightarrow>
                 bind_outcome (grant_after (Refresh_used (sha256Hex sha token) now) u
                   (issueAppAuthSessionGrant sha io now rnd project (rr_user r) (rr_family r) (rr_expires r) db))
                   (\<lambda>(ws, g, u). Ok (Rotate ws g u)))"

text \<open>The third component is the account whose connections are closed.\<close>

definition refreshAppSession ::
    "(string \<Rightarrow> string) \<Rightarrow> (nat \<Rightarrow> io_end) \<Rightarrow> int \<Rightarrow> auth_random \<Rightarrow> string \<Rightarrow> string \<Rightarrow> auth_db
     \<Rightarrow> auth_db \<times> (auth_error, session_grant \<times> auth_user) outcome \<times> (string \<times> string) option" where
  "refreshAppSession sha io now rnd project token db =
    (case open_refresh sha io now rnd project token db of
       Err e \<Rightarrow> (db, Err e, None)
     | Panic \<Rightarrow> (db, Panic, None)
     | Ok (Rotate ws g u) \<Rightarrow> (case tx_commit (io 10) db (apply_writes ws db) (g, u) of (db', r) \<Rightarrow> (db', r, None))
     | Ok (Replayed family p u) \<Rightarrow>
         (case revokeAppAuthFamilyTx io now family db of
            Ok db1 \<Rightarrow> (case tx_commit (io 10) db db1 () of
               (db', Ok _) \<Rightarrow> (db', Err (Invalid_grant ''refresh token reuse detected; this login was revoked''), Some (p, u))
             | (db', Err e) \<Rightarrow> (db', Err e, None)
             | (db', Panic) \<Rightarrow> (db', Panic, None))
          | Err e \<Rightarrow> (db, Err e, None)
          | Panic \<Rightarrow> (db, Panic, None)))"

section \<open>Logout and revocation\<close>

text \<open>What the server closes once a revocation has committed.\<close>

datatype closing = Close_nothing | Close_user string string | Close_token string

text \<open>
  The login a logout is about: the session of the access token, or else the one of the
  refresh token. \<open>Ok None\<close>: there is nothing to do.
\<close>

definition find_login ::
    "(string \<Rightarrow> string) \<Rightarrow> (nat \<Rightarrow> io_end) \<Rightarrow> string \<Rightarrow> string \<Rightarrow> auth_db
     \<Rightarrow> (auth_error, (string \<times> string \<times> string) option) outcome" where
  "find_login sha io access refresh db =
    (let by_session = (if access = '''' then None
           else map_option (\<lambda>s. (as_family s, as_project s, as_user s)) (db_sessions db (sha256Hex sha access)));
         by_refresh = map_option (\<lambda>r. (rr_family r, rr_project r, rr_user r)) (db_refresh db (sha256Hex sha refresh))
     in if access \<noteq> '''' \<and> io 2 \<noteq> Done then Err Statement_failed
        else if by_session \<noteq> None then Ok by_session
        else if refresh \<noteq> '''' then (if io 3 \<noteq> Done then Err Statement_failed else Ok by_refresh)
        else Ok None)"

definition revokeAppAuthSession ::
    "(string \<Rightarrow> string) \<Rightarrow> (nat \<Rightarrow> io_end) \<Rightarrow> int \<Rightarrow> string \<Rightarrow> string \<Rightarrow> bool \<Rightarrow> auth_db
     \<Rightarrow> auth_db \<times> (auth_error, unit) outcome \<times> closing" where
  "revokeAppAuthSession sha io now access refresh all_logins db =
    (if io 0 \<noteq> Done then (db, Err Store_unavailable, Close_nothing)
     else if io 1 \<noteq> Done then (db, Err Statement_failed, Close_nothing)
     else case find_login sha io access refresh db of
       Err e \<Rightarrow> (db, Err e, Close_nothing)
     | Panic \<Rightarrow> (db, Panic, Close_nothing)
     | Ok None \<Rightarrow> (db, Ok (), Close_nothing)
     | Ok (Some (family, project, user)) \<Rightarrow>
         (let target = (if all_logins then
                revoke_refresh (\<lambda>r. rr_project r = project \<and> rr_user r = user) now
                  (revoke_sessions (\<lambda>s. as_project s = project \<and> as_user s = user) now db)
              else if family \<noteq> '''' then revoke_family now family db
              else if access \<noteq> '''' then db\<lparr>db_sessions := (db_sessions db)(sha256Hex sha access :=
                map_option (\<lambda>s. s\<lparr>as_revoked := Some (case as_revoked s of None \<Rightarrow> now | Some t \<Rightarrow> t)\<rparr>)
                  (db_sessions db (sha256Hex sha access)))\<rparr>
              else db)
          in if (all_logins \<or> family \<noteq> '''' \<or> access \<noteq> '''') \<and> io 4 \<noteq> Done
                \<or> (all_logins \<or> family \<noteq> '''') \<and> io 5 \<noteq> Done then (db, Err Statement_failed, Close_nothing)
             else case tx_commit (io 6) db target () of
               (db', Ok _) \<Rightarrow> (db', Ok (), if all_logins then Close_user project user
                                          else if access \<noteq> '''' then Close_token access else Close_nothing)
             | (db', e) \<Rightarrow> (db', e, Close_nothing)))"

text \<open>\<open>revokeAppAuthUserSessions\<close>: two statements outside a transaction, their errors ignored.\<close>

definition revokeAppAuthUserSessions :: "(nat \<Rightarrow> io_end) \<Rightarrow> int \<Rightarrow> string \<Rightarrow> string \<Rightarrow> auth_db \<Rightarrow> auth_db \<times> closing" where
  "revokeAppAuthUserSessions io now project user db =
    (if io 0 \<noteq> Done then (db, Close_user project user)
     else let db1 = (if io 1 = Failed then db
                     else revoke_sessions (\<lambda>s. as_project s = project \<and> as_user s = user) now db);
              db2 = (if io 2 = Failed then db1
                     else revoke_refresh (\<lambda>r. rr_project r = project \<and> rr_user r = user) now db1)
          in (db2, Close_user project user))"

definition one_hour :: int where "one_hour = 60 * 60 * one_second"

definition cleanupExpiredAppAuthRecords :: "(nat \<Rightarrow> io_end) \<Rightarrow> int \<Rightarrow> auth_db \<Rightarrow> auth_db" where
  "cleanupExpiredAppAuthRecords io now db =
    (if io 0 \<noteq> Done then db
     else db\<lparr>db_transactions := (if io 1 = Failed then db_transactions db
                else delete_rows (\<lambda>t. at_expires t < now - 24 * one_hour) (db_transactions db)),
             db_codes := (if io 2 = Failed then db_codes db
                else delete_rows (\<lambda>c. ac_expires c < now - 24 * one_hour) (db_codes db)),
             db_sessions := (if io 3 = Failed then db_sessions db
                else delete_rows (\<lambda>s. as_expires s < now - 7 * 24 * one_hour) (db_sessions db)),
             db_refresh := (if io 4 = Failed then db_refresh db
                else delete_rows (\<lambda>r. rr_expires r < now - 7 * 24 * one_hour) (db_refresh db))\<rparr>)"

section \<open>Accounts\<close>

record google_identity =
  gi_subject :: string
  gi_email :: string
  gi_verified :: bool
  gi_name :: string
  gi_picture :: string

text \<open>The insertion meets the row of the same subject; a disabled account is left alone.\<close>

definition upsertAppAuthUser ::
    "(nat \<Rightarrow> io_end) \<Rightarrow> int \<Rightarrow> string \<Rightarrow> string \<Rightarrow> google_identity \<Rightarrow> auth_db \<Rightarrow> auth_db \<times> (auth_error, auth_user) outcome" where
  "upsertAppAuthUser io now bytes project gi db =
    (let own = (\<lambda>u. au_project u = project \<and> au_subject u = gi_subject gi);
         fresh_id = randomID ''user'' bytes
     in if io 0 \<noteq> Done then (db, Err Store_unavailable)
        else case find own (db_users db) of
          Some u \<Rightarrow>
            if au_disabled u \<noteq> None then (db, Err Statement_failed)
            else let u' = u\<lparr>au_email := gi_email gi, au_verified := gi_verified gi, au_name := gi_name gi,
                            au_picture := gi_picture gi, au_signed_in := now\<rparr>
                 in tx_commit (io 1) db (db\<lparr>db_users := update_where own (\<lambda>_. u') (db_users db)\<rparr>) u'
        | None \<Rightarrow>
            if fresh_id \<in> au_id ` set (db_users db) then (db, Err Statement_failed)
            else let u' = \<lparr>au_id = fresh_id, au_project = project, au_subject = gi_subject gi, au_email = gi_email gi,
                           au_verified = gi_verified gi, au_name = gi_name gi, au_picture = gi_picture gi,
                           au_disabled = None, au_created = now, au_signed_in = now\<rparr>
                 in tx_commit (io 1) db (db\<lparr>db_users := db_users db @ [u']\<rparr>) u')"

text \<open>
  \<open>UPDATE gonvex_auth_users SET disabled_at\<close>, and the deletion of an account, with which
  the foreign keys delete its codes, sessions and refresh tokens.
\<close>

definition set_disabled :: "int \<Rightarrow> string \<Rightarrow> string \<Rightarrow> bool \<Rightarrow> auth_db \<Rightarrow> auth_db" where
  "set_disabled now project user disable db = db\<lparr>db_users := update_where (\<lambda>u. au_project u = project \<and> au_id u = user)
     (\<lambda>u. u\<lparr>au_disabled := (if disable then Some (case au_disabled u of None \<Rightarrow> now | Some t \<Rightarrow> t) else None)\<rparr>) (db_users db)\<rparr>"

definition delete_account :: "string \<Rightarrow> string \<Rightarrow> auth_db \<Rightarrow> auth_db" where
  "delete_account project user db =
    (if \<exists>u \<in> set (db_users db). au_project u = project \<and> au_id u = user
     then db\<lparr>db_users := filter (\<lambda>u. \<not> (au_project u = project \<and> au_id u = user)) (db_users db),
             db_codes := delete_rows (\<lambda>c. ac_user c = user) (db_codes db),
             db_sessions := delete_rows (\<lambda>s. as_user s = user) (db_sessions db),
             db_refresh := delete_rows (\<lambda>r. rr_user r = user) (db_refresh db)\<rparr>
     else db)"

section \<open>Acceptance of an access token\<close>

definition session_accepted :: "int \<Rightarrow> string \<Rightarrow> auth_db \<Rightarrow> (auth_session \<times> auth_user) option" where
  "session_accepted now h db =
    (case db_sessions db h of
       None \<Rightarrow> None
     | Some s \<Rightarrow>
         if as_revoked s = None \<and> now < as_expires s
         then map_option (\<lambda>u. (s, u)) (active_user (as_user s) (as_project s) db) else None)"

text \<open>The note of the last use is made at most every five minutes; its error is ignored.\<close>

definition loadAppSessionIdentity ::
    "(string \<Rightarrow> string) \<Rightarrow> (nat \<Rightarrow> io_end) \<Rightarrow> int \<Rightarrow> string \<Rightarrow> auth_db
     \<Rightarrow> auth_db \<times> (auth_error, string \<times> auth_user) outcome" where
  "loadAppSessionIdentity sha io now token db =
    (if \<not> has_prefix ''gvx_session_'' (trim_space token) then (db, Err Not_a_session)
     else if io 0 \<noteq> Done then (db, Err Store_unavailable)
     else if io 1 \<noteq> Done then (db, Err Statement_failed)
     else let h = sha256Hex sha token in
       case session_accepted now h db of
         None \<Rightarrow> (db, Err Session_invalid)
       | Some (s, u) \<Rightarrow>
           (if io 2 \<noteq> Failed \<and> (case as_seen s of None \<Rightarrow> True | Some t \<Rightarrow> t < now - 5 * 60 * one_second)
            then db\<lparr>db_sessions := (db_sessions db)(h \<mapsto> s\<lparr>as_seen := Some now\<rparr>)\<rparr> else db,
            Ok (as_project s, u)))"

section \<open>What the operations guarantee\<close>

lemma tx_commit_cases:
  assumes "tx_commit e old new r = (db', res)"
  obtains "db' = new" "res = Ok r" "e = Done" | "db' = old" "res = Err Statement_failed"
    | "db' = new" "res = Err Statement_failed" "e = Answer_lost"
  using assms by (cases e) (auto simp: tx_commit_def)

lemma active_userD:
  assumes "active_user user project db = Some u"
  shows "u \<in> set (db_users db)" "au_id u = user" "au_project u = project" "au_disabled u = None"
  using assms by (auto simp: active_user_def find_Some_iff in_set_conv_nth)

text \<open>A grant: one new session and one new refresh token of one login, with unused hashes.\<close>

lemma issue_ok:
  assumes "issueAppAuthSessionGrant sha io now rnd project user family ends db = Ok (ws, g)"
  shows "\<exists>ah rh. ws = [New_session ah \<lparr>as_project = project, as_user = user, as_family = family,
             as_expires = now + appSessionTTL, as_revoked = None, as_seen = None\<rparr>,
           New_refresh rh \<lparr>rr_family = family, rr_project = project, rr_user = user,
             rr_expires = ends, rr_used = None, rr_revoked = None\<rparr>]
        \<and> ah = sha256Hex sha (sg_access g) \<and> rh = sha256Hex sha (sg_refresh g)
        \<and> db_sessions db ah = None \<and> db_refresh db rh = None
        \<and> sg_refresh_expires g = ends \<and> sg_access_expires g = now + appSessionTTL \<and> sg_family g = family"
  using assms by (auto simp: issueAppAuthSessionGrant_def Let_def split: if_splits)

lemma grant_after_ok:
  "grant_after w u r = Ok (ws, g, v) \<longleftrightarrow> (\<exists>ws0. r = Ok (ws0, g) \<and> ws = w # ws0 \<and> v = u)"
  by (auto simp: grant_after_def bind_outcome_Ok)

lemma issue_not_panic: "issueAppAuthSessionGrant sha io now rnd project user family ends db \<noteq> Panic"
  by (auto simp: issueAppAuthSessionGrant_def Let_def)

lemma grant_after_not_panic: "r \<noteq> Panic \<Longrightarrow> grant_after w u r \<noteq> Panic"
  by (cases r) (auto simp: grant_after_def split: prod.splits)

text \<open>A code is exchanged only unused, in time, for its own client and an active account.\<close>

lemma open_exchange_ok:
  assumes "open_exchange sha io now rnd project code verifier redirect db = Ok (ws, g, u)"
  shows "\<exists>c ws0. db_codes db (sha256Hex sha code) = Some c \<and> ac_used c = None \<and> now < ac_expires c
      \<and> ac_project c = project \<and> ac_redirect c = redirect \<and> ac_challenge c = pkceChallenge sha verifier
      \<and> active_user (ac_user c) project db = Some u
      \<and> issueAppAuthSessionGrant sha io now rnd project (ac_user c) (randomID ''family'' (rd_family rnd))
          (now + appRefreshSessionTTL) db = Ok (ws0, g)
      \<and> ws = Code_used (sha256Hex sha code) now # ws0"
  using assms
  by (auto simp: open_exchange_def grant_after_ok split: if_splits option.splits)

lemma open_refresh_rotate:
  assumes "open_refresh sha io now rnd project token db = Ok (Rotate ws g u)"
  shows "\<exists>r ws0. db_refresh db (sha256Hex sha token) = Some r \<and> rr_project r = project \<and> rr_revoked r = None
      \<and> now \<le> rr_expires r \<and> rr_used r = None \<and> active_user (rr_user r) project db = Some u
      \<and> issueAppAuthSessionGrant sha io now rnd project (rr_user r) (rr_family r) (rr_expires r) db = Ok (ws0, g)
      \<and> ws = Refresh_used (sha256Hex sha token) now # ws0"
  using assms
  by (auto simp: open_refresh_def grant_after_ok bind_outcome_Ok split: if_splits option.splits)

lemma open_refresh_replayed:
  assumes "open_refresh sha io now rnd project token db = Ok (Replayed f p u)"
  shows "\<exists>r used. db_refresh db (sha256Hex sha token) = Some r \<and> rr_project r = project \<and> rr_revoked r = None
      \<and> now \<le> rr_expires r \<and> rr_used r = Some used \<and> appRefreshReuseGrace < now - used
      \<and> f = rr_family r \<and> p = rr_project r \<and> u = rr_user r"
  using assms
  by (auto simp: open_refresh_def bind_outcome_Ok split: if_splits option.splits)

text \<open>A token that is revoked, or whose row is gone, buys nothing.\<close>

lemma open_refresh_refused:
  assumes "\<And>r. db_refresh db (sha256Hex sha token) = Some r \<Longrightarrow> rr_revoked r \<noteq> None"
  shows "\<exists>e. open_refresh sha io now rnd project token db = Err e"
  using assms by (auto simp: open_refresh_def split: option.splits)

lemma update_rows_hit:
  assumes "update_rows p f t k = Some r" and "\<And>x. q (f x) \<longleftrightarrow> q x" and "\<And>x. p x = q x" and "q r"
  shows "\<exists>r0. t k = Some r0 \<and> r = f r0"
  using assms by (auto simp: update_rows_Some)

lemma revoke_family_rows:
  assumes "f = g"
  shows "db_sessions (revoke_family now f db) h = Some s \<Longrightarrow> as_family s = g \<Longrightarrow> as_revoked s \<noteq> None"
    and "db_refresh (revoke_family now f db) h = Some r \<Longrightarrow> rr_family r = g \<Longrightarrow> rr_revoked r \<noteq> None"
proof -
  assume h: "db_sessions (revoke_family now f db) h = Some s" and g: "as_family s = g"
  have "\<exists>s0. db_sessions db h = Some s0 \<and> s = s0\<lparr>as_revoked := Some (case as_revoked s0 of None \<Rightarrow> now | Some t \<Rightarrow> t)\<rparr>"
    by (rule update_rows_hit [where q = "\<lambda>s. as_family s = g" and p = "\<lambda>s. as_family s = f"])
      (use h g assms in \<open>simp_all add: revoke_family_def revoke_sessions_def revoke_refresh_def\<close>)
  then show "as_revoked s \<noteq> None" by auto
next
  assume h: "db_refresh (revoke_family now f db) h = Some r" and g: "rr_family r = g"
  have "\<exists>r0. db_refresh db h = Some r0 \<and> r = r0\<lparr>rr_revoked := Some (case rr_revoked r0 of None \<Rightarrow> now | Some t \<Rightarrow> t)\<rparr>"
    by (rule update_rows_hit [where q = "\<lambda>r. rr_family r = g" and p = "\<lambda>r. rr_family r = f"])
      (use h g assms in \<open>simp_all add: revoke_family_def revoke_sessions_def revoke_refresh_def\<close>)
  then show "rr_revoked r \<noteq> None" by auto
qed

lemma revoke_family_same [simp]:
  "db_codes (revoke_family now f db) = db_codes db" "db_users (revoke_family now f db) = db_users db"
  "db_transactions (revoke_family now f db) = db_transactions db"
  by (simp_all add: revoke_family_def revoke_sessions_def revoke_refresh_def)

lemma revoked_not_accepted:
  assumes "\<And>s. db_sessions db h = Some s \<Longrightarrow> as_revoked s \<noteq> None"
  shows "session_accepted now h db = None"
  using assms by (auto simp: session_accepted_def split: option.splits)

lemma refresh_refused_keeps:
  assumes "open_refresh sha io now rnd project token db = Err e"
  shows "refreshAppSession sha io now rnd project token db = (db, Err e, None)"
  using assms by (simp add: refreshAppSession_def)

end
