(* ===== verification/Auth_Run.thy ===== *)
theory Auth_Run
  imports App_Auth
begin

text \<open>
  Sign-ins, refreshes and logouts that overlap. An open exchange or refresh holds the row it
  selected \<open>FOR UPDATE\<close> and its writes are seen by nobody before its commit. The two
  statements of a revocation each work on the rows committed when the statement starts, as
  PostgreSQL's default isolation has it, and wait for the locked ones among them. The family
  identifiers drawn so far are kept, to say that a new one is new.
\<close>

section \<open>The world\<close>

datatype auth_lock = Lock_code string | Lock_refresh string

record auth_tx =
  tx_lock :: auth_lock
  tx_at :: int
  tx_session_hash :: string
  tx_session :: auth_session
  tx_refresh_hash :: string
  tx_refresh :: refresh_row

fun mark :: "auth_lock \<Rightarrow> int \<Rightarrow> auth_write" where
  "mark (Lock_code h) t = Code_used h t"
| "mark (Lock_refresh h) t = Refresh_used h t"

definition tx_writes :: "auth_tx \<Rightarrow> auth_write list" where
  "tx_writes tx = [mark (tx_lock tx) (tx_at tx), New_session (tx_session_hash tx) (tx_session tx),
     New_refresh (tx_refresh_hash tx) (tx_refresh tx)]"

text \<open>What a revocation is about, and the rows its statements have found so far.\<close>

datatype revocation_scope = Family_scope string | User_scope string string | Session_scope string

record revoker =
  rv_scope :: revocation_scope
  rv_sessions :: "(string \<rightharpoonup> auth_session) option"
  rv_refresh :: "(string \<rightharpoonup> refresh_row) option"

fun session_in_scope :: "revocation_scope \<Rightarrow> string \<Rightarrow> auth_session \<Rightarrow> bool" where
  "session_in_scope (Family_scope f) h s = (as_family s = f)"
| "session_in_scope (User_scope p u) h s = (as_project s = p \<and> as_user s = u)"
| "session_in_scope (Session_scope k) h s = (h = k)"

fun refresh_in_scope :: "revocation_scope \<Rightarrow> refresh_row \<Rightarrow> bool" where
  "refresh_in_scope (Family_scope f) r = (rr_family r = f)"
| "refresh_in_scope (User_scope p u) r = (rr_project r = p \<and> rr_user r = u)"
| "refresh_in_scope (Session_scope k) r = False"

record auth_world =
  aw_now :: int
  aw_db :: auth_db
  aw_txs :: "auth_tx list"
  aw_revokers :: "revoker list"
  aw_families :: "string \<rightharpoonup> (string \<times> string \<times> int)"

definition fresh_world :: "int \<Rightarrow> auth_world" where
  "fresh_world now = \<lparr>aw_now = now, aw_db = empty_auth_db, aw_txs = [], aw_revokers = [], aw_families = Map.empty\<rparr>"

datatype auth_event = Code_made string | Exchanged string string | Rotated string string | Quiet

fun finished :: "auth_lock \<Rightarrow> string \<Rightarrow> auth_event" where
  "finished (Lock_code c) h = Exchanged c h"
| "finished (Lock_refresh r) h = Rotated r h"

text \<open>A row that an open transaction has locked is not deleted meanwhile.\<close>

definition locks_kept :: "auth_tx list \<Rightarrow> auth_db \<Rightarrow> bool" where
  "locks_kept txs db \<longleftrightarrow> (\<forall>tx \<in> set txs. case tx_lock tx of
     Lock_code h \<Rightarrow> db_codes db h \<noteq> None | Lock_refresh h \<Rightarrow> db_refresh db h \<noteq> None)"

text \<open>The update of the rows a statement found: of those that are there and still in scope.\<close>

definition revoke_found ::
    "revocation_scope \<Rightarrow> int \<Rightarrow> (string \<rightharpoonup> auth_session) \<Rightarrow> (string \<rightharpoonup> refresh_row) \<Rightarrow> auth_db \<Rightarrow> auth_db" where
  "revoke_found sc now ss rs db = db\<lparr>
     db_sessions := (\<lambda>h. case db_sessions db h of None \<Rightarrow> None | Some s \<Rightarrow>
        Some (if (case ss h of None \<Rightarrow> False | Some s0 \<Rightarrow> session_in_scope sc h s0) \<and> session_in_scope sc h s
              then s\<lparr>as_revoked := Some (case as_revoked s of None \<Rightarrow> now | Some t \<Rightarrow> t)\<rparr> else s)),
     db_refresh := (\<lambda>h. case db_refresh db h of None \<Rightarrow> None | Some r \<Rightarrow>
        Some (if (case rs h of None \<Rightarrow> False | Some r0 \<Rightarrow> refresh_in_scope sc r0) \<and> refresh_in_scope sc r
              then r\<lparr>rr_revoked := Some (case rr_revoked r of None \<Rightarrow> now | Some t \<Rightarrow> t)\<rparr> else r))\<rparr>"

definition found_locked :: "revocation_scope \<Rightarrow> (string \<rightharpoonup> refresh_row) \<Rightarrow> auth_tx list \<Rightarrow> bool" where
  "found_locked sc rs txs \<longleftrightarrow> (\<exists>tx \<in> set txs. case tx_lock tx of Lock_code h \<Rightarrow> False
     | Lock_refresh h \<Rightarrow> (case rs h of None \<Rightarrow> False | Some r \<Rightarrow> refresh_in_scope sc r))"

text \<open>The scope of a logout.\<close>

definition logout_scope :: "(string \<Rightarrow> string) \<Rightarrow> string \<Rightarrow> bool \<Rightarrow> string \<times> string \<times> string \<Rightarrow> revocation_scope" where
  "logout_scope sha access all_logins login = (case login of (f, p, u) \<Rightarrow>
     if all_logins then User_scope p u else if f \<noteq> '''' then Family_scope f
     else Session_scope (sha256Hex sha access))"

section \<open>Steps\<close>

inductive auth_step :: "(string \<Rightarrow> string) \<Rightarrow> auth_world \<Rightarrow> auth_event \<Rightarrow> auth_world \<Rightarrow> bool" for sha where
  tick: "aw_now w \<le> t \<Longrightarrow> auth_step sha w Quiet (w\<lparr>aw_now := t\<rparr>)"
| save: "saveAuthTransaction sha io (aw_now w) token t (aw_db w) = (db', r)
    \<Longrightarrow> auth_step sha w Quiet (w\<lparr>aw_db := db'\<rparr>)"
| consume: "consumeAuthTransaction sha io (aw_now w) token (aw_db w) = (db', r)
    \<Longrightarrow> auth_step sha w Quiet (w\<lparr>aw_db := db'\<rparr>)"
| sign_up: "upsertAppAuthUser io (aw_now w) bytes project gi (aw_db w) = (db', r)
    \<Longrightarrow> auth_step sha w Quiet (w\<lparr>aw_db := db'\<rparr>)"
| make_code: "createAppAuthCode sha io (aw_now w) bytes t user (aw_db w) = (db', r) \<Longrightarrow> locks_kept (aw_txs w) db'
    \<Longrightarrow> auth_step sha w (if is_ok r \<or> io 2 = Answer_lost then Code_made (sha256Hex sha (randomID ''authcode'' bytes)) else Quiet)
          (w\<lparr>aw_db := db'\<rparr>)"
| exchange: "open_exchange sha (\<lambda>_. Done) (aw_now w) rnd project code verifier redirect (aw_db w) = Ok (tx_writes tx, g, u)
    \<Longrightarrow> tx_lock tx = Lock_code (sha256Hex sha code) \<Longrightarrow> tx_lock tx \<notin> tx_lock ` set (aw_txs w)
    \<Longrightarrow> aw_families w (sg_family g) = None
    \<Longrightarrow> auth_step sha w Quiet (w\<lparr>aw_txs := aw_txs w @ [tx],
          aw_families := (aw_families w)(sg_family g \<mapsto> (project, au_id u, sg_refresh_expires g))\<rparr>)"
| refresh: "open_refresh sha (\<lambda>_. Done) (aw_now w) rnd project token (aw_db w) = Ok (Rotate (tx_writes tx) g u)
    \<Longrightarrow> tx_lock tx = Lock_refresh (sha256Hex sha token) \<Longrightarrow> tx_lock tx \<notin> tx_lock ` set (aw_txs w)
    \<Longrightarrow> auth_step sha w Quiet (w\<lparr>aw_txs := aw_txs w @ [tx]\<rparr>)"
| finish: "tx \<in> set (aw_txs w) \<Longrightarrow> db_sessions (aw_db w) (tx_session_hash tx) = None
    \<Longrightarrow> db_refresh (aw_db w) (tx_refresh_hash tx) = None
    \<Longrightarrow> auth_step sha w (finished (tx_lock tx) (tx_refresh_hash tx))
          (w\<lparr>aw_db := apply_writes (tx_writes tx) (aw_db w), aw_txs := remove1 tx (aw_txs w)\<rparr>)"
| abort: "tx \<in> set (aw_txs w) \<Longrightarrow> auth_step sha w Quiet (w\<lparr>aw_txs := remove1 tx (aw_txs w)\<rparr>)"
| replay: "open_refresh sha (\<lambda>_. Done) (aw_now w) rnd project token (aw_db w) = Ok (Replayed f p u)
    \<Longrightarrow> auth_step sha w Quiet (w\<lparr>aw_revokers := \<lparr>rv_scope = Family_scope f, rv_sessions = None, rv_refresh = None\<rparr> # aw_revokers w\<rparr>)"
| logout: "find_login sha (\<lambda>_. Done) access token (aw_db w) = Ok (Some login)
    \<Longrightarrow> auth_step sha w Quiet (w\<lparr>aw_revokers := \<lparr>rv_scope = logout_scope sha access all_logins login,
          rv_sessions = None, rv_refresh = None\<rparr> # aw_revokers w\<rparr>)"
| revoke_user: "auth_step sha w Quiet (w\<lparr>aw_revokers := \<lparr>rv_scope = User_scope p u, rv_sessions = None, rv_refresh = None\<rparr> # aw_revokers w\<rparr>)"
| find_sessions: "rv \<in> set (aw_revokers w) \<Longrightarrow> rv_sessions rv = None
    \<Longrightarrow> auth_step sha w Quiet (w\<lparr>aw_revokers := rv\<lparr>rv_sessions := Some (db_sessions (aw_db w))\<rparr> # remove1 rv (aw_revokers w)\<rparr>)"
| find_refresh: "rv \<in> set (aw_revokers w) \<Longrightarrow> rv_sessions rv = Some ss \<Longrightarrow> rv_refresh rv = None
    \<Longrightarrow> auth_step sha w Quiet (w\<lparr>aw_revokers := rv\<lparr>rv_refresh := Some (db_refresh (aw_db w))\<rparr> # remove1 rv (aw_revokers w)\<rparr>)"
| revoke: "rv \<in> set (aw_revokers w) \<Longrightarrow> rv_sessions rv = Some ss \<Longrightarrow> rv_refresh rv = Some rs
    \<Longrightarrow> \<not> found_locked (rv_scope rv) rs (aw_txs w)
    \<Longrightarrow> auth_step sha w Quiet (w\<lparr>aw_db := revoke_found (rv_scope rv) (aw_now w) ss rs (aw_db w),
          aw_revokers := remove1 rv (aw_revokers w)\<rparr>)"
| give_up: "auth_step sha w Quiet (w\<lparr>aw_revokers := remove1 rv (aw_revokers w)\<rparr>)"
| cleanup: "locks_kept (aw_txs w) (cleanupExpiredAppAuthRecords io (aw_now w) (aw_db w))
    \<Longrightarrow> auth_step sha w Quiet (w\<lparr>aw_db := cleanupExpiredAppAuthRecords io (aw_now w) (aw_db w)\<rparr>)"
| disable: "auth_step sha w Quiet (w\<lparr>aw_db := set_disabled (aw_now w) project user b (aw_db w)\<rparr>)"
| delete: "locks_kept (aw_txs w) (delete_account project user (aw_db w))
    \<Longrightarrow> auth_step sha w Quiet (w\<lparr>aw_db := delete_account project user (aw_db w)\<rparr>)"
| use: "loadAppSessionIdentity sha io (aw_now w) token (aw_db w) = (db', r)
    \<Longrightarrow> auth_step sha w Quiet (w\<lparr>aw_db := db'\<rparr>)"

inductive auth_run :: "(string \<Rightarrow> string) \<Rightarrow> auth_world \<Rightarrow> auth_event list \<Rightarrow> auth_world \<Rightarrow> bool" for sha where
  start: "auth_run sha w [] w"
| more: "auth_run sha w evs v \<Longrightarrow> auth_step sha v e v' \<Longrightarrow> auth_run sha w (evs @ [e]) v'"

section \<open>Steps that only take rows away or revoke them\<close>

definition same_login :: "refresh_row \<Rightarrow> refresh_row \<Rightarrow> bool" where
  "same_login r r' \<longleftrightarrow> rr_family r' = rr_family r \<and> rr_project r' = rr_project r \<and> rr_user r' = rr_user r
     \<and> rr_expires r' = rr_expires r \<and> rr_used r' = rr_used r \<and> (rr_revoked r \<noteq> None \<longrightarrow> rr_revoked r' \<noteq> None)"

definition same_session :: "auth_session \<Rightarrow> auth_session \<Rightarrow> bool" where
  "same_session s s' \<longleftrightarrow> as_family s' = as_family s \<and> as_project s' = as_project s \<and> as_user s' = as_user s
     \<and> as_expires s' = as_expires s \<and> (as_revoked s \<noteq> None \<longrightarrow> as_revoked s' \<noteq> None)"

definition tame :: "auth_db \<Rightarrow> auth_db \<Rightarrow> bool" where
  "tame db db' \<longleftrightarrow>
     (\<forall>h r'. db_refresh db' h = Some r' \<longrightarrow> (\<exists>r. db_refresh db h = Some r \<and> same_login r r'))
   \<and> (\<forall>h s'. db_sessions db' h = Some s' \<longrightarrow> (\<exists>s. db_sessions db h = Some s \<and> same_session s s'))
   \<and> (\<forall>h c'. db_codes db' h = Some c' \<and> ac_used c' \<noteq> None \<longrightarrow> db_codes db h = Some c')"

lemma same_login_refl [simp]: "same_login r r"
  by (simp add: same_login_def)

lemma same_session_refl [simp]: "same_session s s"
  by (simp add: same_session_def)

lemma tame_refl [simp]: "tame db db"
  by (auto simp: tame_def)

lemma tame_rows:
  assumes "db_refresh db' = db_refresh db" "db_sessions db' = db_sessions db" "db_codes db' = db_codes db"
  shows "tame db db'"
  using assms by (auto simp: tame_def)

lemma tame_save:
  assumes "saveAuthTransaction sha io now token t db = (db', r)"
  shows "db_refresh db' = db_refresh db" "db_sessions db' = db_sessions db" "db_codes db' = db_codes db"
  using assms by (auto simp: saveAuthTransaction_def Let_def split: if_splits elim!: tx_commit_cases)

lemma tame_consume:
  assumes "consumeAuthTransaction sha io now token db = (db', r)"
  shows "db_refresh db' = db_refresh db" "db_sessions db' = db_sessions db" "db_codes db' = db_codes db"
  using assms by (auto simp: consumeAuthTransaction_def Let_def split: if_splits option.splits elim!: tx_commit_cases)

lemma tame_sign_up:
  assumes "upsertAppAuthUser io now bytes project gi db = (db', r)"
  shows "db_refresh db' = db_refresh db" "db_sessions db' = db_sessions db" "db_codes db' = db_codes db"
  using assms by (auto simp: upsertAppAuthUser_def Let_def split: if_splits option.splits elim!: tx_commit_cases)

text \<open>A code table after \<open>createAppAuthCode\<close>: old rows, and at most one new unused one.\<close>

lemma createAppAuthCode_codes:
  assumes "createAppAuthCode sha io now bytes t user db = (db', r)"
  shows "db_refresh db' = db_refresh db" "db_sessions db' = db_sessions db"
    and "\<And>h c'. db_codes db' h = Some c' \<Longrightarrow> db_codes db h = Some c'
      \<or> h = sha256Hex sha (randomID ''authcode'' bytes) \<and> ac_used c' = None \<and> (is_ok r \<or> io 2 = Answer_lost)"
  using assms
  by (auto simp: createAppAuthCode_def Let_def delete_rows_Some split: if_splits elim!: tx_commit_cases)

lemma tame_create:
  assumes "createAppAuthCode sha io now bytes t user db = (db', r)"
  shows "tame db db'"
  unfolding tame_def using createAppAuthCode_codes [OF assms] by fastforce

lemma tame_cleanup: "tame db (cleanupExpiredAppAuthRecords io now db)"
  by (auto simp: tame_def cleanupExpiredAppAuthRecords_def delete_rows_Some)

lemma tame_delete: "tame db (delete_account project user db)"
  by (auto simp: tame_def delete_account_def delete_rows_Some)

lemma tame_disable: "tame db (set_disabled now project user b db)"
  by (rule tame_rows) (simp_all add: set_disabled_def)

lemma tame_use:
  assumes "loadAppSessionIdentity sha io now token db = (db', r)"
  shows "tame db db'"
  using assms
  by (auto simp: tame_def loadAppSessionIdentity_def Let_def session_accepted_def same_session_def
      split: if_splits option.splits)

lemma tame_revoke_found: "tame db (revoke_found sc now ss rs db)"
  by (auto simp: tame_def revoke_found_def same_login_def same_session_def split: option.splits)

text \<open>
  Every step but the beginning, the commit and the end of an exchange or a refresh leaves the
  open transactions and the families alone and changes the tables tamely.
\<close>

definition calm :: "auth_world \<Rightarrow> auth_world \<Rightarrow> bool" where
  "calm w w' \<longleftrightarrow> aw_txs w' = aw_txs w \<and> aw_families w' = aw_families w \<and> tame (aw_db w) (aw_db w')
     \<and> (aw_db w' = aw_db w \<or> db_codes (aw_db w') = db_codes (aw_db w) \<and> dom (db_refresh (aw_db w')) = dom (db_refresh (aw_db w))
        \<or> locks_kept (aw_txs w) (aw_db w'))"

lemma revoke_found_dom: "dom (db_refresh (revoke_found sc now ss rs db)) = dom (db_refresh db)"
  "db_codes (revoke_found sc now ss rs db) = db_codes db"
  by (auto simp: revoke_found_def dom_def split: option.splits)

definition codes_shrink :: "auth_db \<Rightarrow> auth_db \<Rightarrow> bool" where
  "codes_shrink db db' \<longleftrightarrow> (\<forall>h c. db_codes db' h = Some c \<longrightarrow> db_codes db h = Some c)"

lemma codes_shrink_same: "db_codes db' = db_codes db \<Longrightarrow> codes_shrink db db'"
  by (simp add: codes_shrink_def)

lemma codes_shrink_rows:
  "codes_shrink db (cleanupExpiredAppAuthRecords io now db)" "codes_shrink db (delete_account project user db)"
  by (auto simp: codes_shrink_def cleanupExpiredAppAuthRecords_def delete_account_def delete_rows_Some)

lemma calm_rows:
  assumes "db_refresh db' = db_refresh (aw_db w)" "db_sessions db' = db_sessions (aw_db w)" "db_codes db' = db_codes (aw_db w)"
  shows "calm w (w\<lparr>aw_db := db'\<rparr>)"
  using assms by (auto simp: calm_def intro: tame_rows)

lemma load_identity_rows:
  assumes "loadAppSessionIdentity sha io now token db = (db', r)"
  shows "db_codes db' = db_codes db" "db_refresh db' = db_refresh db"
  using assms by (auto simp: loadAppSessionIdentity_def Let_def split: if_splits option.splits)

lemma auth_step_split [consumes 1, case_names calm made exchange refresh finish abort]:
  assumes "auth_step sha w e w'"
  obtains (calm) "calm w w'" "e = Quiet" "codes_shrink (aw_db w) (aw_db w')"
    | (made) db' r io bytes t user where "createAppAuthCode sha io (aw_now w) bytes t user (aw_db w) = (db', r)"
        "w' = w\<lparr>aw_db := db'\<rparr>" "calm w w'"
        "e = (if is_ok r \<or> io 2 = Answer_lost then Code_made (sha256Hex sha (randomID ''authcode'' bytes)) else Quiet)"
    | (exchange) rnd project code verifier redirect tx g u where
        "open_exchange sha (\<lambda>_. Done) (aw_now w) rnd project code verifier redirect (aw_db w) = Ok (tx_writes tx, g, u)"
        "tx_lock tx = Lock_code (sha256Hex sha code)" "tx_lock tx \<notin> tx_lock ` set (aw_txs w)"
        "aw_families w (sg_family g) = None" "e = Quiet"
        "w' = w\<lparr>aw_txs := aw_txs w @ [tx], aw_families := (aw_families w)(sg_family g \<mapsto> (project, au_id u, sg_refresh_expires g))\<rparr>"
    | (refresh) rnd project token tx g u where
        "open_refresh sha (\<lambda>_. Done) (aw_now w) rnd project token (aw_db w) = Ok (Rotate (tx_writes tx) g u)"
        "tx_lock tx = Lock_refresh (sha256Hex sha token)" "tx_lock tx \<notin> tx_lock ` set (aw_txs w)" "e = Quiet"
        "w' = w\<lparr>aw_txs := aw_txs w @ [tx]\<rparr>"
    | (finish) tx where "tx \<in> set (aw_txs w)" "db_sessions (aw_db w) (tx_session_hash tx) = None"
        "db_refresh (aw_db w) (tx_refresh_hash tx) = None" "e = finished (tx_lock tx) (tx_refresh_hash tx)"
        "w' = w\<lparr>aw_db := apply_writes (tx_writes tx) (aw_db w), aw_txs := remove1 tx (aw_txs w)\<rparr>"
    | (abort) tx where "tx \<in> set (aw_txs w)" "w' = w\<lparr>aw_txs := remove1 tx (aw_txs w)\<rparr>" "e = Quiet"
  using assms
proof cases
  case save then show thesis using tame_save by (intro calm) (simp_all add: calm_rows codes_shrink_same)
next
  case consume then show thesis using tame_consume by (intro calm) (simp_all add: calm_rows codes_shrink_same)
next
  case sign_up then show thesis using tame_sign_up by (intro calm) (simp_all add: calm_rows codes_shrink_same)
next
  case (make_code io bytes t user db' r)
  have "calm w w'" using make_code tame_create by (auto simp: calm_def)
  with make_code show thesis by (auto intro: made)
next
  case disable then show thesis by (intro calm) (simp_all add: calm_rows set_disabled_def codes_shrink_same)
next
  case use then show thesis
    using tame_use load_identity_rows by (intro calm) (auto simp: calm_def codes_shrink_same)
qed (auto simp: calm_def tame_cleanup tame_delete tame_revoke_found revoke_found_dom codes_shrink_rows
    codes_shrink_same intro: calm exchange refresh finish abort)

section \<open>The invariant\<close>

text \<open>
  An open transaction holds an unused row; the token it will insert continues the login of a
  locked refresh token, or starts a login that no row belongs to yet.
\<close>

definition lock_ok :: "auth_world \<Rightarrow> auth_tx \<Rightarrow> bool" where
  "lock_ok w tx \<longleftrightarrow> (case tx_lock tx of
     Lock_refresh h \<Rightarrow> (\<exists>r. db_refresh (aw_db w) h = Some r \<and> rr_used r = None \<and> rr_family r = rr_family (tx_refresh tx))
   | Lock_code h \<Rightarrow> (\<exists>c. db_codes (aw_db w) h = Some c \<and> ac_used c = None)
       \<and> (\<forall>k r. db_refresh (aw_db w) k = Some r \<longrightarrow> rr_family r \<noteq> rr_family (tx_refresh tx)))"

definition login_of :: "refresh_row \<Rightarrow> string \<times> string \<times> int" where
  "login_of r = (rr_project r, rr_user r, rr_expires r)"

definition tx_ok :: "auth_world \<Rightarrow> auth_tx \<Rightarrow> bool" where
  "tx_ok w tx \<longleftrightarrow> rr_used (tx_refresh tx) = None \<and> lock_ok w tx
     \<and> aw_families w (rr_family (tx_refresh tx)) = Some (login_of (tx_refresh tx))
     \<and> as_family (tx_session tx) = rr_family (tx_refresh tx)
     \<and> as_project (tx_session tx) = rr_project (tx_refresh tx) \<and> as_user (tx_session tx) = rr_user (tx_refresh tx)"

definition starts_login :: "auth_tx \<Rightarrow> bool" where
  "starts_login tx \<longleftrightarrow> (\<exists>h. tx_lock tx = Lock_code h)"

definition auth_inv :: "auth_world \<Rightarrow> bool" where
  "auth_inv w \<longleftrightarrow>
     (\<forall>h r. db_refresh (aw_db w) h = Some r \<longrightarrow> aw_families w (rr_family r) = Some (login_of r))
   \<and> (\<forall>h s. db_sessions (aw_db w) h = Some s \<longrightarrow> (\<exists>t. aw_families w (as_family s) = Some (as_project s, as_user s, t)))
   \<and> (\<forall>h k r q. db_refresh (aw_db w) h = Some r \<and> db_refresh (aw_db w) k = Some q \<and> rr_family r = rr_family q
        \<and> rr_used r = None \<and> rr_used q = None \<longrightarrow> h = k)
   \<and> (\<forall>tx \<in> set (aw_txs w). tx_ok w tx) \<and> distinct (map tx_lock (aw_txs w))
   \<and> (\<forall>tx \<in> set (aw_txs w). \<forall>ty \<in> set (aw_txs w). starts_login tx \<and> starts_login ty
        \<and> rr_family (tx_refresh tx) = rr_family (tx_refresh ty) \<longrightarrow> tx = ty)"

lemma auth_invD:
  assumes "auth_inv w"
  shows "db_refresh (aw_db w) h = Some r \<Longrightarrow> aw_families w (rr_family r) = Some (login_of r)"
    and "db_sessions (aw_db w) h = Some s \<Longrightarrow> \<exists>t. aw_families w (as_family s) = Some (as_project s, as_user s, t)"
    and "db_refresh (aw_db w) h = Some r \<Longrightarrow> db_refresh (aw_db w) k = Some q \<Longrightarrow> rr_family r = rr_family q
      \<Longrightarrow> rr_used r = None \<Longrightarrow> rr_used q = None \<Longrightarrow> h = k"
    and "tx \<in> set (aw_txs w) \<Longrightarrow> tx_ok w tx" and "distinct (map tx_lock (aw_txs w))"
    and "tx \<in> set (aw_txs w) \<Longrightarrow> ty \<in> set (aw_txs w) \<Longrightarrow> starts_login tx \<Longrightarrow> starts_login ty
      \<Longrightarrow> rr_family (tx_refresh tx) = rr_family (tx_refresh ty) \<Longrightarrow> tx = ty"
  using assms unfolding auth_inv_def by blast+

lemma calm_present:
  assumes "calm w w'" "tx \<in> set (aw_txs w)"
  shows "tx_lock tx = Lock_code h \<Longrightarrow> db_codes (aw_db w) h \<noteq> None \<Longrightarrow> db_codes (aw_db w') h \<noteq> None"
    and "tx_lock tx = Lock_refresh h \<Longrightarrow> db_refresh (aw_db w) h \<noteq> None \<Longrightarrow> db_refresh (aw_db w') h \<noteq> None"
  using assms unfolding calm_def locks_kept_def by fastforce+

lemma calm_lock:
  assumes "calm w w'" "tx \<in> set (aw_txs w)" "lock_ok w tx"
  shows "lock_ok w' tx"
proof -
  have t: "tame (aw_db w) (aw_db w')" using assms(1) by (simp add: calm_def)
  show ?thesis
  proof (cases "tx_lock tx")
    case (Lock_code h)
    then obtain c where c: "db_codes (aw_db w) h = Some c" "ac_used c = None" using assms(3) by (auto simp: lock_ok_def)
    then obtain c' where c': "db_codes (aw_db w') h = Some c'" using calm_present [OF assms(1,2)] Lock_code by fastforce
    then have "ac_used c' = None" using t c unfolding tame_def by fastforce
    moreover have "rr_family r' \<noteq> rr_family (tx_refresh tx)" if "db_refresh (aw_db w') k = Some r'" for k r'
      using that t assms(3) Lock_code unfolding tame_def lock_ok_def same_login_def by fastforce
    ultimately show ?thesis using Lock_code c' by (auto simp: lock_ok_def)
  next
    case (Lock_refresh h)
    then obtain r where r: "db_refresh (aw_db w) h = Some r" "rr_used r = None" "rr_family r = rr_family (tx_refresh tx)"
      using assms(3) by (auto simp: lock_ok_def)
    then obtain r' where r': "db_refresh (aw_db w') h = Some r'" using calm_present [OF assms(1,2)] Lock_refresh by fastforce
    then have "same_login r r'" using t r unfolding tame_def by fastforce
    then show ?thesis using Lock_refresh r r' by (simp add: lock_ok_def same_login_def)
  qed
qed

lemma same_loginD:
  "same_login r r' \<Longrightarrow> rr_family r' = rr_family r" "same_login r r' \<Longrightarrow> rr_used r' = rr_used r"
  by (simp_all add: same_login_def)

lemma calm_inv:
  assumes "auth_inv w" "calm w w'"
  shows "auth_inv w'"
proof -
  have same: "aw_txs w' = aw_txs w" "aw_families w' = aw_families w" and t: "tame (aw_db w) (aw_db w')"
    using assms(2) by (simp_all add: calm_def)
  have refresh: "\<exists>r. db_refresh (aw_db w) h = Some r \<and> same_login r r'" if "db_refresh (aw_db w') h = Some r'" for h r'
    using that t by (simp add: tame_def)
  have session: "\<exists>s. db_sessions (aw_db w) h = Some s \<and> same_session s s'" if "db_sessions (aw_db w') h = Some s'" for h s'
    using that t by (simp add: tame_def)
  show ?thesis
    unfolding auth_inv_def same
  proof (intro conjI allI impI ballI)
    fix h r' assume "db_refresh (aw_db w') h = Some r'"
    then show "aw_families w (rr_family r') = Some (login_of r')"
      using refresh [of h r'] auth_invD(1) [OF assms(1), of h] by (auto simp: login_of_def same_login_def)
  next
    fix h s' assume "db_sessions (aw_db w') h = Some s'"
    then show "\<exists>t. aw_families w (as_family s') = Some (as_project s', as_user s', t)"
      using session [of h s'] auth_invD(2) [OF assms(1), of h] by (auto simp: same_session_def)
  next
    fix h k r q
    assume *: "db_refresh (aw_db w') h = Some r \<and> db_refresh (aw_db w') k = Some q \<and> rr_family r = rr_family q
      \<and> rr_used r = None \<and> rr_used q = None"
    then obtain r0 q0 where "db_refresh (aw_db w) h = Some r0" "same_login r0 r" "db_refresh (aw_db w) k = Some q0" "same_login q0 q"
      using refresh by blast
    moreover from this have "rr_family r0 = rr_family q0" "rr_used r0 = None" "rr_used q0 = None"
      using * same_loginD by metis+
    ultimately show "h = k" using auth_invD(3) [OF assms(1)] by blast
  next
    fix tx assume tx: "tx \<in> set (aw_txs w)"
    then have ok: "tx_ok w tx" by (rule auth_invD(4) [OF assms(1)])
    then show "tx_ok w' tx" using calm_lock [OF assms(2) tx] by (simp add: tx_ok_def same)
  next
    show "distinct (map tx_lock (aw_txs w))" by (rule auth_invD(5) [OF assms(1)])
  next
    fix tx ty
    assume "tx \<in> set (aw_txs w)" "ty \<in> set (aw_txs w)"
      "starts_login tx \<and> starts_login ty \<and> rr_family (tx_refresh tx) = rr_family (tx_refresh ty)"
    then show "tx = ty" using auth_invD(6) [OF assms(1)] by blast
  qed
qed

lemma exchange_tx:
  assumes "open_exchange sha io now rnd project code verifier redirect db = Ok (tx_writes tx, g, u)"
    and "tx_lock tx = Lock_code (sha256Hex sha code)"
  shows "\<exists>c. db_codes db (sha256Hex sha code) = Some c \<and> ac_used c = None"
    and "rr_used (tx_refresh tx) = None" "rr_family (tx_refresh tx) = sg_family g"
    and "login_of (tx_refresh tx) = (project, au_id u, sg_refresh_expires g)"
    and "as_family (tx_session tx) = sg_family g" "as_project (tx_session tx) = project" "as_user (tx_session tx) = au_id u"
  using open_exchange_ok [OF assms(1)] assms(2)
  by (auto simp: tx_writes_def login_of_def dest!: issue_ok dest: active_userD)

lemma refresh_tx:
  assumes "open_refresh sha io now rnd project token db = Ok (Rotate (tx_writes tx) g u)"
    and "tx_lock tx = Lock_refresh (sha256Hex sha token)"
  shows "\<exists>r. db_refresh db (sha256Hex sha token) = Some r \<and> rr_used r = None \<and> rr_revoked r = None
      \<and> rr_family (tx_refresh tx) = rr_family r \<and> login_of (tx_refresh tx) = login_of r"
    and "rr_used (tx_refresh tx) = None"
    and "as_family (tx_session tx) = rr_family (tx_refresh tx)" "as_project (tx_session tx) = rr_project (tx_refresh tx)"
      "as_user (tx_session tx) = rr_user (tx_refresh tx)"
  using open_refresh_rotate [OF assms(1)] assms(2)
  by (auto simp: tx_writes_def login_of_def dest!: issue_ok dest: active_userD)

lemma lock_ok_simps [simp]:
  "lock_ok (w\<lparr>aw_txs := ts\<rparr>) tx = lock_ok w tx"
  "lock_ok (w\<lparr>aw_txs := ts, aw_families := fs\<rparr>) tx = lock_ok w tx"
  by (cases "tx_lock tx"; simp add: lock_ok_def)+

lemma auth_invI:
  assumes "\<And>h r. db_refresh (aw_db w) h = Some r \<Longrightarrow> aw_families w (rr_family r) = Some (login_of r)"
    and "\<And>h s. db_sessions (aw_db w) h = Some s \<Longrightarrow> \<exists>t. aw_families w (as_family s) = Some (as_project s, as_user s, t)"
    and "\<And>h k r q. db_refresh (aw_db w) h = Some r \<Longrightarrow> db_refresh (aw_db w) k = Some q \<Longrightarrow> rr_family r = rr_family q
      \<Longrightarrow> rr_used r = None \<Longrightarrow> rr_used q = None \<Longrightarrow> h = k"
    and "\<And>tx. tx \<in> set (aw_txs w) \<Longrightarrow> tx_ok w tx" and "distinct (map tx_lock (aw_txs w))"
    and "\<And>tx ty. tx \<in> set (aw_txs w) \<Longrightarrow> ty \<in> set (aw_txs w) \<Longrightarrow> starts_login tx \<Longrightarrow> starts_login ty
      \<Longrightarrow> rr_family (tx_refresh tx) = rr_family (tx_refresh ty) \<Longrightarrow> tx = ty"
  shows "auth_inv w"
  unfolding auth_inv_def by (intro conjI allI impI ballI) (use assms in blast)+

lemma exchange_inv:
  assumes inv: "auth_inv w"
    and opened: "open_exchange sha (\<lambda>_. Done) (aw_now w) rnd project code verifier redirect (aw_db w) = Ok (tx_writes tx, g, u)"
    and lock: "tx_lock tx = Lock_code (sha256Hex sha code)" "tx_lock tx \<notin> tx_lock ` set (aw_txs w)"
    and new: "aw_families w (sg_family g) = None"
    and w': "w' = w\<lparr>aw_txs := aw_txs w @ [tx], aw_families := (aw_families w)(sg_family g \<mapsto> (project, au_id u, sg_refresh_expires g))\<rparr>"
  shows "auth_inv w'"
proof -
  note t = exchange_tx [OF opened lock(1)]
  have f: "sg_family g \<noteq> f" if "aw_families w f = Some x" for f x using new that by auto
  have row: "rr_family r \<noteq> sg_family g" if "db_refresh (aw_db w) h = Some r" for h r
    using auth_invD(1) [OF inv that] f by metis
  have old: "rr_family (tx_refresh ty) \<noteq> sg_family g" if "ty \<in> set (aw_txs w)" for ty
    using auth_invD(4) [OF inv that] f unfolding tx_ok_def by metis
  have ok: "tx_ok w' tx"
    using t lock(1) row by (auto simp: tx_ok_def lock_ok_def w' login_of_def)
  have oks: "tx_ok w' ty" if "ty \<in> set (aw_txs w)" for ty
    using auth_invD(4) [OF inv that] old [OF that] by (auto simp: tx_ok_def w')
  have apart: "rr_family (tx_refresh ty) \<noteq> rr_family (tx_refresh tx)" if "ty \<in> set (aw_txs w)" for ty
    using old [OF that] t(3) by simp
  show ?thesis
  proof (rule auth_invI)
    show "aw_families w' (rr_family r) = Some (login_of r)" if "db_refresh (aw_db w') h = Some r" for h r
      using auth_invD(1) [OF inv] row that by (simp add: w')
    show "\<exists>t. aw_families w' (as_family s) = Some (as_project s, as_user s, t)" if "db_sessions (aw_db w') h = Some s" for h s
      using auth_invD(2) [OF inv, of h s] new that by (auto simp: w')
    show "h = k" if "db_refresh (aw_db w') h = Some r" "db_refresh (aw_db w') k = Some q" "rr_family r = rr_family q"
      "rr_used r = None" "rr_used q = None" for h k r q
      using auth_invD(3) [OF inv, of h r k q] that by (simp add: w')
    show "tx_ok w' ty" if "ty \<in> set (aw_txs w')" for ty
      using that ok oks by (auto simp: w')
    show "distinct (map tx_lock (aw_txs w'))"
      using auth_invD(5) [OF inv] lock(2) by (simp add: w')
    have mem: "ty = tx \<or> ty \<in> set (aw_txs w)" if "ty \<in> set (aw_txs w')" for ty
      using that by (auto simp: w')
    show "ty = tz" if "ty \<in> set (aw_txs w')" "tz \<in> set (aw_txs w')" "starts_login ty" "starts_login tz"
      "rr_family (tx_refresh ty) = rr_family (tx_refresh tz)" for ty tz
      using mem [OF that(1)] mem [OF that(2)] that(3-5) auth_invD(6) [OF inv] apart by metis
  qed
qed

lemma refresh_inv:
  assumes inv: "auth_inv w"
    and opened: "open_refresh sha (\<lambda>_. Done) (aw_now w) rnd project token (aw_db w) = Ok (Rotate (tx_writes tx) g u)"
    and lock: "tx_lock tx = Lock_refresh (sha256Hex sha token)" "tx_lock tx \<notin> tx_lock ` set (aw_txs w)"
    and w': "w' = w\<lparr>aw_txs := aw_txs w @ [tx]\<rparr>"
  shows "auth_inv w'"
proof -
  note t = refresh_tx [OF opened lock(1)]
  have ok: "tx_ok w' tx"
    using t lock(1) auth_invD(1) [OF inv] by (auto simp: tx_ok_def lock_ok_def w')
  have oks: "tx_ok w' ty" if "ty \<in> set (aw_txs w)" for ty
    using auth_invD(4) [OF inv that] by (auto simp: tx_ok_def w')
  have no: "\<not> starts_login tx" using lock(1) by (simp add: starts_login_def)
  show ?thesis
  proof (rule auth_invI)
    show "tx_ok w' ty" if "ty \<in> set (aw_txs w')" for ty
      using that ok oks by (auto simp: w')
    show "distinct (map tx_lock (aw_txs w'))"
      using auth_invD(5) [OF inv] lock(2) by (simp add: w')
    show "ty = tz" if "ty \<in> set (aw_txs w')" "tz \<in> set (aw_txs w')" "starts_login ty" "starts_login tz"
      "rr_family (tx_refresh ty) = rr_family (tx_refresh tz)" for ty tz
    proof -
      have "ty \<in> set (aw_txs w)" "tz \<in> set (aw_txs w)" using that(1-4) no by (auto simp: w')
      then show ?thesis using that(3-5) auth_invD(6) [OF inv] by blast
    qed
  qed (use auth_invD(1-3) [OF inv] in \<open>simp_all add: w'\<close>)
qed

lemma abort_inv:
  assumes "auth_inv w"
  shows "auth_inv (w\<lparr>aw_txs := remove1 tx (aw_txs w)\<rparr>)"
proof -
  have sub: "ty \<in> set (aw_txs w)" if "ty \<in> set (remove1 tx (aw_txs w))" for ty
    using that notin_set_remove1 by metis
  let ?w = "w\<lparr>aw_txs := remove1 tx (aw_txs w)\<rparr>"
  show ?thesis
  proof (rule auth_invI)
    show "distinct (map tx_lock (aw_txs ?w))"
      using auth_invD(5) [OF assms] by (simp add: distinct_map inj_on_diff)
    show "tx_ok ?w ty" if "ty \<in> set (aw_txs ?w)" for ty
      using auth_invD(4) [OF assms sub] that by (simp add: tx_ok_def)
    show "ty = tz" if "ty \<in> set (aw_txs ?w)" "tz \<in> set (aw_txs ?w)" "starts_login ty" "starts_login tz"
      "rr_family (tx_refresh ty) = rr_family (tx_refresh tz)" for ty tz
    proof -
      have "ty \<in> set (aw_txs w)" "tz \<in> set (aw_txs w)" using that(1,2) sub by simp_all
      then show ?thesis using that(3-5) auth_invD(6) [OF assms] by blast
    qed
    show "h = k" if "db_refresh (aw_db ?w) h = Some r" "db_refresh (aw_db ?w) k = Some q" "rr_family r = rr_family q"
      "rr_used r = None" "rr_used q = None" for h k r q
      using auth_invD(3) [OF assms, of h r k q] that by simp
  qed (use auth_invD(1,2) [OF assms] in simp_all)
qed

text \<open>The tables after the commit of an exchange or a refresh.\<close>

lemma finish_tables:
  "db_sessions (apply_writes (tx_writes tx) db) = (db_sessions db)(tx_session_hash tx \<mapsto> tx_session tx)"
  "db_codes (apply_writes (tx_writes tx) db) = (case tx_lock tx of Lock_refresh h \<Rightarrow> db_codes db
     | Lock_code h \<Rightarrow> (db_codes db)(h := map_option (\<lambda>c. c\<lparr>ac_used := Some (tx_at tx)\<rparr>) (db_codes db h)))"
  "db_refresh (apply_writes (tx_writes tx) db) = (case tx_lock tx of Lock_code h \<Rightarrow> db_refresh db
     | Lock_refresh h \<Rightarrow> (db_refresh db)(h := map_option (\<lambda>r. if rr_used r = None then r\<lparr>rr_used := Some (tx_at tx)\<rparr> else r)
         (db_refresh db h)))(tx_refresh_hash tx \<mapsto> tx_refresh tx)"
  by (cases "tx_lock tx"; simp add: apply_writes_def tx_writes_def)+

lemma finish_refresh_row:
  assumes "db_refresh (apply_writes (tx_writes tx) db) k = Some q" "k \<noteq> tx_refresh_hash tx"
  shows "db_refresh db k = Some q \<and> (tx_lock tx = Lock_refresh k \<longrightarrow> rr_used q \<noteq> None)
      \<or> tx_lock tx = Lock_refresh k \<and> rr_used q \<noteq> None \<and> (\<exists>r. db_refresh db k = Some r \<and> rr_family q = rr_family r
          \<and> login_of q = login_of r \<and> rr_revoked q = rr_revoked r)"
proof (cases "tx_lock tx = Lock_refresh k")
  case False
  then show ?thesis using assms by (cases "tx_lock tx") (simp_all add: finish_tables)
next
  case True
  then obtain r where "db_refresh db k = Some r" "q = (if rr_used r = None then r\<lparr>rr_used := Some (tx_at tx)\<rparr> else r)"
    using assms by (auto simp: finish_tables)
  then show ?thesis using True by (cases "rr_used r") (auto simp: login_of_def)
qed

lemma finish_rows:
  assumes db': "db' = apply_writes (tx_writes tx) db" and free: "db_refresh db (tx_refresh_hash tx) = None"
  shows "db_refresh db' k = Some q \<Longrightarrow> k = tx_refresh_hash tx \<and> q = tx_refresh tx
      \<or> db_refresh db k = Some q \<and> (tx_lock tx = Lock_refresh k \<longrightarrow> rr_used q \<noteq> None)
      \<or> tx_lock tx = Lock_refresh k \<and> rr_used q \<noteq> None \<and> (\<exists>r. db_refresh db k = Some r \<and> rr_family q = rr_family r
          \<and> login_of q = login_of r \<and> rr_revoked q = rr_revoked r)"
    and "db_refresh db k = Some r \<Longrightarrow> tx_lock tx \<noteq> Lock_refresh k \<Longrightarrow> db_refresh db' k = Some r"
    and "db_codes db k = Some c \<Longrightarrow> tx_lock tx \<noteq> Lock_code k \<Longrightarrow> db_codes db' k = Some c"
    and "db_sessions db' k = Some s \<Longrightarrow> k = tx_session_hash tx \<and> s = tx_session tx \<or> db_sessions db k = Some s"
proof -
  assume "db_refresh db' k = Some q"
  then show "k = tx_refresh_hash tx \<and> q = tx_refresh tx
      \<or> db_refresh db k = Some q \<and> (tx_lock tx = Lock_refresh k \<longrightarrow> rr_used q \<noteq> None)
      \<or> tx_lock tx = Lock_refresh k \<and> rr_used q \<noteq> None \<and> (\<exists>r. db_refresh db k = Some r \<and> rr_family q = rr_family r
          \<and> login_of q = login_of r \<and> rr_revoked q = rr_revoked r)"
    unfolding db' using finish_refresh_row [of tx db k q] by (cases "k = tx_refresh_hash tx") (simp_all add: finish_tables)
next
  assume "db_refresh db k = Some r" "tx_lock tx \<noteq> Lock_refresh k"
  then show "db_refresh db' k = Some r" unfolding db' using free by (cases "tx_lock tx") (auto simp: finish_tables)
next
  assume "db_codes db k = Some c" "tx_lock tx \<noteq> Lock_code k"
  then show "db_codes db' k = Some c" unfolding db' by (cases "tx_lock tx") (auto simp: finish_tables)
next
  assume "db_sessions db' k = Some s"
  then show "k = tx_session_hash tx \<and> s = tx_session tx \<or> db_sessions db k = Some s"
    unfolding db' by (simp add: finish_tables split: if_splits)
qed

lemma finish_family:
  assumes inv: "auth_inv w" and tx: "tx \<in> set (aw_txs w)"
    and row: "db_refresh (aw_db w) k = Some q" "rr_family q = rr_family (tx_refresh tx)" "rr_used q = None"
  shows "tx_lock tx = Lock_refresh k"
proof -
  have ok: "lock_ok w tx" using auth_invD(4) [OF inv tx] by (simp add: tx_ok_def)
  show ?thesis
  proof (cases "tx_lock tx")
    case (Lock_code h)
    then show ?thesis using ok row by (auto simp: lock_ok_def)
  next
    case (Lock_refresh h)
    then obtain r where "db_refresh (aw_db w) h = Some r" "rr_used r = None" "rr_family r = rr_family (tx_refresh tx)"
      using ok by (auto simp: lock_ok_def)
    then have "h = k" using auth_invD(3) [OF inv] row by metis
    then show ?thesis using Lock_refresh by simp
  qed
qed

lemma finish_lock_ok:
  assumes inv: "auth_inv w" and tx: "tx \<in> set (aw_txs w)" and free: "db_refresh (aw_db w) (tx_refresh_hash tx) = None"
    and ty: "ty \<in> set (aw_txs w)" "ty \<noteq> tx"
    and w': "aw_db w' = apply_writes (tx_writes tx) (aw_db w)"
  shows "lock_ok w' ty"
proof -
  have ok: "lock_ok w tx" "lock_ok w ty" using auth_invD(4) [OF inv] tx ty by (simp_all add: tx_ok_def)
  have locks: "tx_lock ty \<noteq> tx_lock tx"
    using auth_invD(5) [OF inv] tx ty by (auto simp: distinct_map inj_on_def)
  note rows = finish_rows [OF w' free]
  show ?thesis
  proof (cases "tx_lock ty")
    case (Lock_refresh h)
    then obtain r where r: "db_refresh (aw_db w) h = Some r" "rr_used r = None" "rr_family r = rr_family (tx_refresh ty)"
      using ok by (auto simp: lock_ok_def)
    then have "db_refresh (aw_db w') h = Some r" using rows(2) locks Lock_refresh by metis
    then show ?thesis using Lock_refresh r by (simp add: lock_ok_def)
  next
    case (Lock_code h)
    then obtain c where c: "db_codes (aw_db w) h = Some c" "ac_used c = None" using ok by (auto simp: lock_ok_def)
    then have "db_codes (aw_db w') h = Some c" using rows(3) locks Lock_code by metis
    moreover have none: "rr_family r \<noteq> rr_family (tx_refresh ty)" if "db_refresh (aw_db w) k = Some r" for k r
      using that ok Lock_code by (auto simp: lock_ok_def)
    moreover have "rr_family (tx_refresh tx) \<noteq> rr_family (tx_refresh ty)"
    proof (cases "tx_lock tx")
      case (Lock_code i)
      then show ?thesis using auth_invD(6) [OF inv tx ty(1)] ty(2) \<open>tx_lock ty = Lock_code h\<close> by (auto simp: starts_login_def)
    next
      case (Lock_refresh i)
      then obtain r where "db_refresh (aw_db w) i = Some r" "rr_family r = rr_family (tx_refresh tx)"
        using ok by (auto simp: lock_ok_def)
      then show ?thesis using none by metis
    qed
    ultimately have "rr_family q \<noteq> rr_family (tx_refresh ty)" if "db_refresh (aw_db w') k = Some q" for k q
      using rows(1) [OF that] by metis
    then show ?thesis using Lock_code c \<open>db_codes (aw_db w') h = Some c\<close> by (simp add: lock_ok_def)
  qed
qed

lemma finish_inv:
  assumes inv: "auth_inv w" and tx: "tx \<in> set (aw_txs w)" and free: "db_refresh (aw_db w) (tx_refresh_hash tx) = None"
    and w': "w' = w\<lparr>aw_db := apply_writes (tx_writes tx) (aw_db w), aw_txs := remove1 tx (aw_txs w)\<rparr>"
  shows "auth_inv w'"
proof (rule auth_invI)
  have db': "aw_db w' = apply_writes (tx_writes tx) (aw_db w)" and fam: "aw_families w' = aw_families w"
    and txs: "aw_txs w' = remove1 tx (aw_txs w)" by (simp_all add: w')
  note rows = finish_rows [OF db' free]
  have ok: "tx_ok w tx" by (rule auth_invD(4) [OF inv tx])
  have dist: "distinct (aw_txs w)" using auth_invD(5) [OF inv] by (simp add: distinct_map)
  show "aw_families w' (rr_family q) = Some (login_of q)" if "db_refresh (aw_db w') k = Some q" for k q
    using rows(1) [OF that] ok auth_invD(1) [OF inv, of k] unfolding fam tx_ok_def by metis
  show "\<exists>t. aw_families w' (as_family s) = Some (as_project s, as_user s, t)" if "db_sessions (aw_db w') k = Some s" for k s
    using rows(4) [OF that] ok auth_invD(2) [OF inv, of k] by (auto simp: fam tx_ok_def login_of_def)
  show "h = k" if q: "db_refresh (aw_db w') h = Some r" "db_refresh (aw_db w') k = Some q" "rr_family r = rr_family q"
      "rr_used r = None" "rr_used q = None" for h k r q
  proof -
    have old: "h = tx_refresh_hash tx \<and> r = tx_refresh tx \<or> db_refresh (aw_db w) h = Some r \<and> tx_lock tx \<noteq> Lock_refresh h"
      "k = tx_refresh_hash tx \<and> q = tx_refresh tx \<or> db_refresh (aw_db w) k = Some q \<and> tx_lock tx \<noteq> Lock_refresh k"
      using rows(1) [OF q(1)] rows(1) [OF q(2)] q(4,5) by blast+
    then show ?thesis
      using finish_family [OF inv tx] auth_invD(3) [OF inv] q(3-5) by metis
  qed
  show "tx_ok w' ty" if "ty \<in> set (aw_txs w')" for ty
  proof -
    have ty: "ty \<in> set (aw_txs w)" "ty \<noteq> tx" using that dist by (simp_all add: txs)
    then show ?thesis
      using auth_invD(4) [OF inv ty(1)] finish_lock_ok [OF inv tx free ty db'] by (simp add: tx_ok_def fam)
  qed
  show "distinct (map tx_lock (aw_txs w'))"
    using auth_invD(5) [OF inv] by (simp add: txs distinct_map inj_on_diff)
  show "ty = tz" if "ty \<in> set (aw_txs w')" "tz \<in> set (aw_txs w')" "starts_login ty" "starts_login tz"
      "rr_family (tx_refresh ty) = rr_family (tx_refresh tz)" for ty tz
  proof -
    have "ty \<in> set (aw_txs w)" "tz \<in> set (aw_txs w)" using that(1,2) dist by (simp_all add: txs)
    then show ?thesis using that(3-5) auth_invD(6) [OF inv] by blast
  qed
qed

lemma step_inv:
  assumes "auth_inv w" "auth_step sha w e w'"
  shows "auth_inv w'"
  using assms(2)
proof (cases rule: auth_step_split)
  case calm then show ?thesis using calm_inv [OF assms(1)] by blast
next
  case made then show ?thesis using calm_inv [OF assms(1)] by blast
next
  case exchange then show ?thesis using exchange_inv [OF assms(1)] by blast
next
  case refresh then show ?thesis using refresh_inv [OF assms(1)] by blast
next
  case finish then show ?thesis using finish_inv [OF assms(1)] by blast
next
  case abort then show ?thesis using abort_inv [OF assms(1)] by blast
qed

lemma fresh_inv: "auth_inv (fresh_world now)"
  by (simp add: auth_inv_def fresh_world_def empty_auth_db_def)

interpretation auth_sessions: step_invariant "\<lambda>w. \<exists>now. w = fresh_world now" "\<lambda>w w'. \<exists>e. auth_step sha w e w'" auth_inv for sha
  by unfold_locales (auto intro: fresh_inv step_inv)

lemma run_steps: "auth_run sha w evs w' \<Longrightarrow> (\<lambda>w w'. \<exists>e. auth_step sha w e w')\<^sup>*\<^sup>* w w'"
  by (induction rule: auth_run.induct) (auto intro: rtranclp.rtrancl_into_rtrancl)

lemma run_inv: "auth_run sha w evs w' \<Longrightarrow> auth_inv w \<Longrightarrow> auth_inv w'"
  by (rule auth_sessions.inv_steps [OF run_steps])

section \<open>What each code and each refresh token buys\<close>

definition event_count :: "(auth_event \<Rightarrow> bool) \<Rightarrow> auth_event list \<Rightarrow> nat" where
  "event_count p evs = length (filter p evs)"

fun exchanged_code :: "string \<Rightarrow> auth_event \<Rightarrow> bool" where
  "exchanged_code c (Exchanged d h) = (c = d)"
| "exchanged_code c e = False"

fun rotated_token :: "string \<Rightarrow> auth_event \<Rightarrow> bool" where
  "rotated_token h (Rotated k n) = (h = k)"
| "rotated_token h e = False"

fun issued_token :: "string \<Rightarrow> auth_event \<Rightarrow> bool" where
  "issued_token h (Exchanged d n) = (h = n)"
| "issued_token h (Rotated k n) = (h = n)"
| "issued_token h e = False"

definition open_code :: "string \<Rightarrow> auth_world \<Rightarrow> bool" where
  "open_code h w \<longleftrightarrow> (case db_codes (aw_db w) h of None \<Rightarrow> False | Some c \<Rightarrow> ac_used c = None)"

definition open_token :: "string \<Rightarrow> auth_world \<Rightarrow> bool" where
  "open_token h w \<longleftrightarrow> (case db_refresh (aw_db w) h of None \<Rightarrow> False | Some r \<Rightarrow> rr_used r = None)"

lemma event_count_snoc: "event_count p (evs @ [e]) = event_count p evs + (if p e then 1 else 0)"
  by (simp add: event_count_def)

text \<open>A step uses up a code, or a token, only by selling it.\<close>

lemma finish_sells:
  assumes inv: "auth_inv w" and tx: "tx \<in> set (aw_txs w)" and free: "db_refresh (aw_db w) (tx_refresh_hash tx) = None"
    and w': "w' = w\<lparr>aw_db := apply_writes (tx_writes tx) (aw_db w), aw_txs := remove1 tx (aw_txs w)\<rparr>"
  shows "open_code h w' \<Longrightarrow> open_code h w" and "tx_lock tx = Lock_code h \<Longrightarrow> open_code h w \<and> \<not> open_code h w'"
    and "open_token h w' \<Longrightarrow> open_token h w \<or> h = tx_refresh_hash tx"
    and "tx_lock tx = Lock_refresh h \<Longrightarrow> open_token h w \<and> \<not> open_token h w'"
    and "\<not> open_token (tx_refresh_hash tx) w"
proof -
  have ok: "lock_ok w tx" using auth_invD(4) [OF inv tx] by (simp add: tx_ok_def)
  show "open_code h w' \<Longrightarrow> open_code h w"
    by (cases "tx_lock tx") (auto simp: open_code_def w' finish_tables split: if_splits option.splits)
  show "tx_lock tx = Lock_code h \<Longrightarrow> open_code h w \<and> \<not> open_code h w'"
    using ok by (auto simp: open_code_def w' finish_tables lock_ok_def)
  show "open_token h w' \<Longrightarrow> open_token h w \<or> h = tx_refresh_hash tx"
    by (cases "tx_lock tx") (auto simp: open_token_def w' finish_tables split: if_splits option.splits)
  show "tx_lock tx = Lock_refresh h \<Longrightarrow> open_token h w \<and> \<not> open_token h w'"
    using ok free by (auto simp: open_token_def w' finish_tables lock_ok_def)
  show "\<not> open_token (tx_refresh_hash tx) w" using free by (simp add: open_token_def)
qed

lemma open_token_iff: "open_token h w \<longleftrightarrow> (\<exists>r. db_refresh (aw_db w) h = Some r \<and> rr_used r = None)"
  by (auto simp: open_token_def split: option.splits)

lemma calm_open_token:
  assumes "calm w w'" "open_token h w'"
  shows "open_token h w"
proof -
  obtain r where "db_refresh (aw_db w') h = Some r" "rr_used r = None" using assms(2) by (auto simp: open_token_iff)
  moreover from this obtain r0 where "db_refresh (aw_db w) h = Some r0" "same_login r0 r"
    using assms(1) unfolding calm_def tame_def by blast
  ultimately show ?thesis using same_loginD(2) by (metis open_token_iff)
qed

definition sold_once :: "string \<Rightarrow> auth_event list \<Rightarrow> auth_world \<Rightarrow> bool" where
  "sold_once h evs w \<longleftrightarrow>
     event_count (exchanged_code h) evs + (if open_code h w then 1 else 0) \<le> event_count (\<lambda>e. e = Code_made h) evs
   \<and> event_count (rotated_token h) evs + (if open_token h w then 1 else 0) \<le> event_count (issued_token h) evs"

lemma sold_once_step:
  assumes "sold_once h evs w" "auth_inv w" "auth_step sha w e w'"
  shows "sold_once h (evs @ [e]) w'"
  using assms(3)
proof (cases rule: auth_step_split)
  case calm
  then have "open_code h w' \<Longrightarrow> open_code h w" by (auto simp: open_code_def codes_shrink_def split: option.splits)
  moreover have "open_token h w' \<Longrightarrow> open_token h w" using calm calm_open_token by blast
  ultimately show ?thesis using assms(1) calm(2) by (auto simp: sold_once_def event_count_snoc)
next
  case (made db' r io bytes t user)
  have "open_token h w' \<Longrightarrow> open_token h w" using made calm_open_token by blast
  moreover have "open_code h w' \<Longrightarrow> open_code h w \<or> e = Code_made h"
    using createAppAuthCode_codes(3) [OF made(1), of h] made(2,4) by (auto simp: open_code_def split: option.splits)
  ultimately show ?thesis using assms(1) made(4) by (auto simp: sold_once_def event_count_snoc split: if_splits)
next
  case exchange
  then show ?thesis using assms(1) by (auto simp: sold_once_def event_count_snoc open_code_def open_token_def)
next
  case refresh
  then show ?thesis using assms(1) by (auto simp: sold_once_def event_count_snoc open_code_def open_token_def)
next
  case (finish tx)
  note s = finish_sells [OF assms(2) finish(1,3,5)]
  show ?thesis
    using assms(1) finish(4) s(1-4) [of h] s(5)
    by (cases "tx_lock tx"; cases "h = tx_refresh_hash tx") (auto simp: sold_once_def event_count_snoc split: if_splits)
next
  case abort
  then show ?thesis using assms(1) by (auto simp: sold_once_def event_count_snoc open_code_def open_token_def)
qed

lemma run_sold_once:
  assumes "auth_run sha w evs w'" "w = fresh_world now"
  shows "sold_once h evs w'"
  using assms
proof (induction rule: auth_run.induct)
  case (start w)
  then show ?case by (simp add: sold_once_def event_count_def fresh_world_def empty_auth_db_def open_code_def open_token_def)
next
  case (more w evs v e v')
  then show ?case using sold_once_step run_inv fresh_inv by blast
qed

section \<open>The end of a login\<close>

text \<open>No row of the login is accepted, and no open transaction is about to add one.\<close>

definition login_ended :: "string \<Rightarrow> auth_world \<Rightarrow> bool" where
  "login_ended f w \<longleftrightarrow> aw_families w f \<noteq> None
     \<and> (\<forall>h s. db_sessions (aw_db w) h = Some s \<and> as_family s = f \<longrightarrow> as_revoked s \<noteq> None)
     \<and> (\<forall>h r. db_refresh (aw_db w) h = Some r \<and> rr_family r = f \<longrightarrow> rr_revoked r \<noteq> None)
     \<and> (\<forall>tx \<in> set (aw_txs w). rr_family (tx_refresh tx) \<noteq> f)"

lemma login_endedD:
  assumes "login_ended f w"
  shows "aw_families w f \<noteq> None" "db_sessions (aw_db w) h = Some s \<Longrightarrow> as_family s = f \<Longrightarrow> as_revoked s \<noteq> None"
    and "db_refresh (aw_db w) h = Some r \<Longrightarrow> rr_family r = f \<Longrightarrow> rr_revoked r \<noteq> None"
    and "tx \<in> set (aw_txs w) \<Longrightarrow> rr_family (tx_refresh tx) \<noteq> f"
  using assms unfolding login_ended_def by blast+

lemma login_endedI:
  assumes "aw_families w f \<noteq> None" "\<And>h s. db_sessions (aw_db w) h = Some s \<Longrightarrow> as_family s = f \<Longrightarrow> as_revoked s \<noteq> None"
    and "\<And>h r. db_refresh (aw_db w) h = Some r \<Longrightarrow> rr_family r = f \<Longrightarrow> rr_revoked r \<noteq> None"
    and "\<And>tx. tx \<in> set (aw_txs w) \<Longrightarrow> rr_family (tx_refresh tx) \<noteq> f"
  shows "login_ended f w"
  unfolding login_ended_def by (intro conjI allI impI ballI) (use assms in blast)+

lemma login_ended_calm:
  assumes "login_ended f w" "calm w w'"
  shows "login_ended f w'"
proof (rule login_endedI)
  have t: "tame (aw_db w) (aw_db w')" and same: "aw_txs w' = aw_txs w" "aw_families w' = aw_families w"
    using assms(2) by (simp_all add: calm_def)
  show "aw_families w' f \<noteq> None" using login_endedD(1) [OF assms(1)] same by simp
  show "rr_family (tx_refresh tx) \<noteq> f" if "tx \<in> set (aw_txs w')" for tx
    using login_endedD(4) [OF assms(1)] that same by simp
  show "as_revoked s' \<noteq> None" if row: "db_sessions (aw_db w') h = Some s'" "as_family s' = f" for h s'
  proof -
    obtain s where "db_sessions (aw_db w) h = Some s" "same_session s s'" using t row(1) unfolding tame_def by blast
    then show ?thesis using login_endedD(2) [OF assms(1)] row(2) unfolding same_session_def by metis
  qed
  show "rr_revoked r' \<noteq> None" if row: "db_refresh (aw_db w') h = Some r'" "rr_family r' = f" for h r'
  proof -
    obtain r where "db_refresh (aw_db w) h = Some r" "same_login r r'" using t row(1) unfolding tame_def by blast
    then show ?thesis using login_endedD(3) [OF assms(1)] row(2) unfolding same_login_def by metis
  qed
qed

lemma login_ended_step:
  assumes ended: "login_ended f w" and inv: "auth_inv w" and step: "auth_step sha w e w'"
  shows "login_ended f w'"
  using step
proof (cases rule: auth_step_split)
  case calm then show ?thesis using login_ended_calm [OF ended] by blast
next
  case made then show ?thesis using login_ended_calm [OF ended] by blast
next
  case (exchange rnd project code verifier redirect tx g u)
  have "sg_family g \<noteq> f" using exchange(4) login_endedD(1) [OF ended] by auto
  moreover have "rr_family (tx_refresh tx) = sg_family g" using exchange_tx(3) [OF exchange(1,2)] .
  ultimately have "\<forall>ty \<in> set (aw_txs w'). rr_family (tx_refresh ty) \<noteq> f"
    using login_endedD(4) [OF ended] exchange(6) by auto
  then show ?thesis
    using login_endedD(1-3) [OF ended] exchange(6) by (intro login_endedI) (simp_all, blast)
next
  case (refresh rnd project token tx g u)
  obtain r where "db_refresh (aw_db w) (sha256Hex sha token) = Some r" "rr_revoked r = None"
      "rr_family (tx_refresh tx) = rr_family r"
    using refresh_tx(1) [OF refresh(1,2)] by blast
  then have "rr_family (tx_refresh tx) \<noteq> f" using login_endedD(3) [OF ended] by metis
  then have "\<forall>ty \<in> set (aw_txs w'). rr_family (tx_refresh ty) \<noteq> f"
    using login_endedD(4) [OF ended] refresh(5) by auto
  then show ?thesis using login_endedD(1-3) [OF ended] refresh(5) by (intro login_endedI) (simp_all, blast)
next
  case (finish tx)
  note rows = finish_rows [OF refl finish(3)]
  have tx: "rr_family (tx_refresh tx) \<noteq> f" "as_family (tx_session tx) \<noteq> f"
    using login_endedD(4) [OF ended finish(1)] auth_invD(4) [OF inv finish(1)] by (auto simp: tx_ok_def)
  show ?thesis
  proof (rule login_endedI)
    show "aw_families w' f \<noteq> None" using login_endedD(1) [OF ended] finish(5) by simp
    show "rr_family (tx_refresh ty) \<noteq> f" if "ty \<in> set (aw_txs w')" for ty
      using that login_endedD(4) [OF ended] finish(5) by (auto dest: notin_set_remove1)
    show "as_revoked s \<noteq> None" if "db_sessions (aw_db w') h = Some s" "as_family s = f" for h s
      using rows(4) [of h s] that tx login_endedD(2) [OF ended, of h s] finish(5) by auto
    show "rr_revoked r \<noteq> None" if "db_refresh (aw_db w') h = Some r" "rr_family r = f" for h r
    proof -
      have "db_refresh (apply_writes (tx_writes tx) (aw_db w)) h = Some r" using that(1) finish(5) by simp
      from rows(1) [OF this] show ?thesis using that(2) tx login_endedD(3) [OF ended] by metis
    qed
  qed
next
  case (abort tx)
  then have "\<forall>ty \<in> set (aw_txs w'). rr_family (tx_refresh ty) \<noteq> f"
    using login_endedD(4) [OF ended] by (auto dest: notin_set_remove1)
  then show ?thesis using login_endedD(1-3) [OF ended] abort(2) by (intro login_endedI) simp_all
qed

lemma login_ended_run:
  assumes "auth_run sha w evs w'" "auth_inv w" "login_ended f w"
  shows "login_ended f w'"
  using assms by (induction rule: auth_run.induct) (auto intro: login_ended_step run_inv)

text \<open>A logout that no refresh of the login overlaps ends it.\<close>

lemma revoke_user_rows:
  "db_sessions (revoke_refresh q now (revoke_sessions p now db)) h = Some s \<Longrightarrow>
     \<exists>s0. db_sessions db h = Some s0 \<and> s = (if p s0 then s0\<lparr>as_revoked := Some (case as_revoked s0 of None \<Rightarrow> now | Some t \<Rightarrow> t)\<rparr> else s0)"
  "db_refresh (revoke_refresh q now (revoke_sessions p now db)) h = Some r \<Longrightarrow>
     \<exists>r0. db_refresh db h = Some r0 \<and> r = (if q r0 then r0\<lparr>rr_revoked := Some (case rr_revoked r0 of None \<Rightarrow> now | Some t \<Rightarrow> t)\<rparr> else r0)"
  by (simp_all add: revoke_refresh_def revoke_sessions_def update_rows_Some)

lemma revoke_calm:
  assumes "db' = revoke_refresh q now (revoke_sessions p now (aw_db w))"
  shows "calm w (w\<lparr>aw_db := db'\<rparr>)"
proof -
  have "tame (aw_db w) db'"
    unfolding tame_def
  proof (intro conjI allI impI)
    fix h r' assume "db_refresh db' h = Some r'"
    from revoke_user_rows(2) [OF this [unfolded assms]] show "\<exists>r. db_refresh (aw_db w) h = Some r \<and> same_login r r'"
      by (auto simp: same_login_def)
  next
    fix h s' assume "db_sessions db' h = Some s'"
    from revoke_user_rows(1) [OF this [unfolded assms]] show "\<exists>s. db_sessions (aw_db w) h = Some s \<and> same_session s s'"
      by (auto simp: same_session_def)
  qed (simp add: assms revoke_refresh_def revoke_sessions_def)
  moreover have "db_codes db' = db_codes (aw_db w)" "dom (db_refresh db') = dom (db_refresh (aw_db w))"
    by (auto simp: assms revoke_refresh_def revoke_sessions_def dom_def)
  ultimately show ?thesis by (simp add: calm_def)
qed

lemma find_login_row:
  assumes "find_login sha io access token db = Ok (Some (f, p, u))"
  shows "(\<exists>h s. db_sessions db h = Some s \<and> as_family s = f \<and> as_project s = p \<and> as_user s = u)
    \<or> (\<exists>h r. db_refresh db h = Some r \<and> rr_family r = f \<and> rr_project r = p \<and> rr_user r = u)"
  using assms by (auto simp: find_login_def Let_def split: if_splits)

lemma revokeAppAuthSession_ok:
  assumes "revokeAppAuthSession sha io now access token all_logins db = (db', Ok (), closed)"
    and "find_login sha io access token db = Ok (Some (f, p, u))" and "f \<noteq> ''''"
  shows "db' = (if all_logins then revoke_refresh (\<lambda>r. rr_project r = p \<and> rr_user r = u) now
        (revoke_sessions (\<lambda>s. as_project s = p \<and> as_user s = u) now db) else revoke_family now f db)"
    and "closed = (if all_logins then Close_user p u else if access \<noteq> '''' then Close_token access else Close_nothing)"
  using assms
  by (auto simp: revokeAppAuthSession_def Let_def tx_commit_def split: if_splits io_end.splits)

text \<open>Every row of a login is in the scope of the logout, by project and user too.\<close>

lemma logout_revokes_rows:
  assumes inv: "auth_inv w"
    and out: "revokeAppAuthSession sha io (aw_now w) access token all_logins (aw_db w) = (db', Ok (), closed)"
    and login: "find_login sha io access token (aw_db w) = Ok (Some (f, p, u))" "f \<noteq> ''''"
  shows "aw_families w f \<noteq> None" and "calm w (w\<lparr>aw_db := db'\<rparr>)"
    and "db_sessions db' h = Some s \<Longrightarrow> as_family s = f \<Longrightarrow> as_revoked s \<noteq> None"
    and "db_refresh db' h = Some r \<Longrightarrow> rr_family r = f \<Longrightarrow> rr_revoked r \<noteq> None"
proof -
  obtain t where t: "aw_families w f = Some (p, u, t)"
    using find_login_row [OF login(1)] auth_invD(1,2) [OF inv] by (auto simp: login_of_def) metis+
  then show "aw_families w f \<noteq> None" by simp
  note db' = revokeAppAuthSession_ok(1) [OF out login]
  show "calm w (w\<lparr>aw_db := db'\<rparr>)"
    by (cases all_logins) (use db' revoke_calm in \<open>simp_all add: revoke_family_def\<close>)
  show "as_revoked s \<noteq> None" if s: "db_sessions db' h = Some s" "as_family s = f"
  proof (cases all_logins)
    case True
    then have "db' = revoke_refresh (\<lambda>r. rr_project r = p \<and> rr_user r = u) (aw_now w)
        (revoke_sessions (\<lambda>s. as_project s = p \<and> as_user s = u) (aw_now w) (aw_db w))" using db' by simp
    from revoke_user_rows(1) [OF s(1) [unfolded this]] obtain s0 where s0: "db_sessions (aw_db w) h = Some s0"
      "s = (if as_project s0 = p \<and> as_user s0 = u
            then s0\<lparr>as_revoked := Some (case as_revoked s0 of None \<Rightarrow> aw_now w | Some t \<Rightarrow> t)\<rparr> else s0)" by blast
    then have "as_family s0 = f" using s(2) by (simp split: if_splits)
    then have "as_project s0 = p \<and> as_user s0 = u" using auth_invD(2) [OF inv s0(1)] t by auto
    then show ?thesis using s0(2) by simp
  next
    case False
    then show ?thesis using db' s revoke_family_rows(1) by metis
  qed
  show "rr_revoked r \<noteq> None" if r: "db_refresh db' h = Some r" "rr_family r = f"
  proof (cases all_logins)
    case True
    then have "db' = revoke_refresh (\<lambda>r. rr_project r = p \<and> rr_user r = u) (aw_now w)
        (revoke_sessions (\<lambda>s. as_project s = p \<and> as_user s = u) (aw_now w) (aw_db w))" using db' by simp
    from revoke_user_rows(2) [OF r(1) [unfolded this]] obtain r0 where r0: "db_refresh (aw_db w) h = Some r0"
      "r = (if rr_project r0 = p \<and> rr_user r0 = u
            then r0\<lparr>rr_revoked := Some (case rr_revoked r0 of None \<Rightarrow> aw_now w | Some t \<Rightarrow> t)\<rparr> else r0)" by blast
    then have "rr_family r0 = f" using r(2) by (simp split: if_splits)
    then have "rr_project r0 = p \<and> rr_user r0 = u" using auth_invD(1) [OF inv r0(1)] t by (simp add: login_of_def)
    then show ?thesis using r0(2) by simp
  next
    case False
    then show ?thesis using db' r revoke_family_rows(2) by metis
  qed
qed

lemma ended_refused:
  assumes "login_ended f w"
  shows "db_sessions (aw_db w) (sha256Hex sha tk) = Some s \<Longrightarrow> as_family s = f
      \<Longrightarrow> \<exists>e. loadAppSessionIdentity sha io t tk (aw_db w) = (aw_db w, Err e)"
    and "db_refresh (aw_db w) (sha256Hex sha tk) = Some r \<Longrightarrow> rr_family r = f
      \<Longrightarrow> \<exists>e. refreshAppSession sha io t rnd project tk (aw_db w) = (aw_db w, Err e, None)"
proof -
  assume s: "db_sessions (aw_db w) (sha256Hex sha tk) = Some s" "as_family s = f"
  then have "session_accepted t (sha256Hex sha tk) (aw_db w) = None"
    using login_endedD(2) [OF assms] by (intro revoked_not_accepted) auto
  then show "\<exists>e. loadAppSessionIdentity sha io t tk (aw_db w) = (aw_db w, Err e)"
    by (simp add: loadAppSessionIdentity_def)
next
  assume "db_refresh (aw_db w) (sha256Hex sha tk) = Some r" "rr_family r = f"
  then have "\<exists>e. open_refresh sha io t rnd project tk (aw_db w) = Err e"
    using login_endedD(3) [OF assms] by (intro open_refresh_refused) auto
  then show "\<exists>e. refreshAppSession sha io t rnd project tk (aw_db w) = (aw_db w, Err e, None)"
    using refresh_refused_keeps by blast
qed

section \<open>One login\<close>

definition demo_sha :: "string \<Rightarrow> string" where "demo_sha s = s"

definition demo_identity :: google_identity where
  "demo_identity = \<lparr>gi_subject = ''s'', gi_email = ''ann@x'', gi_verified = True, gi_name = ''Ann'', gi_picture = ''''\<rparr>"

definition demo_transaction :: auth_transaction where
  "demo_transaction = \<lparr>at_project = ''p'', at_redirect = ''r'', at_state = ''state'', at_challenge = pkceChallenge demo_sha ''v'',
     at_nonce = ''n'', at_google_redirect = ''g'', at_expires = 0\<rparr>"

definition demo_random :: "string \<Rightarrow> auth_random" where
  "demo_random x = \<lparr>rd_family = x, rd_access_id = x, rd_access_secret = x, rd_refresh_id = x, rd_refresh_secret = x\<rparr>"

definition demo_access :: "string \<Rightarrow> string" where "demo_access x = newAppAuthToken ''session'' x x"
definition demo_refresh :: "string \<Rightarrow> string" where "demo_refresh x = newAppAuthToken ''refresh'' x x"
definition demo_code :: string where "demo_code = randomID ''authcode'' ''c''"
definition demo_user :: string where "demo_user = randomID ''user'' ''u''"
definition demo_family :: string where "demo_family = randomID ''family'' ''1''"

text \<open>A transaction that inserts the tokens drawn as \<open>x\<close> in the family.\<close>

definition demo_tx :: "auth_lock \<Rightarrow> string \<Rightarrow> auth_tx" where
  "demo_tx l x = \<lparr>tx_lock = l, tx_at = 0, tx_session_hash = sha256Hex demo_sha (demo_access x),
     tx_session = \<lparr>as_project = ''p'', as_user = demo_user, as_family = demo_family, as_expires = appSessionTTL,
       as_revoked = None, as_seen = None\<rparr>,
     tx_refresh_hash = sha256Hex demo_sha (demo_refresh x),
     tx_refresh = \<lparr>rr_family = demo_family, rr_project = ''p'', rr_user = demo_user, rr_expires = appRefreshSessionTTL,
       rr_used = None, rr_revoked = None\<rparr>\<rparr>"

definition demo_tx1 :: auth_tx where "demo_tx1 = demo_tx (Lock_code (sha256Hex demo_sha demo_code)) ''1''"
definition demo_tx2 :: auth_tx where "demo_tx2 = demo_tx (Lock_refresh (sha256Hex demo_sha (demo_refresh ''1''))) ''2''"

definition demo_w1 :: auth_world where
  "demo_w1 = (fresh_world 0)\<lparr>aw_db := fst (upsertAppAuthUser (\<lambda>_. Done) 0 ''u'' ''p'' demo_identity empty_auth_db)\<rparr>"

definition demo_w2 :: auth_world where
  "demo_w2 = demo_w1\<lparr>aw_db := fst (createAppAuthCode demo_sha (\<lambda>_. Done) 0 ''c'' demo_transaction demo_user (aw_db demo_w1))\<rparr>"

definition demo_w3 :: auth_world where
  "demo_w3 = demo_w2\<lparr>aw_txs := [demo_tx1], aw_families := [demo_family \<mapsto> (''p'', demo_user, appRefreshSessionTTL)]\<rparr>"

definition demo_w4 :: auth_world where
  "demo_w4 = demo_w3\<lparr>aw_db := apply_writes (tx_writes demo_tx1) (aw_db demo_w3), aw_txs := []\<rparr>"

definition demo_w5 :: auth_world where
  "demo_w5 = demo_w4\<lparr>aw_txs := [demo_tx2]\<rparr>"

definition demo_w6 :: auth_world where
  "demo_w6 = demo_w5\<lparr>aw_db := apply_writes (tx_writes demo_tx2) (aw_db demo_w5), aw_txs := []\<rparr>"

lemma demo_exchange:
  "open_exchange demo_sha (\<lambda>_. Done) 0 (demo_random ''1'') ''p'' demo_code ''v'' ''r'' (aw_db demo_w2)
     = Ok (tx_writes demo_tx1, \<lparr>sg_access = demo_access ''1'', sg_access_expires = appSessionTTL, sg_refresh = demo_refresh ''1'',
        sg_refresh_expires = appRefreshSessionTTL, sg_family = demo_family\<rparr>, hd (db_users (aw_db demo_w2)))"
  by code_simp

lemma demo_rotation:
  "open_refresh demo_sha (\<lambda>_. Done) 0 (demo_random ''2'') ''p'' (demo_refresh ''1'') (aw_db demo_w4)
     = Ok (Rotate (tx_writes demo_tx2) \<lparr>sg_access = demo_access ''2'', sg_access_expires = appSessionTTL, sg_refresh = demo_refresh ''2'',
        sg_refresh_expires = appRefreshSessionTTL, sg_family = demo_family\<rparr> (hd (db_users (aw_db demo_w4))))"
  by code_simp

lemma demo_parts:
  "aw_now demo_w1 = 0" "aw_txs demo_w1 = []" "aw_families demo_w1 = Map.empty"
  "aw_now demo_w2 = 0" "aw_txs demo_w2 = []" "aw_families demo_w2 = Map.empty"
  "aw_now demo_w3 = 0" "aw_txs demo_w3 = [demo_tx1]" "aw_db demo_w3 = aw_db demo_w2"
  "aw_now demo_w4 = 0" "aw_txs demo_w4 = []" "aw_now demo_w5 = 0" "aw_txs demo_w5 = [demo_tx2]" "aw_db demo_w5 = aw_db demo_w4"
  by (simp_all add: demo_w1_def demo_w2_def demo_w3_def demo_w4_def demo_w5_def fresh_world_def)

lemma demo_sign_up: "auth_step demo_sha (fresh_world 0) Quiet demo_w1"
  unfolding demo_w1_def
  by (rule auth_step.sign_up [where io = "\<lambda>_. Done" and bytes = "''u''" and project = "''p''" and gi = demo_identity
      and r = "snd (upsertAppAuthUser (\<lambda>_. Done) 0 ''u'' ''p'' demo_identity empty_auth_db)"])
    (simp add: fresh_world_def)

lemma demo_made:
  "createAppAuthCode demo_sha (\<lambda>_. Done) 0 ''c'' demo_transaction demo_user (aw_db demo_w1) = (aw_db demo_w2, Ok demo_code)"
proof -
  have "snd (createAppAuthCode demo_sha (\<lambda>_. Done) 0 ''c'' demo_transaction demo_user (aw_db demo_w1)) = Ok demo_code"
    by code_simp
  then show ?thesis by (simp add: demo_w2_def prod_eq_iff)
qed

lemma demo_w2_step: "demo_w1\<lparr>aw_db := aw_db demo_w2\<rparr> = demo_w2"
  by (simp add: demo_w2_def)

lemma demo_make_code: "auth_step demo_sha demo_w1 (Code_made (sha256Hex demo_sha demo_code)) demo_w2"
proof -
  have "createAppAuthCode demo_sha (\<lambda>_. Done) (aw_now demo_w1) ''c'' demo_transaction demo_user (aw_db demo_w1)
      = (aw_db demo_w2, Ok demo_code)" using demo_made by (simp only: demo_parts)
  moreover have "locks_kept (aw_txs demo_w1) (aw_db demo_w2)" by (simp add: locks_kept_def demo_parts)
  ultimately show ?thesis
    using auth_step.make_code [of demo_sha "\<lambda>_. Done" demo_w1 "''c''" demo_transaction demo_user "aw_db demo_w2" "Ok demo_code"]
    unfolding demo_code_def demo_w2_step by simp
qed

lemma demo_open: "auth_step demo_sha demo_w2 Quiet demo_w3"
proof -
  have "au_id (hd (db_users (aw_db demo_w2))) = demo_user" by code_simp
  then show ?thesis
    using auth_step.exchange [of demo_sha demo_w2 "demo_random ''1''" "''p''" demo_code "''v''" "''r''" demo_tx1] demo_exchange
    by (simp add: demo_parts demo_tx1_def demo_tx_def) (simp add: demo_w3_def demo_tx1_def demo_tx_def)
qed

lemma demo_no_rows: "db_sessions (aw_db demo_w2) = Map.empty" "db_refresh (aw_db demo_w2) = Map.empty"
  using createAppAuthCode_codes(1,2) [OF demo_made]
  by (simp_all add: demo_w1_def fresh_world_def upsertAppAuthUser_def empty_auth_db_def Let_def tx_commit_def)

lemma demo_commit:
  "auth_step demo_sha demo_w3 (Exchanged (sha256Hex demo_sha demo_code) (sha256Hex demo_sha (demo_refresh ''1''))) demo_w4"
  using auth_step.finish [of demo_tx1 demo_w3 demo_sha]
  by (simp add: demo_parts demo_no_rows) (simp add: demo_w4_def demo_tx1_def demo_tx_def demo_parts)

lemma demo_sign_in:
  "auth_run demo_sha (fresh_world 0) [Quiet, Code_made (sha256Hex demo_sha demo_code), Quiet,
     Exchanged (sha256Hex demo_sha demo_code) (sha256Hex demo_sha (demo_refresh ''1''))] demo_w4"
  using auth_run.more [OF auth_run.more [OF auth_run.more [OF auth_run.more [OF auth_run.start demo_sign_up]
    demo_make_code] demo_open] demo_commit] by simp

lemma demo_refresh_open: "auth_step demo_sha demo_w4 Quiet demo_w5"
  using auth_step.refresh [of demo_sha demo_w4 "demo_random ''2''" "''p''" "demo_refresh ''1''" demo_tx2] demo_rotation
  by (simp add: demo_parts demo_tx2_def demo_tx_def) (simp add: demo_w5_def demo_tx2_def demo_tx_def)

lemma demo_free: "db_sessions (aw_db demo_w4) (tx_session_hash demo_tx2) = None" "db_refresh (aw_db demo_w4) (tx_refresh_hash demo_tx2) = None"
  by code_simp+

lemma demo_refresh_commit:
  "auth_step demo_sha demo_w5 (Rotated (sha256Hex demo_sha (demo_refresh ''1'')) (sha256Hex demo_sha (demo_refresh ''2''))) demo_w6"
  using auth_step.finish [of demo_tx2 demo_w5 demo_sha] demo_free
  by (simp add: demo_parts) (simp add: demo_w6_def demo_tx2_def demo_tx_def demo_parts)

lemma demo_rotated:
  "auth_run demo_sha (fresh_world 0) [Quiet, Code_made (sha256Hex demo_sha demo_code), Quiet,
     Exchanged (sha256Hex demo_sha demo_code) (sha256Hex demo_sha (demo_refresh ''1'')), Quiet,
     Rotated (sha256Hex demo_sha (demo_refresh ''1'')) (sha256Hex demo_sha (demo_refresh ''2''))] demo_w6"
  using auth_run.more [OF auth_run.more [OF demo_sign_in demo_refresh_open] demo_refresh_commit] by simp

section \<open>A logout that a refresh overlaps\<close>

lemma auth_run_append: "auth_run sha v evs' w \<Longrightarrow> auth_run sha u evs v \<Longrightarrow> auth_run sha u (evs @ evs') w"
  by (induction rule: auth_run.induct) (auto simp flip: append_assoc intro: auth_run.intros)

text \<open>The tables of the run.\<close>

lemma demo_fields:
  "tx_lock demo_tx1 = Lock_code (sha256Hex demo_sha demo_code)"
  "tx_session_hash demo_tx1 = sha256Hex demo_sha (demo_access ''1'')" "tx_refresh_hash demo_tx1 = sha256Hex demo_sha (demo_refresh ''1'')"
  "tx_lock demo_tx2 = Lock_refresh (sha256Hex demo_sha (demo_refresh ''1''))"
  "tx_session_hash demo_tx2 = sha256Hex demo_sha (demo_access ''2'')" "tx_refresh_hash demo_tx2 = sha256Hex demo_sha (demo_refresh ''2'')"
  "as_family (tx_session demo_tx1) = demo_family" "as_user (tx_session demo_tx1) = demo_user" "as_project (tx_session demo_tx1) = ''p''"
  "as_revoked (tx_session demo_tx1) = None" "as_expires (tx_session demo_tx1) = appSessionTTL"
  "tx_session demo_tx2 = tx_session demo_tx1" "tx_refresh demo_tx2 = tx_refresh demo_tx1"
  "rr_family (tx_refresh demo_tx1) = demo_family" "rr_user (tx_refresh demo_tx1) = demo_user" "rr_project (tx_refresh demo_tx1) = ''p''"
  "rr_used (tx_refresh demo_tx1) = None" "rr_revoked (tx_refresh demo_tx1) = None" "rr_expires (tx_refresh demo_tx1) = appRefreshSessionTTL"
  by (simp_all add: demo_tx1_def demo_tx2_def demo_tx_def)

lemma demo_hashes:
  "sha256Hex demo_sha (demo_access ''1'') \<noteq> sha256Hex demo_sha (demo_access ''2'')"
  "sha256Hex demo_sha (demo_access ''2'') \<noteq> sha256Hex demo_sha (demo_access ''1'')"
  "sha256Hex demo_sha (demo_refresh ''1'') \<noteq> sha256Hex demo_sha (demo_refresh ''2'')"
  "sha256Hex demo_sha (demo_refresh ''2'') \<noteq> sha256Hex demo_sha (demo_refresh ''1'')"
  by code_simp+

lemma demo_tables:
  "db_sessions (aw_db demo_w5) = [sha256Hex demo_sha (demo_access ''1'') \<mapsto> tx_session demo_tx1]"
  "db_refresh (aw_db demo_w5) = [sha256Hex demo_sha (demo_refresh ''1'') \<mapsto> tx_refresh demo_tx1]"
  "db_sessions (apply_writes (tx_writes demo_tx2) (aw_db demo_w5)) = [sha256Hex demo_sha (demo_access ''1'') \<mapsto> tx_session demo_tx1,
     sha256Hex demo_sha (demo_access ''2'') \<mapsto> tx_session demo_tx1]"
  "db_refresh (apply_writes (tx_writes demo_tx2) (aw_db demo_w5)) =
     [sha256Hex demo_sha (demo_refresh ''1'') \<mapsto> (tx_refresh demo_tx1)\<lparr>rr_used := Some (tx_at demo_tx2)\<rparr>,
      sha256Hex demo_sha (demo_refresh ''2'') \<mapsto> tx_refresh demo_tx1]"
  by (simp_all add: demo_parts finish_tables demo_w4_def demo_no_rows demo_fields)

lemma demo_users:
  "db_users (aw_db demo_w5) = db_users (aw_db demo_w2)"
  "db_users (apply_writes (tx_writes demo_tx2) (aw_db demo_w5)) = db_users (aw_db demo_w2)"
  by (simp_all add: demo_parts demo_w4_def apply_writes_def tx_writes_def demo_fields)

definition demo_rv :: revoker where
  "demo_rv = \<lparr>rv_scope = Family_scope demo_family, rv_sessions = Some (db_sessions (aw_db demo_w5)),
     rv_refresh = Some (db_refresh (aw_db demo_w5))\<rparr>"

definition demo_l3 :: auth_world where "demo_l3 = demo_w5\<lparr>aw_revokers := [demo_rv]\<rparr>"
definition demo_l4 :: auth_world where
  "demo_l4 = demo_l3\<lparr>aw_db := apply_writes (tx_writes demo_tx2) (aw_db demo_w5), aw_txs := []\<rparr>"
definition demo_l5 :: auth_world where
  "demo_l5 = demo_l4\<lparr>aw_db := revoke_found (Family_scope demo_family) 0 (db_sessions (aw_db demo_w5))
     (db_refresh (aw_db demo_w5)) (aw_db demo_l4), aw_revokers := []\<rparr>"

lemma demo_no_revokers: "aw_revokers demo_w5 = []"
  by (simp add: demo_w5_def demo_w4_def demo_w3_def demo_w2_def demo_w1_def fresh_world_def)

lemma demo_logout:
  "auth_run demo_sha demo_w5 [Quiet, Quiet, Quiet] demo_l3"
proof -
  let ?r = "\<lparr>rv_scope = Family_scope demo_family, rv_sessions = None, rv_refresh = None\<rparr>"
  let ?s = "?r\<lparr>rv_sessions := Some (db_sessions (aw_db demo_w5))\<rparr>"
  have "find_login demo_sha (\<lambda>_. Done) (demo_access ''1'') '''' (aw_db demo_w5) = Ok (Some (demo_family, ''p'', demo_user))"
    by code_simp
  moreover have "logout_scope demo_sha (demo_access ''1'') False (demo_family, ''p'', demo_user) = Family_scope demo_family"
    by code_simp
  ultimately have 1: "auth_step demo_sha demo_w5 Quiet (demo_w5\<lparr>aw_revokers := [?r]\<rparr>)"
    using auth_step.logout [of demo_sha "demo_access ''1''" "''''" demo_w5 "(demo_family, ''p'', demo_user)" False]
    by (simp add: demo_no_revokers)
  have 2: "auth_step demo_sha (demo_w5\<lparr>aw_revokers := [?r]\<rparr>) Quiet (demo_w5\<lparr>aw_revokers := [?s]\<rparr>)"
    using auth_step.find_sessions [of ?r "demo_w5\<lparr>aw_revokers := [?r]\<rparr>" demo_sha] by simp
  have 3: "auth_step demo_sha (demo_w5\<lparr>aw_revokers := [?s]\<rparr>) Quiet demo_l3"
    using auth_step.find_refresh [of ?s "demo_w5\<lparr>aw_revokers := [?s]\<rparr>" "db_sessions (aw_db demo_w5)" demo_sha]
    by (simp add: demo_l3_def demo_rv_def)
  show ?thesis using auth_run.more [OF auth_run.more [OF auth_run.more [OF auth_run.start 1] 2] 3] by simp
qed

lemma demo_overtaken:
  "auth_run demo_sha demo_l3 [Rotated (sha256Hex demo_sha (demo_refresh ''1'')) (sha256Hex demo_sha (demo_refresh ''2'')), Quiet] demo_l5"
proof -
  have 1: "auth_step demo_sha demo_l3 (Rotated (sha256Hex demo_sha (demo_refresh ''1'')) (sha256Hex demo_sha (demo_refresh ''2''))) demo_l4"
    using auth_step.finish [of demo_tx2 demo_l3 demo_sha] demo_free
    by (simp add: demo_l3_def demo_parts) (simp add: demo_l4_def demo_l3_def demo_tx2_def demo_tx_def demo_parts)
  have 2: "auth_step demo_sha demo_l4 Quiet demo_l5"
    using auth_step.revoke [of demo_rv demo_l4 "db_sessions (aw_db demo_w5)" "db_refresh (aw_db demo_w5)" demo_sha]
    by (simp add: demo_l4_def demo_l3_def demo_rv_def demo_parts found_locked_def demo_l5_def)
  show ?thesis using auth_run.more [OF auth_run.more [OF auth_run.start 1] 2] by simp
qed

text \<open>
  The logout has committed, the token it was called with is refused, and the session and the
  refresh token that the overlapping refresh inserted are still accepted.
\<close>

lemma overlapping_logout_misses:
  "auth_run demo_sha demo_w5 [Quiet, Quiet, Quiet,
       Rotated (sha256Hex demo_sha (demo_refresh ''1'')) (sha256Hex demo_sha (demo_refresh ''2'')), Quiet] demo_l5
   \<and> aw_txs demo_l5 = [] \<and> aw_revokers demo_l5 = []
   \<and> session_accepted 0 (sha256Hex demo_sha (demo_access ''1'')) (aw_db demo_l5) = None
   \<and> session_accepted 0 (sha256Hex demo_sha (demo_access ''2'')) (aw_db demo_l5) \<noteq> None
   \<and> map_option (\<lambda>r. (rr_used r, rr_revoked r)) (db_refresh (aw_db demo_l5) (sha256Hex demo_sha (demo_refresh ''2''))) = Some (None, None)"
proof (intro conjI)
  show "auth_run demo_sha demo_w5 [Quiet, Quiet, Quiet,
       Rotated (sha256Hex demo_sha (demo_refresh ''1'')) (sha256Hex demo_sha (demo_refresh ''2'')), Quiet] demo_l5"
    using auth_run_append [OF demo_overtaken demo_logout] by simp
  show "aw_txs demo_l5 = []" "aw_revokers demo_l5 = []" by (simp_all add: demo_l5_def demo_l4_def)
  show "session_accepted 0 (sha256Hex demo_sha (demo_access ''1'')) (aw_db demo_l5) = None"
    by (simp add: session_accepted_def demo_l5_def demo_l4_def demo_l3_def revoke_found_def demo_tables demo_fields demo_hashes)
  have users: "active_user demo_user ''p'' (aw_db demo_l5) = active_user demo_user ''p'' (aw_db demo_w2)"
    by (simp add: active_user_def demo_l5_def demo_l4_def revoke_found_def demo_users)
  have ann: "active_user demo_user ''p'' (aw_db demo_w2) \<noteq> None" by code_simp
  then show "session_accepted 0 (sha256Hex demo_sha (demo_access ''2'')) (aw_db demo_l5) \<noteq> None"
    unfolding session_accepted_def users [symmetric]
    by (simp add: demo_l5_def demo_l4_def demo_l3_def revoke_found_def demo_tables demo_fields demo_hashes ttl_defs)
  show "map_option (\<lambda>r. (rr_used r, rr_revoked r)) (db_refresh (aw_db demo_l5) (sha256Hex demo_sha (demo_refresh ''2''))) = Some (None, None)"
    by (simp add: demo_l5_def demo_l4_def demo_l3_def revoke_found_def demo_tables demo_fields demo_hashes)
qed

section \<open>The properties\<close>

text \<open>
  C11: Under every interleaving of sign-ins, exchanges, refreshes, logouts, revocations and
  cleanups an authorization code is exchanged at most as often as it was made, and a refresh
  token is rotated at most as often as it was issued: nobody gets a second session for one.
\<close>

theorem code_and_token_sold_once:
  assumes "auth_run sha (fresh_world t) evs w"
  shows "event_count (exchanged_code c) evs \<le> event_count (\<lambda>e. e = Code_made c) evs
    \<and> event_count (rotated_token h) evs \<le> event_count (issued_token h) evs"
proof -
  have "sold_once c evs w" "sold_once h evs w" by (rule run_sold_once [OF assms refl])+
  then show ?thesis by (auto simp: sold_once_def)
qed

theorem code_and_token_sold_once_witness:
  "event_count (exchanged_code (sha256Hex demo_sha demo_code)) [Quiet, Code_made (sha256Hex demo_sha demo_code), Quiet,
     Exchanged (sha256Hex demo_sha demo_code) (sha256Hex demo_sha (demo_refresh ''1'')), Quiet,
     Rotated (sha256Hex demo_sha (demo_refresh ''1'')) (sha256Hex demo_sha (demo_refresh ''2''))] = 1
   \<and> 1 \<le> event_count (\<lambda>e. e = Code_made (sha256Hex demo_sha demo_code)) [Quiet, Code_made (sha256Hex demo_sha demo_code), Quiet,
     Exchanged (sha256Hex demo_sha demo_code) (sha256Hex demo_sha (demo_refresh ''1'')), Quiet,
     Rotated (sha256Hex demo_sha (demo_refresh ''1'')) (sha256Hex demo_sha (demo_refresh ''2''))]"
proof
  show one: "event_count (exchanged_code (sha256Hex demo_sha demo_code)) [Quiet, Code_made (sha256Hex demo_sha demo_code), Quiet,
     Exchanged (sha256Hex demo_sha demo_code) (sha256Hex demo_sha (demo_refresh ''1'')), Quiet,
     Rotated (sha256Hex demo_sha (demo_refresh ''1'')) (sha256Hex demo_sha (demo_refresh ''2''))] = 1"
    by (simp add: event_count_def)
  show "1 \<le> event_count (\<lambda>e. e = Code_made (sha256Hex demo_sha demo_code)) [Quiet, Code_made (sha256Hex demo_sha demo_code), Quiet,
     Exchanged (sha256Hex demo_sha demo_code) (sha256Hex demo_sha (demo_refresh ''1'')), Quiet,
     Rotated (sha256Hex demo_sha (demo_refresh ''1'')) (sha256Hex demo_sha (demo_refresh ''2''))]"
    using code_and_token_sold_once [OF demo_rotated, THEN conjunct1, of "sha256Hex demo_sha demo_code"] unfolding one .
qed

text \<open>
  C13: At every moment a login has at most one refresh token that can still be rotated, and all
  its refresh tokens belong to one project and account and end at the moment fixed when the
  code was exchanged: rotation never prolongs a login.
\<close>

theorem login_has_one_open_token:
  assumes "auth_run sha (fresh_world t) evs w"
    and "db_refresh (aw_db w) h = Some r" "db_refresh (aw_db w) k = Some q" "rr_family r = rr_family q"
  shows "login_of r = login_of q \<and> (rr_used r = None \<and> rr_used q = None \<longrightarrow> h = k)"
proof -
  have inv: "auth_inv w" by (rule run_inv [OF assms(1) fresh_inv])
  show ?thesis
    using auth_invD(1) [OF inv assms(2)] auth_invD(1) [OF inv assms(3)] auth_invD(3) [OF inv assms(2,3,4)] assms(4) by simp
qed

theorem login_has_one_open_token_witness:
  "login_of ((tx_refresh demo_tx1)\<lparr>rr_used := Some (tx_at demo_tx2)\<rparr>) = login_of (tx_refresh demo_tx1)"
proof -
  have rows: "db_refresh (aw_db demo_w6) (sha256Hex demo_sha (demo_refresh ''1'')) = Some ((tx_refresh demo_tx1)\<lparr>rr_used := Some (tx_at demo_tx2)\<rparr>)"
    "db_refresh (aw_db demo_w6) (sha256Hex demo_sha (demo_refresh ''2'')) = Some (tx_refresh demo_tx1)"
    by (simp_all add: demo_w6_def demo_tables demo_hashes)
  show ?thesis using login_has_one_open_token [OF demo_rotated rows] by simp
qed

text \<open>
  C12: A logout that succeeds while no exchange or refresh of the login is open ends the login:
  from then on, whatever the server and its clients do, no access token of the login is
  accepted and no refresh token of it is rotated.
\<close>

theorem logout_ends_login:
  assumes "auth_run sha (fresh_world t0) evs w"
    and "\<forall>tx \<in> set (aw_txs w). rr_family (tx_refresh tx) \<noteq> f"
    and "revokeAppAuthSession sha io (aw_now w) access token all_logins (aw_db w) = (db', Ok (), closed)"
    and "find_login sha io access token (aw_db w) = Ok (Some (f, p, u))" "f \<noteq> ''''"
    and "auth_run sha (w\<lparr>aw_db := db'\<rparr>) evs' w'"
  shows "(\<forall>tk s. db_sessions (aw_db w') (sha256Hex sha tk) = Some s \<and> as_family s = f
        \<longrightarrow> (\<exists>e. loadAppSessionIdentity sha io' t tk (aw_db w') = (aw_db w', Err e)))
    \<and> (\<forall>tk r. db_refresh (aw_db w') (sha256Hex sha tk) = Some r \<and> rr_family r = f
        \<longrightarrow> (\<exists>e. refreshAppSession sha io' t rnd project tk (aw_db w') = (aw_db w', Err e, None)))"
proof -
  have inv: "auth_inv w" by (rule run_inv [OF assms(1) fresh_inv])
  note rows = logout_revokes_rows [OF inv assms(3-5)]
  have "login_ended f (w\<lparr>aw_db := db'\<rparr>)"
    by (rule login_endedI) (use rows assms(2) in simp_all)
  then have "login_ended f w'"
    by (rule login_ended_run [OF assms(6) calm_inv [OF inv rows(2)]])
  then show ?thesis using ended_refused by blast
qed

definition demo_out :: "auth_db \<times> (auth_error, unit) outcome \<times> closing" where
  "demo_out = revokeAppAuthSession demo_sha (\<lambda>_. Done) 0 (demo_access ''1'') '''' False (aw_db demo_w4)"

theorem logout_ends_login_witness:
  "\<exists>e. loadAppSessionIdentity demo_sha (\<lambda>_. Done) 1 (demo_access ''1'') (fst demo_out) = (fst demo_out, Err e)"
proof -
  have login: "find_login demo_sha (\<lambda>_. Done) (demo_access ''1'') '''' (aw_db demo_w4) = Ok (Some (demo_family, ''p'', demo_user))"
    by code_simp
  have family: "demo_family \<noteq> ''''" by code_simp
  have access: "demo_access ''1'' \<noteq> ''''" by code_simp
  have out: "revokeAppAuthSession demo_sha (\<lambda>_. Done) (aw_now demo_w4) (demo_access ''1'') '''' False (aw_db demo_w4)
      = (fst demo_out, Ok (), Close_token (demo_access ''1''))"
    unfolding demo_out_def using login family access by (simp add: revokeAppAuthSession_def Let_def tx_commit_def demo_parts)
  have "fst demo_out = revoke_family 0 demo_family (aw_db demo_w4)"
    using revokeAppAuthSession_ok(1) [OF out login family] by (simp add: demo_parts)
  then have "\<exists>s. db_sessions (fst demo_out) (sha256Hex demo_sha (demo_access ''1'')) = Some s \<and> as_family s = demo_family"
    using demo_tables(1)
    by (simp add: revoke_family_def revoke_refresh_def revoke_sessions_def update_rows_Some demo_parts demo_fields)
  moreover have "\<forall>tx \<in> set (aw_txs demo_w4). rr_family (tx_refresh tx) \<noteq> demo_family" by (simp add: demo_parts)
  ultimately show ?thesis
    using logout_ends_login [OF demo_sign_in _ out login family auth_run.start] by force
qed

end
