(* ===== verification/Cron_Expr.thy ===== *)
theory Cron_Expr
  imports Gonvex_Prelude
begin

text \<open>
  \<open>server/internal/server/cronexpr.go\<close>: the five-field cron expressions and the interval
  schedules of the scheduler. An instant is the number of nanoseconds since the Unix epoch;
  the zero \<open>time.Time\<close> a schedule returns when it has no next run is \<open>None\<close>. Calendar
  fields are those of the UTC location.
\<close>

abbreviation second_ns :: int where "second_ns \<equiv> 1000000000"
abbreviation minute_ns :: int where "minute_ns \<equiv> 60000000000"
abbreviation hour_ns :: int where "hour_ns \<equiv> 3600000000000"
abbreviation day_ns :: int where "day_ns \<equiv> 86400000000000"

section \<open>The calendar\<close>

text \<open>The proleptic Gregorian calendar of Go's \<open>time\<close> package.\<close>

definition leap_year :: "int \<Rightarrow> bool" where
  "leap_year y \<longleftrightarrow> y mod 4 = 0 \<and> (y mod 100 \<noteq> 0 \<or> y mod 400 = 0)"

definition month_lengths :: "bool \<Rightarrow> int list" where
  "month_lengths leap = [31, if leap then 29 else 28, 31, 30, 31, 30, 31, 31, 30, 31, 30, 31]"

fun month_scan :: "nat \<Rightarrow> int list \<Rightarrow> int \<Rightarrow> nat \<times> int" where
  "month_scan m [] d = (m, d + 1)"
| "month_scan m (l # ls) d = (if d < l then (m, d + 1) else month_scan (Suc m) ls (d - l))"

text \<open>Year and day of the year (from 0) of a day counted from 0001-01-01.\<close>

definition year_day :: "int \<Rightarrow> int \<times> int" where
  "year_day z =
     (let a = z div 146097; r = z mod 146097;
          b = min 3 (r div 36524); r = r - 36524 * b;
          c = r div 1461; r = r mod 1461;
          e = min 3 (r div 365); r = r - 365 * e
      in (400 * a + 100 * b + 4 * c + e + 1, r))"

text \<open>Year, month (1--12) and day (1--31) of a day counted from the Unix epoch.\<close>

definition civil :: "int \<Rightarrow> int \<times> nat \<times> int" where
  "civil days =
     (let (y, yd) = year_day (days + 719162);
          (m, d) = month_scan 1 (month_lengths (leap_year y)) yd
      in (y, m, d))"

text \<open>
  \<open>time.Date\<close> on a year, a month and a day that may lie past the end of the month: the
  day counted from the epoch.
\<close>

definition days_of_date :: "int \<Rightarrow> nat \<Rightarrow> int \<Rightarrow> int" where
  "days_of_date y m d =
     365 * (y - 1) + (y - 1) div 4 - (y - 1) div 100 + (y - 1) div 400
     + sum_list (take (m - 1) (month_lengths (leap_year y))) + (d - 1) - 719162"

lemma year_day_range:
  assumes "year_day z = (y, d)"
  shows "0 \<le> d \<and> d < (if leap_year y then 366 else 365)"
proof -
  define r0 where "r0 = z mod 146097"
  define b where "b = min 3 (r0 div 36524)"
  define r1 where "r1 = r0 - 36524 * b"
  define c where "c = r1 div 1461"
  define r2 where "r2 = r1 mod 1461"
  define e where "e = min 3 (r2 div 365)"
  have yd: "y = 400 * (z div 146097) + 100 * b + 4 * c + e + 1" "d = r2 - 365 * e"
    using assms by (simp_all only: year_day_def Let_def prod.inject r0_def b_def r1_def c_def r2_def e_def)
  have r0: "0 \<le> r0" "r0 < 146097" by (simp_all add: r0_def)
  have b: "0 \<le> b" "b \<le> 3" "36524 * b \<le> r0" "b < 3 \<Longrightarrow> r1 < 36524" "b = 3 \<Longrightarrow> r1 < 36525"
  proof -
    have "36524 * (r0 div 36524) \<le> r0" "r0 < 36524 * (r0 div 36524) + 36524" "0 \<le> r0 div 36524"
      using r0(1) by (simp_all add: pos_imp_zdiv_nonneg_iff)
    then show "0 \<le> b" "b \<le> 3" "36524 * b \<le> r0" "b < 3 \<Longrightarrow> r1 < 36524" "b = 3 \<Longrightarrow> r1 < 36525"
      using r0(2) unfolding b_def r1_def by (simp_all add: min_def split: if_splits)
  qed
  have r1: "0 \<le> r1" using b by (simp add: r1_def)
  have c: "0 \<le> c" "c \<le> 24" "r1 = 1461 * c + r2"
  proof -
    have "r1 < 36525" using b by (cases "b = 3") auto
    then show "0 \<le> c" "c \<le> 24" "r1 = 1461 * c + r2"
      using r1 unfolding c_def r2_def by (simp_all add: pos_imp_zdiv_nonneg_iff)
  qed
  have r2: "0 \<le> r2" "r2 < 1461" by (simp_all add: r2_def)
  have e: "0 \<le> e" "e \<le> 3" "365 * e \<le> r2" "e < 3 \<Longrightarrow> d < 365" "e = 3 \<Longrightarrow> d < 366"
  proof -
    have "365 * (r2 div 365) \<le> r2" "r2 < 365 * (r2 div 365) + 365" "0 \<le> r2 div 365"
      using r2(1) by (simp_all add: pos_imp_zdiv_nonneg_iff)
    then show "0 \<le> e" "e \<le> 3" "365 * e \<le> r2" "e < 3 \<Longrightarrow> d < 365" "e = 3 \<Longrightarrow> d < 366"
      using r2(2) yd(2) unfolding e_def by (simp_all add: min_def split: if_splits)
  qed
  have leap: "leap_year y" if "e = 3" "d = 365"
  proof -
    have "r2 = 1460" using that yd(2) by simp
    then have "c = 24 \<Longrightarrow> b = 3" using b c by (cases "b < 3") auto
    moreover have "y mod 400 = (100 * b + 4 * (c + 1)) mod 400"
    proof -
      have "y = 100 * b + 4 * (c + 1) + 400 * (z div 146097)" using yd(1) that by simp
      then show ?thesis by simp
    qed
    moreover have "y mod 4 = 0" "y mod 100 = (4 * (c + 1)) mod 100"
    proof -
      have y: "y = 4 * (100 * (z div 146097) + 25 * b + c + 1)" using yd(1) that by simp
      show "y mod 4 = 0" by (simp add: y)
      have "y = 4 * (c + 1) + 100 * (4 * (z div 146097) + b)" using yd(1) that by simp
      then show "y mod 100 = (4 * (c + 1)) mod 100" by (simp only: mod_mult_self2)
    qed
    moreover have "c < 24 \<Longrightarrow> (4 * (c + 1)) mod 100 \<noteq> 0"
      using c(1) by (subst mod_pos_pos_trivial) auto
    ultimately show ?thesis
      using c(1,2) unfolding leap_year_def by (cases "c = 24") auto
  qed
  show ?thesis
    using e leap yd(2) by (cases "e = 3"; cases "d = 365") auto
qed

lemma month_scan_range:
  assumes "0 \<le> d" and "d < sum_list ls" and "\<And>l. l \<in> set ls \<Longrightarrow> l \<le> 31"
    and "month_scan m ls d = (m', d')"
  shows "m \<le> m' \<and> m' < m + length ls \<and> 1 \<le> d' \<and> d' \<le> 31"
  using assms
  by (induction m ls d rule: month_scan.induct) (fastforce split: if_splits)+

lemma civil_range:
  assumes "civil z = (y, m, d)"
  shows "1 \<le> m \<and> m \<le> 12 \<and> 1 \<le> d \<and> d \<le> 31"
proof -
  obtain yd where yd: "year_day (z + 719162) = (y, yd)"
    and ms: "month_scan 1 (month_lengths (leap_year y)) yd = (m, d)"
    using assms by (auto simp: civil_def split: prod.splits)
  have "0 \<le> yd" "yd < sum_list (month_lengths (leap_year y))"
    using year_day_range [OF yd] by (auto simp: month_lengths_def split: if_splits)
  moreover have "\<And>l. l \<in> set (month_lengths (leap_year y)) \<Longrightarrow> l \<le> 31"
    by (auto simp: month_lengths_def split: if_splits)
  ultimately have "1 \<le> m \<and> m < 1 + length (month_lengths (leap_year y)) \<and> 1 \<le> d \<and> d \<le> 31"
    using ms by (intro month_scan_range)
  then show ?thesis by (simp add: month_lengths_def)
qed

definition minute_of :: "int \<Rightarrow> nat" where "minute_of t = nat (t div minute_ns mod 60)"
definition hour_of :: "int \<Rightarrow> nat" where "hour_of t = nat (t div hour_ns mod 24)"
definition weekday_of :: "int \<Rightarrow> nat" where "weekday_of t = nat ((t div day_ns + 4) mod 7)"

text \<open>\<open>t.AddDate(1, 0, 1)\<close>.\<close>

definition add_year_and_day :: "int \<Rightarrow> int" where
  "add_year_and_day t =
     (let (y, m, d) = civil (t div day_ns) in days_of_date (y + 1) m (d + 1) * day_ns + t mod day_ns)"

section \<open>Interval schedules\<close>

text \<open>\<open>intervalSchedule.Next\<close>, on the 64-bit nanosecond counts \<open>UnixNano\<close> returns.\<close>

definition interval_next :: "int \<Rightarrow> int \<Rightarrow> int option" where
  "interval_next interval after =
     (if interval \<le> 0 then None
      else Some (wrap64 (wrap64 (go_div after interval + 1) * interval)))"

section \<open>Parsing\<close>

record expr_schedule =
  minute :: "bool list"
  hour :: "bool list"
  dom :: "bool list"
  month :: "bool list"
  dow :: "bool list"
  dom_star :: bool
  dow_star :: bool

definition empty_schedule :: expr_schedule where
  "empty_schedule =
     \<lparr>minute = replicate 60 False, hour = replicate 24 False, dom = replicate 32 False,
      month = replicate 13 False, dow = replicate 7 False, dom_star = False, dow_star = False\<rparr>"

datatype field_error =
  InvalidStep string | InvalidRangeStart string | InvalidRangeEnd string | InvalidValue string
| OutOfRange int int string

datatype cron_error =
  FieldCount string nat
| InMinute field_error | InHour field_error | InDom field_error | InMonth field_error
| InDow field_error

text \<open>
  The loop \<open>for value := lo; value <= hi; value += step\<close> on the type \<open>int\<close>. The addition
  wraps, and indexing the table out of range panics.
\<close>

function fill_loop :: "int \<Rightarrow> int \<Rightarrow> int \<Rightarrow> bool list \<Rightarrow> (field_error, bool list) outcome" where
  "fill_loop v hi step table =
     (if hi < v then Ok table
      else if v < 0 \<or> int (length table) \<le> v then Panic
      else if step \<le> 0 \<or> max_int64 < step \<or> max_int64 < hi then Panic
      else fill_loop (wrap64 (v + step)) hi step (table[nat v := True]))"
  by pat_completeness auto
termination
proof (relation "measure (\<lambda>(v, hi, step, table). if v < 0 then 0 else nat (hi + 1 - v))", goal_cases)
  case 1
  then show ?case by simp
next
  case (2 v hi step table)
  have "wrap64 (v + step) < 0 \<or> v < wrap64 (v + step)"
  proof (cases "v + step \<le> max_int64")
    case True
    with 2 show ?thesis by (simp add: wrap64_id)
  next
    case False
    have "v + step \<le> 2 * max_int64 + 1" using 2 by linarith
    with False have "wrap64 (v + step) = v + step - 18446744073709551616"
      by (intro wrap64_overflow) auto
    then show ?thesis using 2 by linarith
  qed
  with 2 show ?case by auto
qed

text \<open>
  The third guard never decides: \<open>fill_range\<close> calls the loop with a positive step and a
  bound of the table. It makes the recursion well-founded for arbitrary arguments.
\<close>

declare fill_loop.simps [simp del]

definition step_of :: "string \<Rightarrow> (field_error, string \<times> int) outcome" where
  "step_of part =
     (case cut (CHR ''/'') part of
        (_, None) \<Rightarrow> Ok (part, 1)
      | (body, Some s) \<Rightarrow>
          (case atoi s of
             None \<Rightarrow> Err (InvalidStep part)
           | Some v \<Rightarrow> if v \<le> 0 then Err (InvalidStep part) else Ok (body, v)))"

definition bounds_of :: "string \<Rightarrow> int \<Rightarrow> int \<Rightarrow> (field_error, int \<times> int) outcome" where
  "bounds_of part mn mx =
     (if part = ''*'' then Ok (mn, mx)
      else case cut (CHR ''-'') part of
        (a, Some b) \<Rightarrow>
          (case atoi a of
             None \<Rightarrow> Err (InvalidRangeStart part)
           | Some lo \<Rightarrow> (case atoi b of None \<Rightarrow> Err (InvalidRangeEnd part) | Some hi \<Rightarrow> Ok (lo, hi)))
      | (_, None) \<Rightarrow>
          (case atoi part of None \<Rightarrow> Err (InvalidValue part) | Some v \<Rightarrow> Ok (v, v)))"

definition fill_range :: "string \<Rightarrow> int \<Rightarrow> int \<Rightarrow> bool list \<Rightarrow> (field_error, bool list) outcome" where
  "fill_range part mn mx table =
     bind_outcome (step_of part) (\<lambda>(part, step).
     bind_outcome (bounds_of part mn mx) (\<lambda>(lo, hi).
       if lo < mn \<or> mx < hi \<or> hi < lo then Err (OutOfRange mn mx part)
       else fill_loop lo hi step table))"

fun fill_parts :: "string list \<Rightarrow> int \<Rightarrow> int \<Rightarrow> bool list \<Rightarrow> (field_error, bool list) outcome" where
  "fill_parts [] mn mx table = Ok table"
| "fill_parts (p # ps) mn mx table =
     bind_outcome (fill_range p mn mx table) (fill_parts ps mn mx)"

text \<open>The \<open>star\<close> pointer of \<open>fillField\<close>: \<open>None\<close> is nil, \<open>Some b\<close> points at \<open>b\<close>.\<close>

definition fill_field ::
  "string \<Rightarrow> int \<Rightarrow> int \<Rightarrow> bool list \<Rightarrow> bool option \<Rightarrow> (field_error, bool list \<times> bool option) outcome" where
  "fill_field field mn mx table star =
     (let star' = (if field = ''*'' \<or> has_prefix ''*/'' field
                   then map_option (\<lambda>_. field = ''*'') star else star)
      in bind_outcome (fill_parts (split_on (CHR '','') field) mn mx table) (\<lambda>t. Ok (t, star')))"

definition fill_dow :: "string \<Rightarrow> bool list \<Rightarrow> (field_error, bool list \<times> bool) outcome" where
  "fill_dow field table =
     (let normalized = map (\<lambda>c. if c = CHR ''7'' then CHR ''0'' else c) field
      in bind_outcome (fill_parts (split_on (CHR '','') normalized) 0 6 table)
           (\<lambda>t. Ok (t, field = ''*'')))"

definition parse_cron_expr :: "string \<Rightarrow> (cron_error, expr_schedule) outcome" where
  "parse_cron_expr expr =
     (case str_fields (trim_space expr) of
        [f0, f1, f2, f3, f4] \<Rightarrow>
          (let s = empty_schedule in
           bind_outcome (map_err InMinute (fill_field f0 0 59 (minute s) None)) (\<lambda>(t, _).
           let s = s\<lparr>minute := t\<rparr> in
           bind_outcome (map_err InHour (fill_field f1 0 23 (hour s) None)) (\<lambda>(t, _).
           let s = s\<lparr>hour := t\<rparr> in
           bind_outcome (map_err InDom (fill_field f2 1 31 (dom s) (Some (dom_star s)))) (\<lambda>(t, star).
           let s = s\<lparr>dom := t, dom_star := the star\<rparr> in
           bind_outcome (map_err InMonth (fill_field f3 1 12 (month s) None)) (\<lambda>(t, _).
           let s = s\<lparr>month := t\<rparr> in
           bind_outcome (map_err InDow (fill_dow f4 (dow s))) (\<lambda>(t, star).
           Ok (s\<lparr>dow := t, dow_star := star\<rparr>)))))))
      | fs \<Rightarrow> Err (FieldCount expr (length fs)))"

section \<open>The next occurrence\<close>

definition cron_matches :: "expr_schedule \<Rightarrow> int \<Rightarrow> bool" where
  "cron_matches s t =
     (let (y, m, d) = civil (t div day_ns) in
      if \<not> minute s ! minute_of t \<or> \<not> hour s ! hour_of t \<or> \<not> month s ! m then False
      else let dom_match = dom s ! nat d; dow_match = dow s ! weekday_of t in
        if dom_star s \<and> dow_star s then True
        else if dom_star s then dow_match
        else if dow_star s then dom_match
        else dom_match \<or> dow_match)"

function next_from :: "expr_schedule \<Rightarrow> int \<Rightarrow> int \<Rightarrow> int option" where
  "next_from s t limit =
     (if t < limit then
        if cron_matches s t then Some t else next_from s (t + minute_ns) limit
      else None)"
  by pat_completeness auto
termination
  by (relation "measure (\<lambda>(s, t, limit). nat (limit - t))") auto

declare next_from.simps [simp del]

definition first_minute :: "int \<Rightarrow> int" where
  "first_minute after = after div minute_ns * minute_ns + minute_ns"

definition expr_next :: "expr_schedule \<Rightarrow> int \<Rightarrow> int option" where
  "expr_next s after =
     (let t = first_minute after in next_from s t (add_year_and_day t))"

section \<open>Interval schedules: lemmas\<close>

lemma interval_boundary:
  assumes "0 < interval" and "0 \<le> after" and "after + interval \<le> max_int64"
  shows "\<exists>u. interval_next interval after = Some u \<and> after < u \<and> u \<le> after + interval \<and> interval dvd u
    \<and> (\<forall>v. after < v \<and> interval dvd v \<longrightarrow> u \<le> v)
    \<and> (\<forall>b. after \<le> b \<and> b < u \<longrightarrow> interval_next interval b = Some u)"
proof -
  let ?q = "after div interval"
  let ?u = "(?q + 1) * interval"
  have "after = ?q * interval + after mod interval" "0 \<le> after mod interval" "after mod interval < interval"
    using assms by simp_all
  then have lo: "?q * interval \<le> after" and hi: "after < ?u"
    by (linarith, simp only: distrib_right mult_1)
  have ub: "?u \<le> after + interval" using lo by (simp add: algebra_simps)
  have q0: "0 \<le> ?q" using assms by (simp add: pos_imp_zdiv_nonneg_iff)
  have next_eq: "interval_next interval b = Some ((b div interval + 1) * interval)"
    if "0 \<le> b" "(b div interval + 1) * interval \<le> max_int64" for b
  proof -
    have "0 \<le> b div interval" using that assms by (simp add: pos_imp_zdiv_nonneg_iff)
    moreover from this have "b div interval + 1 \<le> (b div interval + 1) * interval"
      using assms by (simp add: mult_le_cancel_left1)
    moreover have "0 \<le> (b div interval + 1) * interval"
      using assms \<open>0 \<le> b div interval\<close> by simp
    ultimately have "wrap64 (b div interval + 1) = b div interval + 1"
      "wrap64 ((b div interval + 1) * interval) = (b div interval + 1) * interval"
      using that(2) by (intro wrap64_id; linarith)+
    then show ?thesis using that(1) assms by (simp add: interval_next_def go_div_nonneg)
  qed
  have "interval_next interval after = Some ?u" using next_eq assms ub by auto
  moreover have "?u \<le> v" if gt: "after < v" and dv: "interval dvd v" for v
  proof -
    obtain k where k: "v = interval * k" using dv by (elim dvdE)
    have "?q * interval < k * interval" using lo gt k by (simp add: algebra_simps)
    then have "?q + 1 \<le> k" using assms by simp
    then show ?thesis using k assms by (metis mult.commute mult_left_mono less_imp_le)
  qed
  moreover have "interval_next interval b = Some ?u" if "after \<le> b" "b < ?u" for b
  proof -
    have "b div interval = ?q"
      using that lo assms by (intro int_div_pos_eq [where r = "b - ?q * interval"]) (auto simp: algebra_simps)
    then show ?thesis using next_eq [of b] that assms ub by auto
  qed
  ultimately show ?thesis using hi ub by (intro exI [of _ ?u]) auto
qed

lemma interval_next_after:
  "0 < interval \<Longrightarrow> 0 \<le> after \<Longrightarrow> after + interval \<le> max_int64 \<Longrightarrow> interval_next interval after = Some u \<Longrightarrow> after < u"
  using interval_boundary [of interval after] by auto

text \<open>
  An interval schedule fires at the least multiple of its interval strictly after the
  given instant, and every replica that asks within the same interval gets the same answer.
\<close>

theorem interval_next_boundary:
  assumes "0 < interval" and "0 \<le> after" and "after + interval \<le> max_int64"
  shows "\<exists>u. interval_next interval after = Some u \<and> after < u \<and> u \<le> after + interval \<and> interval dvd u
    \<and> (\<forall>v. after < v \<and> interval dvd v \<longrightarrow> u \<le> v)
    \<and> (\<forall>b. after \<le> b \<and> b < u \<longrightarrow> interval_next interval b = Some u)"
  by (rule interval_boundary [OF assms])

theorem interval_next_boundary_witness:
  "interval_next (5 * minute_ns) 1735689661000000000 = Some 1735689900000000000"
proof -
  have "(0::int) < 5 * minute_ns" "(0::int) \<le> 1735689661000000000"
    "1735689661000000000 + 5 * minute_ns \<le> max_int64" by simp_all
  from interval_next_boundary [OF this] obtain u
    where u: "interval_next (5 * minute_ns) 1735689661000000000 = Some u" by blast
  moreover have "interval_next (5 * minute_ns) 1735689661000000000 = Some 1735689900000000000"
    by code_simp
  ultimately show ?thesis by simp
qed

section \<open>Cron fields: lemmas\<close>

lemma fill_loop_ok:
  assumes "0 \<le> v" and "hi < int (length table)" and "0 < step" and "hi + step \<le> max_int64"
    and "0 \<le> hi"
  shows "\<exists>t. fill_loop v hi step table = Ok t \<and> length t = length table
    \<and> (\<forall>i < length table. t ! i \<longleftrightarrow> table ! i \<or> (\<exists>k::nat. int i = v + int k * step \<and> int i \<le> hi))"
  using assms
proof (induction v hi step table rule: fill_loop.induct)
  case (1 v hi step table)
  show ?case
  proof (cases "hi < v")
    case True
    have "\<not> (int i = v + int k * step \<and> int i \<le> hi)" for i k
      using True 1(4) by (smt (verit) mult_nonneg_nonneg of_nat_0_le_iff)
    then show ?thesis using True by (subst fill_loop.simps) auto
  next
    case False
    have w: "wrap64 (v + step) = v + step" using False 1 by (intro wrap64_id) linarith+
    have guard: "\<not> (v < 0 \<or> int (length table) \<le> v)" "\<not> (step \<le> 0 \<or> max_int64 < step \<or> max_int64 < hi)"
      using 1 False by auto
    have eq: "fill_loop v hi step table = fill_loop (v + step) hi step (table[nat v := True])"
      using False guard w by (subst fill_loop.simps) auto
    obtain t where t: "fill_loop (v + step) hi step (table[nat v := True]) = Ok t"
      "length t = length table"
      "\<And>i. i < length table \<Longrightarrow> t ! i \<longleftrightarrow> table[nat v := True] ! i
         \<or> (\<exists>k::nat. int i = v + step + int k * step \<and> int i \<le> hi)"
      using "1.IH" [OF False guard] "1.prems" w by auto
    have split: "(\<exists>k::nat. int i = v + int k * step \<and> int i \<le> hi) \<longleftrightarrow>
        i = nat v \<or> (\<exists>k::nat. int i = v + step + int k * step \<and> int i \<le> hi)"
      if "i < length table" for i
    proof
      assume "\<exists>k::nat. int i = v + int k * step \<and> int i \<le> hi"
      then obtain k where k: "int i = v + int k * step" "int i \<le> hi" by blast
      show "i = nat v \<or> (\<exists>k::nat. int i = v + step + int k * step \<and> int i \<le> hi)"
      proof (cases k)
        case 0
        then have "i = nat v" using k by simp
        then show ?thesis by (rule disjI1)
      next
        case (Suc n)
        then show ?thesis using k by (auto simp: algebra_simps intro!: exI [of _ n])
      qed
    next
      assume "i = nat v \<or> (\<exists>k::nat. int i = v + step + int k * step \<and> int i \<le> hi)"
      then show "\<exists>k::nat. int i = v + int k * step \<and> int i \<le> hi"
      proof
        assume "i = nat v"
        then show ?thesis using False 1(2) by (intro exI [of _ 0]) auto
      next
        assume "\<exists>k::nat. int i = v + step + int k * step \<and> int i \<le> hi"
        then obtain k where "int i = v + step + int k * step" "int i \<le> hi" by blast
        then show ?thesis by (intro exI [of _ "Suc k"]) (auto simp: algebra_simps)
      qed
    qed
    have upd: "table[nat v := True] ! i \<longleftrightarrow> i = nat v \<or> table ! i" if "i < length table" for i
      using that by (cases "i = nat v") auto
    show ?thesis
    proof (intro exI [of _ t] conjI allI impI)
      fix i assume i: "i < length table"
      show "t ! i \<longleftrightarrow> table ! i \<or> (\<exists>k::nat. int i = v + int k * step \<and> int i \<le> hi)"
        unfolding t(3) [OF i] upd [OF i] split [OF i] by blast
    qed (use t eq in auto)
  qed
qed

lemma int_dec_nonneg_chars: "0 \<le> i \<Longrightarrow> c \<in> set (int_dec i) \<Longrightarrow> digit_value c \<noteq> None"
  using nat_dec_digits by (auto simp: int_dec_def)

lemma int_dec_no_separator:
  assumes "0 \<le> i"
  shows "CHR ''/'' \<notin> set (int_dec i)" and "CHR ''-'' \<notin> set (int_dec i)"
  using int_dec_nonneg_chars [OF assms, of "CHR ''/''"] int_dec_nonneg_chars [OF assms, of "CHR ''-''"]
  by (auto simp: digit_value_def)

lemma cut_no_separator: "sep \<notin> set s \<Longrightarrow> cut sep s = (s, None)"
  by (rule cut_without)

text \<open>
  A field \<open>lo-hi/step\<close> whose bounds lie in the field's range sets exactly the values
  \<open>lo, lo + step, \<dots>\<close> up to \<open>hi\<close> and keeps every other entry of the table.
\<close>

theorem fill_range_progression:
  assumes "0 \<le> mn" and "mn \<le> lo" and "lo \<le> hi" and "hi \<le> mx" and "mx < int (length table)"
    and "0 < step" and "hi + step \<le> max_int64"
  shows "\<exists>t. fill_range (int_dec lo @ ''-'' @ int_dec hi @ ''/'' @ int_dec step) mn mx table = Ok t
    \<and> length t = length table
    \<and> (\<forall>i < length table. t ! i \<longleftrightarrow> table ! i \<or> (\<exists>k::nat. int i = lo + int k * step \<and> int i \<le> hi))"
proof -
  let ?range = "int_dec lo @ CHR ''-'' # int_dec hi"
  have "CHR ''/'' \<notin> set ?range"
    using int_dec_no_separator [of lo] int_dec_no_separator [of hi] assms by auto
  then have "cut (CHR ''/'') (?range @ CHR ''/'' # int_dec step) = (?range, Some (int_dec step))"
    by (rule cut_append)
  moreover have "atoi (int_dec step) = Some step" using assms by (intro atoi_int_dec) auto
  ultimately have step: "step_of (?range @ CHR ''/'' # int_dec step) = Ok (?range, step)"
    using assms by (simp add: step_of_def)
  have "?range \<noteq> ''*''" by (cases "int_dec lo") auto
  moreover have "cut (CHR ''-'') ?range = (int_dec lo, Some (int_dec hi))"
    using int_dec_no_separator [of lo] assms by (intro cut_append) auto
  moreover have "atoi (int_dec lo) = Some lo" "atoi (int_dec hi) = Some hi"
    using assms by (intro atoi_int_dec; linarith)+
  ultimately have bounds: "bounds_of ?range mn mx = Ok (lo, hi)"
    by (simp add: bounds_of_def)
  have "fill_range (?range @ CHR ''/'' # int_dec step) mn mx table = fill_loop lo hi step table"
    using step bounds assms by (simp add: fill_range_def)
  moreover have "int_dec lo @ ''-'' @ int_dec hi @ ''/'' @ int_dec step
      = ?range @ CHR ''/'' # int_dec step" by simp
  ultimately show ?thesis using fill_loop_ok [of lo hi table step] assms by simp
qed

theorem fill_range_progression_witness:
  "\<exists>t. fill_range (int_dec 10 @ ''-'' @ int_dec 40 @ ''/'' @ int_dec 15) 0 59 (replicate 60 False) = Ok t
     \<and> t ! 25 \<and> \<not> t ! 55"
proof -
  have "(0::int) \<le> 0" "(0::int) \<le> 10" "(10::int) \<le> 40" "(40::int) \<le> 59"
    "(59::int) < int (length (replicate 60 False))" "(0::int) < 15" "(40::int) + 15 \<le> max_int64"
    by simp_all
  from fill_range_progression [OF this] obtain t
    where t: "fill_range (int_dec 10 @ ''-'' @ int_dec 40 @ ''/'' @ int_dec 15) 0 59 (replicate 60 False) = Ok t"
      and nth: "\<And>i. i < 60 \<Longrightarrow> t ! i \<longleftrightarrow> replicate 60 False ! i \<or>
        (\<exists>k::nat. int i = 10 + int k * 15 \<and> int i \<le> 40)" by auto
  have "t ! 25" using nth [of 25] by (auto intro: exI [of _ 1])
  moreover have "\<not> t ! 55" using nth [of 55] by simp
  ultimately show ?thesis using t by blast
qed

text \<open>
  Every step is accepted, so a step near the largest \<open>int\<close> wraps the loop variable below
  zero and the table is indexed out of range: the expression panics instead of being rejected
  or accepted.
\<close>

theorem cron_step_overflow_panics:
  "parse_cron_expr ''1-59/9223372036854775807 * * * *'' = Panic"
  by code_simp

section \<open>Parsed schedules are well-formed\<close>

definition schedule_wf :: "expr_schedule \<Rightarrow> bool" where
  "schedule_wf s \<longleftrightarrow> length (minute s) = 60 \<and> length (hour s) = 24 \<and> length (dom s) = 32
     \<and> length (month s) = 13 \<and> length (dow s) = 7"

lemma fill_loop_length: "fill_loop v hi step table = Ok t \<Longrightarrow> length t = length table"
proof (induction v hi step table rule: fill_loop.induct)
  case (1 v hi step table)
  show ?case
    using "1.IH" "1.prems" unfolding fill_loop.simps [of v hi step table]
    by (auto split: if_splits)
qed

lemma fill_range_length: "fill_range part mn mx table = Ok t \<Longrightarrow> length t = length table"
  by (auto simp: fill_range_def bind_outcome_Ok dest: fill_loop_length split: if_splits prod.splits)

lemma fill_parts_length: "fill_parts ps mn mx table = Ok t \<Longrightarrow> length t = length table"
  by (induction ps arbitrary: table) (auto simp: bind_outcome_Ok dest: fill_range_length)

lemma fill_field_length: "fill_field f mn mx table star = Ok (t, s) \<Longrightarrow> length t = length table"
  by (auto simp: fill_field_def Let_def bind_outcome_Ok dest: fill_parts_length)

lemma fill_dow_length: "fill_dow f table = Ok (t, s) \<Longrightarrow> length t = length table"
  by (auto simp: fill_dow_def Let_def bind_outcome_Ok dest: fill_parts_length)

lemma parse_cron_expr_wf:
  assumes "parse_cron_expr expr = Ok s"
  shows "schedule_wf s"
proof -
  obtain f0 f1 f2 f3 f4 where fs: "str_fields (trim_space expr) = [f0, f1, f2, f3, f4]"
    using assms by (auto simp: parse_cron_expr_def split: list.splits)
  show ?thesis
    using assms
    by (auto simp: parse_cron_expr_def fs Let_def bind_outcome_Ok schedule_wf_def empty_schedule_def
        dest!: fill_field_length fill_dow_length)
qed

text \<open>
  Whatever expression is parsed, every table the scheduler later reads has an entry for
  every minute, hour, day, month and weekday of the calendar, so \<open>matches\<close> never indexes
  out of range.
\<close>

theorem cron_matches_in_range:
  assumes "parse_cron_expr expr = Ok s" and "civil (t div day_ns) = (y, m, d)"
  shows "minute_of t < length (minute s) \<and> hour_of t < length (hour s) \<and> m < length (month s)
    \<and> nat d < length (dom s) \<and> weekday_of t < length (dow s)"
proof -
  have "schedule_wf s" using assms(1) by (rule parse_cron_expr_wf)
  moreover have "m \<le> 12" "d \<le> 31" using civil_range [OF assms(2)] by auto
  moreover have "t div minute_ns mod 60 < 60" "t div hour_ns mod 24 < 24" "(t div day_ns + 4) mod 7 < 7"
    by simp_all
  ultimately show ?thesis
    by (simp add: schedule_wf_def minute_of_def hour_of_def weekday_of_def nat_less_iff)
qed

theorem cron_matches_in_range_witness:
  "\<exists>s. parse_cron_expr ''30 9 * * 1-5'' = Ok s \<and> civil (1735689600000000000 div day_ns) = (2025, 1, 1)
     \<and> minute_of 1735689600000000000 < length (minute s)"
proof -
  have "is_ok (parse_cron_expr ''30 9 * * 1-5'')" by code_simp
  then obtain s where s: "parse_cron_expr ''30 9 * * 1-5'' = Ok s" using is_ok_obtain by blast
  have c: "civil (1735689600000000000 div day_ns) = (2025, 1, 1)" by code_simp
  from cron_matches_in_range [OF s c] s c show ?thesis by blast
qed

section \<open>The next occurrence: lemmas\<close>

lemma grid_step:
  fixes m :: int
  assumes "0 < m"
  shows "t \<le> v \<and> (v - t) mod m = 0 \<longleftrightarrow> v = t \<or> (t + m \<le> v \<and> (v - (t + m)) mod m = 0)"
proof -
  have shift: "(v - (t + m)) mod m = (v - t) mod m"
    using minus_mod_self2 [of "v - t" m] by (simp add: algebra_simps)
  have "v = t \<or> t + m \<le> v" if "t \<le> v" "(v - t) mod m = 0"
    using that zdvd_imp_le [of m "v - t"] by (cases "v = t") (auto simp: dvd_eq_mod_eq_0)
  then show ?thesis using assms shift by auto
qed

lemma grid_first:
  fixes m :: int
  assumes "0 < m"
  shows "a < v \<and> v mod m = 0 \<longleftrightarrow> a div m * m + m \<le> v \<and> (v - (a div m * m + m)) mod m = 0"
proof -
  let ?f = "a div m * m + m"
  have f: "?f = (a div m + 1) * m" by (simp add: distrib_right)
  have mod: "(v - ?f) mod m = v mod m"
  proof -
    have "v - ?f = v + m * (- (a div m + 1))" by (simp add: algebra_simps)
    then show ?thesis by (simp only: mod_mult_self2)
  qed
  have "a < v \<longleftrightarrow> ?f \<le> v" if aligned: "v mod m = 0"
  proof -
    obtain k where "v = m * k" using mod_0_imp_dvd [OF aligned] by (elim dvdE)
    then have k: "v = k * m" by (simp add: mult.commute)
    have a: "a = a div m * m + a mod m" "0 \<le> a mod m" "a mod m < m" using assms by simp_all
    have "a < k * m \<longleftrightarrow> a div m < k"
    proof
      assume "a < k * m"
      then have "a div m * m < k * m" using a by linarith
      then show "a div m < k" using assms by simp
    next
      assume "a div m < k"
      then have "(a div m + 1) * m \<le> k * m" using assms by simp
      then show "a < k * m" using a unfolding distrib_right mult_1 by linarith
    qed
    then show ?thesis using assms k f by (simp add: mult_le_cancel_right add1_zle_eq)
  qed
  then show ?thesis using mod by auto
qed

lemma next_from_spec:
  "case next_from s t limit of
     Some u \<Rightarrow> t \<le> u \<and> u < limit \<and> (u - t) mod minute_ns = 0 \<and> cron_matches s u
       \<and> (\<forall>v. t \<le> v \<and> v < u \<and> (v - t) mod minute_ns = 0 \<longrightarrow> \<not> cron_matches s v)
   | None \<Rightarrow> \<forall>v. t \<le> v \<and> v < limit \<and> (v - t) mod minute_ns = 0 \<longrightarrow> \<not> cron_matches s v"
proof (induction s t limit rule: next_from.induct)
  case (1 s t limit)
  have gridD: "v = t \<or> (t + minute_ns \<le> v \<and> (v - (t + minute_ns)) mod minute_ns = 0)"
    if "t \<le> v" "(v - t) mod minute_ns = 0" for v
    using that by (intro grid_step [THEN iffD1]) auto
  have gridI: "t \<le> v \<and> (v - t) mod minute_ns = 0"
    if "t + minute_ns \<le> v" "(v - (t + minute_ns)) mod minute_ns = 0" for v
    using that by (intro grid_step [THEN iffD2]) auto
  show ?case
  proof (cases "t < limit \<and> \<not> cron_matches s t")
    case False
    then show ?thesis by (auto simp: next_from.simps [of s t limit])
  next
    case True
    then have eq: "next_from s t limit = next_from s (t + minute_ns) limit"
      by (simp add: next_from.simps [of s t limit])
    have IH: "case next_from s (t + minute_ns) limit of
        Some u \<Rightarrow> t + minute_ns \<le> u \<and> u < limit \<and> (u - (t + minute_ns)) mod minute_ns = 0
          \<and> cron_matches s u
          \<and> (\<forall>v. t + minute_ns \<le> v \<and> v < u \<and> (v - (t + minute_ns)) mod minute_ns = 0
               \<longrightarrow> \<not> cron_matches s v)
      | None \<Rightarrow> \<forall>v. t + minute_ns \<le> v \<and> v < limit \<and> (v - (t + minute_ns)) mod minute_ns = 0
               \<longrightarrow> \<not> cron_matches s v"
      using "1.IH" True by blast
    show ?thesis
    proof (cases "next_from s (t + minute_ns) limit")
      case None
      with IH have none: "\<And>v. t + minute_ns \<le> v \<Longrightarrow> v < limit \<Longrightarrow> (v - (t + minute_ns)) mod minute_ns = 0
          \<Longrightarrow> \<not> cron_matches s v" by simp
      have "\<not> cron_matches s v" if "t \<le> v" "v < limit" "(v - t) mod minute_ns = 0" for v
        using gridD [OF that(1,3)] none [of v] that(2) True by (elim disjE) simp_all
      then show ?thesis using None eq by simp
    next
      case (Some u)
      with IH have u: "t + minute_ns \<le> u" "u < limit" "(u - (t + minute_ns)) mod minute_ns = 0"
        "cron_matches s u"
        and before: "\<And>v. t + minute_ns \<le> v \<Longrightarrow> v < u \<Longrightarrow> (v - (t + minute_ns)) mod minute_ns = 0
          \<Longrightarrow> \<not> cron_matches s v" by auto
      have "t \<le> u \<and> (u - t) mod minute_ns = 0" by (rule gridI [OF u(1,3)])
      moreover have "\<not> cron_matches s v" if "t \<le> v" "v < u" "(v - t) mod minute_ns = 0" for v
        using gridD [OF that(1,3)] before [of v] that(2) True by (elim disjE) simp_all
      ultimately show ?thesis using u eq Some by simp
    qed
  qed
qed

lemma first_minute_bounds:
  "after < first_minute after" "first_minute after \<le> after + minute_ns"
  "first_minute after mod minute_ns = 0"
proof -
  have "after mod minute_ns < minute_ns" "0 \<le> after mod minute_ns" by simp_all
  then show "after < first_minute after" "first_minute after \<le> after + minute_ns"
    using div_mult_mod_eq [of after minute_ns] unfolding first_minute_def by linarith+
  show "first_minute after mod minute_ns = 0" by (simp add: first_minute_def)
qed

lemma minute_grid:
  "after < v \<and> v mod minute_ns = 0 \<longleftrightarrow>
   first_minute after \<le> v \<and> (v - first_minute after) mod minute_ns = 0"
  unfolding first_minute_def by (rule grid_first) simp

lemmas minute_gridD = minute_grid [THEN iffD1, OF conjI, THEN conjunct1]
  minute_grid [THEN iffD1, OF conjI, THEN conjunct2]

lemmas minute_gridI = minute_grid [THEN iffD2, OF conjI, THEN conjunct1]
  minute_grid [THEN iffD2, OF conjI, THEN conjunct2]

lemma expr_next_after: "expr_next s after = Some u \<Longrightarrow> after < u"
  using next_from_spec [where s = s and t = "first_minute after" and limit = "add_year_and_day (first_minute after)"]
    first_minute_bounds [of after]
  by (auto simp: expr_next_def Let_def)



lemma month_scan_feb:
  "month_scan 1 (month_lengths leap) d = (2, 29) \<Longrightarrow> leap"
  by (auto simp: month_lengths_def split: if_splits)

lemma civil_feb_29: "civil z = (y, 2, 29) \<Longrightarrow> leap_year y"
  by (auto simp: civil_def split: prod.splits dest: month_scan_feb [unfolded One_nat_def])

lemma civil_year_2025:
  assumes "20089 \<le> z" and "z \<le> 20456" and "civil z = (y, m, d)"
  shows "y = 2025 \<or> y = 2026"
proof -
  have a: "(z + 719162) div 146097 = 5"
    using assms by (intro int_div_pos_eq [where r = "z - 11323"]) auto
  then have r: "(z + 719162) mod 146097 = z - 11323" by (simp add: minus_div_mult_eq_mod [symmetric])
  have b: "(z - 11323) div 36524 = 0" using assms by (intro div_pos_pos_trivial) auto
  have c: "(z - 11323) div 1461 = 6" using assms by (intro int_div_pos_eq [where r = "z - 20089"]) auto
  then have r': "(z - 11323) mod 1461 = z - 20089" by (simp add: minus_div_mult_eq_mod [symmetric])
  have "(z - 20089) div 365 = 0 \<or> (z - 20089) div 365 = 1"
  proof (cases "z < 20454")
    case True
    then show ?thesis using assms by (intro disjI1 div_pos_pos_trivial) auto
  next
    case False
    then show ?thesis
      using assms by (intro disjI2 int_div_pos_eq [where r = "z - 20454"]) auto
  qed
  then have "fst (year_day (z + 719162)) = 2025 \<or> fst (year_day (z + 719162)) = 2026"
    unfolding year_day_def Let_def a r b min_def by (auto simp: c r')
  then show ?thesis using assms(3) by (auto simp: civil_def split: prod.splits)
qed

text \<open>
  The search window is one year and a day, so a schedule for 29 February has no next run
  when the following one is further away: on 1 January 2025 the parsed expression has none,
  although 29 February 2028 matches it.
\<close>

theorem leap_day_schedule_has_no_next_run:
  "\<exists>s. parse_cron_expr ''0 0 29 2 *'' = Ok s \<and> expr_next s 1735689600000000000 = None
     \<and> cron_matches s 1835395200000000000"
proof -
  have "is_ok (parse_cron_expr ''0 0 29 2 *'')" by code_simp
  then obtain s where s: "parse_cron_expr ''0 0 29 2 *'' = Ok s" using is_ok_obtain by blast
  have "(case parse_cron_expr ''0 0 29 2 *'' of Ok s \<Rightarrow>
      cron_matches s 1835395200000000000 \<and> dow_star s \<and> \<not> dom_star s
      \<and> list_all (\<lambda>i. month s ! i \<longrightarrow> i = 2) [0..<13] \<and> list_all (\<lambda>i. dom s ! i \<longrightarrow> i = 29) [0..<32]
    | _ \<Rightarrow> False)" by code_simp
  with s have m: "cron_matches s 1835395200000000000" "dow_star s" "\<not> dom_star s"
    and month: "\<And>i. i < 13 \<Longrightarrow> month s ! i \<Longrightarrow> i = 2"
    and dom: "\<And>i. i < 32 \<Longrightarrow> dom s ! i \<Longrightarrow> i = 29"
    by (auto simp: list_all_iff)
  have limit: "add_year_and_day (first_minute 1735689600000000000) = 1767312060000000000"
    by code_simp
  have "\<not> cron_matches s u" if "1735689600000000000 < u" "u < 1767312060000000000" for u
  proof
    assume match: "cron_matches s u"
    obtain y mo d where c: "civil (u div day_ns) = (y, mo, d)" by (cases "civil (u div day_ns)")
    have "mo = 2 \<and> nat d = 29"
      using match c m(2,3) civil_range [OF c] month [of mo] dom [of "nat d"]
      by (auto simp: cron_matches_def Let_def nat_less_iff split: if_splits)
    then have "leap_year y" using c civil_range [OF c] by (intro civil_feb_29 [of "u div day_ns"]) auto
    moreover have "20089 \<le> u div day_ns" "u div day_ns \<le> 20456" using that by linarith+
    then have "y = 2025 \<or> y = 2026" using c by (rule civil_year_2025)
    ultimately show False by (auto simp: leap_year_def)
  qed
  then have "expr_next s 1735689600000000000 = None"
    using next_from_spec [where s = s and t = "first_minute 1735689600000000000" and limit = 1767312060000000000] limit
      first_minute_bounds [of 1735689600000000000]
    by (auto simp: expr_next_def Let_def split: option.splits)
  with s m(1) show ?thesis by blast
qed

text \<open>
  Sunday may be written 7 on its own, where it means 0, but not as the end of a range:
  \<open>5-7\<close> is rewritten to \<open>5-0\<close> and rejected.
\<close>

theorem dow_seven:
  "parse_cron_expr ''0 0 * * 7'' = parse_cron_expr ''0 0 * * 0''
   \<and> parse_cron_expr ''0 0 * * 5-7'' = Err (InDow (OutOfRange 0 6 ''5-0''))"
  by (intro conjI; code_simp)

end
