(* ===== verification/Query_Admission.thy ===== *)
theory Query_Admission
  imports Gonvex_Prelude "HOL-Library.AList" "HOL-Library.Multiset"
begin

text \<open>
  \<open>server/internal/server/query_admission.go\<close>: the admission controller in front of every
  database-backed query. Go's waiter pointers are addresses into a heap of waiter records
  (a list, allocated at its end); a map from tenants to waiter queues is an association
  list, so ranging over the map is a traversal of that list; durations are nanoseconds and
  the two millisecond metrics are kept in microseconds, before the division by 1000.
  Each critical section of the Go code is one function of the state.
\<close>

section \<open>State\<close>

datatype adm_class = Reactive | Foreground | Bootstrap

text \<open>\<open>admissionClassForReason\<close>.\<close>

definition class_for_reason :: "string \<Rightarrow> adm_class" where
  "class_for_reason reason =
     (if reason = ''invalidate'' \<or> reason = ''recover'' then Reactive else Bootstrap)"

abbreviation aging_threshold :: int where "aging_threshold \<equiv> 250000000"

record waiter =
  w_class :: adm_class
  w_tenant :: string
  w_enqueued :: int
  w_granted :: bool
  w_removed :: bool

record adm_queue =
  by_tenant :: "(string \<times> nat list) list"
  order :: "string list"
  cursor :: nat
  waiting :: int

record class_metrics =
  m_admitted :: int
  m_waited :: int
  m_wait_us :: int
  m_max_wait_us :: int
  m_cancelled :: int
  m_active :: int
  m_delayed :: int
  m_longest :: int

record admission =
  total :: int
  boot_permits :: int
  active :: int
  boot_active :: int
  queues :: "adm_class \<Rightarrow> adm_queue"
  metrics :: "adm_class \<Rightarrow> class_metrics"
  heap :: "waiter list"

section \<open>Queues\<close>

definition new_queue :: adm_queue where
  "new_queue = \<lparr>by_tenant = [], order = [], cursor = 0, waiting = 0\<rparr>"

text \<open>Reading a missing key of a Go map gives the zero value, here the nil slice.\<close>

definition tenant_queue :: "adm_queue \<Rightarrow> string \<Rightarrow> nat list" where
  "tenant_queue q t = (case map_of (by_tenant q) t of None \<Rightarrow> [] | Some xs \<Rightarrow> xs)"

definition push :: "nat \<Rightarrow> string \<Rightarrow> adm_queue \<Rightarrow> adm_queue" where
  "push a t q =
     (let q = (if map_of (by_tenant q) t = None then q\<lparr>order := order q @ [t]\<rparr> else q)
      in q\<lparr>by_tenant := AList.update t (tenant_queue q t @ [a]) (by_tenant q),
          waiting := waiting q + 1\<rparr>)"

function pop :: "waiter list \<Rightarrow> adm_queue \<Rightarrow> adm_queue \<times> nat option" where
  "pop h q =
     (if order q = [] then (q, None)
      else
        let c = (if length (order q) \<le> cursor q then 0 else cursor q);
            t = order q ! c;
            xs = dropWhile (\<lambda>a. w_removed (h ! a)) (tenant_queue q t)
        in case xs of
             [] \<Rightarrow> pop h (q\<lparr>cursor := c, by_tenant := AList.delete t (by_tenant q),
                           order := take c (order q) @ drop (Suc c) (order q)\<rparr>)
           | a # rest \<Rightarrow> (q\<lparr>by_tenant := AList.update t rest (by_tenant q), cursor := Suc c,
                           waiting := waiting q - 1\<rparr>, Some a))"
  by pat_completeness auto
termination
  by (relation "measure (\<lambda>(h, q). length (order q))") auto

declare pop.simps [simp del]

text \<open>\<open>oldestWait\<close>: the first live waiter of every tenant, the longest wait of those.\<close>

definition first_wait :: "waiter list \<Rightarrow> int \<Rightarrow> nat list \<Rightarrow> int" where
  "first_wait h now xs =
     (case dropWhile (\<lambda>a. w_removed (h ! a)) xs of [] \<Rightarrow> 0 | a # _ \<Rightarrow> now - w_enqueued (h ! a))"

definition oldest_wait :: "waiter list \<Rightarrow> int \<Rightarrow> adm_queue \<Rightarrow> int" where
  "oldest_wait h now q =
     fold (\<lambda>(t, xs) oldest. if oldest < first_wait h now xs then first_wait h now xs else oldest)
       (by_tenant q) 0"

definition tenant_stats :: "waiter list \<Rightarrow> adm_queue \<Rightarrow> nat \<times> nat" where
  "tenant_stats h q =
     fold (\<lambda>(t, xs) (tenants, largest).
       let live = length (filter (\<lambda>a. \<not> w_removed (h ! a)) xs)
       in if 0 < live then (Suc tenants, max largest live) else (tenants, largest))
       (by_tenant q) (0, 0)"

section \<open>The controller\<close>

definition zero_metrics :: class_metrics where
  "zero_metrics = \<lparr>m_admitted = 0, m_waited = 0, m_wait_us = 0, m_max_wait_us = 0,
     m_cancelled = 0, m_active = 0, m_delayed = 0, m_longest = 0\<rparr>"

text \<open>\<open>newQueryAdmission\<close>; \<open>None\<close> is the nil controller that admits everything.\<close>

definition new_admission :: "int \<Rightarrow> int \<Rightarrow> admission option" where
  "new_admission total_permits bootstrap_permits =
     (if total_permits \<le> 0 then None
      else
        let b = (if bootstrap_permits \<le> 0 then max 1 (total_permits div 4) else bootstrap_permits);
            b = (if total_permits < b then total_permits else b)
        in Some \<lparr>total = total_permits, boot_permits = b, active = 0, boot_active = 0,
             queues = (\<lambda>_. new_queue), metrics = (\<lambda>_. zero_metrics), heap = []\<rparr>)"

definition upd_metrics :: "adm_class \<Rightarrow> (class_metrics \<Rightarrow> class_metrics) \<Rightarrow> admission \<Rightarrow> admission" where
  "upd_metrics c f s = s\<lparr>metrics := (metrics s)(c := f (metrics s c))\<rparr>"

definition set_queue :: "adm_class \<Rightarrow> adm_queue \<Rightarrow> admission \<Rightarrow> admission" where
  "set_queue c q s = s\<lparr>queues := (queues s)(c := q)\<rparr>"

definition record_wait :: "adm_class \<Rightarrow> nat \<Rightarrow> int \<Rightarrow> admission \<Rightarrow> admission" where
  "record_wait c a now s =
     (let wait = now - w_enqueued (heap s ! a); us = go_div wait 1000
      in upd_metrics c (\<lambda>m.
           let m = m\<lparr>m_wait_us := m_wait_us m + us\<rparr>
           in if m_longest m < wait then m\<lparr>m_longest := wait, m_max_wait_us := us\<rparr> else m) s)"

definition admissible :: "adm_class \<Rightarrow> admission \<Rightarrow> bool" where
  "admissible c s =
     (if total s \<le> active s then False
      else if c \<noteq> Bootstrap then True
      else if boot_active s < boot_permits s then True
      else waiting (queues s Reactive) = 0 \<and> waiting (queues s Foreground) = 0)"

definition grant :: "adm_class \<Rightarrow> admission \<Rightarrow> admission" where
  "grant c s =
     (let s = upd_metrics c (\<lambda>m. m\<lparr>m_active := m_active m + 1\<rparr>) (s\<lparr>active := active s + 1\<rparr>)
      in if c = Bootstrap then s\<lparr>boot_active := boot_active s + 1\<rparr> else s)"

definition pop_class :: "adm_class \<Rightarrow> admission \<Rightarrow> admission \<times> nat option" where
  "pop_class c s = (let (q, r) = pop (heap s) (queues s c) in (set_queue c q s, r))"

text \<open>\<open>waiter = q.pop()\<close> under \<open>waiter == nil\<close> and a further condition.\<close>

definition pop_if :: "bool \<Rightarrow> adm_class \<Rightarrow> admission \<times> nat option \<Rightarrow> admission \<times> nat option" where
  "pop_if cond c sr = (case sr of (s, Some a) \<Rightarrow> (s, Some a)
     | (s, None) \<Rightarrow> if cond then pop_class c s else (s, None))"

text \<open>One round of the dispatcher's choice of the next waiter.\<close>

definition next_waiter :: "int \<Rightarrow> admission \<Rightarrow> admission \<times> nat option" where
  "next_waiter now s =
     (let r1 = pop_if (boot_active s < boot_permits s) Bootstrap (s, None);
          r2 = pop_if (aging_threshold < oldest_wait (heap (fst r1)) now (queues (fst r1) Foreground))
                 Foreground r1;
          r3 = pop_if True Reactive r2;
          r4 = pop_if True Foreground r3
      in pop_if (waiting (queues (fst r4) Reactive) = 0 \<and> waiting (queues (fst r4) Foreground) = 0)
           Bootstrap r4)"

definition hand_permit :: "nat \<Rightarrow> admission \<Rightarrow> admission" where
  "hand_permit a s =
     (let c = w_class (heap s ! a);
          s = s\<lparr>heap := (heap s)[a := (heap s ! a)\<lparr>w_granted := True\<rparr>]\<rparr>
      in upd_metrics c (\<lambda>m. m\<lparr>m_admitted := m_admitted m + 1\<rparr>) (grant c s))"

lemma pop_class_frame [simp]:
  "total (fst (pop_class c s)) = total s" "active (fst (pop_class c s)) = active s"
  "heap (fst (pop_class c s)) = heap s" "boot_permits (fst (pop_class c s)) = boot_permits s"
  "boot_active (fst (pop_class c s)) = boot_active s" "metrics (fst (pop_class c s)) = metrics s"
  by (simp_all add: pop_class_def set_queue_def split: prod.splits)

lemma pop_if_frame [simp]:
  "total (fst (pop_if b c r)) = total (fst r)" "active (fst (pop_if b c r)) = active (fst r)"
  "heap (fst (pop_if b c r)) = heap (fst r)" "boot_permits (fst (pop_if b c r)) = boot_permits (fst r)"
  "boot_active (fst (pop_if b c r)) = boot_active (fst r)" "metrics (fst (pop_if b c r)) = metrics (fst r)"
  by (simp_all add: pop_if_def split: prod.splits option.splits)

lemma next_waiter_frame [simp]:
  "total (fst (next_waiter now s)) = total s" "active (fst (next_waiter now s)) = active s"
  "heap (fst (next_waiter now s)) = heap s" "boot_permits (fst (next_waiter now s)) = boot_permits s"
  "boot_active (fst (next_waiter now s)) = boot_active s" "metrics (fst (next_waiter now s)) = metrics s"
  by (simp_all add: next_waiter_def Let_def)

lemma next_waiter_result:
  assumes "next_waiter now s = (s', r)"
  shows "total s' = total s \<and> active s' = active s \<and> heap s' = heap s
    \<and> boot_permits s' = boot_permits s \<and> boot_active s' = boot_active s \<and> metrics s' = metrics s"
  using next_waiter_frame [of now s] by (simp add: assms)

lemma hand_permit_frame [simp]:
  "total (hand_permit a s) = total s" "active (hand_permit a s) = active s + 1"
  "queues (hand_permit a s) = queues s" "boot_permits (hand_permit a s) = boot_permits s"
  "length (heap (hand_permit a s)) = length (heap s)"
  by (simp_all add: hand_permit_def grant_def upd_metrics_def Let_def)

function dispatch :: "int \<Rightarrow> admission \<Rightarrow> admission" where
  "dispatch now s =
     (if active s < total s then
        (case next_waiter now s of
           (s', None) \<Rightarrow> s'
         | (s', Some a) \<Rightarrow> dispatch now (hand_permit a s'))
      else s)"
  by pat_completeness auto
termination
  by (relation "measure (\<lambda>(now, s). nat (total s - active s))")
    (auto dest!: next_waiter_result [OF sym])

declare dispatch.simps [simp del]

definition release_locked :: "adm_class \<Rightarrow> int \<Rightarrow> admission \<Rightarrow> admission" where
  "release_locked c now s =
     (let s = upd_metrics c (\<lambda>m. m\<lparr>m_active := m_active m - 1\<rparr>) (s\<lparr>active := active s - 1\<rparr>);
          s = (if c = Bootstrap then s\<lparr>boot_active := boot_active s - 1\<rparr> else s)
      in dispatch now s)"

text \<open>An \<open>admissionClass\<close> is an integer; a value outside the three constants is foreground.\<close>

definition class_of_int :: "int \<Rightarrow> adm_class" where
  "class_of_int i = (if i = 0 then Reactive else if i = 2 then Bootstrap else Foreground)"

text \<open>
  The first critical section of \<open>acquire\<close>: a permit at once (\<open>None\<close>), or the address of the
  waiter the caller now blocks on.
\<close>

definition acquire_enter :: "int \<Rightarrow> string \<Rightarrow> int \<Rightarrow> admission \<Rightarrow> admission \<times> nat option" where
  "acquire_enter cls tenant now s =
     (let c = class_of_int cls in
      if admissible c s then
        (upd_metrics c (\<lambda>m. m\<lparr>m_admitted := m_admitted m + 1\<rparr>) (grant c s), None)
      else
        let a = length (heap s);
            s = s\<lparr>heap := heap s @ [\<lparr>w_class = c, w_tenant = tenant, w_enqueued = now,
                                  w_granted = False, w_removed = False\<rparr>]\<rparr>;
            s = set_queue c (push a tenant (queues s c)) s;
            s = upd_metrics c (\<lambda>m. m\<lparr>m_waited := m_waited m + 1\<rparr>) s;
            s = (if c = Reactive \<and> 0 < boot_active s
                 then upd_metrics Reactive (\<lambda>m. m\<lparr>m_delayed := m_delayed m + 1\<rparr>) s else s)
        in (s, Some a))"

text \<open>The second critical section, after \<open>waiter.ready\<close> was closed.\<close>

definition acquire_ready :: "adm_class \<Rightarrow> nat \<Rightarrow> int \<Rightarrow> admission \<Rightarrow> admission" where
  "acquire_ready c a now s = record_wait c a now s"

text \<open>The second critical section, after the context was cancelled.\<close>

definition acquire_cancel :: "adm_class \<Rightarrow> nat \<Rightarrow> int \<Rightarrow> admission \<Rightarrow> admission" where
  "acquire_cancel c a now s =
     (if w_granted (heap s ! a) then release_locked c now (record_wait c a now s)
      else
        let s = s\<lparr>heap := (heap s)[a := (heap s ! a)\<lparr>w_removed := True\<rparr>]\<rparr>;
            s = set_queue c ((queues s c)\<lparr>waiting := waiting (queues s c) - 1\<rparr>) s;
            s = upd_metrics c (\<lambda>m. m\<lparr>m_cancelled := m_cancelled m + 1\<rparr>) s
        in dispatch now s)"

definition adm_release :: "adm_class \<Rightarrow> int \<Rightarrow> admission \<Rightarrow> admission" where
  "adm_release c now s = release_locked c now s"

record admission_snapshot =
  sn_total :: int
  sn_boot :: int
  sn_active :: int
  sn_boot_active :: int
  sn_classes :: "adm_class \<Rightarrow> class_metrics \<times> int \<times> nat \<times> nat"

definition snapshot :: "admission \<Rightarrow> admission_snapshot" where
  "snapshot s =
     \<lparr>sn_total = total s, sn_boot = boot_permits s, sn_active = active s, sn_boot_active = boot_active s,
      sn_classes = (\<lambda>c. (metrics s c, waiting (queues s c), tenant_stats (heap s) (queues s c)))\<rparr>"

section \<open>Queue invariant\<close>

abbreviation ids_of :: "(string \<times> nat list) list \<Rightarrow> nat multiset" where
  "ids_of bt \<equiv> mset (concat (map snd bt))"

definition live_ms :: "waiter list \<Rightarrow> adm_queue \<Rightarrow> nat multiset" where
  "live_ms h q = filter_mset (\<lambda>a. \<not> w_removed (h ! a)) (ids_of (by_tenant q))"

text \<open>
  The keys of \<open>byTenant\<close> and the entries of \<open>order\<close> agree, the queued addresses are
  distinct, allocated, of the queue's class and not granted, and \<open>waiting\<close> counts the live
  ones.
\<close>

definition queue_ok :: "waiter list \<Rightarrow> adm_class \<Rightarrow> adm_queue \<Rightarrow> bool" where
  "queue_ok h c q \<longleftrightarrow>
     distinct (map fst (by_tenant q)) \<and> distinct (order q)
   \<and> set (order q) = set (map fst (by_tenant q))
   \<and> waiting q = int (size (live_ms h q))
   \<and> distinct (concat (map snd (by_tenant q)))
   \<and> (\<forall>a \<in># ids_of (by_tenant q). a < length h \<and> w_class (h ! a) = c \<and> \<not> w_granted (h ! a))"

lemma queue_ok_mem:
  "queue_ok h c q \<Longrightarrow> a \<in># ids_of (by_tenant q) \<Longrightarrow>
   a < length h \<and> w_class (h ! a) = c \<and> \<not> w_granted (h ! a)"
  unfolding queue_ok_def by blast

lemma ids_update:
  "distinct (map fst bt) \<Longrightarrow>
   ids_of (AList.update t ys bt) + mset (case map_of bt t of None \<Rightarrow> [] | Some xs \<Rightarrow> xs)
     = ids_of bt + mset ys"
  by (induction bt) (auto simp: map_of_eq_None_iff)

lemma ids_delete:
  "distinct (map fst bt) \<Longrightarrow>
   ids_of (AList.delete t bt) + mset (case map_of bt t of None \<Rightarrow> [] | Some xs \<Rightarrow> xs) = ids_of bt"
proof (induction bt)
  case (Cons p bt)
  obtain k xs where p: "p = (k, xs)" by (cases p)
  show ?case
  proof (cases "k = t")
    case True
    with Cons.prems p have "AList.delete t bt = bt"
      by (auto simp: delete_id map_of_eq_None_iff)
    then show ?thesis using p True by (simp add: delete_simps)
  next
    case False
    with Cons p show ?thesis by (simp add: delete_simps)
  qed
qed simp

lemma distinct_mset_count: "distinct xs \<longleftrightarrow> (\<forall>a. count (mset xs) a \<le> 1)"
proof
  assume "distinct xs"
  then show "\<forall>a. count (mset xs) a \<le> 1" by (simp add: distinct_count_atmost_1)
next
  assume "\<forall>a. count (mset xs) a \<le> 1"
  moreover have "a \<in> set xs \<Longrightarrow> 1 \<le> count (mset xs) a" for a
    by (simp add: Suc_le_eq)
  ultimately show "distinct xs"
    unfolding distinct_count_atmost_1 by (auto intro: le_antisym simp: count_eq_zero_iff)
qed

lemma distinct_submset:
  "mset ys \<subseteq># mset xs \<Longrightarrow> distinct xs \<Longrightarrow> distinct ys"
  unfolding distinct_mset_count by (meson mset_subset_eq_count order_trans)

lemma live_dropWhile:
  "filter_mset (\<lambda>a. \<not> r a) (mset (dropWhile r xs)) = filter_mset (\<lambda>a. \<not> r a) (mset xs)"
  by (induction xs) auto

lemma queue_ok_subset:
  assumes "queue_ok h c q" and "distinct (map fst (by_tenant q'))" and "distinct (order q')"
    and "set (order q') = set (map fst (by_tenant q'))" and "waiting q' = int (size (live_ms h q'))"
    and "ids_of (by_tenant q') \<subseteq># ids_of (by_tenant q)"
  shows "queue_ok h c q'"
proof -
  have "distinct (concat (map snd (by_tenant q')))"
    using assms(1) distinct_submset [OF assms(6)] by (simp add: queue_ok_def)
  moreover have "\<forall>a \<in># ids_of (by_tenant q'). a < length h \<and> w_class (h ! a) = c \<and> \<not> w_granted (h ! a)"
    using assms(1) mset_subset_eqD [OF assms(6)] unfolding queue_ok_def by blast
  ultimately show ?thesis using assms(2-5) unfolding queue_ok_def by blast
qed

lemma tenant_queue_in:
  "tenant_queue q t \<noteq> [] \<Longrightarrow> set (tenant_queue q t) \<subseteq> set (concat (map snd (by_tenant q)))"
  by (auto simp: tenant_queue_def split: option.splits dest!: map_of_SomeD)

lemma order_without:
  assumes "distinct xs" and "i < length xs"
  shows "distinct (take i xs @ drop (Suc i) xs)"
    and "set (take i xs @ drop (Suc i) xs) = set xs - {xs ! i}"
proof -
  have xs: "xs = take i xs @ xs ! i # drop (Suc i) xs" using assms(2) by (rule id_take_nth_drop)
  then have "distinct (take i xs @ xs ! i # drop (Suc i) xs)" using assms(1) by simp
  then show "distinct (take i xs @ drop (Suc i) xs)" by simp
  have "set xs = insert (xs ! i) (set (take i xs @ drop (Suc i) xs))"
    by (subst xs) auto
  moreover have "xs ! i \<notin> set (take i xs @ drop (Suc i) xs)"
    using \<open>distinct (take i xs @ xs ! i # drop (Suc i) xs)\<close> by simp
  ultimately show "set (take i xs @ drop (Suc i) xs) = set xs - {xs ! i}" by blast
qed

text \<open>Dropping a tenant all of whose waiters were cancelled.\<close>

lemma drop_tenant_ok:
  assumes ok: "queue_ok h c q" and i: "i < length (order q)"
    and none: "dropWhile (\<lambda>a. w_removed (h ! a)) (tenant_queue q (order q ! i)) = []"
    and q1: "q1 = q\<lparr>cursor := i, by_tenant := AList.delete (order q ! i) (by_tenant q),
      order := take i (order q) @ drop (Suc i) (order q)\<rparr>"
  shows "queue_ok h c q1" and "live_ms h q1 = live_ms h q"
proof -
  have keys: "distinct (map fst (by_tenant q))" "set (order q) = set (map fst (by_tenant q))"
    "distinct (order q)" using ok by (simp_all add: queue_ok_def)
  have del: "ids_of (by_tenant q1) + mset (tenant_queue q (order q ! i)) = ids_of (by_tenant q)"
    using ids_delete [OF keys(1)] by (simp add: q1 tenant_queue_def)
  have empty: "filter_mset (\<lambda>a. \<not> w_removed (h ! a)) (mset (tenant_queue q (order q ! i))) = {#}"
    using live_dropWhile [of "\<lambda>a. w_removed (h ! a)" "tenant_queue q (order q ! i)"] none
    by (simp only: mset.simps filter_empty_mset)
  show live: "live_ms h q1 = live_ms h q"
    using arg_cong [OF del, of "filter_mset (\<lambda>a. \<not> w_removed (h ! a))"]
    by (simp add: live_ms_def empty)
  show "queue_ok h c q1"
  proof (rule queue_ok_subset [OF ok])
    show "distinct (map fst (by_tenant q1))" using keys by (simp add: q1 distinct_delete)
    show "distinct (order q1)" using order_without [OF keys(3) i] by (simp add: q1)
    show "set (order q1) = set (map fst (by_tenant q1))"
      using order_without(2) [OF keys(3) i] keys(2) by (simp add: q1 delete_keys)
    show "waiting q1 = int (size (live_ms h q1))" using ok live by (simp add: queue_ok_def q1)
    show "ids_of (by_tenant q1) \<subseteq># ids_of (by_tenant q)"
      using del mset_subset_eq_add_left by metis
  qed
qed

lemma pop_ok:
  assumes "queue_ok h c q" and "pop h q = (q', r)"
  shows "queue_ok h c q' \<and>
    (case r of None \<Rightarrow> live_ms h q = {#} \<and> live_ms h q' = {#}
     | Some a \<Rightarrow> live_ms h q = add_mset a (live_ms h q'))"
  using assms
proof (induction h q rule: pop.induct)
  case (1 h q)
  note ok = "1.prems"(1)
  show ?case
  proof (cases "order q = []")
    case True
    then have "by_tenant q = []" using ok by (simp add: queue_ok_def)
    then show ?thesis using True "1.prems" by (simp add: pop.simps [of h q] live_ms_def)
  next
    case False
    define i where "i = (if length (order q) \<le> cursor q then 0 else cursor q)"
    define t where "t = order q ! i"
    define xs where "xs = tenant_queue q t"
    define ys where "ys = dropWhile (\<lambda>a. w_removed (h ! a)) xs"
    have i: "i < length (order q)" using False by (auto simp: i_def)
    have keys: "distinct (map fst (by_tenant q))" "set (order q) = set (map fst (by_tenant q))"
      "distinct (order q)" using ok by (simp_all add: queue_ok_def)
    have upd: "ids_of (AList.update t zs (by_tenant q)) + mset xs = ids_of (by_tenant q) + mset zs" for zs
      using ids_update [OF keys(1)] by (simp add: xs_def tenant_queue_def)
    have t: "t \<in> set (map fst (by_tenant q))" using i keys by (auto simp: t_def)
    have live: "filter_mset (\<lambda>a. \<not> w_removed (h ! a)) (mset ys) = filter_mset (\<lambda>a. \<not> w_removed (h ! a)) (mset xs)"
      by (simp only: ys_def live_dropWhile)
    have step: "pop h q = (case ys of
        [] \<Rightarrow> pop h (q\<lparr>cursor := i, by_tenant := AList.delete t (by_tenant q),
                order := take i (order q) @ drop (Suc i) (order q)\<rparr>)
      | a # rest \<Rightarrow> (q\<lparr>by_tenant := AList.update t rest (by_tenant q), cursor := Suc i,
                waiting := waiting q - 1\<rparr>, Some a))"
      unfolding ys_def xs_def t_def i_def by (subst pop.simps) (simp only: False if_False Let_def)
    show ?thesis
    proof (cases ys)
      case Nil
      define q1 where "q1 = q\<lparr>cursor := i, by_tenant := AList.delete t (by_tenant q),
        order := take i (order q) @ drop (Suc i) (order q)\<rparr>"
      have pop: "pop h q = pop h q1"
        using step Nil by (simp add: q1_def)
      note ok1 = drop_tenant_ok [OF ok i Nil [unfolded ys_def xs_def t_def] q1_def [unfolded t_def]]
      from ok1 show ?thesis
        using "1.IH" [OF False i_def t_def ys_def [unfolded xs_def] Nil, folded q1_def] "1.prems"(2)
          pop by (cases r) simp_all
    next
      case (Cons a rest)
      have q': "q' = q\<lparr>by_tenant := AList.update t rest (by_tenant q), cursor := Suc i, waiting := waiting q - 1\<rparr>"
        and r: "r = Some a"
        using step Cons "1.prems"(2) by simp_all
      have "\<not> w_removed (h ! a)" using Cons hd_dropWhile [of "\<lambda>a. w_removed (h ! a)" xs]
        by (simp add: ys_def [symmetric])
      then have live': "live_ms h q = add_mset a (live_ms h q')"
        using arg_cong [OF upd [of rest], of "filter_mset (\<lambda>a. \<not> w_removed (h ! a))"] live [symmetric] Cons
        by (simp add: live_ms_def q')
      have "queue_ok h c q'"
      proof (rule queue_ok_subset [OF ok])
        show "distinct (map fst (by_tenant q'))" using keys by (simp add: q' distinct_update)
        show "distinct (order q')" using keys by (simp add: q')
        show "set (order q') = set (map fst (by_tenant q'))" using keys t by (simp add: q' update_keys)
        show "waiting q' = int (size (live_ms h q'))" using ok live' by (simp add: queue_ok_def q')
        have "mset rest \<subseteq># mset xs"
        proof -
          have "xs = takeWhile (\<lambda>a. w_removed (h ! a)) xs @ a # rest"
            using Cons ys_def by (metis takeWhile_dropWhile_id)
          then have "mset xs = mset (takeWhile (\<lambda>a. w_removed (h ! a)) xs @ [a]) + mset rest"
            by (metis append.assoc append_Cons append_Nil mset_append)
          then show ?thesis by simp
        qed
        then show "ids_of (by_tenant q') \<subseteq># ids_of (by_tenant q)"
          using upd [of rest] by (simp add: q') (metis subset_mset.add_le_cancel_right subset_mset.add_left_mono)
      qed
      then show ?thesis using live' r by simp
    qed
  qed
qed

section \<open>Dispatching\<close>

definition queues_ok :: "admission \<Rightarrow> bool" where
  "queues_ok s \<longleftrightarrow> (\<forall>c. queue_ok (heap s) c (queues s c))"

abbreviation live :: "admission \<Rightarrow> adm_class \<Rightarrow> nat multiset" where
  "live s c \<equiv> live_ms (heap s) (queues s c)"

lemma queues_ok_waiting: "queues_ok s \<Longrightarrow> waiting (queues s c) = int (size (live s c))"
  by (simp add: queues_ok_def queue_ok_def)

text \<open>What a choice of a waiter does to the queues: at most one live waiter leaves its queue.\<close>

definition takes :: "admission \<Rightarrow> admission \<times> nat option \<Rightarrow> bool" where
  "takes s sr \<longleftrightarrow> queues_ok (fst sr) \<and> heap (fst sr) = heap s \<and>
     (case snd sr of
        None \<Rightarrow> \<forall>c. live (fst sr) c = live s c
      | Some a \<Rightarrow> \<exists>c. live s c = add_mset a (live (fst sr) c) \<and> (\<forall>k. k \<noteq> c \<longrightarrow> live (fst sr) k = live s k))"

lemma pop_class_takes:
  assumes "queues_ok s"
  shows "takes s (pop_class c s)" and "snd (pop_class c s) = None \<Longrightarrow> live s c = {#}"
proof -
  obtain q r where pop: "pop (heap s) (queues s c) = (q, r)" by fastforce
  have ok: "queue_ok (heap s) c (queues s c)" using assms by (simp add: queues_ok_def)
  note spec = pop_ok [OF ok pop]
  have eq: "pop_class c s = (set_queue c q s, r)" by (simp add: pop_class_def pop)
  have q: "queues_ok (set_queue c q s)" using assms spec by (simp add: queues_ok_def set_queue_def)
  show "takes s (pop_class c s)"
  proof (cases r)
    case None
    then show ?thesis using q spec eq by (auto simp: takes_def set_queue_def)
  next
    case (Some a)
    then show ?thesis
      using q spec eq by (auto simp: takes_def set_queue_def intro!: exI [of _ c])
  qed
  show "snd (pop_class c s) = None \<Longrightarrow> live s c = {#}" using spec eq by auto
qed

lemma pop_if_takes:
  assumes "takes s r"
  shows "takes s (pop_if b c r)"
    and "snd (pop_if b c r) = None \<Longrightarrow> b \<Longrightarrow> live s c = {#}"
    and "snd (pop_if b c r) = None \<Longrightarrow> snd r = None"
proof -
  obtain s1 r1 where r: "r = (s1, r1)" by (cases r)
  have ok: "queues_ok s1" using assms by (simp add: takes_def r)
  show "takes s (pop_if b c r)"
  proof (cases r1)
    case None
    then have "\<And>k. live s1 k = live s k" "heap s1 = heap s" using assms by (auto simp: takes_def r)
    then show ?thesis
      using assms pop_class_takes(1) [OF ok, of c] r None
      by (auto simp: pop_if_def takes_def split: option.splits)
  next
    case (Some a)
    then show ?thesis using assms by (simp add: pop_if_def r)
  qed
  show "snd (pop_if b c r) = None \<Longrightarrow> b \<Longrightarrow> live s c = {#}"
    using assms pop_class_takes(2) [OF ok, of c]
    by (auto simp: pop_if_def takes_def r split: option.splits)
  show "snd (pop_if b c r) = None \<Longrightarrow> snd r = None"
    by (auto simp: pop_if_def split: prod.splits option.splits)
qed

lemma next_waiter_takes:
  assumes "queues_ok s"
  shows "takes s (next_waiter now s)"
    and "snd (next_waiter now s) = None \<Longrightarrow> live s c = {#}"
proof -
  define r1 where "r1 = pop_if (boot_active s < boot_permits s) Bootstrap (s, None)"
  define r2 where "r2 = pop_if (aging_threshold < oldest_wait (heap (fst r1)) now (queues (fst r1) Foreground))
      Foreground r1"
  define r3 where "r3 = pop_if True Reactive r2"
  define r4 where "r4 = pop_if True Foreground r3"
  have t0: "takes s (s, None)" using assms by (simp add: takes_def)
  have t1: "takes s r1" unfolding r1_def by (rule pop_if_takes(1) [OF t0])
  have t2: "takes s r2" unfolding r2_def by (rule pop_if_takes(1) [OF t1])
  have t3: "takes s r3" unfolding r3_def by (rule pop_if_takes(1) [OF t2])
  have t4: "takes s r4" unfolding r4_def by (rule pop_if_takes(1) [OF t3])
  have eq: "next_waiter now s =
      pop_if (waiting (queues (fst r4) Reactive) = 0 \<and> waiting (queues (fst r4) Foreground) = 0) Bootstrap r4"
    by (simp only: next_waiter_def Let_def r1_def r2_def r3_def r4_def)
  show "takes s (next_waiter now s)" unfolding eq by (rule pop_if_takes(1) [OF t4])
  assume none: "snd (next_waiter now s) = None"
  have n4: "snd r4 = None" by (rule pop_if_takes(3) [OF t4 none [unfolded eq]])
  then have F: "live s Foreground = {#}" using pop_if_takes(2) [OF t3, of True Foreground] by (simp add: r4_def)
  have n3: "snd r3 = None" using pop_if_takes(3) [OF t3, of True Foreground] n4 by (simp add: r4_def)
  then have R: "live s Reactive = {#}" using pop_if_takes(2) [OF t2, of True Reactive] by (simp add: r3_def)
  have "queues_ok (fst r4)" "\<And>k. live (fst r4) k = live s k" using t4 n4 by (auto simp: takes_def)
  then have "waiting (queues (fst r4) Reactive) = 0 \<and> waiting (queues (fst r4) Foreground) = 0"
    using F R queues_ok_waiting [of "fst r4"] by simp
  then have "live s Bootstrap = {#}"
    by (rule pop_if_takes(2) [OF t4 none [unfolded eq]])
  then show "live s c = {#}" using F R by (cases c) auto
qed

text \<open>Granting a waiter that has left its queue keeps the queues well-formed.\<close>

lemma live_ms_heap_cong:
  "(\<And>a. a \<in># ids_of (by_tenant q) \<Longrightarrow> w_removed (h' ! a) = w_removed (h ! a)) \<Longrightarrow>
   live_ms h' q = live_ms h q"
  by (auto simp: live_ms_def intro!: filter_mset_cong)

lemma grant_heap_live:
  "a < length h \<Longrightarrow> live_ms (h[a := (h ! a)\<lparr>w_granted := True\<rparr>]) q = live_ms h q"
  by (rule live_ms_heap_cong) (auto simp: nth_list_update)

lemma live_in_ids: "a \<in># live_ms h q \<Longrightarrow> a \<in># ids_of (by_tenant q)"
  by (auto simp: live_ms_def)

section \<open>The controller and its callers\<close>

text \<open>
  Every call of \<open>acquire\<close> that is admitted must release its permit once. A call either is
  blocked on its waiter, holds a permit or is over; it is indexed by its position in a list.
\<close>

datatype phase = Blocked nat | Holding | Ended

type_synonym calls = "(adm_class \<times> phase) list"

fun owns :: "waiter list \<Rightarrow> phase \<Rightarrow> bool" where
  "owns h Holding = True"
| "owns h (Blocked a) = w_granted (h ! a)"
| "owns h Ended = False"

definition permits :: "waiter list \<Rightarrow> calls \<Rightarrow> adm_class \<Rightarrow> nat" where
  "permits h cs c = length (filter (\<lambda>(k, p). k = c \<and> owns h p) cs)"

fun blocked :: "calls \<Rightarrow> nat list" where
  "blocked [] = []"
| "blocked ((c, Blocked a) # cs) = a # blocked cs"
| "blocked ((c, Holding) # cs) = blocked cs"
| "blocked ((c, Ended) # cs) = blocked cs"

inductive adm_step :: "admission \<times> calls \<Rightarrow> admission \<times> calls \<Rightarrow> bool" where
  enter_admitted: "acquire_enter cls t now s = (s', None) \<Longrightarrow>
    adm_step (s, cs) (s', cs @ [(class_of_int cls, Holding)])"
| enter_blocked: "acquire_enter cls t now s = (s', Some a) \<Longrightarrow>
    adm_step (s, cs) (s', cs @ [(class_of_int cls, Blocked a)])"
| ready: "i < length cs \<Longrightarrow> cs ! i = (c, Blocked a) \<Longrightarrow> w_granted (heap s ! a) \<Longrightarrow>
    adm_step (s, cs) (acquire_ready c a now s, cs[i := (c, Holding)])"
| cancel: "i < length cs \<Longrightarrow> cs ! i = (c, Blocked a) \<Longrightarrow>
    adm_step (s, cs) (acquire_cancel c a now s, cs[i := (c, Ended)])"
| release: "i < length cs \<Longrightarrow> cs ! i = (c, Holding) \<Longrightarrow>
    adm_step (s, cs) (adm_release c now s, cs[i := (c, Ended)])"

definition adm_start :: "int \<Rightarrow> int \<Rightarrow> admission \<times> calls \<Rightarrow> bool" where
  "adm_start tp bp x \<longleftrightarrow> new_admission tp bp = Some (fst x) \<and> snd x = []"

definition adm_reachable :: "int \<Rightarrow> int \<Rightarrow> admission \<times> calls \<Rightarrow> bool" where
  "adm_reachable tp bp x \<longleftrightarrow> (\<exists>s. adm_start tp bp s \<and> adm_step\<^sup>*\<^sup>* s x)"

inductive_cases adm_stepE [consumes 1, case_names enter_admitted enter_blocked ready cancel release]:
  "adm_step (s, cs) y"

definition accounts :: "admission \<Rightarrow> calls \<Rightarrow> bool" where
  "accounts s cs \<longleftrightarrow>
     (\<forall>c. m_active (metrics s c) = int (permits (heap s) cs c))
   \<and> active s = int (permits (heap s) cs Reactive) + int (permits (heap s) cs Foreground)
       + int (permits (heap s) cs Bootstrap)
   \<and> boot_active s = int (permits (heap s) cs Bootstrap)"

definition blocked_ok :: "admission \<Rightarrow> calls \<Rightarrow> bool" where
  "blocked_ok s cs \<longleftrightarrow>
     distinct (blocked cs)
   \<and> (\<forall>c a. (c, Blocked a) \<in> set cs \<longrightarrow>
        a < length (heap s) \<and> w_class (heap s ! a) = c \<and> (w_granted (heap s ! a) \<or> a \<in># live s c))
   \<and> (\<forall>c a. a \<in># live s c \<longrightarrow> (c, Blocked a) \<in> set cs)"

definition core :: "admission \<Rightarrow> calls \<Rightarrow> bool" where
  "core s cs \<longleftrightarrow> queues_ok s \<and> accounts s cs \<and> blocked_ok s cs \<and> active s \<le> total s"

definition idle_ok :: "admission \<Rightarrow> bool" where
  "idle_ok s \<longleftrightarrow> (active s < total s \<longrightarrow> (\<forall>c. live s c = {#}))"

lemma in_blocked: "(c, Blocked a) \<in> set cs \<Longrightarrow> a \<in> set (blocked cs)"
  by (induction cs rule: blocked.induct) auto

lemma permits_grant:
  assumes "distinct (blocked cs)" and "(c, Blocked a) \<in> set cs" and "\<not> w_granted (h ! a)" and "a < length h"
  shows "permits (h[a := (h ! a)\<lparr>w_granted := True\<rparr>]) cs k = permits h cs k + (if k = c then 1 else 0)"
proof -
  let ?h = "h[a := (h ! a)\<lparr>w_granted := True\<rparr>]"
  have other: "permits ?h cs k = permits h cs k" if "a \<notin> set (blocked cs)" for cs k
    using that
    by (induction cs rule: blocked.induct) (auto simp: permits_def nth_list_update)
  show ?thesis
    using assms
  proof (induction cs rule: blocked.induct)
    case (2 d b cs)
    show ?case
    proof (cases "b = a")
      case True
      then have "d = c" using 2 by (auto dest: in_blocked)
      then show ?thesis using 2 True other [of cs k] by (auto simp: permits_def)
    next
      case False
      then show ?thesis using 2 by (auto simp: permits_def nth_list_update)
    qed
  qed (auto simp: permits_def)
qed

lemma hand_permit_core:
  assumes "core s cs" and "active s < total s" and "next_waiter now s = (s', Some a)"
  shows "core (hand_permit a s') cs"
proof -
  have q: "queues_ok s" and acc: "accounts s cs" and bl: "blocked_ok s cs"
    using assms(1) by (simp_all add: core_def)
  note frame = next_waiter_result [OF assms(3)]
  have tk: "takes s (s', Some a)" using next_waiter_takes(1) [OF q, of now] assms(3) by simp
  then obtain c where c: "live s c = add_mset a (live s' c)" and oth: "\<And>k. k \<noteq> c \<Longrightarrow> live s' k = live s k"
    and q': "queues_ok s'" by (auto simp: takes_def)
  let ?h = "heap s" and ?h' = "(heap s)[a := (heap s ! a)\<lparr>w_granted := True\<rparr>]"
  have a_live: "a \<in># live s c" by (simp add: c)
  then have a_cs: "(c, Blocked a) \<in> set cs" using bl by (simp add: blocked_ok_def)
  have a_ids: "a \<in># ids_of (by_tenant (queues s c))" using a_live by (rule live_in_ids)
  then have a: "a < length ?h" "w_class (?h ! a) = c" "\<not> w_granted (?h ! a)"
    using q unfolding queues_ok_def queue_ok_def by blast+
  have a_rem: "\<not> w_removed (?h ! a)" using a_live by (simp add: live_ms_def)
  have a_out: "a \<notin># ids_of (by_tenant (queues s' k))" for k
  proof
    assume in_k: "a \<in># ids_of (by_tenant (queues s' k))"
    have "queue_ok ?h k (queues s' k)" using q' frame by (simp add: queues_ok_def)
    then have "w_class (?h ! a) = k" using in_k unfolding queue_ok_def by blast
    then have "k = c" using a by simp
    then have "a \<in># live s' c" using in_k a_rem frame by (simp add: live_ms_def)
    then have "1 < count (live s c) a" by (simp add: c)
    moreover have "count (live s c) a \<le> count (ids_of (by_tenant (queues s c))) a"
      by (simp add: live_ms_def)
    moreover have "count (ids_of (by_tenant (queues s c))) a \<le> 1"
    proof -
      have "distinct (concat (map snd (by_tenant (queues s c))))"
        using q by (simp add: queues_ok_def queue_ok_def)
      then show ?thesis by (simp only: distinct_mset_count)
    qed
    ultimately show False by simp
  qed
  let ?s = "hand_permit a s'"
  have heap: "heap ?s = ?h'" by (simp add: hand_permit_def grant_def upd_metrics_def Let_def frame)
  have lives: "live ?s k = live s' k" for k
    using frame a by (simp add: heap grant_heap_live)
  have "queue_ok ?h' k (queues s' k)" for k
  proof -
    have ok: "queue_ok ?h k (queues s' k)" using q' frame by (simp add: queues_ok_def)
    have "live_ms ?h' (queues s' k) = live_ms ?h (queues s' k)" using a by (simp add: grant_heap_live)
    moreover have "\<forall>b \<in># ids_of (by_tenant (queues s' k)).
        b < length ?h' \<and> w_class (?h' ! b) = k \<and> \<not> w_granted (?h' ! b)"
    proof
      fix b assume b: "b \<in># ids_of (by_tenant (queues s' k))"
      then have "b \<noteq> a" using a_out by blast
      then show "b < length ?h' \<and> w_class (?h' ! b) = k \<and> \<not> w_granted (?h' ! b)"
        using queue_ok_mem [OF ok b] by simp
    qed
    ultimately show ?thesis using ok unfolding queue_ok_def by simp
  qed
  then have "queues_ok ?s" by (simp add: queues_ok_def heap)
  moreover have "accounts ?s cs"
  proof -
    have p: "permits ?h' cs k = permits ?h cs k + (if k = c then 1 else 0)" for k
      using bl a a_cs by (intro permits_grant) (auto simp: blocked_ok_def)
    show ?thesis
      using acc frame a unfolding accounts_def heap p
      by (cases c) (auto simp: hand_permit_def grant_def upd_metrics_def Let_def)
  qed
  moreover have "blocked_ok ?s cs"
    unfolding blocked_ok_def lives
  proof (intro conjI allI impI)
    show "distinct (blocked cs)" using bl by (simp add: blocked_ok_def)
  next
    fix k b assume kb: "(k, Blocked b) \<in> set cs"
    then have old: "b < length ?h" "w_class (?h ! b) = k" "w_granted (?h ! b) \<or> b \<in># live s k"
      using bl unfolding blocked_ok_def by blast+
    show "b < length (heap ?s)" using old by (simp add: heap)
    show "w_class (heap ?s ! b) = k" using old a by (cases "b = a") (auto simp: heap)
    show "w_granted (heap ?s ! b) \<or> b \<in># live s' k"
    proof (cases "b = a")
      case True
      then show ?thesis using a by (simp add: heap)
    next
      case False
      then show ?thesis using old oth [of k] c by (cases "k = c") (auto simp: heap)
    qed
  next
    fix k b assume "b \<in># live s' k"
    then have "b \<in># live s k" using c oth [of k] by (cases "k = c") auto
    then show "(k, Blocked b) \<in> set cs" using bl unfolding blocked_ok_def by blast
  qed
  ultimately show ?thesis using assms(2) frame by (simp add: core_def)
qed

lemma dispatch_core:
  assumes "core s cs"
  shows "core (dispatch now s) cs \<and> idle_ok (dispatch now s) \<and> total (dispatch now s) = total s
    \<and> boot_permits (dispatch now s) = boot_permits s"
  using assms
proof (induction now s rule: dispatch.induct)
  case (1 now s)
  show ?case
  proof (cases "active s < total s")
    case False
    then show ?thesis using "1.prems" by (simp add: dispatch.simps [of now s] idle_ok_def)
  next
    case True
    obtain s' r where nw: "next_waiter now s = (s', r)" by fastforce
    note frame = next_waiter_result [OF nw]
    have q: "queues_ok s" using "1.prems" by (simp add: core_def)
    show ?thesis
    proof (cases r)
      case None
      have tk: "takes s (s', None)" using next_waiter_takes(1) [OF q, of now] nw None by simp
      then have lives: "\<And>c. live s' c = live s c" and q': "queues_ok s'" by (auto simp: takes_def)
      have "core s' cs"
        using "1.prems" frame lives q' by (simp add: core_def accounts_def blocked_ok_def)
      moreover have "idle_ok s'"
        using next_waiter_takes(2) [OF q, of now] nw None lives by (simp add: idle_ok_def)
      ultimately show ?thesis using True nw None frame by (simp add: dispatch.simps [of now s])
    next
      case (Some a)
      have "core (hand_permit a s') cs" using hand_permit_core "1.prems" True nw Some by blast
      then show ?thesis
        using "1.IH" [OF True nw [symmetric] Some] True nw Some frame
        by (simp add: dispatch.simps [of now s])
    qed
  qed
qed

section \<open>Every step keeps the invariant\<close>

lemma blocked_append [simp]: "blocked (xs @ ys) = blocked xs @ blocked ys"
  by (induction xs rule: blocked.induct) auto

lemma blocked_skip: "blocked [z] = [] \<Longrightarrow> blocked (z # ys) = blocked ys"
  using blocked_append [of "[z]" ys] by simp

lemma blocked_in: "a \<in> set (blocked cs) \<longleftrightarrow> (\<exists>c. (c, Blocked a) \<in> set cs)"
  by (induction cs rule: blocked.induct) auto

lemma permits_append [simp]: "permits h (xs @ ys) k = permits h xs k + permits h ys k"
  by (simp add: permits_def)

lemma permits_Cons [simp]:
  "permits h ((c, p) # cs) k = (if k = c \<and> owns h p then 1 else 0) + permits h cs k"
  by (simp add: permits_def)

lemma permits_Nil [simp]: "permits h [] k = 0"
  by (simp add: permits_def)

lemma permits_heap_cong:
  "(\<And>a. a \<in> set (blocked cs) \<Longrightarrow> w_granted (h' ! a) = w_granted (h ! a)) \<Longrightarrow> permits h' cs k = permits h cs k"
  by (induction cs rule: blocked.induct) auto

lemma call_split:
  assumes "i < length cs" and "cs ! i = x"
  obtains xs ys where "cs = xs @ x # ys" and "\<And>z. cs[i := z] = xs @ z # ys"
  using assms by (metis id_take_nth_drop upd_conv_take_nth_drop)

lemma blocked_ok_drop:
  assumes bl: "blocked_ok s (xs @ (c, Blocked a) # ys)" and z: "blocked [z] = []"
    and len: "length (heap s') = length (heap s)"
    and keep: "\<And>b. b \<noteq> a \<Longrightarrow> heap s' ! b = heap s ! b"
    and lives: "\<And>k b. b \<in># live s' k \<longleftrightarrow> b \<in># live s k \<and> b \<noteq> a"
  shows "blocked_ok s' (xs @ z # ys)"
  unfolding blocked_ok_def
proof (intro conjI allI impI)
  have dist: "distinct (blocked (xs @ (c, Blocked a) # ys))" using bl unfolding blocked_ok_def by blast
  have bz: "blocked (z # ys) = blocked ys" using z by (rule blocked_skip)
  show "distinct (blocked (xs @ z # ys))" using dist by (simp add: bz)
  have notz: "(k, Blocked b) \<noteq> z" for k b using z by auto
  fix k b
  {
    assume "(k, Blocked b) \<in> set (xs @ z # ys)"
    then have mem: "(k, Blocked b) \<in> set xs \<union> set ys" using notz by auto
    then have "b \<in> set (blocked xs) \<union> set (blocked ys)" by (auto simp: blocked_in)
    then have "b \<noteq> a" using dist by auto
    moreover have "b < length (heap s) \<and> w_class (heap s ! b) = k \<and> (w_granted (heap s ! b) \<or> b \<in># live s k)"
      using bl mem unfolding blocked_ok_def by auto
    ultimately show "b < length (heap s')" "w_class (heap s' ! b) = k"
      "w_granted (heap s' ! b) \<or> b \<in># live s' k"
      by (auto simp: len keep lives)
  }
  assume "b \<in># live s' k"
  then have "b \<in># live s k" "b \<noteq> a" by (simp_all add: lives)
  then have "(k, Blocked b) \<in> set (xs @ (c, Blocked a) # ys)" "b \<noteq> a" using bl unfolding blocked_ok_def by blast+
  then show "(k, Blocked b) \<in> set (xs @ z # ys)" by auto
qed

lemma blocked_ok_same:
  assumes "blocked_ok s (xs @ x # ys)" and "blocked [x] = []" and "blocked [z] = []"
    and "heap s' = heap s" and "queues s' = queues s"
  shows "blocked_ok s' (xs @ z # ys)"
proof -
  have drop: "blocked (w # ys) = blocked ys" "\<And>k b. (k, Blocked b) \<noteq> w" if "blocked [w] = []" for w
    using that blocked_skip [OF that] by auto
  show ?thesis
    using assms(1) drop [OF assms(2)] drop [OF assms(3)] unfolding blocked_ok_def assms(4,5) blocked_append
    by auto
qed

lemma live_remove:
  assumes "distinct (concat (map snd (by_tenant q)))" and "a < length h" and "a \<in># live_ms h q"
  shows "live_ms (h[a := (h ! a)\<lparr>w_removed := True\<rparr>]) q = live_ms h q - {#a#}"
proof (rule multiset_eqI)
  fix b
  have "count (ids_of (by_tenant q)) a \<le> 1" using assms(1) by (simp only: distinct_mset_count)
  then show "count (live_ms (h[a := (h ! a)\<lparr>w_removed := True\<rparr>]) q) b = count (live_ms h q - {#a#}) b"
    using assms(2) by (cases "b = a") (simp_all add: live_ms_def)
qed

lemma live_in_class:
  assumes "blocked_ok s cs" and "(c, Blocked a) \<in> set cs" and "a \<in># live s k"
  shows "k = c"
proof -
  have "(k, Blocked a) \<in> set cs" using assms(1,3) unfolding blocked_ok_def by blast
  then show ?thesis using assms(1,2) unfolding blocked_ok_def by blast
qed

lemma live_count:
  assumes "queues_ok s"
  shows "count (live s c) a \<le> 1"
proof -
  have "distinct (concat (map snd (by_tenant (queues s c))))"
    using assms by (simp add: queues_ok_def queue_ok_def)
  then have "count (ids_of (by_tenant (queues s c))) a \<le> 1" by (simp only: distinct_mset_count)
  moreover have "count (live s c) a \<le> count (ids_of (by_tenant (queues s c))) a"
    by (simp add: live_ms_def)
  ultimately show ?thesis by (rule order_trans [rotated])
qed

lemma granted_not_live:
  assumes "queues_ok s" and "w_granted (heap s ! a)"
  shows "a \<notin># live s k"
proof
  assume "a \<in># live s k"
  then have "a \<in># ids_of (by_tenant (queues s k))" by (rule live_in_ids)
  then show False using assms queue_ok_mem [of "heap s" k "queues s k" a] by (simp add: queues_ok_def)
qed

lemma push_ok:
  assumes ok: "queue_ok h c q" and w: "w_class w = c" "\<not> w_granted w" "\<not> w_removed w"
  shows "queue_ok (h @ [w]) c (push (length h) t q)"
    and "live_ms (h @ [w]) (push (length h) t q) = add_mset (length h) (live_ms h q)"
proof -
  let ?a = "length h" and ?q = "push (length h) t q"
  have keys: "distinct (map fst (by_tenant q))" "set (order q) = set (map fst (by_tenant q))"
    "distinct (order q)" "waiting q = int (size (live_ms h q))" "distinct (concat (map snd (by_tenant q)))"
    using ok by (simp_all add: queue_ok_def)
  have bt: "by_tenant ?q = AList.update t (tenant_queue q t @ [?a]) (by_tenant q)"
    by (simp add: push_def Let_def tenant_queue_def)
  have ord: "order ?q = (if map_of (by_tenant q) t = None then order q @ [t] else order q)"
    by (simp add: push_def Let_def)
  have ids: "ids_of (by_tenant ?q) = add_mset ?a (ids_of (by_tenant q))"
    using ids_update [OF keys(1), of t "tenant_queue q t @ [?a]"]
    by (simp only: bt) (simp add: tenant_queue_def)
  have mem: "b < length h \<and> w_class (h ! b) = c \<and> \<not> w_granted (h ! b)"
    if "b \<in># ids_of (by_tenant q)" for b
    using queue_ok_mem [OF ok that] .
  have old: "filter_mset (\<lambda>b. \<not> w_removed ((h @ [w]) ! b)) (ids_of (by_tenant q)) = live_ms h q"
    unfolding live_ms_def by (rule filter_mset_cong) (use mem in \<open>auto simp: nth_append\<close>)
  show live: "live_ms (h @ [w]) ?q = add_mset ?a (live_ms h q)"
    unfolding live_ms_def [of "h @ [w]"] ids using w old by simp
  have "?a \<notin># ids_of (by_tenant q)" using mem by blast
  then have count: "\<forall>b. count (ids_of (by_tenant ?q)) b \<le> 1"
    using keys(5) unfolding distinct_mset_count ids by (auto simp: not_in_iff)
  show "queue_ok (h @ [w]) c ?q"
    unfolding queue_ok_def
  proof (intro conjI)
    show "distinct (map fst (by_tenant ?q))" using keys by (simp add: bt distinct_update)
    show "distinct (order ?q)" using keys by (auto simp: ord map_of_eq_None_iff)
    show "set (order ?q) = set (map fst (by_tenant ?q))"
      using keys by (auto simp: ord bt update_keys map_of_eq_None_iff)
    show "waiting ?q = int (size (live_ms (h @ [w]) ?q))"
      using keys by (simp add: live) (simp add: push_def Let_def)
    show "distinct (concat (map snd (by_tenant ?q)))" unfolding distinct_mset_count by (rule count)
    show "\<forall>b \<in># ids_of (by_tenant ?q). b < length (h @ [w]) \<and> w_class ((h @ [w]) ! b) = c \<and> \<not> w_granted ((h @ [w]) ! b)"
    proof
      fix b assume "b \<in># ids_of (by_tenant ?q)"
      then have "b = ?a \<or> b \<in># ids_of (by_tenant q)" unfolding ids by simp
      then show "b < length (h @ [w]) \<and> w_class ((h @ [w]) ! b) = c \<and> \<not> w_granted ((h @ [w]) ! b)"
        using mem [of b] w by (auto simp only: nth_append nth_append_length length_append) auto
    qed
  qed
qed

lemma release_locked_core:
  assumes "core s (xs @ (c, p) # ys)" and "owns (heap s) p" and "blocked [(c, p)] = []"
    and "blocked [(c, z)] = []" and "\<not> owns (heap s) z"
  shows "core (release_locked c now s) (xs @ (c, z) # ys) \<and> idle_ok (release_locked c now s)
    \<and> total (release_locked c now s) = total s"
proof -
  define t where "t = (let s = upd_metrics c (\<lambda>m. m\<lparr>m_active := m_active m - 1\<rparr>) (s\<lparr>active := active s - 1\<rparr>)
     in if c = Bootstrap then s\<lparr>boot_active := boot_active s - 1\<rparr> else s)"
  have eq: "release_locked c now s = dispatch now t"
    by (simp add: release_locked_def t_def Let_def)
  have frame: "heap t = heap s" "queues t = queues s" "total t = total s" "active t = active s - 1"
    "\<And>k. m_active (metrics t k) = m_active (metrics s k) - (if k = c then 1 else 0)"
    "boot_active t = boot_active s - (if c = Bootstrap then 1 else 0)"
    by (simp_all add: t_def upd_metrics_def Let_def)
  have "core t (xs @ (c, z) # ys)"
    unfolding core_def
  proof (intro conjI)
    show "queues_ok t" using assms(1) by (simp add: core_def queues_ok_def frame)
    show "blocked_ok t (xs @ (c, z) # ys)"
      using assms(1) by (intro blocked_ok_same [OF _ assms(3,4)]) (simp_all add: core_def frame)
    show "active t \<le> total t" using assms(1) by (simp add: core_def frame)
    show "accounts t (xs @ (c, z) # ys)"
      using assms(1,2,5) by (cases c) (auto simp: core_def accounts_def frame)
  qed
  from dispatch_core [OF this, of now] show ?thesis by (simp add: eq frame)
qed

lemma record_wait_frame [simp]:
  "heap (record_wait c a now s) = heap s" "queues (record_wait c a now s) = queues s"
  "total (record_wait c a now s) = total s" "active (record_wait c a now s) = active s"
  "boot_active (record_wait c a now s) = boot_active s"
  "m_active (metrics (record_wait c a now s) k) = m_active (metrics s k)"
  by (simp_all add: record_wait_def upd_metrics_def Let_def)

lemma record_wait_core:
  assumes "core s (xs @ (c, Blocked a) # ys)" and "w_granted (heap s ! a)"
  shows "core (record_wait d a now s) (xs @ (c, Holding) # ys)"
  unfolding core_def
proof (intro conjI)
  let ?s = "record_wait d a now s"
  have q: "queues_ok s" using assms(1) by (simp add: core_def)
  show "queues_ok ?s" using q by (simp add: queues_ok_def)
  show "accounts ?s (xs @ (c, Holding) # ys)" using assms by (simp add: core_def accounts_def)
  show "blocked_ok ?s (xs @ (c, Holding) # ys)"
  proof (rule blocked_ok_drop)
    show "blocked_ok s (xs @ (c, Blocked a) # ys)" using assms(1) by (simp add: core_def)
    show "\<And>k b. b \<in># live ?s k \<longleftrightarrow> b \<in># live s k \<and> b \<noteq> a"
      using granted_not_live [OF q assms(2)] by auto
  qed simp_all
  show "active ?s \<le> total ?s" using assms(1) by (simp add: core_def)
qed

lemma cancel_waiting_core:
  assumes core: "core s (xs @ (c, Blocked a) # ys)" and "\<not> w_granted (heap s ! a)"
  shows "core (acquire_cancel c a now s) (xs @ (c, Ended) # ys) \<and> idle_ok (acquire_cancel c a now s)
    \<and> total (acquire_cancel c a now s) = total s"
proof -
  let ?h = "(heap s)[a := (heap s ! a)\<lparr>w_removed := True\<rparr>]"
  define t where "t = upd_metrics c (\<lambda>m. m\<lparr>m_cancelled := m_cancelled m + 1\<rparr>)
     (set_queue c ((queues s c)\<lparr>waiting := waiting (queues s c) - 1\<rparr>) (s\<lparr>heap := ?h\<rparr>))"
  have eq: "acquire_cancel c a now s = dispatch now t"
    using assms(2) by (simp add: acquire_cancel_def t_def Let_def set_queue_def)
  have frame: "heap t = ?h" "total t = total s" "active t = active s" "boot_active t = boot_active s"
    "\<And>k. m_active (metrics t k) = m_active (metrics s k)"
    "\<And>k. by_tenant (queues t k) = by_tenant (queues s k)" "\<And>k. order (queues t k) = order (queues s k)"
    "\<And>k. waiting (queues t k) = waiting (queues s k) - (if k = c then 1 else 0)"
    by (simp_all add: t_def upd_metrics_def set_queue_def)
  have q: "queues_ok s" and bl: "blocked_ok s (xs @ (c, Blocked a) # ys)" using core by (simp_all add: core_def)
  have a: "a < length (heap s)" "w_class (heap s ! a) = c" "a \<in># live s c"
    using bl assms(2) unfolding blocked_ok_def by auto
  have dist: "distinct (concat (map snd (by_tenant (queues s k))))" for k
    using q by (simp add: queues_ok_def queue_ok_def)
  have livec: "live t c = live s c - {#a#}"
    using live_remove [OF dist a(1,3)] by (simp add: live_ms_def frame)
  have other: "a \<notin># live s k" if "k \<noteq> c" for k
    using live_in_class [OF bl _, of c a k] that by auto
  have liveo: "live t k = live s k" if "k \<noteq> c" for k
  proof -
    have "a \<notin># ids_of (by_tenant (queues s k))"
      using queue_ok_mem [of "heap s" k "queues s k" a] q that a(2) by (auto simp: queues_ok_def)
    then show ?thesis
      unfolding live_ms_def frame by (intro filter_mset_cong refl) (metis nth_list_update_neq)
  qed
  have lives: "b \<in># live t k \<longleftrightarrow> b \<in># live s k \<and> b \<noteq> a" for k b
  proof (cases "k = c")
    case True
    then show ?thesis using livec live_count [OF q, of c a] by (auto simp: in_diff_count count_greater_zero_iff [symmetric] simp del: count_greater_zero_iff)
  next
    case False
    then show ?thesis using liveo other by auto
  qed
  have "core t (xs @ (c, Ended) # ys)"
    unfolding core_def
  proof (intro conjI)
    show "queues_ok t"
      unfolding queues_ok_def
    proof
      fix k
      have ok: "queue_ok (heap s) k (queues s k)" using q by (simp add: queues_ok_def)
      have mem: "\<forall>b \<in># ids_of (by_tenant (queues s k)). b < length ?h \<and> w_class (?h ! b) = k \<and> \<not> w_granted (?h ! b)"
      proof
        fix b assume "b \<in># ids_of (by_tenant (queues s k))"
        from queue_ok_mem [OF ok this]
        show "b < length ?h \<and> w_class (?h ! b) = k \<and> \<not> w_granted (?h ! b)"
          by (cases "b = a") auto
      qed
      have "waiting (queues t k) = int (size (live t k))"
        using queues_ok_waiting [OF q, of k] a(3) livec liveo [of k]
        by (cases "k = c") (auto simp: frame size_Diff_singleton nonempty_has_size dest: multi_member_split)
      then show "queue_ok (heap t) k (queues t k)"
        using ok mem unfolding queue_ok_def frame by simp
    qed
    show "blocked_ok t (xs @ (c, Ended) # ys)"
    proof (rule blocked_ok_drop [OF bl])
      show "blocked [(c, Ended)] = []" by simp
      show "length (heap t) = length (heap s)" by (simp add: frame)
      show "\<And>b. b \<noteq> a \<Longrightarrow> heap t ! b = heap s ! b" by (simp add: frame)
    qed (rule lives)
    show "active t \<le> total t" using core by (simp add: core_def frame)
    have "w_granted (heap t ! b) = w_granted (heap s ! b)" for b
      using a(1) by (cases "b = a") (simp_all add: frame)
    then have "permits (heap t) cs k = permits (heap s) cs k" for cs k
      by (intro permits_heap_cong) simp
    then show "accounts t (xs @ (c, Ended) # ys)"
      using core assms(2) by (simp add: core_def accounts_def frame)
  qed
  from dispatch_core [OF this, of now] show ?thesis by (simp add: eq frame)
qed

lemma idle_no_waiting:
  assumes "core s cs" and "idle_ok s" and "active s < total s"
  shows "waiting (queues s c) = 0"
proof -
  have "queues_ok s" using assms(1) by (simp add: core_def)
  from queues_ok_waiting [OF this] show ?thesis using assms(2,3) by (simp add: idle_ok_def)
qed

lemma admissible_iff:
  assumes "core s cs" and "idle_ok s"
  shows "admissible c s \<longleftrightarrow> active s < total s"
  using idle_no_waiting [OF assms] by (auto simp: admissible_def)

lemma enter_admitted_core:
  assumes "core s cs" and "idle_ok s" and "acquire_enter cls t now s = (s', None)"
  shows "core s' (cs @ [(class_of_int cls, Holding)]) \<and> idle_ok s' \<and> total s' = total s"
proof -
  let ?c = "class_of_int cls"
  have adm: "admissible ?c s" and s': "s' = upd_metrics ?c (\<lambda>m. m\<lparr>m_admitted := m_admitted m + 1\<rparr>) (grant ?c s)"
    using assms(3) by (auto simp: acquire_enter_def Let_def split: if_splits)
  have less: "active s < total s" using adm admissible_iff [OF assms(1,2)] by simp
  have frame: "heap s' = heap s" "queues s' = queues s" "total s' = total s" "active s' = active s + 1"
    "boot_active s' = boot_active s + (if ?c = Bootstrap then 1 else 0)"
    "\<And>k. m_active (metrics s' k) = m_active (metrics s k) + (if k = ?c then 1 else 0)"
    by (simp_all add: s' upd_metrics_def grant_def Let_def)
  have "accounts s' (cs @ [(?c, Holding)])"
    using assms(1) by (cases ?c) (simp_all add: core_def accounts_def frame)
  moreover have "blocked_ok s' (cs @ [(?c, Holding)])"
    using assms(1) by (simp add: core_def blocked_ok_def frame)
  ultimately show ?thesis
    using assms(1,2) less by (auto simp: core_def frame idle_ok_def queues_ok_def)
qed

lemma enter_blocked_core:
  assumes core: "core s cs" and idle: "idle_ok s" and enter: "acquire_enter cls t now s = (s', Some a)"
  shows "core s' (cs @ [(class_of_int cls, Blocked a)]) \<and> idle_ok s' \<and> total s' = total s"
proof -
  define c where "c = class_of_int cls"
  define w where "w = \<lparr>w_class = c, w_tenant = t, w_enqueued = now, w_granted = False, w_removed = False\<rparr>"
  have na: "\<not> admissible c s" and a: "a = length (heap s)"
    using enter by (auto simp: acquire_enter_def Let_def c_def split: if_splits)
  have full: "total s \<le> active s" using na admissible_iff [OF core idle, of c] by simp
  have frame: "heap s' = heap s @ [w]" "total s' = total s" "active s' = active s" "boot_active s' = boot_active s"
    "\<And>k. m_active (metrics s' k) = m_active (metrics s k)"
    "\<And>k. queues s' k = (if k = c then push a t (queues s c) else queues s k)"
    using enter na
    by (auto simp: acquire_enter_def Let_def upd_metrics_def set_queue_def c_def [symmetric] w_def split: if_splits)
  have q: "queues_ok s" and bl: "blocked_ok s cs" using core by (simp_all add: core_def)
  have qk: "queue_ok (heap s) k (queues s k)" for k using q by (simp add: queues_ok_def)
  note push = push_ok [OF qk, of w c t, folded a]
  have grow: "live_ms (heap s @ [w]) (queues s k) = live s k" for k
    using queue_ok_mem [OF qk] by (intro live_ms_heap_cong) (auto simp: nth_append)
  have lives: "live s' k = (if k = c then add_mset a (live s k) else live s k)" for k
    using push(2) grow by (simp add: frame w_def)
  have old: "b \<noteq> a" "b < a" if "(k, Blocked b) \<in> set cs" for k b
    using bl that a unfolding blocked_ok_def by fastforce+
  have "queues_ok s'"
    unfolding queues_ok_def
  proof
    fix k
    show "queue_ok (heap s') k (queues s' k)"
    proof (cases "k = c")
      case True
      then show ?thesis using push(1) by (simp add: frame w_def)
    next
      case False
      have "\<forall>b \<in># ids_of (by_tenant (queues s k)).
          b < length (heap s @ [w]) \<and> w_class ((heap s @ [w]) ! b) = k \<and> \<not> w_granted ((heap s @ [w]) ! b)"
      proof
        fix b assume "b \<in># ids_of (by_tenant (queues s k))"
        from queue_ok_mem [OF qk this]
        show "b < length (heap s @ [w]) \<and> w_class ((heap s @ [w]) ! b) = k \<and> \<not> w_granted ((heap s @ [w]) ! b)"
          by (simp add: nth_append)
      qed
      then show ?thesis using qk [of k] False grow [of k] unfolding queue_ok_def frame by simp
    qed
  qed
  moreover have "accounts s' (cs @ [(c, Blocked a)])"
  proof -
    have "permits (heap s') cs k = permits (heap s) cs k" for k
      using old by (intro permits_heap_cong) (auto simp: blocked_in frame a nth_append)
    moreover have "\<not> w_granted (heap s' ! a)" by (simp add: frame a w_def)
    ultimately show ?thesis using core by (simp add: core_def accounts_def frame)
  qed
  moreover have "blocked_ok s' (cs @ [(c, Blocked a)])"
    unfolding blocked_ok_def
  proof (intro conjI allI impI)
    show "distinct (blocked (cs @ [(c, Blocked a)]))"
      using bl old by (auto simp: blocked_ok_def blocked_in)
  next
    fix k b assume kb: "(k, Blocked b) \<in> set (cs @ [(c, Blocked a)])"
    show "b < length (heap s')" using kb old a by (fastforce simp: frame)
    show "w_class (heap s' ! b) = k" "w_granted (heap s' ! b) \<or> b \<in># live s' k"
    proof -
      consider "k = c \<and> b = a" | "(k, Blocked b) \<in> set cs" using kb by auto
      then have "w_class (heap s' ! b) = k \<and> (w_granted (heap s' ! b) \<or> b \<in># live s' k)"
      proof cases
        case 1
        then show ?thesis by (simp add: lives) (simp add: frame a w_def)
      next
        case 2
        then have "b < length (heap s)" "w_class (heap s ! b) = k" "w_granted (heap s ! b) \<or> b \<in># live s k"
          using bl unfolding blocked_ok_def by blast+
        moreover from this have "heap s' ! b = heap s ! b" by (simp add: frame nth_append)
        ultimately show ?thesis by (auto simp: lives)
      qed
      then show "w_class (heap s' ! b) = k" "w_granted (heap s' ! b) \<or> b \<in># live s' k" by blast+
    qed
  next
    fix k b assume "b \<in># live s' k"
    then show "(k, Blocked b) \<in> set (cs @ [(c, Blocked a)])"
      using bl unfolding blocked_ok_def by (auto simp: lives split: if_splits)
  qed
  ultimately show ?thesis using core full by (simp add: core_def frame idle_ok_def c_def)
qed

lemma adm_step_core:
  assumes "adm_step (s, cs) (s', cs')" and "core s cs" and "idle_ok s"
  shows "core s' cs' \<and> idle_ok s' \<and> total s' = total s"
  using assms(1)
proof (cases rule: adm_stepE)
  case (enter_admitted cls t now s'')
  then show ?thesis using enter_admitted_core assms(2,3) by auto
next
  case (enter_blocked cls t now s'' a)
  then show ?thesis using enter_blocked_core assms(2,3) by auto
next
  case (ready i c a now)
  obtain xs ys where cs: "cs = xs @ (c, Blocked a) # ys" "cs[i := (c, Holding)] = xs @ (c, Holding) # ys"
    using call_split [OF ready(2,3)] by metis
  have "idle_ok (acquire_ready c a now s)" using assms(3) by (simp add: idle_ok_def acquire_ready_def)
  then show ?thesis
    using record_wait_core [of s xs c a ys c now] assms(2) ready cs by (simp add: acquire_ready_def)
next
  case (cancel i c a now)
  obtain xs ys where cs: "cs = xs @ (c, Blocked a) # ys" "cs[i := (c, Ended)] = xs @ (c, Ended) # ys"
    using call_split [OF cancel(2,3)] by metis
  have s': "s' = acquire_cancel c a now s" "cs' = xs @ (c, Ended) # ys" using cancel cs by auto
  show ?thesis
  proof (cases "w_granted (heap s ! a)")
    case True
    have "core (record_wait c a now s) (xs @ (c, Holding) # ys)"
      using record_wait_core True assms(2) cs by simp
    from release_locked_core [OF this, of Ended now] show ?thesis
      using True by (simp add: s' acquire_cancel_def)
  next
    case False
    then show ?thesis using cancel_waiting_core [of s xs c a ys now] assms(2) by (simp add: s' cs)
  qed
next
  case (release i c now)
  obtain xs ys where cs: "cs = xs @ (c, Holding) # ys" "cs[i := (c, Ended)] = xs @ (c, Ended) # ys"
    using call_split [OF release(2,3)] by metis
  then show ?thesis
    using release release_locked_core [of s xs c Holding ys Ended now] assms(2) by (simp add: adm_release_def)
qed

definition adm_inv :: "int \<Rightarrow> admission \<times> calls \<Rightarrow> bool" where
  "adm_inv tp x \<longleftrightarrow> core (fst x) (snd x) \<and> idle_ok (fst x) \<and> total (fst x) = tp"

interpretation adm: step_invariant "adm_start tp bp" adm_step "adm_inv tp" for tp bp
proof
  fix x :: "admission \<times> calls"
  assume "adm_start tp bp x"
  then obtain b where x: "x = (\<lparr>total = tp, boot_permits = b, active = 0, boot_active = 0,
      queues = (\<lambda>_. new_queue), metrics = (\<lambda>_. zero_metrics), heap = []\<rparr>, [])" and tp: "0 < tp"
    by (cases x) (auto simp: adm_start_def new_admission_def Let_def split: if_splits)
  have "queue_ok [] c new_queue" for c by (simp add: queue_ok_def new_queue_def live_ms_def)
  then show "adm_inv tp x"
    using tp by (simp add: x adm_inv_def core_def queues_ok_def accounts_def blocked_ok_def idle_ok_def
        zero_metrics_def) (simp add: new_queue_def live_ms_def)
next
  fix x y :: "admission \<times> calls"
  assume "adm_inv tp x" and "adm_step x y"
  then show "adm_inv tp y"
    using adm_step_core [of "fst x" "snd x" "fst y" "snd y"] by (simp add: adm_inv_def)
qed

lemma reachable_inv: "adm_reachable tp bp (s, cs) \<Longrightarrow> core s cs \<and> idle_ok s \<and> total s = tp"
  unfolding adm_reachable_def using adm.inv_reachable by (fastforce simp: adm_inv_def)

section \<open>Properties\<close>

text \<open>
  C16: however the calls of \<open>acquire\<close>, their cancellations and their releases interleave, the
  permits in use are exactly those of the calls that hold one (or were handed one and have not
  noticed yet), never negative, never more than configured, and the bootstrap count is exact.
\<close>

theorem admission_permits_exact:
  assumes "adm_reachable tp bp (s, cs)"
  shows "active s = int (length (filter (\<lambda>(c, p). owns (heap s) p) cs))
    \<and> boot_active s = int (length (filter (\<lambda>(c, p). c = Bootstrap \<and> owns (heap s) p) cs))
    \<and> 0 \<le> active s \<and> active s \<le> tp"
proof -
  have split: "length (filter (\<lambda>(c, p). owns h p) cs) =
      permits h cs Reactive + permits h cs Foreground + permits h cs Bootstrap" for h
  proof (induction cs)
    case (Cons x cs)
    then show ?case by (cases x; cases "fst x") auto
  qed simp
  from reachable_inv [OF assms] show ?thesis
    unfolding core_def accounts_def split by (simp add: permits_def)
qed

text \<open>
  C17: no wakeup is lost. When a permit is free, every call that is still blocked has already
  been handed its own permit; a new call is queued only while every permit is in use, and one
  that is admitted at once overtakes nobody.
\<close>

theorem admission_no_lost_wakeup:
  assumes "adm_reachable tp bp (s, cs)" and "active s < tp"
  shows "(\<forall>c a. (c, Blocked a) \<in> set cs \<longrightarrow> w_granted (heap s ! a))
    \<and> (\<forall>cls t now. snd (acquire_enter cls t now s) = None)"
proof -
  have inv: "core s cs" "idle_ok s" "active s < total s" using reachable_inv [OF assms(1)] assms(2) by auto
  then have "admissible c s" for c by (simp add: admissible_iff)
  then show ?thesis
    using inv by (auto simp: core_def blocked_ok_def idle_ok_def acquire_enter_def Let_def)
qed

text \<open>
  A short run: two calls hold the two permits, a third is queued, both holders release; the
  third has been handed a permit and has not noticed yet.
\<close>

definition run1 :: admission where "run1 = fst (acquire_enter 0 ''a'' 0 (the (new_admission 2 0)))"
definition run2 :: admission where "run2 = fst (acquire_enter 1 ''a'' 5 run1)"
definition run3 :: admission where "run3 = fst (acquire_enter 2 ''b'' 7 run2)"
definition run4 :: admission where "run4 = adm_release Reactive 9 run3"
definition run5 :: admission where "run5 = adm_release Foreground 11 run4"

lemma enter_step:
  "snd (acquire_enter cls t now s) = None \<Longrightarrow>
   adm_step (s, cs) (fst (acquire_enter cls t now s), cs @ [(class_of_int cls, Holding)])"
  "snd (acquire_enter cls t now s) = Some a \<Longrightarrow>
   adm_step (s, cs) (fst (acquire_enter cls t now s), cs @ [(class_of_int cls, Blocked a)])"
  by (auto simp: prod_eq_iff intro: adm_step.enter_admitted adm_step.enter_blocked)

lemma run_reachable:
  "adm_reachable 2 0 (run5, [(Reactive, Ended), (Foreground, Ended), (Bootstrap, Blocked 0)])"
proof -
  let ?s0 = "the (new_admission 2 0)" and ?b = "(Bootstrap, Blocked 0)"
  have start: "adm_start 2 0 (?s0, [])" by (simp add: adm_start_def new_admission_def)
  have "snd (acquire_enter 0 ''a'' 0 ?s0) = None" by code_simp
  from enter_step(1) [OF this, of "[]"] have 1: "adm_step (?s0, []) (run1, [(Reactive, Holding)])"
    by (simp add: run1_def class_of_int_def)
  have "snd (acquire_enter 1 ''a'' 5 run1) = None" by code_simp
  from enter_step(1) [OF this, of "[(Reactive, Holding)]"]
  have 2: "adm_step (run1, [(Reactive, Holding)]) (run2, [(Reactive, Holding), (Foreground, Holding)])"
    by (simp add: run2_def class_of_int_def)
  have "snd (acquire_enter 2 ''b'' 7 run2) = Some 0" by code_simp
  from enter_step(2) [OF this, of "[(Reactive, Holding), (Foreground, Holding)]"]
  have 3: "adm_step (run2, [(Reactive, Holding), (Foreground, Holding)])
      (run3, [(Reactive, Holding), (Foreground, Holding), ?b])"
    by (simp add: run3_def class_of_int_def)
  have 4: "adm_step (run3, [(Reactive, Holding), (Foreground, Holding), ?b])
      (run4, [(Reactive, Ended), (Foreground, Holding), ?b])"
    using adm_step.release [of 0 "[(Reactive, Holding), (Foreground, Holding), ?b]" Reactive run3 9]
    by (simp add: run4_def)
  have 5: "adm_step (run4, [(Reactive, Ended), (Foreground, Holding), ?b])
      (run5, [(Reactive, Ended), (Foreground, Ended), ?b])"
    using adm_step.release [of 1 "[(Reactive, Ended), (Foreground, Holding), ?b]" Foreground run4 11]
    by (simp add: run5_def)
  from 1 2 3 4 5 have "adm_step\<^sup>*\<^sup>* (?s0, []) (run5, [(Reactive, Ended), (Foreground, Ended), ?b])"
    by (meson rtranclp.rtrancl_into_rtrancl rtranclp.rtrancl_refl)
  then show ?thesis using start unfolding adm_reachable_def by blast
qed

theorem admission_permits_exact_witness: "active run5 = 1 \<and> boot_active run5 = 1"
proof -
  have "w_granted (heap run5 ! 0)" by code_simp
  then show ?thesis using admission_permits_exact [OF run_reachable] by simp
qed

theorem admission_no_lost_wakeup_witness: "w_granted (heap run5 ! 0)"
proof -
  have "active run5 < 2" by code_simp
  then show ?thesis using admission_no_lost_wakeup [OF run_reachable] by simp
qed

text \<open>The choice of the dispatcher as a table: which class gets the next permit.\<close>

definition aged :: "int \<Rightarrow> admission \<Rightarrow> bool" where
  "aged now s \<longleftrightarrow> aging_threshold < oldest_wait (heap s) now (queues s Foreground)"

definition preferred :: "int \<Rightarrow> admission \<Rightarrow> adm_class option" where
  "preferred now s =
     (if live s Bootstrap \<noteq> {#} \<and> boot_active s < boot_permits s then Some Bootstrap
      else if live s Foreground \<noteq> {#} \<and> aged now s then Some Foreground
      else if live s Reactive \<noteq> {#} then Some Reactive
      else if live s Foreground \<noteq> {#} then Some Foreground
      else if live s Bootstrap \<noteq> {#} then Some Bootstrap else None)"

lemma pop_class_choice:
  assumes "queues_ok s"
  shows "map_option (\<lambda>a. w_class (heap s ! a)) (snd (pop_class c s)) = (if live s c = {#} then None else Some c)"
proof (cases "snd (pop_class c s)")
  case None
  then show ?thesis using pop_class_takes(2) [OF assms] by simp
next
  case (Some a)
  obtain q where pop: "pop (heap s) (queues s c) = (q, Some a)"
    using Some by (auto simp: pop_class_def split: prod.splits)
  have ok: "queue_ok (heap s) c (queues s c)" using assms by (simp add: queues_ok_def)
  from pop_ok [OF this pop] have "a \<in># live s c" by simp
  then show ?thesis using queue_ok_mem [OF ok live_in_ids] Some by auto
qed

lemma pop_if_choice:
  assumes "takes s r"
  shows "map_option (\<lambda>a. w_class (heap s ! a)) (snd (pop_if b c r)) =
    (case snd r of Some a \<Rightarrow> Some (w_class (heap s ! a))
     | None \<Rightarrow> if b \<and> live s c \<noteq> {#} then Some c else None)"
proof (cases "snd r")
  case None
  then have "queues_ok (fst r)" "heap (fst r) = heap s" "live (fst r) c = live s c"
    using assms by (auto simp: takes_def)
  then show ?thesis using pop_class_choice [of "fst r" c] None by (cases r) (auto simp: pop_if_def)
next
  case (Some a)
  then show ?thesis by (cases r) (simp add: pop_if_def)
qed

lemma pop_if_other: "k \<noteq> c \<Longrightarrow> queues (fst (pop_if b c r)) k = queues (fst r) k"
  by (auto simp: pop_if_def pop_class_def set_queue_def split: prod.splits option.splits)

text \<open>
  C20: the dispatcher's order. The next permit goes to a bootstrap waiter while the bootstrap
  share is not used up, then to a foreground waiter once some foreground waiter is older than
  the aging threshold, then to a reactive, a foreground and last, beyond its share, a bootstrap
  waiter; nobody is chosen only when no live waiter is queued.
\<close>

theorem dispatch_priority:
  assumes "queues_ok s"
  shows "map_option (\<lambda>a. w_class (heap s ! a)) (snd (next_waiter now s)) = preferred now s"
proof -
  let ?cl = "map_option (\<lambda>a. w_class (heap s ! a))"
  define r1 where "r1 = pop_if (boot_active s < boot_permits s) Bootstrap (s, None)"
  define r2 where "r2 = pop_if (aging_threshold < oldest_wait (heap (fst r1)) now (queues (fst r1) Foreground))
      Foreground r1"
  define r3 where "r3 = pop_if True Reactive r2"
  define r4 where "r4 = pop_if True Foreground r3"
  have t0: "takes s (s, None)" using assms by (simp add: takes_def)
  have t1: "takes s r1" unfolding r1_def by (rule pop_if_takes(1) [OF t0])
  have t2: "takes s r2" unfolding r2_def by (rule pop_if_takes(1) [OF t1])
  have t3: "takes s r3" unfolding r3_def by (rule pop_if_takes(1) [OF t2])
  have t4: "takes s r4" unfolding r4_def by (rule pop_if_takes(1) [OF t3])
  have eq: "next_waiter now s =
      pop_if (waiting (queues (fst r4) Reactive) = 0 \<and> waiting (queues (fst r4) Foreground) = 0) Bootstrap r4"
    by (simp only: next_waiter_def Let_def r1_def r2_def r3_def r4_def)
  have aged: "aging_threshold < oldest_wait (heap (fst r1)) now (queues (fst r1) Foreground) \<longleftrightarrow> aged now s"
    by (simp add: r1_def pop_if_other aged_def)
  have c1: "?cl (snd r1) = (if boot_active s < boot_permits s \<and> live s Bootstrap \<noteq> {#} then Some Bootstrap else None)"
    unfolding r1_def pop_if_choice [OF t0] by simp
  have c2: "?cl (snd r2) = (case snd r1 of Some a \<Rightarrow> Some (w_class (heap s ! a))
     | None \<Rightarrow> if aged now s \<and> live s Foreground \<noteq> {#} then Some Foreground else None)"
    unfolding r2_def pop_if_choice [OF t1] aged by simp
  have c3: "?cl (snd r3) = (case snd r2 of Some a \<Rightarrow> Some (w_class (heap s ! a))
     | None \<Rightarrow> if live s Reactive \<noteq> {#} then Some Reactive else None)"
    unfolding r3_def pop_if_choice [OF t2] by simp
  have c4: "?cl (snd r4) = (case snd r3 of Some a \<Rightarrow> Some (w_class (heap s ! a))
     | None \<Rightarrow> if live s Foreground \<noteq> {#} then Some Foreground else None)"
    unfolding r4_def pop_if_choice [OF t3] by simp
  have lift: "(case snd r of Some a \<Rightarrow> Some (w_class (heap s ! a)) | None \<Rightarrow> x) =
      (case ?cl (snd r) of Some k \<Rightarrow> Some k | None \<Rightarrow> x)" for r :: "admission \<times> nat option" and x
    by (cases "snd r") simp_all
  have empty: "waiting (queues (fst r4) Reactive) = 0 \<and> waiting (queues (fst r4) Foreground) = 0"
    if "snd r4 = None"
  proof -
    have "snd r3 = None" using pop_if_takes(3) [OF t3] that by (simp add: r4_def)
    then have "live s Foreground = {#}" "live s Reactive = {#}"
      using that c3 c4 by (auto split: if_splits option.splits)
    moreover have "queues_ok (fst r4)" "\<And>k. live (fst r4) k = live s k" using t4 that by (auto simp: takes_def)
    ultimately show ?thesis using queues_ok_waiting by simp
  qed
  have c5: "?cl (snd (next_waiter now s)) = (case snd r4 of Some a \<Rightarrow> Some (w_class (heap s ! a))
     | None \<Rightarrow> if live s Bootstrap \<noteq> {#} then Some Bootstrap else None)"
    unfolding eq pop_if_choice [OF t4] using empty by (cases "snd r4") simp_all
  show ?thesis
    unfolding c5 lift c4 c3 c2 c1 preferred_def by (simp split: if_splits)
qed

theorem dispatch_priority_witness:
  "map_option (\<lambda>a. w_class (heap run3 ! a)) (snd (next_waiter 9 run3)) = Some Bootstrap"
proof -
  have "queues_ok run3"
    unfolding queues_ok_def queue_ok_def
    apply (rule allI)
    subgoal for c by (cases c; simp; code_simp)
    done
  moreover have "preferred 9 run3 = Some Bootstrap" by code_simp
  ultimately show ?thesis using dispatch_priority by simp
qed

section \<open>Round robin between tenants\<close>

text \<open>How far a tenant is from the cursor, in positions of \<open>order\<close>.\<close>

fun pos :: "string \<Rightarrow> string list \<Rightarrow> nat" where
  "pos t [] = 0"
| "pos t (x # xs) = (if x = t then 0 else Suc (pos t xs))"

definition here :: "adm_queue \<Rightarrow> nat" where
  "here q = (if length (order q) \<le> cursor q then 0 else cursor q)"

definition turn :: "string \<Rightarrow> adm_queue \<Rightarrow> nat" where
  "turn t q = (let i = pos t (order q); c = here q
     in if c \<le> i then i - c else length (order q) - c + i)"

definition front :: "waiter list \<Rightarrow> adm_queue \<Rightarrow> string \<Rightarrow> nat option" where
  "front h q t = (case dropWhile (\<lambda>a. w_removed (h ! a)) (tenant_queue q t) of [] \<Rightarrow> None | a # _ \<Rightarrow> Some a)"

fun pops :: "nat \<Rightarrow> waiter list \<Rightarrow> adm_queue \<Rightarrow> nat list" where
  "pops 0 h q = []"
| "pops (Suc n) h q = (case pop h q of (q', None) \<Rightarrow> [] | (q', Some a) \<Rightarrow> a # pops n h q')"

lemma pos_nth: "t \<in> set xs \<Longrightarrow> pos t xs < length xs \<and> xs ! pos t xs = t"
  by (induction xs) auto

lemma pos_eq: "distinct xs \<Longrightarrow> i < length xs \<Longrightarrow> pos (xs ! i) xs = i"
  by (induction xs arbitrary: i) (auto simp: nth_Cons split: nat.splits)

lemma pos_without:
  assumes "t \<in> set xs" and "t \<noteq> xs ! i" and "i < length xs"
  shows "pos t (take i xs @ drop (Suc i) xs) = (if pos t xs < i then pos t xs else pos t xs - 1)"
  using assms
proof (induction xs arbitrary: i)
  case (Cons x xs)
  show ?case
  proof (cases i)
    case 0
    then show ?thesis using Cons.prems by auto
  next
    case (Suc j)
    show ?thesis
    proof (cases "x = t")
      case True
      then show ?thesis using Suc by simp
    next
      case False
      then have "t \<in> set xs" "t \<noteq> xs ! j" "j < length xs" using Cons.prems Suc by auto
      moreover from this have "pos t xs \<noteq> j" using pos_nth by metis
      ultimately show ?thesis using Cons.IH [of j] False Suc by auto
    qed
  qed
qed simp

text \<open>One pop either serves the tenant or brings its turn closer.\<close>

lemma pop_turn:
  assumes "queue_ok h c q" and "pop h q = (q', r)" and "front h q t = Some a"
  shows "r = Some a \<or>
    (\<exists>b. r = Some b \<and> queue_ok h c q' \<and> front h q' t = Some a \<and> turn t q' < turn t q)"
  using assms
proof (induction h q rule: pop.induct)
  case (1 h q)
  note ok = "1.prems"(1)
  define i where "i = (if length (order q) \<le> cursor q then 0 else cursor q)"
  define u where "u = order q ! i"
  define ys where "ys = dropWhile (\<lambda>a. w_removed (h ! a)) (tenant_queue q u)"
  have keys: "distinct (map fst (by_tenant q))" "set (order q) = set (map fst (by_tenant q))"
    "distinct (order q)" using ok by (simp_all add: queue_ok_def)
  have "tenant_queue q t \<noteq> []" using "1.prems"(3) by (auto simp: front_def)
  then have tin: "t \<in> set (order q)"
    using keys(2) by (force simp: tenant_queue_def split: option.splits dest: map_of_SomeD)
  then have False: "order q \<noteq> []" by auto
  have i: "i < length (order q)" using False by (auto simp: i_def)
  have here: "here q = i" by (simp add: here_def i_def)
  have step: "pop h q = (case ys of
      [] \<Rightarrow> pop h (q\<lparr>cursor := i, by_tenant := AList.delete u (by_tenant q),
              order := take i (order q) @ drop (Suc i) (order q)\<rparr>)
    | a # rest \<Rightarrow> (q\<lparr>by_tenant := AList.update u rest (by_tenant q), cursor := Suc i,
              waiting := waiting q - 1\<rparr>, Some a))"
    unfolding ys_def u_def i_def by (subst pop.simps) (simp only: False if_False Let_def)
  show ?case
  proof (cases "t = u")
    case True
    then have "r = Some a" using step "1.prems"(2,3) by (auto simp: front_def ys_def split: list.splits)
    then show ?thesis ..
  next
    case tu: False
    have p: "pos t (order q) < length (order q)" "order q ! pos t (order q) = t"
      using pos_nth [OF tin] by simp_all
    then have pi: "pos t (order q) \<noteq> i" using tu by (auto simp: u_def)
    show ?thesis
    proof (cases ys)
      case (Cons b rest)
      have q': "q' = q\<lparr>by_tenant := AList.update u rest (by_tenant q), cursor := Suc i, waiting := waiting q - 1\<rparr>"
        and r: "r = Some b" using step Cons "1.prems"(2) by simp_all
      have "queue_ok h c q'" using pop_ok [OF ok "1.prems"(2)] by simp
      moreover have "front h q' t = Some a"
        using "1.prems"(3) tu by (simp add: front_def tenant_queue_def q' update_conv')
      moreover have "turn t q' < turn t q"
        using p pi i here by (auto simp: turn_def Let_def q' here_def)
      ultimately show ?thesis using r by blast
    next
      case Nil
      define q1 where "q1 = q\<lparr>cursor := i, by_tenant := AList.delete u (by_tenant q),
        order := take i (order q) @ drop (Suc i) (order q)\<rparr>"
      have pop: "pop h q = pop h q1" using step Nil by (simp add: q1_def)
      have "queue_ok h c q1"
        using drop_tenant_ok(1) [OF ok i Nil [unfolded ys_def u_def] q1_def [unfolded u_def]] .
      moreover have "front h q1 t = Some a"
        using "1.prems"(3) tu by (simp add: front_def tenant_queue_def q1_def delete_conv')
      moreover have "turn t q1 < turn t q"
        using p pi i here tu tin pos_without [OF tin _ i] by (auto simp: turn_def Let_def q1_def here_def u_def)
      ultimately show ?thesis
        using "1.IH" [OF False i_def u_def ys_def Nil, folded q1_def] "1.prems"(2) pop by auto
    qed
  qed
qed

lemma turn_less: "t \<in> set (order q) \<Longrightarrow> turn t q < length (order q)"
  using pos_nth [of t "order q"] by (auto simp: turn_def Let_def here_def)

lemma front_in_order: "queue_ok h c q \<Longrightarrow> front h q t = Some a \<Longrightarrow> t \<in> set (order q)"
  by (force simp: front_def tenant_queue_def queue_ok_def split: option.splits dest: map_of_SomeD)

lemma pops_turn:
  "queue_ok h c q \<Longrightarrow> front h q t = Some a \<Longrightarrow> turn t q < n \<Longrightarrow> a \<in> set (pops n h q)"
proof (induction n arbitrary: q)
  case (Suc n)
  obtain q' r where pop: "pop h q = (q', r)" by fastforce
  from pop_turn [OF Suc.prems(1) pop Suc.prems(2)] show ?case
    using Suc.IH [of q'] Suc.prems(3) pop by auto
qed simp

text \<open>
  no tenant waits behind another tenant's backlog. The oldest live waiter of a tenant is
  served within as many pops of its class queue as tenants are queued, whatever the lengths of
  the other tenants' queues and wherever the cursor stands.
\<close>

theorem pop_round_robin:
  assumes "queue_ok h c q" and "front h q t = Some a"
  shows "a \<in> set (pops (length (order q)) h q)"
  using assms pops_turn turn_less front_in_order by blast

definition backlog :: "waiter list \<times> adm_queue" where
  "backlog = ([\<lparr>w_class = Foreground, w_tenant = ''a'', w_enqueued = 0, w_granted = False, w_removed = False\<rparr>,
      \<lparr>w_class = Foreground, w_tenant = ''a'', w_enqueued = 1, w_granted = False, w_removed = False\<rparr>,
      \<lparr>w_class = Foreground, w_tenant = ''a'', w_enqueued = 2, w_granted = False, w_removed = False\<rparr>,
      \<lparr>w_class = Foreground, w_tenant = ''b'', w_enqueued = 3, w_granted = False, w_removed = False\<rparr>],
    push 3 ''b'' (push 2 ''a'' (push 1 ''a'' (push 0 ''a'' new_queue))))"

theorem pop_round_robin_witness: "3 \<in> set (pops 2 (fst backlog) (snd backlog))"
proof -
  have "queue_ok (fst backlog) Foreground (snd backlog)" unfolding queue_ok_def by (intro conjI; code_simp)
  moreover have "front (fst backlog) (snd backlog) ''b'' = Some 3" by code_simp
  moreover have "length (order (snd backlog)) = 2" by code_simp
  ultimately show ?thesis using pop_round_robin [of "fst backlog" Foreground "snd backlog" "''b''" 3] by simp
qed

end
