(* ===== verification/Json_Value.thy ===== *)
theory Json_Value
  imports Gonvex_Prelude
begin

text \<open>
  JSON values as the runtime's encoder writes them (canonical text: equal values have
  equal bytes), the lookups Go and JavaScript make in objects, and the text each of the
  two languages prints for a value. A number is the float64 it denotes: its sign, its
  shortest decimal digits \<open>d1 d2 ... dn\<close> (no leading or trailing zero) and the position
  \<open>dp\<close> of the decimal point, for the value \<open>0.d1...dn * 10^dp\<close>; zero has no digits.
\<close>

datatype json =
    JNull
  | JBool bool
  | JNum bool string int
  | JStr string
  | JArr "json list"
  | JObj "(string \<times> json) list"

section \<open>Members\<close>

text \<open>A Go map filled from an object: the last of two equal keys wins; sorted by key.\<close>

definition canon :: "(string \<times> 'a) list \<Rightarrow> (string \<times> 'a) list" where
  "canon ms = map (\<lambda>k. (k, the (map_of (rev ms) k))) (sort (remdups (map fst ms)))"

fun members_of :: "json \<Rightarrow> (string \<times> json) list option" where
  "members_of (JObj ms) = Some (canon ms)"
| "members_of JNull = Some []"
| "members_of _ = None"

definition field :: "json \<Rightarrow> string \<Rightarrow> json option" where
  "field v k = (case v of JObj ms \<Rightarrow> map_of (rev ms) k | _ \<Rightarrow> None)"

lemma distinct_canon [simp]: "distinct (map fst (canon ms))"
  by (simp add: canon_def comp_def)

lemma map_of_map_key: "map_of (map (\<lambda>k. (k, f k)) ks) k = (if k \<in> set ks then Some (f k) else None)"
  by (induction ks) auto

lemma map_of_canon: "map_of (canon ms) k = map_of (rev ms) k"
proof -
  have "map_of (rev ms) k = None \<longleftrightarrow> k \<notin> fst ` set ms" by (simp add: map_of_eq_None_iff)
  then show ?thesis by (cases "map_of (rev ms) k") (auto simp: canon_def map_of_map_key)
qed

lemma canon_keys: "set (map fst (canon ms)) = fst ` set ms"
  by (auto simp: canon_def image_image)

section \<open>How the two languages print a number\<close>

definition zeros :: "int \<Rightarrow> string" where "zeros n = replicate (nat n) (CHR ''0'')"

definition exp_sign :: "int \<Rightarrow> string" where "exp_sign e = (if e < 0 then ''-'' else ''+'')"

text \<open>\<open>strconv.AppendFloat\<close> with format \<open>g\<close> and precision \<open>-1\<close>, which \<open>fmt.Sprint\<close> uses.\<close>

definition pad_exp :: "int \<Rightarrow> string" where
  "pad_exp e = exp_sign e @ (if \<bar>e\<bar> < 10 then ''0'' else '''') @ nat_dec (nat \<bar>e\<bar>)"

definition go_exp_form :: "string \<Rightarrow> int \<Rightarrow> string" where
  "go_exp_form ds dp = take 1 ds @ (if length ds > 1 then ''.'' @ drop 1 ds else '''') @ ''e'' @ pad_exp (dp - 1)"

definition go_fix_form :: "string \<Rightarrow> int \<Rightarrow> string" where
  "go_fix_form ds dp =
    (if 0 < dp then take (nat dp) ds @ zeros (dp - int (length ds)) else ''0'') @
    (if int (length ds) > dp then ''.'' @ zeros (- dp) @ drop (nat dp) ds else '''')"

definition go_num :: "bool \<Rightarrow> string \<Rightarrow> int \<Rightarrow> string" where
  "go_num neg ds dp = (if neg then ''-'' else '''') @
    (if ds = [] then ''0'' else if dp - 1 < - 4 \<or> 6 \<le> dp - 1 then go_exp_form ds dp else go_fix_form ds dp)"

text \<open>\<open>Number::toString\<close> of ECMAScript.\<close>

definition js_num :: "bool \<Rightarrow> string \<Rightarrow> int \<Rightarrow> string" where
  "js_num neg ds dp = (if ds = [] then ''0'' else (if neg then ''-'' else '''') @
    (if int (length ds) \<le> dp \<and> dp \<le> 21 then ds @ zeros (dp - int (length ds))
     else if 0 < dp \<and> dp \<le> 21 then take (nat dp) ds @ ''.'' @ drop (nat dp) ds
     else if - 6 < dp \<and> dp \<le> 0 then ''0.'' @ zeros (- dp) @ ds
     else take 1 ds @ (if length ds > 1 then ''.'' @ drop 1 ds else '''') @ ''e'' @ exp_sign (dp - 1) @ nat_dec (nat \<bar>dp - 1\<bar>)))"

lemma num_text_agrees:
  assumes "ds \<noteq> []" "- 4 < dp" "dp \<le> 6"
  shows "go_num neg ds dp = js_num neg ds dp"
proof (cases "0 < dp")
  case True
  then show ?thesis using assms
    by (cases "int (length ds) \<le> dp") (auto simp: go_num_def js_num_def go_fix_form_def zeros_def)
next
  case False
  moreover have "0 < length ds" using assms(1) by simp
  then have "\<not> int (length ds) \<le> dp" using False by linarith
  ultimately show ?thesis using assms by (auto simp: go_num_def js_num_def go_fix_form_def zeros_def)
qed

section \<open>\<open>fmt.Sprint\<close>\<close>

fun go_sprint :: "json \<Rightarrow> string" where
  "go_sprint JNull = ''<nil>''"
| "go_sprint (JBool b) = (if b then ''true'' else ''false'')"
| "go_sprint (JNum neg ds dp) = go_num neg ds dp"
| "go_sprint (JStr s) = s"
| "go_sprint (JArr xs) = ''['' @ join_with '' '' (map go_sprint xs) @ '']''"
| "go_sprint (JObj ms) = ''map['' @ join_with '' ''
    (map (\<lambda>(k, t). k @ '':'' @ t) (canon (map (\<lambda>(k, v). (k, go_sprint v)) ms))) @ '']''"

end
