(* ===== verification/Change_Match.thy ===== *)
theory Change_Match
  imports Json_Value
begin

text \<open>
  Which subscription groups a committed change concerns (\<open>matchResult\<close>,
  \<open>readPredicateMatches\<close> and their helpers in \<open>subscriptions.go\<close>, the change record of
  \<open>ws.go\<close>). A Go set (\<open>map[string]bool\<close> or \<open>map[string]struct{}\<close>) is the list of its
  keys. \<open>args\<close> is \<open>None\<close> when the subscription's arguments are not JSON.
\<close>

section \<open>Changes and read dependencies\<close>

record table_detail =
  d_operation :: string
  d_columns :: "string list"
  d_rows :: "string list"
  d_tasks :: "string list"
  d_users :: "string list"
  d_workspaces :: "string list"
  d_precise :: bool
  d_broad :: bool

record table_change =
  c_table :: string
  c_tables :: "string list"
  c_broad :: bool
  c_rows :: "string list"
  c_tasks :: "string list"
  c_users :: "string list"
  c_workspaces :: "string list"
  c_operation :: string
  c_columns :: "string list"
  c_changed_at :: int
  c_details :: "(string \<times> table_detail) list"
  c_declared :: "string list"
  c_commit :: string

record read_dep =
  r_table :: string
  r_columns :: "string list"
  r_filters :: "string list"
  r_orders :: "string list"
  r_windowed :: bool
  r_predicate :: string

definition table_change_tables :: "table_change \<Rightarrow> string list" where
  "table_change_tables c = (if c_tables c = [] then [c_table c] else sort (remdups (c_tables c)))"

definition table_map_keys :: "string list \<Rightarrow> string list" where
  "table_map_keys ts = sort (remdups (filter (\<lambda>t. trim_space t \<noteq> '''') ts))"

definition effective_table_count :: "table_change \<Rightarrow> nat" where
  "effective_table_count c = (if c_tables c \<noteq> [] then length (remdups (c_tables c))
     else if trim_space (c_table c) \<noteq> '''' then 1 else 0)"

definition append_unique_strings :: "string list \<Rightarrow> string list \<Rightarrow> string list" where
  "append_unique_strings old vals =
    sort (fold (\<lambda>v acc. let w = trim_space v in if w = '''' \<or> w \<in> set acc then acc else acc @ [w]) vals old)"

definition table_detail_of :: "table_change \<Rightarrow> string \<Rightarrow> table_detail" where
  "table_detail_of c t = (case map_of (c_details c) t of
     Some d \<Rightarrow> d
   | None \<Rightarrow> \<lparr>d_operation = c_operation c, d_columns = c_columns c, d_rows = c_rows c, d_tasks = c_tasks c,
       d_users = c_users c, d_workspaces = c_workspaces c, d_precise = \<not> c_broad c, d_broad = c_broad c\<rparr>)"

definition change_contains_table :: "table_change \<Rightarrow> string \<Rightarrow> bool" where
  "change_contains_table c t = (if c_tables c \<noteq> [] then t \<in> set (c_tables c) else c_table c = t)"

definition intersects_strings :: "string list \<Rightarrow> string list \<Rightarrow> bool" where
  "intersects_strings xs ys \<longleftrightarrow> list_ex (\<lambda>y. y \<in> set xs) ys"

section \<open>Read predicates\<close>

text \<open>
  The argument a predicate names: \<open>Unreadable\<close> when the arguments are not an object,
  \<open>Absent\<close> when it is missing, else the text \<open>fmt.Sprint\<close> gives, trimmed.
\<close>

datatype arg_value = Unreadable | Absent | Arg_Text string

definition read_arg :: "json option \<Rightarrow> string \<Rightarrow> arg_value" where
  "read_arg args name = (case Option.bind args members_of of
     None \<Rightarrow> Unreadable
   | Some ms \<Rightarrow> (case map_of ms name of None \<Rightarrow> Absent | Some v \<Rightarrow> Arg_Text (trim_space (go_sprint v))))"

definition result_tasks_match :: "table_detail \<Rightarrow> string list \<Rightarrow> bool option" where
  "result_tasks_match d rows = (if d_tasks d = [] then None else Some (intersects_strings rows (d_tasks d)))"

definition column_arg_matches :: "string \<Rightarrow> json option \<Rightarrow> table_detail \<Rightarrow> bool" where
  "column_arg_matches column args d =
    (if column \<noteq> ''workspaceId'' \<or> d_workspaces d = [] then True
     else case read_arg args column of
       Arg_Text i \<Rightarrow> i = '''' \<or> i = ''<nil>'' \<or> i = ''all'' \<or> i \<in> set (d_workspaces d)
     | _ \<Rightarrow> True)"

definition id_arg_matches :: "bool \<Rightarrow> string \<Rightarrow> json option \<Rightarrow> string list \<Rightarrow> bool" where
  "id_arg_matches required argument args changed =
    (if changed = [] \<or> argument = '''' then True
     else case read_arg args argument of
       Unreadable \<Rightarrow> True
     | Absent \<Rightarrow> \<not> required
     | Arg_Text i \<Rightarrow> if i = '''' \<or> i = ''<nil>'' then \<not> required else i \<in> set changed)"

definition read_predicate_matches ::
  "string \<Rightarrow> json option \<Rightarrow> string option \<Rightarrow> table_detail \<Rightarrow> string list \<Rightarrow> bool" where
  "read_predicate_matches raw args user d rows =
    (let p = trim_space raw in
     if p = '''' then True
     else if p = ''resultTaskIds'' then
       (case result_tasks_match d rows of None \<Rightarrow> True | Some b \<Rightarrow> b)
     else case strip_prefix ''resultTaskIdsOrColumnArg:'' p of
       Some c \<Rightarrow> (if trim_space c \<noteq> ''workspaceId'' then True
                  else case result_tasks_match d rows of
                    Some False \<Rightarrow> column_arg_matches (trim_space c) args d
                  | _ \<Rightarrow> True)
     | None \<Rightarrow>
     (case strip_prefix ''callerIdColumn:'' p of
       Some c \<Rightarrow> (if trim_space c \<noteq> ''userId'' \<or> d_users d = [] then True
                  else case user of
                    None \<Rightarrow> True
                  | Some u \<Rightarrow> trim_space u = '''' \<or> trim_space u \<in> set (d_users d))
     | None \<Rightarrow>
     (case strip_prefix ''columnArg:'' p of
       Some c \<Rightarrow> column_arg_matches (trim_space c) args d
     | None \<Rightarrow>
     (case strip_prefix ''requiredIdArg:'' p of
       Some a \<Rightarrow> id_arg_matches True (trim_space a) args (d_rows d)
     | None \<Rightarrow>
     (case strip_prefix ''requiredTaskIdArg:'' p of
       Some a \<Rightarrow> id_arg_matches True (trim_space a) args (d_tasks d)
     | None \<Rightarrow>
     (case strip_prefix ''taskIdArg:'' p of
       Some a \<Rightarrow> id_arg_matches False (trim_space a) args (d_tasks d)
     | None \<Rightarrow>
     (case strip_prefix ''idArg:'' p of
       Some a \<Rightarrow> id_arg_matches False (trim_space a) args (d_rows d)
     | None \<Rightarrow> True)))))))"

section \<open>The match of a group\<close>

record group_reads =
  gr_reads :: "read_dep list"
  gr_unknown :: bool
  gr_args :: "json option"
  gr_user :: "string option"

text \<open>Whether one read dependency makes the group match; the loop's \<open>continue\<close> is \<open>False\<close>.\<close>

definition read_matches :: "group_reads \<Rightarrow> string list \<Rightarrow> table_change \<Rightarrow> read_dep \<Rightarrow> bool" where
  "read_matches g rows c r =
    (let d = table_detail_of c (r_table r); columns = r_columns r @ r_filters r @ r_orders r in
     if \<not> change_contains_table c (r_table r) then False
     else if d_precise d \<and> \<not> read_predicate_matches (r_predicate r) (gr_args g) (gr_user g) d rows then False
     else if \<not> d_precise d \<or> d_broad d \<or> d_operation d = ''insert'' \<or> d_operation d = ''delete'' then True
     else if d_operation d = ''update'' \<and> d_columns d \<noteq> [] \<and> columns \<noteq> [] \<and> \<not> intersects_strings columns (d_columns d) then False
     else if d_operation d = ''update'' \<and> d_columns d \<noteq> [] \<and>
         (intersects_strings (r_filters r) (d_columns d) \<or>
          r_windowed r \<and> intersects_strings (r_orders r) (d_columns d)) then True
     else d_rows d = [] \<or> rows = [] \<or> intersects_strings rows (d_rows d))"

definition match_result :: "group_reads \<Rightarrow> string list \<Rightarrow> table_change \<Rightarrow> bool \<times> bool" where
  "match_result g rows c =
    (if gr_unknown g then (True, False)
     else if c_broad c \<and> effective_table_count c = 0 then (True, False)
     else if list_ex (read_matches g rows c) (gr_reads g) then (True, False)
     else (False, \<not> list_ex (\<lambda>r. change_contains_table c (r_table r)) (gr_reads g)))"

section \<open>What a skipped change may not affect\<close>

text \<open>
  A query over one table, as its read dependency describes it: it keeps rows by their id
  and filter columns, orders them by their ordering columns, cuts a window, and shows
  columns. A table is the list of its rows in physical order, a row its id and columns.
\<close>

type_synonym table_row = "string \<times> (string \<Rightarrow> string)"

record table_query =
  q_keep :: "string \<Rightarrow> (string \<Rightarrow> string) \<Rightarrow> bool"
  q_key :: "(string \<Rightarrow> string) \<Rightarrow> string"
  q_limit :: "nat option"
  q_show :: "(string \<Rightarrow> string) \<Rightarrow> string"

definition window :: "nat option \<Rightarrow> 'a list \<Rightarrow> 'a list" where
  "window l xs = (case l of None \<Rightarrow> xs | Some n \<Rightarrow> take n xs)"

definition kept :: "table_query \<Rightarrow> table_row list \<Rightarrow> table_row list" where
  "kept q db = window (q_limit q) (sort_key (\<lambda>(i, r). q_key q r) (filter (\<lambda>(i, r). q_keep q i r) db))"

definition run_query :: "table_query \<Rightarrow> table_row list \<Rightarrow> (string \<times> string) list" where
  "run_query q db = map (\<lambda>(i, r). (i, q_show q r)) (kept q db)"

definition update_table :: "string list \<Rightarrow> ((string \<Rightarrow> string) \<Rightarrow> string \<Rightarrow> string) \<Rightarrow> table_row list \<Rightarrow> table_row list" where
  "update_table ids f db = map (\<lambda>(i, r). (i, if i \<in> set ids then f r else r)) db"

definition depends_on :: "string list \<Rightarrow> ((string \<Rightarrow> string) \<Rightarrow> 'b) \<Rightarrow> bool" where
  "depends_on cs h \<longleftrightarrow> (\<forall>r s. (\<forall>c \<in> set cs. r c = s c) \<longrightarrow> h r = h s)"

definition describes :: "read_dep \<Rightarrow> table_query \<Rightarrow> bool" where
  "describes d q \<longleftrightarrow> (\<forall>i. depends_on (r_filters d) (q_keep q i)) \<and> depends_on (r_orders d) (q_key q) \<and>
     depends_on (r_columns d @ r_filters d @ r_orders d) (q_show q) \<and> (q_limit q \<noteq> None \<longrightarrow> r_windowed d)"

text \<open>
  What a predicate promises of the query: the empty one nothing, the row-id ones that the
  query shows no other row than the one the argument names.
\<close>

definition promised :: "string \<Rightarrow> json option \<Rightarrow> table_query \<Rightarrow> bool" where
  "promised p args q \<longleftrightarrow>
     (case strip_prefix ''requiredIdArg:'' (trim_space p) of
        Some a \<Rightarrow> (\<forall>i r. q_keep q i r \<longrightarrow> read_arg args (trim_space a) = Arg_Text i \<and> i \<noteq> '''' \<and> i \<noteq> ''<nil>'')
      | None \<Rightarrow> (case strip_prefix ''idArg:'' (trim_space p) of
        Some a \<Rightarrow> (\<forall>t. read_arg args (trim_space a) = Arg_Text t \<longrightarrow> t \<noteq> '''' \<longrightarrow> t \<noteq> ''<nil>'' \<longrightarrow>
                    (\<forall>i r. q_keep q i r \<longrightarrow> i = t))
      | None \<Rightarrow> trim_space p = ''''))"

definition changes_only :: "string list \<Rightarrow> ((string \<Rightarrow> string) \<Rightarrow> string \<Rightarrow> string) \<Rightarrow> bool" where
  "changes_only cs f \<longleftrightarrow> (\<forall>r c. c \<notin> set cs \<longrightarrow> f r c = r c)"

lemma depends_unchanged:
  assumes "depends_on cs h" "changes_only ds f" "\<not> intersects_strings cs ds"
  shows "h (f r) = h r"
proof -
  have "\<forall>c \<in> set cs. f r c = r c"
    using assms(2,3) by (auto simp: changes_only_def intersects_strings_def list_ex_iff)
  then show ?thesis using assms(1) by (auto simp: depends_on_def)
qed

lemma sort_key_map: "sort_key k (map f xs) = map f (sort_key (\<lambda>x. k (f x)) xs)"
proof -
  have ins: "insort_key k (f x) (map f ys) = map f (insort_key (\<lambda>x. k (f x)) x ys)" for x ys
    by (induction ys) auto
  show ?thesis by (induction xs) (simp_all add: ins)
qed

lemma window_map: "window l (map f xs) = map f (window l xs)"
  by (cases l) (simp_all add: window_def take_map)

lemma kept_subset: "set (kept q db) \<subseteq> {(i, r) \<in> set db. q_keep q i r}"
  by (cases "q_limit q") (auto simp: kept_def window_def dest: in_set_takeD)

lemma kept_same_order:
  assumes "\<And>i r. i \<in> set ids \<Longrightarrow> q_keep q i (f r) = q_keep q i r" "\<And>r. q_key q (f r) = q_key q r"
  shows "kept q (update_table ids f db) = update_table ids f (kept q db)"
proof -
  let ?u = "\<lambda>(i, r). (i, if i \<in> set ids then f r else r)"
  have "filter (\<lambda>(i, r). q_keep q i r) (map ?u db) = map ?u (filter (\<lambda>(i, r). q_keep q i r) db)"
    using assms(1) by (induction db) (auto split: if_splits)
  moreover have "(\<lambda>x. (\<lambda>(i, r). q_key q r) (?u x)) = (\<lambda>(i, r). q_key q r)"
    using assms(2) by (auto simp: fun_eq_iff)
  ultimately show ?thesis
    unfolding kept_def update_table_def by (simp add: sort_key_map window_map)
qed

lemma kept_untouched:
  assumes "\<And>i r. (i, r) \<in> set db \<Longrightarrow> i \<in> set ids \<Longrightarrow> \<not> q_keep q i r \<and> \<not> q_keep q i (f r)"
  shows "kept q (update_table ids f db) = kept q db"
proof -
  have "filter (\<lambda>(i, r). q_keep q i r) (update_table ids f db) = filter (\<lambda>(i, r). q_keep q i r) db"
    using assms unfolding update_table_def by (induction db) (auto split: if_splits)
  then show ?thesis by (simp add: kept_def)
qed

lemma run_query_same_show:
  assumes "kept q db' = update_table ids f (kept q db)"
    and "\<And>i r. (i, r) \<in> set (kept q db) \<Longrightarrow> i \<in> set ids \<Longrightarrow> q_show q (f r) = q_show q r"
  shows "run_query q db' = run_query q db"
  using assms by (auto simp: run_query_def update_table_def)

lemma rejected_predicate:
  assumes p: "promised (r_predicate d) args q" and n: "\<not> read_predicate_matches (r_predicate d) args user t rows"
    and i: "i \<in> set (d_rows t)"
  shows "\<not> q_keep q i r"
proof -
  have pre: "strip_prefix ''resultTaskIdsOrColumnArg:'' (''requiredIdArg:'' @ a) = None"
    "strip_prefix ''callerIdColumn:'' (''requiredIdArg:'' @ a) = None"
    "strip_prefix ''columnArg:'' (''requiredIdArg:'' @ a) = None"
    "strip_prefix ''resultTaskIdsOrColumnArg:'' (''idArg:'' @ a) = None"
    "strip_prefix ''callerIdColumn:'' (''idArg:'' @ a) = None"
    "strip_prefix ''columnArg:'' (''idArg:'' @ a) = None"
    "strip_prefix ''requiredIdArg:'' (''idArg:'' @ a) = None"
    "strip_prefix ''requiredTaskIdArg:'' (''idArg:'' @ a) = None"
    "strip_prefix ''taskIdArg:'' (''idArg:'' @ a) = None" for a
    by simp_all
  consider (required) a where "trim_space (r_predicate d) = ''requiredIdArg:'' @ a"
    | (optional) a where "trim_space (r_predicate d) = ''idArg:'' @ a"
        "strip_prefix ''requiredIdArg:'' (trim_space (r_predicate d)) = None"
    | (none) "trim_space (r_predicate d) = ''''"
    using p by (auto simp: promised_def strip_prefix_Some split: option.splits)
  then show ?thesis
  proof cases
    case required
    then have "\<not> id_arg_matches True (trim_space a) args (d_rows t)"
      using n by (simp add: read_predicate_matches_def pre)
    then show ?thesis using p i required
      by (auto simp: promised_def id_arg_matches_def strip_prefix_append split: arg_value.splits if_splits)
  next
    case optional
    then have "\<not> id_arg_matches False (trim_space a) args (d_rows t)"
      using n by (simp add: read_predicate_matches_def pre)
    then show ?thesis using p i optional
      by (auto simp: promised_def id_arg_matches_def pre split: arg_value.splits if_splits)
  next
    case none
    then show ?thesis using n by (simp add: read_predicate_matches_def)
  qed
qed

lemma skip_cases:
  assumes "\<not> (if \<not> ct then False else if pr \<and> \<not> pm then False else if \<not> pr \<or> br \<or> i \<or> dl then True
      else if u \<and> cn \<and> cne \<and> \<not> ic then False else if u \<and> cn \<and> (fi \<or> w \<and> oi) then True else e \<or> er \<or> ix)"
    and "ct" "u" "cn"
  shows "\<not> pm \<or> \<not> ic \<or> (\<not> fi \<and> \<not> (w \<and> oi) \<and> \<not> er \<and> \<not> ix)"
  using assms by argo

lemma skipped_update:
  assumes q: "describes d q" and p: "promised (r_predicate d) (gr_args g) q"
    and skip: "\<not> read_matches g (map fst (run_query q db)) c d"
    and table: "change_contains_table c (r_table d)"
    and t: "table_detail_of c (r_table d) = t" "d_operation t = ''update''" "d_columns t \<noteq> []"
    and f: "changes_only (d_columns t) f"
  shows "run_query q (update_table (d_rows t) f db) = run_query q db"
proof -
  let ?rows = "map fst (run_query q db)"
  have ids: "?rows = map fst (kept q db)" by (simp add: run_query_def split_def comp_def)
  consider (predicate) "\<not> read_predicate_matches (r_predicate d) (gr_args g) (gr_user g) t ?rows"
    | (columns) "\<not> intersects_strings (r_columns d @ r_filters d @ r_orders d) (d_columns t)"
    | (rows) "\<not> intersects_strings (r_filters d) (d_columns t)"
        "\<not> (r_windowed d \<and> intersects_strings (r_orders d) (d_columns t))"
        "?rows \<noteq> []" "\<not> intersects_strings ?rows (d_rows t)"
  proof -
    let ?p = "read_predicate_matches (r_predicate d) (gr_args g) (gr_user g) t ?rows"
    let ?c = "intersects_strings (r_columns d @ r_filters d @ r_orders d) (d_columns t)"
    have "\<not> ?p \<or> \<not> ?c \<or> (\<not> intersects_strings (r_filters d) (d_columns t) \<and>
        \<not> (r_windowed d \<and> intersects_strings (r_orders d) (d_columns t)) \<and>
        ?rows \<noteq> [] \<and> \<not> intersects_strings ?rows (d_rows t))"
      by (rule skip_cases[OF skip[unfolded read_matches_def Let_def t(1)] table t(2,3)])
    then show thesis using that by (elim disjE conjE)
  qed
  then show ?thesis
  proof cases
    case predicate
    have "\<not> q_keep q i r" if "i \<in> set (d_rows t)" for i r
      using rejected_predicate[OF p predicate that] .
    then have "kept q (update_table (d_rows t) f db) = kept q db" by (intro kept_untouched) auto
    then show ?thesis by (simp add: run_query_def)
  next
    case columns
    then have fc: "\<not> intersects_strings (r_filters d) (d_columns t)" "\<not> intersects_strings (r_orders d) (d_columns t)"
      by (auto simp: intersects_strings_def list_ex_iff)
    have dep: "depends_on (r_filters d) (q_keep q i)" "depends_on (r_orders d) (q_key q)"
      "depends_on (r_columns d @ r_filters d @ r_orders d) (q_show q)" for i
      using q by (simp_all add: describes_def)
    show ?thesis
    proof (rule run_query_same_show)
      show "kept q (update_table (d_rows t) f db) = update_table (d_rows t) f (kept q db)"
        by (rule kept_same_order)
          (rule depends_unchanged[OF dep(1) f fc(1)], rule depends_unchanged[OF dep(2) f fc(2)])
    qed (rule depends_unchanged[OF dep(3) f columns])
  next
    case rows
    have dep: "depends_on (r_filters d) (q_keep q i)" "depends_on (r_orders d) (q_key q)" for i
      using q by (simp_all add: describes_def)
    have keep: "q_keep q i (f r) = q_keep q i r" for i r
      by (rule depends_unchanged[OF dep(1) f rows(1)])
    have out: "i \<notin> set (d_rows t)" if "(i, r) \<in> set (kept q db)" for i r
      using rows(4) that unfolding ids by (force simp: intersects_strings_def list_ex_iff)
    show ?thesis
    proof (cases "q_limit q")
      case None
      have "i \<notin> set (d_rows t)" if "(i, r) \<in> set db" "q_keep q i r" for i r
        using out[of i r] that None by (simp add: kept_def window_def)
      then have "kept q (update_table (d_rows t) f db) = kept q db" using keep by (intro kept_untouched) auto
      then show ?thesis by (simp add: run_query_def)
    next
      case (Some n)
      then have "r_windowed d" using q by (simp add: describes_def)
      then have "\<not> intersects_strings (r_orders d) (d_columns t)" using rows(2) by simp
      note key = depends_unchanged[OF dep(2) f this]
      show ?thesis
      proof (rule run_query_same_show)
        show "kept q (update_table (d_rows t) f db) = update_table (d_rows t) f (kept q db)"
          by (rule kept_same_order) (rule keep, rule key)
      qed (use out in blast)
    qed
  qed
qed


definition tasks_read :: read_dep where
  "tasks_read = \<lparr>r_table = ''tasks'', r_columns = [''title''], r_filters = [''list''], r_orders = [''rank''],
     r_windowed = True, r_predicate = ''''\<rparr>"

definition tasks_query :: table_query where
  "tasks_query = \<lparr>q_keep = (\<lambda>i r. r ''list'' = ''L''), q_key = (\<lambda>r. r ''rank''), q_limit = Some 1, q_show = (\<lambda>r. r ''title'')\<rparr>"

definition task_row :: "string \<Rightarrow> string \<Rightarrow> string \<Rightarrow> table_row" where
  "task_row i rank title = (i, (\<lambda>c. if c = ''list'' then ''L'' else if c = ''rank'' then rank else title))"

definition tasks_db :: "table_row list" where
  "tasks_db = [task_row ''b'' ''2'' ''old'', task_row ''a'' ''1'' ''shown'']"

definition title_change :: table_change where
  "title_change = \<lparr>c_table = ''tasks'', c_tables = [], c_broad = False, c_rows = [''b''], c_tasks = [], c_users = [],
     c_workspaces = [], c_operation = ''update'', c_columns = [''title''], c_changed_at = 0, c_details = [],
     c_declared = [], c_commit = ''c1''\<rparr>"

definition tasks_group :: group_reads where
  "tasks_group = \<lparr>gr_reads = [tasks_read], gr_unknown = False, gr_args = Some JNull, gr_user = None\<rparr>"

definition set_title :: "(string \<Rightarrow> string) \<Rightarrow> string \<Rightarrow> string" where
  "set_title r = r(''title'' := ''new'')"


text \<open>
  A query by the numeric id 1234567 is not woken by an update of the row 1234567: the
  argument prints as \<open>1.234567e+06\<close>.
\<close>

definition by_id_group :: "json \<Rightarrow> group_reads" where
  "by_id_group v = \<lparr>gr_reads = [\<lparr>r_table = ''tasks'', r_columns = [''title''], r_filters = [], r_orders = [],
      r_windowed = False, r_predicate = ''idArg:id''\<rparr>],
     gr_unknown = False, gr_args = Some (JObj [(''id'', v)]), gr_user = None\<rparr>"

lemma large_id_argument_not_woken:
  "\<not> fst (match_result (by_id_group (JNum False ''1234567'' 7)) [''1234567''] (title_change\<lparr>c_rows := [''1234567'']\<rparr>)) \<and>
   fst (match_result (by_id_group (JNum False ''234567'' 6)) [''234567''] (title_change\<lparr>c_rows := [''234567'']\<rparr>))"
  by code_simp

end
