(* ===== verification/Sync_Log.thy ===== *)
theory Sync_Log
  imports Change_Match "HOL-Library.AList" "HOL-Library.Multiset"
begin

text \<open>
  The durable change log behind synchronised collections: the triggers and the clock of
  \<open>schema/sync.go\<close>, and \<open>readSyncChanges\<close>, \<open>pruneSyncLog\<close> and the definitions of
  collections of \<open>server/sync.go\<close>. A row is the JSON object of its logged columns; a table
  maps the text of the key to the row. The history of the tables by revision is kept beside the
  log to state what the log means.
\<close>

section \<open>Definitions of collections\<close>

record sync_definition =
  sd_table :: string
  sd_key :: string
  sd_columns :: "string list"
  sd_equal_filters :: "(string \<times> string) list"
  sd_exclude_when_set :: "string list"
  sd_visibility_tables :: "string list"
  sd_visibility_columns :: "(string \<times> string list) list"
  sd_order_by :: string
  sd_order_direction :: string
  sd_mode :: string
  sd_max_rows :: int
  sd_max_bytes :: int
  sd_retention :: int

definition columns_at :: "(string \<times> string list) list \<Rightarrow> string \<Rightarrow> string list" where
  "columns_at m table = (case map_of m table of None \<Rightarrow> [] | Some cs \<Rightarrow> cs)"

record sync_read =
  sr_table :: string
  sr_columns :: "string list"
  sr_filters :: "string list"
  sr_orders :: "string list"

text \<open>One read dependency: its table becomes a visibility table, with the columns it names unless there are none.\<close>

fun add_read :: "string \<Rightarrow> sync_read \<Rightarrow> string list \<times> (string \<times> string list) list \<times> string list \<Rightarrow>
    string list \<times> (string \<times> string list) list \<times> string list" where
  "add_read source r (tables, columns, broad) =
    (let table = trim_space (sr_table r) in
     if table = '''' \<or> table = source then (tables, columns, broad)
     else let cs = append_unique_strings (append_unique_strings (append_unique_strings [] (sr_columns r)) (sr_filters r)) (sr_orders r)
       in (append_unique_strings tables [table], AList.update table (append_unique_strings (columns_at columns table) cs) columns,
           if cs = [] then table # broad else broad))"

definition effective_sync_definition :: "sync_definition \<Rightarrow> sync_read list \<Rightarrow> sync_definition" where
  "effective_sync_definition d reads =
    (let vis = append_unique_strings [] (sd_visibility_tables d);
         (tables, columns, broad) = fold (add_read (sd_table d)) reads (vis, [], vis)
     in d\<lparr>sd_visibility_tables := tables, sd_visibility_columns := filter (\<lambda>(t, _). t \<notin> set broad) columns\<rparr>)"

text \<open>
  The definitions of the functions of one project by table, in the order Go visits its map
  (an argument); a further function over a table adds to the first one's.
\<close>

definition merge_definition :: "sync_definition \<Rightarrow> sync_definition \<Rightarrow> sync_definition" where
  "merge_definition old d = old\<lparr>sd_columns := append_unique_strings (sd_columns old) (sd_columns d),
     sd_equal_filters := fold (\<lambda>(c, a). AList.update c a) (sd_equal_filters d) (sd_equal_filters old),
     sd_visibility_tables := append_unique_strings (sd_visibility_tables old) (sd_visibility_tables d),
     sd_visibility_columns := fold (\<lambda>(t, cs) m. AList.update t (append_unique_strings (columns_at m t) cs) m) (sd_visibility_columns d) (sd_visibility_columns old),
     sd_exclude_when_set := append_unique_strings (sd_exclude_when_set old) (sd_exclude_when_set d),
     sd_order_by := (if sd_order_by d \<noteq> '''' then sd_order_by d else sd_order_by old)\<rparr>"

definition add_definition :: "sync_definition \<Rightarrow> (string \<times> sync_definition) list \<Rightarrow> (string \<times> sync_definition) list" where
  "add_definition d m = (let table = trim_space (sd_table d) in
     if table = '''' then m
     else case map_of m table of
       Some old \<Rightarrow> AList.update table (merge_definition old d) m
     | None \<Rightarrow> AList.update table (d\<lparr>sd_columns := append_unique_strings [] (sd_columns d)\<rparr>) m)"

definition manifest_sync_definitions :: "sync_definition list \<Rightarrow> (string \<times> sync_definition) list" where
  "manifest_sync_definitions ds = fold add_definition ds []"

text \<open>
  The schema is an argument: its tables in the order Go visits them, each with its columns and
  whether they are primary keys. A visibility table that no function synchronises gets a
  definition of its own; \<open>None\<close> when it has no primary key.
\<close>

type_synonym schema = "(string \<times> (string \<times> bool) list) list"

definition primary_key :: "(string \<times> bool) list \<Rightarrow> string" where
  "primary_key columns = (case sort (map fst (filter snd columns)) of [] \<Rightarrow> '''' | k # _ \<Rightarrow> k)"

definition visibility_definition :: "string \<Rightarrow> string \<Rightarrow> string list \<Rightarrow> sync_definition" where
  "visibility_definition table key columns = \<lparr>sd_table = table, sd_key = key, sd_columns = append_unique_strings [key] columns,
     sd_equal_filters = [], sd_exclude_when_set = [], sd_visibility_tables = [], sd_visibility_columns = [], sd_order_by = '''',
     sd_order_direction = '''', sd_mode = '''', sd_max_rows = 0, sd_max_bytes = 0, sd_retention = 0\<rparr>"

definition add_visibility_table :: "schema \<Rightarrow> sync_definition \<Rightarrow> string \<Rightarrow> (string \<times> sync_definition) list option \<Rightarrow>
    (string \<times> sync_definition) list option" where
  "add_visibility_table schema d table filtered = (case filtered of None \<Rightarrow> None | Some m \<Rightarrow>
     let columns = columns_at (sd_visibility_columns d) table in
     case map_of m table of
       Some old \<Rightarrow> Some (AList.update table (old\<lparr>sd_columns := append_unique_strings (sd_columns old) columns\<rparr>) m)
     | None \<Rightarrow> (case map_of schema table of
         None \<Rightarrow> Some m
       | Some cs \<Rightarrow> let key = primary_key cs in
           if key = '''' then None else Some (AList.update table (visibility_definition table key columns) m)))"

definition sync_definitions_for_schema :: "(string \<times> sync_definition) list \<Rightarrow> schema \<Rightarrow> (string \<times> sync_definition) list option" where
  "sync_definitions_for_schema definitions schema =
    (let filtered = filter (\<lambda>(t, _). t \<in> fst ` set schema) definitions
     in fold (\<lambda>d. fold (add_visibility_table schema d) (sd_visibility_tables d)) (map snd filtered) (Some filtered))"

text \<open>The columns a trigger writes to the log; \<open>Err\<close> with the reason when it cannot.\<close>

datatype columns_error = Invalid_Column | Undeclared_Column | No_Columns | Key_Not_Projected

fun check_columns :: "(string \<Rightarrow> bool) \<Rightarrow> string set \<Rightarrow> string list \<Rightarrow> string list \<Rightarrow> (columns_error, string list) outcome" where
  "check_columns valid declared acc [] = Ok acc"
| "check_columns valid declared acc (c # cs) =
    (let column = trim_space c in
     if column = '''' \<or> column \<in> set acc then check_columns valid declared acc cs
     else if \<not> valid column then Err Invalid_Column
     else if column \<notin> declared then Err Undeclared_Column
     else check_columns valid declared (acc @ [column]) cs)"

definition sync_columns :: "(string \<Rightarrow> bool) \<Rightarrow> string set \<Rightarrow> sync_definition \<Rightarrow> (columns_error, string list) outcome" where
  "sync_columns valid declared d =
    bind_outcome (check_columns valid declared []
        (sd_columns d @ [sd_key d, sd_order_by d] @ sd_exclude_when_set d @ map fst (sd_equal_filters d)))
      (\<lambda>cs. if cs = [] then Err No_Columns else if sd_key d \<notin> set cs then Err Key_Not_Projected else Ok (sort cs))"

section \<open>The log\<close>

datatype operation = Insert_Op | Update_Op | Delete_Op

record sync_change =
  sy_revision :: nat
  sy_ordinal :: nat
  sy_mutation :: string
  sy_table :: string
  sy_row :: string
  sy_operation :: operation
  sy_old :: json
  sy_new :: json
  sy_created :: int

type_synonym tables = "string \<Rightarrow> string \<Rightarrow> json option"

text \<open>What a statement does to one row of a logged table.\<close>

datatype row_write = Insert_Row string string json | Update_Row string string string json | Delete_Row string string

fun write_row :: "row_write \<Rightarrow> tables \<Rightarrow> tables" where
  "write_row (Insert_Row t k v) db = db(t := (db t)(k := Some v))"
| "write_row (Update_Row t k k' v) db = db(t := (db t)(k := None, k' := Some v))"
| "write_row (Delete_Row t k) db = db(t := (db t)(k := None))"

text \<open>The trigger: an update is logged under the new key alone.\<close>

definition old_value :: "tables \<Rightarrow> string \<Rightarrow> string \<Rightarrow> json" where
  "old_value db t k = (case db t k of None \<Rightarrow> JNull | Some v \<Rightarrow> v)"

fun stage :: "int \<Rightarrow> row_write \<Rightarrow> tables \<Rightarrow> sync_change" where
  "stage now (Insert_Row t k v) db = \<lparr>sy_revision = 0, sy_ordinal = 0, sy_mutation = '''', sy_table = t, sy_row = k,
     sy_operation = Insert_Op, sy_old = JNull, sy_new = v, sy_created = now\<rparr>"
| "stage now (Update_Row t k k' v) db = \<lparr>sy_revision = 0, sy_ordinal = 0, sy_mutation = '''', sy_table = t, sy_row = k',
     sy_operation = Update_Op, sy_old = old_value db t k, sy_new = v, sy_created = now\<rparr>"
| "stage now (Delete_Row t k) db = \<lparr>sy_revision = 0, sy_ordinal = 0, sy_mutation = '''', sy_table = t, sy_row = k,
     sy_operation = Delete_Op, sy_old = old_value db t k, sy_new = JNull, sy_created = now\<rparr>"

fun stage_all :: "int \<Rightarrow> row_write list \<Rightarrow> tables \<Rightarrow> sync_change list \<times> tables" where
  "stage_all now [] db = ([], db)"
| "stage_all now (w # ws) db = (case stage_all now ws (write_row w db) of (cs, db') \<Rightarrow> (stage now w db # cs, db'))"

text \<open>The clock, the finalised changes and, beside them, the tables as they were at each revision.\<close>

record sync_db =
  sl_epoch :: string
  sl_revision :: nat
  sl_retained :: nat
  sl_changes :: "sync_change list"
  sl_tables :: tables
  sl_history :: "nat \<Rightarrow> tables"

text \<open>\<open>gonvex_sync_finalize_transaction\<close>, at the commit of a transaction that wrote logged tables.\<close>

definition finalize :: "nat \<Rightarrow> string \<Rightarrow> sync_change list \<Rightarrow> sync_change list" where
  "finalize revision mutation cs =
    map (\<lambda>(i, c). c\<lparr>sy_revision := revision, sy_ordinal := i, sy_mutation := mutation\<rparr>) (zip [1..<length cs + 1] cs)"

definition commit_writes :: "int \<Rightarrow> string \<Rightarrow> row_write list \<Rightarrow> sync_db \<Rightarrow> sync_db" where
  "commit_writes now mutation ws s = (if ws = [] then s else
    case stage_all now ws (sl_tables s) of (cs, db) \<Rightarrow>
      let r = sl_revision s + 1 in
      s\<lparr>sl_revision := r, sl_changes := sl_changes s @ finalize r mutation cs, sl_tables := db, sl_history := (sl_history s)(r := db)\<rparr>)"

definition prune_sync_log :: "int \<Rightarrow> int \<Rightarrow> sync_db \<Rightarrow> sync_db" where
  "prune_sync_log now retention s =
    (let limit = now - (if retention \<le> 0 then 604800000 else retention);
         removed = filter (\<lambda>c. sy_created c < limit) (sl_changes s)
     in s\<lparr>sl_changes := filter (\<lambda>c. \<not> sy_created c < limit) (sl_changes s),
          sl_retained := fold max (map sy_revision removed) (sl_retained s)\<rparr>)"

definition sync_retention :: "sync_definition list \<Rightarrow> int" where
  "sync_retention ds = fold (\<lambda>d r. if sd_retention d > r then sd_retention d else r) ds 604800000"

datatype read_error = Cursor_Expired | No_Table

definition read_sync_changes :: "nat \<Rightarrow> nat \<Rightarrow> string list \<Rightarrow> sync_db \<Rightarrow> (read_error, sync_change list) outcome" where
  "read_sync_changes after through tables s =
    (if after < sl_retained s then Err Cursor_Expired
     else let ts = append_unique_strings [] tables in
       if ts = [] then Err No_Table
       else Ok (sort_key sy_revision (sort_key sy_ordinal
         (filter (\<lambda>c. after < sy_revision c \<and> sy_revision c \<le> through \<and> sy_table c \<in> set ts) (sl_changes s)))))"

section \<open>What the log means\<close>

definition replay :: "string \<Rightarrow> string \<Rightarrow> sync_change list \<Rightarrow> json option \<Rightarrow> json option" where
  "replay t k cs v = fold (\<lambda>c v. if sy_table c = t \<and> sy_row c = k then (if sy_new c = JNull then None else Some (sy_new c)) else v) cs v"

lemma replay_simps [simp]:
  "replay t k [] v = v"
  "replay t k (c # cs) v = replay t k cs (if sy_table c = t \<and> sy_row c = k then (if sy_new c = JNull then None else Some (sy_new c)) else v)"
  "replay t k (cs @ ds) v = replay t k ds (replay t k cs v)"
  by (simp_all add: replay_def)

lemma replay_filter: "(\<And>c. c \<in> set cs \<Longrightarrow> sy_table c = t \<Longrightarrow> P c) \<Longrightarrow> replay t k (filter P cs) v = replay t k cs v"
  by (induction cs arbitrary: v) auto

text \<open>Writes that keep the keys of rows; a row is never the JSON null.\<close>

fun plain_write :: "row_write \<Rightarrow> bool" where
  "plain_write (Insert_Row t k v) \<longleftrightarrow> v \<noteq> JNull"
| "plain_write (Update_Row t k k' v) \<longleftrightarrow> k' = k \<and> v \<noteq> JNull"
| "plain_write (Delete_Row t k) \<longleftrightarrow> True"

lemma stage_row:
  assumes "plain_write w"
  shows "write_row w db t k = (if sy_table (stage now w db) = t \<and> sy_row (stage now w db) = k
    then (if sy_new (stage now w db) = JNull then None else Some (sy_new (stage now w db))) else db t k)"
  using assms by (cases w) auto

lemma stage_all_replay:
  assumes "list_all plain_write ws" and "stage_all now ws db = (cs, db')"
  shows "db' t k = replay t k cs (db t k)"
  using assms
proof (induction ws arbitrary: db cs)
  case (Cons w ws)
  then show ?case by (auto simp: stage_row[of w db t k now] split: prod.splits)
qed simp

lemma finalize_map:
  assumes "\<And>i c. f (c\<lparr>sy_revision := r, sy_ordinal := i, sy_mutation := m\<rparr>) = f c"
  shows "map f (finalize r m cs) = map f cs"
  using assms by (intro nth_equalityI) (simp_all add: finalize_def del: upt_Suc)

lemma finalize_fields:
  "map sy_table (finalize r m cs) = map sy_table cs" "map sy_row (finalize r m cs) = map sy_row cs" "map sy_new (finalize r m cs) = map sy_new cs"
  "map sy_ordinal (finalize r m cs) = [1..<length cs + 1]" "c \<in> set (finalize r m cs) \<Longrightarrow> sy_revision c = r"
proof -
  show "map sy_table (finalize r m cs) = map sy_table cs" "map sy_row (finalize r m cs) = map sy_row cs"
    "map sy_new (finalize r m cs) = map sy_new cs"
    by (intro conjI finalize_map; simp)+
  show "map sy_ordinal (finalize r m cs) = [1..<length cs + 1]"
    by (simp add: finalize_def comp_def case_prod_unfold del: upt_Suc)
  show "c \<in> set (finalize r m cs) \<Longrightarrow> sy_revision c = r"
    by (auto simp: finalize_def)
qed

lemma replay_fields:
  assumes "map sy_table cs = map sy_table ds" and "map sy_row cs = map sy_row ds" and "map sy_new cs = map sy_new ds"
  shows "replay t k cs v = replay t k ds v"
  using assms
proof (induction cs arbitrary: ds v)
  case (Cons c cs)
  then obtain d ds' where "ds = d # ds'" by (cases ds) auto
  with Cons show ?case by simp
qed simp

text \<open>The log is in order, and from the retained revision on it leads from each state of the tables to the next.\<close>

definition in_order :: "sync_change list \<Rightarrow> bool" where
  "in_order cs \<longleftrightarrow> sorted (map sy_revision cs) \<and> (\<forall>r. sorted (map sy_ordinal (filter (\<lambda>c. sy_revision c = r) cs)))"

definition log_ok :: "sync_db \<Rightarrow> bool" where
  "log_ok s \<longleftrightarrow> in_order (sl_changes s) \<and> (\<forall>c\<in>set (sl_changes s). sy_revision c \<le> sl_revision s) \<and>
     sl_retained s \<le> sl_revision s \<and> sl_history s (sl_revision s) = sl_tables s \<and>
     (\<forall>r t k. sl_retained s \<le> r \<and> r < sl_revision s \<longrightarrow>
        sl_history s (r + 1) t k = replay t k (filter (\<lambda>c. sy_revision c = r + 1) (sl_changes s)) (sl_history s r t k))"

inductive log_step :: "sync_db \<Rightarrow> sync_db \<Rightarrow> bool" where
  commit: "list_all plain_write ws \<Longrightarrow> log_step s (commit_writes now mutation ws s)"
| prune: "log_step s (prune_sync_log now retention s)"

definition log_start :: "sync_db \<Rightarrow> bool" where
  "log_start s \<longleftrightarrow> sl_revision s = 0 \<and> sl_retained s = 0 \<and> sl_changes s = [] \<and> sl_history s 0 = sl_tables s"

lemma in_order_filter: "in_order cs \<Longrightarrow> in_order (filter P cs)"
proof -
  assume a: "in_order cs"
  have "filter (\<lambda>c. sy_revision c = r) (filter P cs) = filter P (filter (\<lambda>c. sy_revision c = r) cs)" for r
    by (simp add: conj_commute)
  with a show ?thesis by (simp add: in_order_def sorted_filter del: filter_filter)
qed

lemma in_order_append:
  assumes "in_order cs" and "\<forall>c\<in>set cs. sy_revision c < r" and "\<forall>c\<in>set ds. sy_revision c = r" and "sorted (map sy_ordinal ds)"
  shows "in_order (cs @ ds)"
proof -
  have "map sy_revision ds = replicate (length ds) r"
    using assms(3) by (simp add: map_eq_conv flip: map_replicate_const)
  then have "sorted (map sy_revision (cs @ ds))"
    using assms(1-3) by (auto simp: in_order_def sorted_append)
  moreover have "filter (\<lambda>c. sy_revision c = r') ds = (if r' = r then ds else [])" for r'
    using assms(3) by (auto simp: filter_id_conv filter_empty_conv)
  moreover have "filter (\<lambda>c. sy_revision c = r) cs = []"
    using assms(2) by (auto simp: filter_empty_conv)
  ultimately show ?thesis using assms(1,4) by (auto simp: in_order_def)
qed

lemma commit_ok:
  assumes "log_ok s" and "list_all plain_write ws"
  shows "log_ok (commit_writes now mutation ws s)"
proof (cases "ws = []")
  case True
  with assms(1) show ?thesis by (simp add: commit_writes_def)
next
  case False
  obtain cs db where st: "stage_all now ws (sl_tables s) = (cs, db)" by fastforce
  let ?r = "sl_revision s + 1" and ?ds = "finalize (sl_revision s + 1) mutation cs"
  have rev: "\<forall>c\<in>set ?ds. sy_revision c = ?r" and old: "\<forall>c\<in>set (sl_changes s). sy_revision c < ?r"
    using finalize_fields(5) assms(1) by (auto simp: log_ok_def)
  have order: "in_order (sl_changes s @ ?ds)"
    using assms(1) rev old by (intro in_order_append[where r = ?r]) (auto simp: log_ok_def finalize_fields simp del: upt_Suc)
  have new: "filter (\<lambda>c. sy_revision c = ?r) (sl_changes s @ ?ds) = ?ds"
    using rev old by (auto simp: filter_empty_conv filter_id_conv)
  have replayed: "db t k = replay t k ?ds (sl_tables s t k)" for t k
    using stage_all_replay[OF assms(2) st] replay_fields[OF finalize_fields(1-3)] by metis
  have before: "filter (\<lambda>c. sy_revision c = r + 1) (sl_changes s @ ?ds) = filter (\<lambda>c. sy_revision c = r + 1) (sl_changes s)" if "r < sl_revision s" for r
    using rev that by (auto simp: filter_empty_conv)
  have "commit_writes now mutation ws s = s\<lparr>sl_revision := ?r, sl_changes := sl_changes s @ ?ds, sl_tables := db, sl_history := (sl_history s)(?r := db)\<rparr>"
    using False st by (simp add: commit_writes_def Let_def)
  moreover have "(\<forall>c\<in>set (sl_changes s @ ?ds). sy_revision c \<le> ?r)" using rev old by auto
  moreover have "((sl_history s)(?r := db)) (r + 1) t k = replay t k (filter (\<lambda>c. sy_revision c = r + 1) (sl_changes s @ ?ds)) (((sl_history s)(?r := db)) r t k)"
    if "sl_retained s \<le> r" "r < ?r" for r t k
    using that assms(1) before[of r] new replayed by (cases "r = sl_revision s") (auto simp: log_ok_def)
  ultimately show ?thesis using assms(1) order by (simp add: log_ok_def)
qed

lemma fold_max_bounds:
  fixes xs :: "nat list"
  shows "m \<le> fold max xs m" and "x \<in> set xs \<Longrightarrow> x \<le> fold max xs m" and "m \<le> b \<Longrightarrow> \<forall>x\<in>set xs. x \<le> b \<Longrightarrow> fold max xs m \<le> b"
  by (induction xs arbitrary: m) (auto intro: order_trans[OF max.cobounded1] order_trans[OF max.cobounded2])

lemma prune_ok:
  assumes "log_ok s"
  shows "log_ok (prune_sync_log now retention s)"
proof -
  define limit where "limit = now - (if retention \<le> 0 then 604800000 else retention)"
  define retained where "retained = fold max (map sy_revision (filter (\<lambda>c. sy_created c < limit) (sl_changes s))) (sl_retained s)"
  have s': "prune_sync_log now retention s = s\<lparr>sl_changes := filter (\<lambda>c. \<not> sy_created c < limit) (sl_changes s), sl_retained := retained\<rparr>"
    by (simp add: prune_sync_log_def Let_def limit_def retained_def)
  have bounds: "sl_retained s \<le> retained" "retained \<le> sl_revision s"
    unfolding retained_def using assms by (auto simp: log_ok_def intro!: fold_max_bounds)
  have kept: "filter (\<lambda>c. sy_revision c = r + 1) (filter (\<lambda>c. \<not> sy_created c < limit) (sl_changes s)) = filter (\<lambda>c. sy_revision c = r + 1) (sl_changes s)"
    if "retained \<le> r" for r
  proof -
    have "\<not> sy_created c < limit" if "c \<in> set (sl_changes s)" "sy_revision c = r + 1" for c
    proof
      assume "sy_created c < limit"
      then have "sy_revision c \<le> retained"
        using that(1) unfolding retained_def by (intro fold_max_bounds(2)) simp
      then show False using that(2) \<open>retained \<le> r\<close> by simp
    qed
    then show ?thesis by (auto intro!: filter_cong)
  qed
  show ?thesis unfolding s' log_ok_def
    using assms bounds kept in_order_filter by (auto simp: log_ok_def simp del: filter_filter)
qed

interpretation sync_log: step_invariant log_start log_step log_ok
proof
  show "log_start s \<Longrightarrow> log_ok s" for s
    by (simp add: log_start_def log_ok_def in_order_def)
  show "log_ok s \<Longrightarrow> log_step s s' \<Longrightarrow> log_ok s'" for s s'
    by (auto elim!: log_step.cases intro: commit_ok prune_ok)
qed

section \<open>Reading the log\<close>

lemma in_order_sorted: "in_order cs \<Longrightarrow> sort_key sy_revision (sort_key sy_ordinal cs) = cs"
proof (rule properties_for_sort_key)
  assume a: "in_order cs"
  show "filter (\<lambda>x. sy_revision c = sy_revision x) cs = filter (\<lambda>x. sy_revision c = sy_revision x) (sort_key sy_ordinal cs)" for c
    using a by (simp add: filter_sort in_order_def sort_key_id_if_sorted eq_commute[of "sy_revision c"])
qed (simp_all add: in_order_def)

lemma read_is_filter:
  assumes "log_ok s" and "sl_retained s \<le> after" and "append_unique_strings [] tables \<noteq> []"
  shows "read_sync_changes after through tables s =
    Ok (filter (\<lambda>c. after < sy_revision c \<and> sy_revision c \<le> through \<and> sy_table c \<in> set (append_unique_strings [] tables)) (sl_changes s))"
  using assms in_order_sorted[OF in_order_filter] by (simp add: read_sync_changes_def log_ok_def Let_def)

lemma sorted_range_split:
  assumes "sorted (map sy_revision cs)" and "c \<le> l"
  shows "filter (\<lambda>x. c < sy_revision x \<and> sy_revision x \<le> l + 1) cs =
    filter (\<lambda>x. c < sy_revision x \<and> sy_revision x \<le> l) cs @ filter (\<lambda>x. sy_revision x = l + 1) cs"
  using assms
proof (induction cs)
  case (Cons x cs)
  show ?case
  proof (cases "sy_revision x \<le> l")
    case True
    with Cons show ?thesis by auto
  next
    case False
    then have "filter (\<lambda>x. c < sy_revision x \<and> sy_revision x \<le> l) cs = []"
      using Cons.prems by (auto simp: filter_empty_conv)
    with False Cons show ?thesis by auto
  qed
qed simp

lemma replay_range:
  assumes "log_ok s" and "sl_retained s \<le> c" and "c \<le> l" and "l \<le> sl_revision s"
  shows "sl_history s l t k = replay t k (filter (\<lambda>x. c < sy_revision x \<and> sy_revision x \<le> l) (sl_changes s)) (sl_history s c t k)"
  using assms(3,4)
proof (induction l rule: dec_induct)
  case base
  have "filter (\<lambda>x. c < sy_revision x \<and> sy_revision x \<le> c) (sl_changes s) = []" by (auto simp: filter_empty_conv)
  then show ?case by simp
next
  case (step l)
  have "sorted (map sy_revision (sl_changes s))" using assms(1) by (simp add: log_ok_def in_order_def)
  from sorted_range_split[OF this step.hyps(1)] show ?case
    using step assms(1,2) by (simp add: log_ok_def)
qed

lemma replay_constant: "(\<forall>v. replay t k cs v = v) \<or> (\<exists>w. \<forall>v. replay t k cs v = w)"
proof (induction cs)
  case (Cons c cs)
  then show ?case by (cases "sy_table c = t \<and> sy_row c = k") auto
qed simp

lemma replay_idem: "replay t k cs (replay t k cs v) = replay t k cs v"
  using replay_constant[of t k cs] by metis

lemma range_append:
  assumes "sorted (map sy_revision cs)" and "c \<le> (r::nat)" and "r \<le> l"
  shows "filter (\<lambda>x. c < sy_revision x \<and> sy_revision x \<le> l) cs =
    filter (\<lambda>x. c < sy_revision x \<and> sy_revision x \<le> r) cs @ filter (\<lambda>x. r < sy_revision x \<and> sy_revision x \<le> l) cs"
  using assms(3)
proof (induction l rule: dec_induct)
  case base
  have "filter (\<lambda>x. r < sy_revision x \<and> sy_revision x \<le> r) cs = []" by (auto simp: filter_empty_conv)
  then show ?case by simp
next
  case (step l)
  show ?case
    using step sorted_range_split[OF assms(1), of c l] sorted_range_split[OF assms(1), of r l] assms(2) by simp
qed

text \<open>
  Replaying from a row that is already newer than the cursor ends at the same row: it does not
  matter that a query saw later commits than the revision read before it.
\<close>

lemma replay_from_later:
  assumes "log_ok s" and "sl_retained s \<le> c" and "c \<le> r" and "r \<le> l" and "l \<le> sl_revision s"
  shows "replay t k (filter (\<lambda>x. c < sy_revision x \<and> sy_revision x \<le> l) (sl_changes s)) (sl_history s r t k) = sl_history s l t k"
proof -
  have sorted: "sorted (map sy_revision (sl_changes s))" using assms(1) by (simp add: log_ok_def in_order_def)
  have "sl_history s r t k = replay t k (filter (\<lambda>x. c < sy_revision x \<and> sy_revision x \<le> r) (sl_changes s)) (sl_history s c t k)"
    using assms by (intro replay_range) auto
  then have "replay t k (filter (\<lambda>x. c < sy_revision x \<and> sy_revision x \<le> r) (sl_changes s)) (sl_history s r t k) = sl_history s r t k"
    using replay_idem by metis
  then show ?thesis
    unfolding range_append[OF sorted assms(3,4)] using replay_range[OF assms(1) _ assms(4,5), of t k] assms(2,3) by simp
qed

text \<open>The trigger logs an update of the key under the new key only: the log does not say that the old row is gone.\<close>

lemma key_change_not_logged:
  fixes v :: json
  assumes "v \<noteq> JNull"
  defines "s \<equiv> \<lparr>sl_epoch = ''e'', sl_revision = 0, sl_retained = 0, sl_changes = [],
      sl_tables = (\<lambda>_ _. None)(''tasks'' := (\<lambda>_. None)(''a'' := Some v)), sl_history = \<lambda>_. (\<lambda>_ _. None)(''tasks'' := (\<lambda>_. None)(''a'' := Some v))\<rparr>"
  shows "let s' = commit_writes 1 '''' [Update_Row ''tasks'' ''a'' ''b'' v] s in
    sl_tables s' ''tasks'' ''a'' = None \<and> replay ''tasks'' ''a'' (sl_changes s') (Some v) = Some v"
  by (simp add: commit_writes_def s_def finalize_def Let_def)

section \<open>The logged columns\<close>

lemma union_known: "t = x \<or> t \<in> A \<Longrightarrow> A \<union> {c \<in> insert t B. c \<noteq> x} = A \<union> {c \<in> B. c \<noteq> x}"
  by auto

lemma Collect_subset: "A \<subseteq> B \<Longrightarrow> {c \<in> A. c \<noteq> x} \<subseteq> {c \<in> B. c \<noteq> x}"
  by auto

lemma check_columns_ok:
  assumes "check_columns valid declared acc cs = Ok r" and "distinct acc" and "\<forall>c\<in>set acc. c \<noteq> '''' \<and> valid c \<and> c \<in> declared"
  shows "distinct r \<and> (\<forall>c\<in>set r. c \<noteq> '''' \<and> valid c \<and> c \<in> declared) \<and> set r = set acc \<union> {x \<in> trim_space ` set cs. x \<noteq> ''''}"
  using assms
proof (induction cs arbitrary: acc)
  case (Cons c cs)
  have image: "trim_space ` set (c # cs) = insert (trim_space c) (trim_space ` set cs)" by simp
  show ?case
  proof (cases "trim_space c = '''' \<or> trim_space c \<in> set acc")
    case True
    then have "check_columns valid declared acc cs = Ok r" using Cons.prems(1) by (simp add: Let_def split: if_splits)
    note ih = Cons.IH[OF this Cons.prems(2,3)]
    have same: "set acc \<union> {x \<in> trim_space ` set (c # cs). x \<noteq> ''''} = set acc \<union> {x \<in> trim_space ` set cs. x \<noteq> ''''}" unfolding image using True by (rule union_known)
    show ?thesis using ih unfolding same .
  next
    case False
    then have ok: "valid (trim_space c)" "trim_space c \<in> declared" and r: "check_columns valid declared (acc @ [trim_space c]) cs = Ok r"
      using Cons.prems(1) by (auto simp: Let_def split: if_splits)
    have ih: "distinct r \<and> (\<forall>c\<in>set r. c \<noteq> '''' \<and> valid c \<and> c \<in> declared) \<and> set r = set (acc @ [trim_space c]) \<union> {x \<in> trim_space ` set cs. x \<noteq> ''''}"
      using Cons.prems(2,3) False ok by (intro Cons.IH[OF r]) auto
    have same: "set (acc @ [trim_space c]) \<union> {x \<in> trim_space ` set cs. x \<noteq> ''''} = set acc \<union> {x \<in> trim_space ` set (c # cs). x \<noteq> ''''}"
      unfolding image set_append using False by auto
    show ?thesis using ih unfolding same .
  qed
qed auto

text \<open>C39: The columns the trigger of a collection logs are declared columns of the table with valid names,
  each once and in order, and they cover every column that a delivery from the log reads: the key,
  the column of the order, the columns of the equality filters and those of the exclusions.\<close>

theorem logged_columns_cover:
  assumes "sync_columns valid declared d = Ok cs"
  shows "sorted cs \<and> distinct cs \<and> (\<forall>c\<in>set cs. valid c \<and> c \<in> declared) \<and> sd_key d \<in> set cs \<and>
    {x \<in> trim_space ` set (sd_columns d @ [sd_order_by d] @ sd_exclude_when_set d @ map fst (sd_equal_filters d)). x \<noteq> ''''} \<subseteq> set cs"
proof -
  obtain r where r: "check_columns valid declared [] (sd_columns d @ [sd_key d, sd_order_by d] @ sd_exclude_when_set d @ map fst (sd_equal_filters d)) = Ok r"
      "sd_key d \<in> set r" "cs = sort r"
    using assms by (auto simp: sync_columns_def bind_outcome_Ok split: if_splits)
  let ?read = "sd_columns d @ [sd_order_by d] @ sd_exclude_when_set d @ map fst (sd_equal_filters d)"
  have empty: "distinct ([]::string list)" "\<forall>c\<in>set []. c \<noteq> '''' \<and> valid c \<and> c \<in> declared" by simp_all
  have all: "distinct r" "\<forall>c\<in>set r. c \<noteq> '''' \<and> valid c \<and> c \<in> declared"
    "set r = {x \<in> trim_space ` set (sd_columns d @ [sd_key d, sd_order_by d] @ sd_exclude_when_set d @ map fst (sd_equal_filters d)). x \<noteq> ''''}"
    using check_columns_ok[OF r(1) empty] unfolding list.set(1) Un_empty_left by blast+
  have "{x \<in> trim_space ` set ?read. x \<noteq> ''''} \<subseteq> set r"
  proof -
    have "trim_space ` set ?read \<subseteq> trim_space ` set (sd_columns d @ [sd_key d, sd_order_by d] @ sd_exclude_when_set d @ map fst (sd_equal_filters d))"
      by (intro image_mono) auto
    then show ?thesis unfolding all(3) by (rule Collect_subset)
  qed
  then show ?thesis using all(1,2) r(2) by (simp add: r(3))
qed

theorem logged_columns_cover_witness:
  "''id'' \<in> set [''done'', ''id'', ''project''] \<and> sorted [''done'', ''id'', ''project'']"
proof -
  have "sync_columns (\<lambda>c. c \<noteq> '''') {''id'', ''project'', ''done'', ''title''}
      \<lparr>sd_table = ''tasks'', sd_key = ''id'', sd_columns = [''id'', '' project ''], sd_equal_filters = [(''project'', ''project'')], sd_exclude_when_set = [''done''],
        sd_visibility_tables = [], sd_visibility_columns = [], sd_order_by = '''', sd_order_direction = '''', sd_mode = '''', sd_max_rows = 0, sd_max_bytes = 0, sd_retention = 0\<rparr>
      = Ok [''done'', ''id'', ''project'']" by code_simp
  from logged_columns_cover[OF this] show ?thesis by simp
qed

end
