(* ===== verification/Sync_Collection.thy ===== *)
theory Sync_Collection
  imports Sync_Log
begin

text \<open>
  The delivery of synchronised collections (\<open>deliverSync\<close> and what it calls in \<open>sync.go\<close>) and
  the client that applies it (\<open>boundSyncRows\<close>, \<open>applySyncDelta\<close>, \<open>syncRowKey\<close> of the TypeScript
  client). SHA-256 of a canonical row, the digest of a list of pairs and the length of an
  encoding are arguments, as are the handler of the collection and the sorting by a column.
\<close>

section \<open>Rows\<close>

text \<open>\<open>canonicalSyncJSON\<close>: sorted members, no negative zero; equal values have equal text.\<close>

fun canonical_sync_json :: "json \<Rightarrow> json" where
  "canonical_sync_json (JNum neg ds dp) = (if ds = [] then JNum False [] 0 else JNum neg ds dp)"
| "canonical_sync_json (JArr xs) = JArr (map canonical_sync_json xs)"
| "canonical_sync_json (JObj ms) = JObj (canon (map (\<lambda>(k, v). (k, canonical_sync_json v)) ms))"
| "canonical_sync_json v = v"

text \<open>Decoding and encoding again, as \<open>jsonScalarEqual\<close> compares.\<close>

fun recoded :: "json \<Rightarrow> json" where
  "recoded (JArr xs) = JArr (map recoded xs)"
| "recoded (JObj ms) = JObj (canon (map (\<lambda>(k, v). (k, recoded v)) ms))"
| "recoded v = v"

definition json_scalar_equal :: "json \<Rightarrow> json \<Rightarrow> bool" where
  "json_scalar_equal l r \<longleftrightarrow> recoded l = recoded r"

definition sync_row_key :: "json \<Rightarrow> string \<Rightarrow> string" where
  "sync_row_key row key = (case members_of row of None \<Rightarrow> '''' | Some ms \<Rightarrow>
     (case map_of ms key of
        Some (JStr s) \<Rightarrow> s
      | Some (JNum neg ds dp) \<Rightarrow> js_num neg ds dp
      | Some (JBool b) \<Rightarrow> (if b then ''true'' else ''false'')
      | _ \<Rightarrow> ''''))"

definition sync_value_matches :: "json \<Rightarrow> sync_definition \<Rightarrow> (string \<times> json) list \<Rightarrow> bool" where
  "sync_value_matches v d args \<longleftrightarrow>
    (if v = JNull then False
     else if sd_equal_filters d = [] \<and> sd_exclude_when_set d = [] then True
     else case members_of v of None \<Rightarrow> False | Some row \<Rightarrow>
       list_all (\<lambda>c. case map_of row c of None \<Rightarrow> True | Some x \<Rightarrow> x = JNull) (sd_exclude_when_set d) \<and>
       list_all (\<lambda>(c, a). case (map_of row c, map_of args a) of
          (Some l, Some r) \<Rightarrow> json_scalar_equal l r | _ \<Rightarrow> False) (sd_equal_filters d))"

section \<open>The result of the handler\<close>

datatype snapshot_error = Not_Rows | Missing_Key | Duplicate_Key

fun keep_rows :: "(json \<Rightarrow> int) \<Rightarrow> sync_definition \<Rightarrow> string list \<Rightarrow> json list \<Rightarrow> int \<Rightarrow> json list \<Rightarrow>
    (snapshot_error, json list \<times> bool) outcome" where
  "keep_rows bytes d seen acc sum_bytes [] = Ok (acc, False)"
| "keep_rows bytes d seen acc sum_bytes (row # rows) =
    (let key = sync_row_key row (sd_key d) in
     if key = '''' then Err Missing_Key
     else if key \<in> set seen then Err Duplicate_Key
     else if 0 < sd_max_rows d \<and> sd_max_rows d \<le> int (length acc) then Ok (acc, True)
     else let n = bytes (canonical_sync_json row) in
       if 0 < sd_max_bytes d \<and> sd_max_bytes d < sum_bytes + n then Ok (acc, True)
       else keep_rows bytes d (key # seen) (acc @ [row]) (sum_bytes + n) rows)"

definition sync_snapshot_rows :: "(json \<Rightarrow> int) \<Rightarrow> json \<Rightarrow> sync_definition \<Rightarrow> (snapshot_error, json list \<times> bool) outcome" where
  "sync_snapshot_rows bytes result d = (case result of
     JArr rows \<Rightarrow> keep_rows bytes d [] [] 0 rows
   | JNull \<Rightarrow> Ok ([], False)
   | _ \<Rightarrow> Err Not_Rows)"

definition sync_rows_hashes :: "(json \<Rightarrow> string) \<Rightarrow> json list \<Rightarrow> string \<Rightarrow> (string \<times> string) list" where
  "sync_rows_hashes hash rows key =
    fold (\<lambda>row m. let k = sync_row_key row key in if k = '''' then m else AList.update k (hash (canonical_sync_json row)) m) rows []"

definition sync_rows_by_key :: "json list \<Rightarrow> string \<Rightarrow> (string \<times> json) list" where
  "sync_rows_by_key rows key =
    fold (\<lambda>row m. let k = sync_row_key row key in if k = '''' then m else AList.update k row m) rows []"

text \<open>The digest of the pairs in the order of their keys.\<close>

definition sync_hashes_digest :: "((string \<times> string) list \<Rightarrow> string) \<Rightarrow> (string \<times> string) list \<Rightarrow> string" where
  "sync_hashes_digest digest hashes = digest (canon (rev hashes))"

section \<open>What a change means for a collection\<close>

fun columns_unchanged :: "(string \<times> json) list \<Rightarrow> (string \<times> json) list \<Rightarrow> string list \<Rightarrow> bool" where
  "columns_unchanged old new [] \<longleftrightarrow> True"
| "columns_unchanged old new (c # cs) \<longleftrightarrow> (case (map_of old c, map_of new c) of
     (Some l, Some r) \<Rightarrow> canonical_sync_json l = canonical_sync_json r \<and> columns_unchanged old new cs
   | _ \<Rightarrow> False)"

definition relevant_sync_change :: "sync_definition \<Rightarrow> sync_change \<Rightarrow> bool" where
  "relevant_sync_change d c \<longleftrightarrow>
    (let columns = columns_at (sd_visibility_columns d) (sy_table c) in
     \<not> (sy_table c \<noteq> sd_table d \<and> sy_operation c = Update_Op \<and> columns \<noteq> [] \<and>
        (case (members_of (sy_old c), members_of (sy_new c)) of
           (Some old, Some new) \<Rightarrow> columns_unchanged old new columns | _ \<Rightarrow> False)))"

definition relevant_sync_changes :: "sync_definition \<Rightarrow> sync_change list \<Rightarrow> sync_change list" where
  "relevant_sync_changes d cs = filter (relevant_sync_change d) cs"

definition sync_visibility_changed :: "sync_change list \<Rightarrow> string \<Rightarrow> bool" where
  "sync_visibility_changed cs source \<longleftrightarrow> list_ex (\<lambda>c. sy_table c \<noteq> source) cs"

definition sync_needs_reconcile :: "sync_definition \<Rightarrow> sync_change list \<Rightarrow> bool" where
  "sync_needs_reconcile d cs \<longleftrightarrow> sd_mode d = ''progressive'' \<or> 0 < sd_max_rows d \<or> 0 < sd_max_bytes d \<or>
     sync_visibility_changed cs (sd_table d)"

definition sync_visibility_affected :: "sync_definition \<Rightarrow> table_change \<Rightarrow> bool" where
  "sync_visibility_affected d change \<longleftrightarrow> list_ex (\<lambda>table. change_contains_table change table \<and>
     (let detail = table_detail_of change table; columns = columns_at (sd_visibility_columns d) table in
      \<not> (columns \<noteq> [] \<and> d_precise detail \<and> \<not> d_broad detail \<and> d_operation detail = ''update'' \<and> d_columns detail \<noteq> [] \<and>
         \<not> intersects_strings columns (d_columns detail)))) (sd_visibility_tables d)"

fun group_sync_changes :: "sync_change list \<Rightarrow> (nat \<times> sync_change list) list" where
  "group_sync_changes [] = []"
| "group_sync_changes (c # cs) = (case group_sync_changes cs of
     (r, ds) # bs \<Rightarrow> if r = sy_revision c then (r, c # ds) # bs else (sy_revision c, [c]) # (r, ds) # bs
   | [] \<Rightarrow> [(sy_revision c, [c])])"

section \<open>The server's side of a collection\<close>

type_synonym cursor = "string \<times> nat"

record sync_subscription =
  sb_cursor :: cursor
  sb_keys :: "string list"
  sb_hashes :: "(string \<times> string) list"
  sb_client_digest :: string
  sb_full_integrity :: bool
  sb_truncated :: bool
  sb_verified :: bool
  sb_closed :: bool
  sb_acquired :: bool
  sb_running :: bool
  sb_pending :: bool

text \<open>The messages of \<open>serverMessage\<close> about a collection, with the fields the client uses.\<close>

datatype sync_message =
    Sync_Snapshot cursor "json list" bool
  | Sync_Delta cursor "json list" "string list" "string list" string
  | Sync_Ready cursor string bool
  | Sync_Syncing string
  | Sync_Reset string
  | Sync_Need_Hashes
  | Sync_Error
  | Sync_Watermark nat

definition sorted_sync_rows :: "(string \<times> json) list \<Rightarrow> json list" where
  "sorted_sync_rows rows = map (\<lambda>k. the (map_of rows k)) (sort (remdups (map fst rows)))"

definition sorted_sync_keys :: "string list \<Rightarrow> string list" where
  "sorted_sync_keys keys = sort (remdups keys)"

definition mutation_ids :: "sync_change list \<Rightarrow> string list" where
  "mutation_ids cs = filter (\<lambda>m. m \<noteq> '''') (map sy_mutation cs)"

definition sync_ready :: "((string \<times> string) list \<Rightarrow> string) \<Rightarrow> cursor \<Rightarrow> sync_subscription \<Rightarrow> sync_message" where
  "sync_ready digest c sub = Sync_Ready c (sync_hashes_digest digest (sb_hashes sub)) (sb_truncated sub)"

definition close_subscription :: "sync_subscription \<Rightarrow> sync_subscription" where
  "close_subscription sub = sub\<lparr>sb_closed := True, sb_acquired := False\<rparr>"

text \<open>The loop body of \<open>deliverSync\<close> over the changes of one revision.\<close>

record delta_state =
  ds_upserts :: "(string \<times> json) list"
  ds_deleted :: "string list"
  ds_keys :: "string list"
  ds_hashes :: "(string \<times> string) list"

definition apply_sync_change :: "(json \<Rightarrow> string) \<Rightarrow> sync_definition \<Rightarrow> (string \<times> json) list \<Rightarrow> sync_change \<Rightarrow> delta_state \<Rightarrow> delta_state" where
  "apply_sync_change hash d args c st = (let k = sy_row c in
     if sync_value_matches (sy_new c) d args then
       st\<lparr>ds_upserts := AList.update k (sy_new c) (ds_upserts st), ds_deleted := removeAll k (ds_deleted st),
          ds_keys := List.insert k (ds_keys st), ds_hashes := AList.update k (hash (canonical_sync_json (sy_new c))) (ds_hashes st)\<rparr>
     else if k \<in> set (ds_keys st) then
       st\<lparr>ds_upserts := AList.delete k (ds_upserts st), ds_deleted := List.insert k (ds_deleted st),
          ds_keys := removeAll k (ds_keys st), ds_hashes := AList.delete k (ds_hashes st)\<rparr>
     else st)"

definition deliver_batch :: "(json \<Rightarrow> string) \<Rightarrow> ((string \<times> string) list \<Rightarrow> string) \<Rightarrow> sync_definition \<Rightarrow> (string \<times> json) list \<Rightarrow> string \<Rightarrow>
    nat \<times> sync_change list \<Rightarrow> sync_subscription \<Rightarrow> sync_subscription \<times> sync_message" where
  "deliver_batch hash digest d args epoch b sub =
    (let st = fold (apply_sync_change hash d args) (snd b)
           \<lparr>ds_upserts = [], ds_deleted = [], ds_keys = sb_keys sub, ds_hashes = sb_hashes sub\<rparr>;
         c = (epoch, fst b)
     in (sub\<lparr>sb_keys := ds_keys st, sb_hashes := ds_hashes st, sb_cursor := c\<rparr>,
         Sync_Delta c (sorted_sync_rows (ds_upserts st)) (sorted_sync_keys (ds_deleted st)) (sorted_sync_keys (mutation_ids (snd b)))
           (sync_hashes_digest digest (ds_hashes st))))"

fun deliver_batches :: "(json \<Rightarrow> string) \<Rightarrow> ((string \<times> string) list \<Rightarrow> string) \<Rightarrow> sync_definition \<Rightarrow> (string \<times> json) list \<Rightarrow> string \<Rightarrow>
    (nat \<times> sync_change list) list \<Rightarrow> sync_subscription \<Rightarrow> sync_subscription \<times> sync_message list" where
  "deliver_batches hash digest d args epoch [] sub = (sub, [])"
| "deliver_batches hash digest d args epoch (b # bs) sub = (case deliver_batch hash digest d args epoch b sub of
     (sub', m) \<Rightarrow> (case deliver_batches hash digest d args epoch bs sub' of (sub'', ms) \<Rightarrow> (sub'', m # ms)))"

text \<open>\<open>progressiveSyncDiff\<close>: the rows that are new or have another hash, and the keys that are gone.\<close>

definition hash_at :: "(string \<times> string) list \<Rightarrow> string \<Rightarrow> string" where
  "hash_at hashes k = (case map_of hashes k of None \<Rightarrow> '''' | Some h \<Rightarrow> h)"

definition progressive_sync_diff :: "(string \<times> json) list \<Rightarrow> (string \<times> string) list \<Rightarrow> string list \<Rightarrow> (string \<times> string) list \<Rightarrow> sync_change list \<Rightarrow>
    (string \<times> json) list \<times> string list \<times> string list" where
  "progressive_sync_diff rows hashes keys visible changes =
    (filter (\<lambda>(k, _). k \<notin> set keys \<or> hash_at visible k \<noteq> hash_at hashes k) rows,
     filter (\<lambda>k. map_of rows k = None) keys, mutation_ids changes)"

text \<open>
  \<open>deliverAuthoritativeSync\<close>: the result of the handler is \<open>None\<close> when it fails or is not
  admitted. A delivery that fails has written the messages it carries and leaves the
  subscription as it was.
\<close>

datatype 'a delivery = Delivered 'a | Failed_Delivery "sync_message list"

definition verified_with :: "(json \<Rightarrow> string) \<Rightarrow> sync_definition \<Rightarrow> cursor \<Rightarrow> json list \<times> bool \<Rightarrow> sync_subscription \<Rightarrow> sync_subscription" where
  "verified_with hash d latest r sub = sub\<lparr>sb_truncated := snd r, sb_keys := map fst (sync_rows_by_key (fst r) (sd_key d)),
     sb_hashes := sync_rows_hashes hash (fst r) (sd_key d), sb_verified := True, sb_cursor := latest\<rparr>"

definition authoritative_delta :: "(json \<Rightarrow> string) \<Rightarrow> ((string \<times> string) list \<Rightarrow> string) \<Rightarrow> sync_definition \<Rightarrow> sync_change list \<Rightarrow>
    cursor \<Rightarrow> json list \<Rightarrow> sync_subscription \<Rightarrow> sync_message list" where
  "authoritative_delta hash digest d changes latest rows sub =
    (let hashes = sync_rows_hashes hash rows (sd_key d) in
     case progressive_sync_diff (sync_rows_by_key rows (sd_key d)) hashes (sb_keys sub) (sb_hashes sub) changes of
       (upserts, deleted, mutations) \<Rightarrow>
         if upserts \<noteq> [] \<or> deleted \<noteq> [] \<or> mutations \<noteq> [] then
           [Sync_Delta latest (sorted_sync_rows upserts) (sorted_sync_keys deleted) (sorted_sync_keys mutations) (sync_hashes_digest digest hashes)]
         else [])"

definition compact_resume :: "sync_subscription \<Rightarrow> bool" where
  "compact_resume sub \<longleftrightarrow> \<not> sb_verified sub \<and> sb_client_digest sub \<noteq> '''' \<and> \<not> sb_full_integrity sub"

definition deliver_authoritative :: "(json \<Rightarrow> string) \<Rightarrow> ((string \<times> string) list \<Rightarrow> string) \<Rightarrow> (json \<Rightarrow> int) \<Rightarrow> sync_definition \<Rightarrow> sync_change list \<Rightarrow>
    cursor \<Rightarrow> json option \<Rightarrow> sync_subscription \<Rightarrow> (bool \<times> sync_subscription \<times> sync_message list) delivery" where
  "deliver_authoritative hash digest bytes d changes latest result sub = (case result of None \<Rightarrow> Failed_Delivery [] | Some v \<Rightarrow>
     (case sync_snapshot_rows bytes v d of Ok r \<Rightarrow>
        if compact_resume sub then
          if sb_client_digest sub \<noteq> sync_hashes_digest digest (sync_rows_hashes hash (fst r) (sd_key d))
          then Delivered (False, close_subscription (sub\<lparr>sb_truncated := snd r\<rparr>), [Sync_Need_Hashes])
          else Delivered (True, verified_with hash d latest r sub, [])
        else Delivered (True, verified_with hash d latest r sub, authoritative_delta hash digest d changes latest (fst r) sub)
      | _ \<Rightarrow> Failed_Delivery []))"

text \<open>\<open>writeSyncReady\<close> drops the message when the tenant's listener is not connected.\<close>

definition ready_messages :: "((string \<times> string) list \<Rightarrow> string) \<Rightarrow> bool \<Rightarrow> cursor \<Rightarrow> sync_subscription \<Rightarrow> sync_message list" where
  "ready_messages digest connected c sub = (if connected then [sync_ready digest c sub] else [])"

definition then_ready :: "((string \<times> string) list \<Rightarrow> string) \<Rightarrow> bool \<Rightarrow> cursor \<Rightarrow> sync_message list \<Rightarrow>
    (bool \<times> sync_subscription \<times> sync_message list) delivery \<Rightarrow> (sync_subscription \<times> sync_message list) delivery" where
  "then_ready digest connected c before r = (case r of Failed_Delivery ms \<Rightarrow> Failed_Delivery (before @ ms)
     | Delivered (settled, sub, ms) \<Rightarrow>
         Delivered (sub, before @ ms @ (if settled then ready_messages digest connected c sub else [])))"

text \<open>
  \<open>deliverSync\<close> of an authenticated connection whose subscription is the current one. The cursor
  \<open>latest\<close> is read first, then the log, then the handler runs; each may fail.
\<close>

definition deliver_changes :: "(json \<Rightarrow> string) \<Rightarrow> ((string \<times> string) list \<Rightarrow> string) \<Rightarrow> (json \<Rightarrow> int) \<Rightarrow> sync_definition \<Rightarrow> (string \<times> json) list \<Rightarrow>
    bool \<Rightarrow> cursor \<Rightarrow> sync_change list \<Rightarrow> json option \<Rightarrow> sync_subscription \<Rightarrow> (sync_subscription \<times> sync_message list) delivery" where
  "deliver_changes hash digest bytes d args connected latest changes result sub =
    (if changes = [] \<and> sb_verified sub then
       Delivered (sub\<lparr>sb_cursor := latest\<rparr>, ready_messages digest connected latest (sub\<lparr>sb_cursor := latest\<rparr>))
     else if \<not> sb_verified sub \<or> sync_needs_reconcile d changes then
       then_ready digest connected latest (if sb_verified sub then [Sync_Syncing ''reconciling''] else [])
         (deliver_authoritative hash digest bytes d changes latest result sub)
     else case deliver_batches hash digest d args (fst latest) (group_sync_changes changes) sub of (after, ms) \<Rightarrow>
       let c = (fst (sb_cursor after), max (snd (sb_cursor after)) (snd latest))
       in Delivered (after\<lparr>sb_cursor := c\<rparr>, ms @ ready_messages digest connected c after))"

definition deliver_sync :: "(json \<Rightarrow> string) \<Rightarrow> ((string \<times> string) list \<Rightarrow> string) \<Rightarrow> (json \<Rightarrow> int) \<Rightarrow> sync_definition \<Rightarrow> (string \<times> json) list \<Rightarrow>
    bool \<Rightarrow> cursor option \<Rightarrow> (nat \<Rightarrow> nat \<Rightarrow> string list \<Rightarrow> (read_error, sync_change list) outcome) \<Rightarrow> json option \<Rightarrow>
    sync_subscription \<Rightarrow> (sync_subscription \<times> sync_message list) delivery" where
  "deliver_sync hash digest bytes d args connected clock read result sub =
    (if sb_closed sub then Delivered (sub, [])
     else case clock of None \<Rightarrow> Failed_Delivery []
     | Some latest \<Rightarrow>
       if fst latest \<noteq> fst (sb_cursor sub) then Delivered (close_subscription sub, [Sync_Reset ''definition-changed''])
       else if snd latest \<le> snd (sb_cursor sub) then
         (if sb_verified sub then Delivered (sub, ready_messages digest connected latest sub)
          else then_ready digest connected latest [] (deliver_authoritative hash digest bytes d [] latest result sub))
       else (case read (snd (sb_cursor sub)) (snd latest) (sd_table d # sd_visibility_tables d) of
         Err Cursor_Expired \<Rightarrow> Delivered (close_subscription sub, [Sync_Reset ''cursor-expired''])
       | Ok cs \<Rightarrow> deliver_changes hash digest bytes d args connected latest (relevant_sync_changes d cs) result sub
       | _ \<Rightarrow> Failed_Delivery []))"

text \<open>Single flight: a delivery asked for while one runs is remembered.\<close>

definition begin_sync_delivery :: "sync_subscription \<Rightarrow> sync_subscription \<times> bool" where
  "begin_sync_delivery sub = (if sb_closed sub then (sub, False)
     else if sb_running sub then (sub\<lparr>sb_pending := True\<rparr>, False) else (sub\<lparr>sb_running := True\<rparr>, True))"

definition finish_sync_delivery :: "sync_subscription \<Rightarrow> sync_subscription \<times> bool" where
  "finish_sync_delivery sub = (if sb_closed sub then (sub\<lparr>sb_running := False, sb_pending := False\<rparr>, False)
     else if sb_pending sub then (sub\<lparr>sb_pending := False\<rparr>, True) else (sub\<lparr>sb_running := False\<rparr>, False))"

text \<open>\<open>advanceUnchangedSync\<close>: handled, advanced, and the ready message that announces it.\<close>

definition advance_unchanged_sync :: "((string \<times> string) list \<Rightarrow> string) \<Rightarrow> cursor \<Rightarrow> bool \<Rightarrow> sync_subscription \<Rightarrow>
    sync_subscription \<times> bool \<times> bool \<times> sync_message list" where
  "advance_unchanged_sync digest latest emit sub =
    (if sb_closed sub then (sub, True, False, [])
     else if \<not> sb_verified sub \<or> sb_running sub \<or> sb_pending sub then (sub, False, False, [])
     else if fst latest \<noteq> fst (sb_cursor sub) then (sub, False, False, [])
     else if snd latest \<le> snd (sb_cursor sub) then (sub, True, False, [])
     else if snd (sb_cursor sub) + 1 \<noteq> snd latest then (sub, False, False, [])
     else let sub = sub\<lparr>sb_cursor := latest\<rparr> in (sub, True, True, if emit then [sync_ready digest latest sub] else []))"

definition sync_intersects_tables :: "sync_definition \<Rightarrow> string list \<Rightarrow> bool" where
  "sync_intersects_tables d changed \<longleftrightarrow> intersects_strings (sd_table d # sd_visibility_tables d) changed"

text \<open>
  \<open>notifySyncRevision\<close> for one collection: the tables are those of the transaction of the notified
  revision. The result says whether a delivery is scheduled.
\<close>

definition notify_sync_revision :: "((string \<times> string) list \<Rightarrow> string) \<Rightarrow> (string \<Rightarrow> string) \<Rightarrow> sync_definition \<Rightarrow> bool \<Rightarrow> bool \<Rightarrow>
    string list \<Rightarrow> string \<Rightarrow> nat \<Rightarrow> (string \<times> nat) option \<Rightarrow> sync_subscription \<Rightarrow> sync_subscription \<times> bool \<times> sync_message list" where
  "notify_sync_revision digest epoch d watermark connected tables notified_epoch notified clock sub =
    (if tables = [] \<or> trim_space notified_epoch = '''' \<or> notified = 0 then (sub, True, [])
     else case clock of None \<Rightarrow> (sub, True, [])
     | Some (database_epoch, revision) \<Rightarrow>
       if database_epoch \<noteq> notified_epoch \<or> revision < notified then (sub, True, [])
       else if sync_intersects_tables d tables then (sub, True, [])
       else case advance_unchanged_sync digest (epoch database_epoch, notified) (\<not> watermark \<and> connected) sub of
         (sub', handled, advanced, ms) \<Rightarrow>
           (sub', \<not> handled, ms @ (if watermark \<and> advanced \<and> connected then [Sync_Watermark notified] else [])))"

text \<open>\<open>openSyncWithClock\<close>: the request of a client, resumed from its cursor or answered with a snapshot.\<close>

record sync_open =
  so_cursor :: "cursor option"
  so_keys :: "string list"
  so_hashes :: "(string \<times> string) list"
  so_digest :: string
  so_full_integrity :: bool

definition sync_key_set :: "string list \<Rightarrow> string list" where
  "sync_key_set keys = remdups (filter (\<lambda>k. k \<noteq> '''') (map trim_space keys))"

definition clone_string_map :: "(string \<times> string) list \<Rightarrow> (string \<times> string) list" where
  "clone_string_map m = filter (\<lambda>(k, v). trim_space k \<noteq> '''' \<and> trim_space v \<noteq> '''') m"

definition resumable :: "sync_open \<Rightarrow> cursor \<Rightarrow> nat \<Rightarrow> bool" where
  "resumable open base retained \<longleftrightarrow> (case so_cursor open of None \<Rightarrow> False
     | Some (epoch, revision) \<Rightarrow> epoch = fst base \<and> revision \<le> snd base \<and> retained \<le> revision)"

definition opened_subscription :: "sync_open \<Rightarrow> cursor \<Rightarrow> sync_subscription" where
  "opened_subscription open base = \<lparr>sb_cursor = base, sb_keys = sync_key_set (so_keys open), sb_hashes = clone_string_map (so_hashes open),
     sb_client_digest = trim_space (so_digest open), sb_full_integrity = so_full_integrity open, sb_truncated = False, sb_verified = False,
     sb_closed = False, sb_acquired = False, sb_running = False, sb_pending = False\<rparr>"

definition open_snapshot :: "(json \<Rightarrow> string) \<Rightarrow> (json \<Rightarrow> int) \<Rightarrow> sync_definition \<Rightarrow> sync_open \<Rightarrow> cursor \<Rightarrow> json option \<Rightarrow>
    (sync_subscription \<times> sync_message list) delivery" where
  "open_snapshot hash bytes d open base result = (case result of None \<Rightarrow> Failed_Delivery [] | Some r \<Rightarrow>
     (case sync_snapshot_rows bytes r d of
        Ok (rows, truncated) \<Rightarrow> Delivered ((opened_subscription open base)\<lparr>sb_keys := map fst (sync_rows_by_key rows (sd_key d)),
            sb_hashes := sync_rows_hashes hash rows (sd_key d), sb_truncated := truncated, sb_verified := True, sb_acquired := True\<rparr>,
          [Sync_Snapshot base rows truncated])
      | _ \<Rightarrow> Failed_Delivery []))"

text \<open>The subscription that \<open>deliverSync\<close> is then called with, and the messages before it.\<close>

definition open_sync :: "(json \<Rightarrow> string) \<Rightarrow> (json \<Rightarrow> int) \<Rightarrow> sync_definition \<Rightarrow> sync_open \<Rightarrow> cursor \<Rightarrow> nat \<Rightarrow> json option \<Rightarrow>
    (sync_subscription \<times> sync_message list) delivery" where
  "open_sync hash bytes d open base retained result =
    (if resumable open base retained
     then Delivered ((opened_subscription open base)\<lparr>sb_cursor := the (so_cursor open), sb_acquired := True\<rparr>, [])
     else open_snapshot hash bytes d open base result)"

section \<open>Rows by key\<close>

definition row_at :: "string \<Rightarrow> json list \<Rightarrow> string \<Rightarrow> json option" where
  "row_at key rows k = map_of (map (\<lambda>row. (sync_row_key row key, row)) rows) k"

definition rows_ok :: "string \<Rightarrow> json list \<Rightarrow> bool" where
  "rows_ok key rows \<longleftrightarrow> distinct (map (\<lambda>row. sync_row_key row key) rows) \<and> '''' \<notin> (\<lambda>row. sync_row_key row key) ` set rows"

lemma rows_ok_Nil [simp]: "rows_ok key []" by (simp add: rows_ok_def)

lemma rows_ok_Cons [simp]: "rows_ok key (row # rows) \<longleftrightarrow>
    sync_row_key row key \<noteq> '''' \<and> sync_row_key row key \<notin> (\<lambda>row. sync_row_key row key) ` set rows \<and> rows_ok key rows"
  by (auto simp: rows_ok_def)

lemma row_at_Cons [simp]: "row_at key (row # rows) k = (if sync_row_key row key = k then Some row else row_at key rows k)"
  by (simp add: row_at_def)

lemma row_at_Nil [simp]: "row_at key [] k = None" by (simp add: row_at_def)

lemma row_at_append: "row_at key (xs @ ys) k = (case row_at key xs k of None \<Rightarrow> row_at key ys k | Some r \<Rightarrow> Some r)"
  by (induction xs) auto

lemma row_at_Some: "row_at key rows k = Some row \<Longrightarrow> row \<in> set rows \<and> sync_row_key row key = k"
  by (induction rows) (auto split: if_splits)

lemma row_at_None: "row_at key rows k = None \<longleftrightarrow> k \<notin> (\<lambda>row. sync_row_key row key) ` set rows"
  by (induction rows) auto

lemma row_at_in: "rows_ok key rows \<Longrightarrow> row \<in> set rows \<Longrightarrow> row_at key rows (sync_row_key row key) = Some row"
  by (induction rows) auto

lemma row_at_mset:
  assumes "rows_ok key rows" and "mset rows' = mset rows"
  shows "rows_ok key rows'" and "row_at key rows' k = row_at key rows k"
proof -
  have set': "set rows' = set rows" using assms(2) by (rule mset_eq_setD)
  have "mset (map (\<lambda>row. sync_row_key row key) rows') = mset (map (\<lambda>row. sync_row_key row key) rows)" using assms(2) by simp
  then have "distinct (map (\<lambda>row. sync_row_key row key) rows')"
    using assms(1) unfolding rows_ok_def by (metis mset_eq_imp_distinct_iff)
  with assms(1) set' show ok: "rows_ok key rows'" by (simp add: rows_ok_def)
  show "row_at key rows' k = row_at key rows k"
  proof (cases "row_at key rows k")
    case None
    then have "row_at key rows' k = None" unfolding row_at_None set' by simp
    with None show ?thesis by simp
  next
    case (Some r)
    then have "r \<in> set rows'" "sync_row_key r key = k" using set' row_at_Some by metis+
    then show ?thesis using row_at_in[OF ok] Some by metis
  qed
qed

lemma row_at_filter:
  assumes "\<And>row row'. sync_row_key row key = sync_row_key row' key \<Longrightarrow> P row = P row'"
  shows "row_at key (filter P rows) k = (case row_at key rows k of Some r \<Rightarrow> if P r then Some r else None | None \<Rightarrow> None)"
proof (induction rows)
  case (Cons row rows)
  have "P row \<longleftrightarrow> P r" if "row_at key rows k = Some r" "sync_row_key row key = k" for r
    using assms[of row r] row_at_Some[OF that(1)] that(2) by simp
  with Cons show ?case by (cases "row_at key rows k"; cases "P row") auto
qed simp

lemma rows_ok_filter: "rows_ok key rows \<Longrightarrow> rows_ok key (filter P rows)"
  by (induction rows) auto

lemma keyed_fold:
  assumes "rows_ok key rows" and "\<forall>row\<in>set rows. sync_row_key row key \<notin> fst ` set m"
  shows "fold (\<lambda>row m. let k = sync_row_key row key in if k = '''' then m else AList.update k (f row) m) rows m =
    m @ map (\<lambda>row. (sync_row_key row key, f row)) rows"
  using assms
proof (induction rows arbitrary: m)
  case (Cons row rows)
  have append: "k \<notin> fst ` set m \<Longrightarrow> AList.update k v m = m @ [(k, v)]" for k :: string and v m
    by (induction m) auto
  have "\<forall>r\<in>set rows. sync_row_key r key \<notin> fst ` set (m @ [(sync_row_key row key, f row)])"
    using Cons.prems by (auto simp: image_iff)
  from Cons.IH[OF _ this] show ?case using Cons.prems append[of _ m] by (simp add: Let_def)
qed simp

lemma by_key_is: "rows_ok key rows \<Longrightarrow> sync_rows_by_key rows key = map (\<lambda>row. (sync_row_key row key, row)) rows"
  using keyed_fold[of key rows "[]" "\<lambda>row. row"] by (simp add: sync_rows_by_key_def)

lemma hashes_is: "rows_ok key rows \<Longrightarrow> sync_rows_hashes hash rows key = map (\<lambda>row. (sync_row_key row key, hash (canonical_sync_json row))) rows"
  using keyed_fold[of key rows "[]" "\<lambda>row. hash (canonical_sync_json row)"] by (simp add: sync_rows_hashes_def)

lemma map_of_by_key: "rows_ok key rows \<Longrightarrow> map_of (sync_rows_by_key rows key) k = row_at key rows k"
  by (simp add: by_key_is row_at_def)

lemma map_of_hashes:
  "rows_ok key rows \<Longrightarrow> map_of (sync_rows_hashes hash rows key) k = map_option (\<lambda>row. hash (canonical_sync_json row)) (row_at key rows k)"
  unfolding hashes_is by (induction rows) auto

text \<open>The digest depends on the pairs as a map.\<close>

lemma canon_map_of:
  assumes "\<And>k. map_of xs k = map_of ys k"
  shows "canon (rev xs) = canon (rev ys)"
proof -
  have "fst ` set xs = fst ` set ys" using assms by (metis dom_map_of_conv_image_fst ext)
  then have "sort (remdups (map fst (rev xs))) = sort (remdups (map fst (rev ys)))"
    by (simp flip: sorted_list_of_set_sort_remdups)
  then show ?thesis using assms by (simp add: canon_def)
qed

lemma digest_map_of: "(\<And>k. map_of xs k = map_of ys k) \<Longrightarrow> sync_hashes_digest digest xs = sync_hashes_digest digest ys"
  using canon_map_of[of xs ys] by (simp add: sync_hashes_digest_def)

text \<open>The rows kept of a handler's result.\<close>

definition fits :: "(json \<Rightarrow> int) \<Rightarrow> sync_definition \<Rightarrow> json list \<Rightarrow> bool" where
  "fits bytes d rows \<longleftrightarrow> (0 < sd_max_rows d \<longrightarrow> int (length rows) \<le> sd_max_rows d) \<and>
     (0 < sd_max_bytes d \<longrightarrow> (\<Sum>row\<leftarrow>rows. bytes (canonical_sync_json row)) \<le> sd_max_bytes d)"

lemma keep_rows_ok:
  assumes "keep_rows bytes d seen acc n rows = Ok (kept', truncated)" and "rows_ok (sd_key d) acc" and "fits bytes d acc"
    and "(\<lambda>row. sync_row_key row (sd_key d)) ` set acc \<subseteq> set seen" and "n = (\<Sum>row\<leftarrow>acc. bytes (canonical_sync_json row))"
  shows "rows_ok (sd_key d) kept' \<and> fits bytes d kept'"
  using assms
proof (induction rows arbitrary: seen acc n)
  case (Cons row rows)
  let ?k = "sync_row_key row (sd_key d)" and ?n = "bytes (canonical_sync_json row)"
  have key: "?k \<noteq> ''''" "?k \<notin> set seen"
    using Cons.prems(1) by (auto simp: Let_def split: if_splits)
  show ?case
  proof (cases "(0 < sd_max_rows d \<and> sd_max_rows d \<le> int (length acc)) \<or> (0 < sd_max_bytes d \<and> sd_max_bytes d < n + ?n)")
    case True
    then have "kept' = acc" using Cons.prems(1) key by (auto simp: Let_def split: if_splits)
    with Cons.prems show ?thesis by simp
  next
    case False
    show ?thesis
    proof (rule Cons.IH)
      show "keep_rows bytes d (?k # seen) (acc @ [row]) (n + ?n) rows = Ok (kept', truncated)"
        using Cons.prems(1) key False by (auto simp: Let_def split: if_splits)
      show "rows_ok (sd_key d) (acc @ [row])"
        using Cons.prems(2,4) key by (auto simp: rows_ok_def)
      show "fits bytes d (acc @ [row])"
        using False Cons.prems(3,5) by (auto simp: fits_def)
    qed (use Cons.prems(4,5) in auto)
  qed
qed auto

lemma fits_Nil [simp]: "fits bytes d []" by (simp add: fits_def)

lemma snapshot_rows_ok:
  assumes "sync_snapshot_rows bytes v d = Ok (rows, truncated)"
  shows "rows_ok (sd_key d) rows" and "fits bytes d rows"
  using assms keep_rows_ok[of bytes d "[]" "[]" 0 _ rows truncated] by (auto simp: sync_snapshot_rows_def split: json.splits)

section \<open>The changes of one revision\<close>

definition visible :: "sync_definition \<Rightarrow> (string \<times> json) list \<Rightarrow> json option \<Rightarrow> json option" where
  "visible d args v = (case v of None \<Rightarrow> None | Some x \<Rightarrow> if sync_value_matches x d args then Some x else None)"

definition replay_visible :: "sync_definition \<Rightarrow> (string \<times> json) list \<Rightarrow> string \<Rightarrow> sync_change list \<Rightarrow> json option \<Rightarrow> json option" where
  "replay_visible d args k cs v = fold (\<lambda>c v. if sy_row c = k then visible d args (Some (sy_new c)) else v) cs v"

lemma replay_visible_simps [simp]:
  "replay_visible d args k [] v = v"
  "replay_visible d args k (c # cs) v = replay_visible d args k cs (if sy_row c = k then visible d args (Some (sy_new c)) else v)"
  "replay_visible d args k (cs @ ds) v = replay_visible d args k ds (replay_visible d args k cs v)"
  by (simp_all add: replay_visible_def)

lemma visible_simps [simp]: "visible d args None = None" "visible d args (Some JNull) = None"
  by (simp_all add: visible_def sync_value_matches_def)

text \<open>What a collection shows after the changes is what the replayed table shows.\<close>

lemma replay_visible:
  "\<forall>c\<in>set cs. sy_table c = t \<Longrightarrow> visible d args (replay t k cs v) = replay_visible d args k cs (visible d args v)"
  by (induction cs arbitrary: v) auto

definition keyed_change :: "sync_definition \<Rightarrow> (string \<times> json) list \<Rightarrow> sync_change \<Rightarrow> bool" where
  "keyed_change d args c \<longleftrightarrow> (sync_value_matches (sy_new c) d args \<longrightarrow> sync_row_key (sy_new c) (sd_key d) = sy_row c \<and> sy_row c \<noteq> '''')"

definition delta_row :: "delta_state \<Rightarrow> (string \<Rightarrow> json option) \<Rightarrow> string \<Rightarrow> json option" where
  "delta_row st old k = (case map_of (ds_upserts st) k of Some v \<Rightarrow> Some v | None \<Rightarrow> if k \<in> set (ds_deleted st) then None else old k)"

definition rows_known :: "(json \<Rightarrow> string) \<Rightarrow> string list \<Rightarrow> (string \<times> string) list \<Rightarrow> (string \<Rightarrow> json option) \<Rightarrow> bool" where
  "rows_known hash keys hashes rows \<longleftrightarrow> (\<forall>k. (k \<in> set keys \<longleftrightarrow> rows k \<noteq> None) \<and>
     map_of hashes k = map_option (\<lambda>row. hash (canonical_sync_json row)) (rows k))"

definition delta_ok :: "(json \<Rightarrow> string) \<Rightarrow> string \<Rightarrow> (string \<Rightarrow> json option) \<Rightarrow> delta_state \<Rightarrow> bool" where
  "delta_ok hash key old st \<longleftrightarrow> rows_known hash (ds_keys st) (ds_hashes st) (delta_row st old) \<and>
     (\<forall>k v. map_of (ds_upserts st) k = Some v \<longrightarrow> sync_row_key v key = k \<and> k \<noteq> '''')"

lemma map_of_alist_update: "map_of (AList.update k v m) k' = (if k' = k then Some v else map_of m k')"
  by (simp add: update_conv')

lemma map_of_alist_delete: "map_of (AList.delete k m) k' = (if k' = k then None else map_of m k')"
  by (simp add: delete_conv')

lemma apply_change_row:
  assumes "delta_ok hash (sd_key d) old st"
  shows "delta_row (apply_sync_change hash d args c st) old k =
    (if sy_row c = k then visible d args (Some (sy_new c)) else delta_row st old k)"
proof -
  have "delta_row st old (sy_row c) = None" if "sy_row c \<notin> set (ds_keys st)"
    using assms that by (simp add: delta_ok_def rows_known_def)
  then show ?thesis
    by (auto simp: apply_sync_change_def Let_def visible_def delta_row_def map_of_alist_update map_of_alist_delete split: option.splits if_splits)
qed

lemma apply_change_ok:
  assumes "delta_ok hash (sd_key d) old st" and "keyed_change d args c"
  shows "delta_ok hash (sd_key d) old (apply_sync_change hash d args c st)"
proof -
  let ?st = "apply_sync_change hash d args c st"
  have "(k \<in> set (ds_keys ?st) \<longleftrightarrow> delta_row ?st old k \<noteq> None) \<and>
      map_of (ds_hashes ?st) k = map_option (\<lambda>row. hash (canonical_sync_json row)) (delta_row ?st old k)" for k
    unfolding apply_change_row[OF assms(1)] using assms(1)
    by (auto simp: delta_ok_def rows_known_def apply_sync_change_def Let_def visible_def map_of_alist_update map_of_alist_delete)
  moreover have "sync_row_key v (sd_key d) = k \<and> k \<noteq> ''''" if "map_of (ds_upserts ?st) k = Some v" for k v
    using that assms by (auto simp: delta_ok_def keyed_change_def apply_sync_change_def Let_def map_of_alist_update map_of_alist_delete split: if_splits)
  ultimately show ?thesis unfolding delta_ok_def rows_known_def by blast
qed

lemma apply_changes:
  assumes "delta_ok hash (sd_key d) old st" and "\<forall>c\<in>set cs. keyed_change d args c"
  shows "delta_ok hash (sd_key d) old (fold (apply_sync_change hash d args) cs st)"
    and "delta_row (fold (apply_sync_change hash d args) cs st) old k = replay_visible d args k cs (delta_row st old k)"
  using assms by (induction cs arbitrary: st) (simp_all add: apply_change_ok apply_change_row)

text \<open>The rows a message carries.\<close>

lemma sorted_rows:
  assumes "\<And>k v. map_of ups k = Some v \<Longrightarrow> sync_row_key v key = k \<and> k \<noteq> ''''"
  shows "rows_ok key (sorted_sync_rows ups)" and "row_at key (sorted_sync_rows ups) k = map_of ups k"
proof -
  let ?ks = "sort (remdups (map fst ups))"
  have key: "sync_row_key (the (map_of ups k)) key = k \<and> k \<noteq> ''''" if "k \<in> set ?ks" for k
    using that assms by (cases "map_of ups k") (auto simp: map_of_eq_None_iff)
  have ok: "distinct ks \<Longrightarrow> set ks \<subseteq> set ?ks \<Longrightarrow> rows_ok key (map (\<lambda>k. the (map_of ups k)) ks) \<and>
      row_at key (map (\<lambda>k. the (map_of ups k)) ks) k = (if k \<in> set ks then Some (the (map_of ups k)) else None)" for ks
    by (induction ks) (use key in \<open>auto simp: image_iff subset_iff\<close>)
  from ok[of ?ks] show "rows_ok key (sorted_sync_rows ups)" by (simp add: sorted_sync_rows_def)
  have "k \<notin> set ?ks \<Longrightarrow> map_of ups k = None" "k \<in> set ?ks \<Longrightarrow> map_of ups k \<noteq> None" by (simp_all add: map_of_eq_None_iff)
  with ok[of ?ks] show "row_at key (sorted_sync_rows ups) k = map_of ups k"
    by (auto simp: sorted_sync_rows_def)
qed

lemma set_sorted_keys [simp]: "set (sorted_sync_keys ks) = set ks" by (simp add: sorted_sync_keys_def)

section \<open>A result in the wrong form\<close>

lemma rows_ok_app:
  "rows_ok key (xs @ ys) \<longleftrightarrow> rows_ok key xs \<and> rows_ok key ys \<and> (\<forall>row\<in>set ys. sync_row_key row key \<notin> (\<lambda>row. sync_row_key row key) ` set xs)"
  unfolding rows_ok_def map_append distinct_append set_append image_Un Un_iff set_map disjoint_iff by (metis imageE imageI)

definition row_error :: "string \<Rightarrow> json list \<Rightarrow> json \<Rightarrow> snapshot_error option" where
  "row_error key before row = (let k = sync_row_key row key in
     if k = '''' then Some Missing_Key else if k \<in> (\<lambda>row. sync_row_key row key) ` set before then Some Duplicate_Key else None)"

lemma row_error_None: "rows_ok key before \<Longrightarrow> row_error key before row = None \<longleftrightarrow> rows_ok key (before @ [row])"
  by (auto simp: row_error_def rows_ok_app Let_def)

lemma keep_rows_unbounded:
  assumes "sd_max_rows d \<le> 0" and "sd_max_bytes d \<le> 0" and "rows_ok (sd_key d) acc" and "set seen = (\<lambda>row. sync_row_key row (sd_key d)) ` set acc"
  shows "keep_rows bytes d seen acc n rows = (case List.find (\<lambda>i. row_error (sd_key d) (acc @ take i rows) (rows ! i) \<noteq> None) [0..<length rows] of
    None \<Rightarrow> Ok (acc @ rows, False) | Some i \<Rightarrow> Err (the (row_error (sd_key d) (acc @ take i rows) (rows ! i))))"
  using assms
proof (induction rows arbitrary: seen acc n)
  case (Cons row rows)
  let ?k = "sync_row_key row (sd_key d)"
  have shift: "[0..<length (row # rows)] = 0 # map Suc [0..<length rows]"
    by (simp only: map_Suc_upt length_Cons upt_conv_Cons[OF zero_less_Suc])
  have find: "List.find P (map Suc is) = map_option Suc (List.find (\<lambda>i. P (Suc i)) is)" for P "is"
    by (induction "is") auto
  show ?case
  proof (cases "row_error (sd_key d) acc row")
    case None
    then have k: "?k \<noteq> ''''" "?k \<notin> set seen" using Cons.prems(4) by (auto simp: row_error_def Let_def split: if_splits)
    have "keep_rows bytes d seen acc n (row # rows) = keep_rows bytes d (?k # seen) (acc @ [row]) (n + bytes (canonical_sync_json row)) rows"
      using k Cons.prems(1,2) by (simp add: Let_def)
    also have "\<dots> = (case List.find (\<lambda>i. row_error (sd_key d) ((acc @ [row]) @ take i rows) (rows ! i) \<noteq> None) [0..<length rows] of
        None \<Rightarrow> Ok ((acc @ [row]) @ rows, False) | Some i \<Rightarrow> Err (the (row_error (sd_key d) ((acc @ [row]) @ take i rows) (rows ! i))))"
      using Cons.prems None row_error_None[of "sd_key d" acc row] by (intro Cons.IH) auto
    finally show ?thesis unfolding shift using None by (simp add: find split: option.splits)
  next
    case (Some e)
    then have "keep_rows bytes d seen acc n (row # rows) = Err e" using Cons.prems(4) by (auto simp: row_error_def Let_def split: if_splits)
    then show ?thesis unfolding shift using Some by simp
  qed
qed simp

lemma rows_ok_prefix: "rows_ok key rows \<Longrightarrow> rows_ok key (take i rows)"
  using rows_ok_app[of key "take i rows" "drop i rows"] by simp

lemma unbounded_result:
  assumes "sd_max_rows d \<le> 0" and "sd_max_bytes d \<le> 0"
  shows "rows_ok (sd_key d) rows \<Longrightarrow> sync_snapshot_rows bytes (JArr rows) d = Ok (rows, False)"
    and "i < length rows \<Longrightarrow> rows_ok (sd_key d) (take i rows) \<Longrightarrow> row_error (sd_key d) (take i rows) (rows ! i) = Some e \<Longrightarrow>
      sync_snapshot_rows bytes (JArr rows) d = Err e"
proof -
  let ?bad = "\<lambda>i. row_error (sd_key d) (take i rows) (rows ! i) \<noteq> None"
  have run: "sync_snapshot_rows bytes (JArr rows) d = (case List.find ?bad [0..<length rows] of
      None \<Rightarrow> Ok (rows, False) | Some i \<Rightarrow> Err (the (row_error (sd_key d) (take i rows) (rows ! i))))"
    using keep_rows_unbounded[OF assms, of "[]" "[]" bytes 0 rows, unfolded append_Nil] by (simp add: sync_snapshot_rows_def)
  have good: "\<not> ?bad j" if "rows_ok (sd_key d) (take (Suc j) rows)" "j < length rows" for j
  proof -
    have "rows_ok (sd_key d) (take j rows @ [rows ! j])" using that by (simp add: take_Suc_conv_app_nth)
    then show ?thesis using row_error_None[of "sd_key d" "take j rows" "rows ! j"] by (simp add: rows_ok_app)
  qed
  show "sync_snapshot_rows bytes (JArr rows) d = Ok (rows, False)" if "rows_ok (sd_key d) rows"
  proof -
    have "List.find ?bad [0..<length rows] = None"
      using good rows_ok_prefix[OF that] by (auto simp: find_None_iff)
    then show ?thesis by (simp add: run)
  qed
  show "sync_snapshot_rows bytes (JArr rows) d = Err e"
    if i: "i < length rows" "rows_ok (sd_key d) (take i rows)" "row_error (sd_key d) (take i rows) (rows ! i) = Some e"
  proof -
    have "\<not> ?bad j" if "j < i" for j
    proof (rule good)
      have "take (Suc j) rows = take (Suc j) (take i rows)" using that by (simp add: min_def)
      then show "rows_ok (sd_key d) (take (Suc j) rows)" using rows_ok_prefix[OF i(2), of "Suc j"] by simp
    qed (use that i(1) in simp)
    then have "List.find ?bad [0..<length rows] = Some i" using i(1,3) by (auto simp: find_Some_iff)
    then show ?thesis using i(3) by (simp add: run)
  qed
qed

text \<open>C40: The answer of a collection's handler without bounds is taken as a whole or refused: when every row
  has a key and no key occurs twice a new client gets all rows; otherwise the first row that breaks
  the rule decides the error, the open fails without a snapshot, and a delivery that had to verify
  the client fails and sends nothing.\<close>

theorem malformed_answer_refused:
  assumes "sd_max_rows d \<le> 0" and "sd_max_bytes d \<le> 0" and "\<not> resumable open base retained"
    and "\<not> sb_closed sub" and "\<not> sb_verified sub" and "sb_cursor sub = latest"
  shows "(rows_ok (sd_key d) rows \<longrightarrow> (\<exists>sub'. open_sync hash bytes d open base retained (Some (JArr rows)) = Delivered (sub', [Sync_Snapshot base rows False]) \<and>
        set (sb_keys sub') = (\<lambda>row. sync_row_key row (sd_key d)) ` set rows)) \<and>
    (\<forall>i<length rows. \<forall>e. rows_ok (sd_key d) (take i rows) \<and> row_error (sd_key d) (take i rows) (rows ! i) = Some e \<longrightarrow>
       sync_snapshot_rows bytes (JArr rows) d = Err e \<and> open_sync hash bytes d open base retained (Some (JArr rows)) = Failed_Delivery [] \<and>
       deliver_sync hash digest bytes d args connected (Some latest) read (Some (JArr rows)) sub = Failed_Delivery [])"
  using unbounded_result[OF assms(1,2)] assms(3-)
  by (auto simp: open_sync_def open_snapshot_def by_key_is comp_def deliver_sync_def deliver_authoritative_def then_ready_def)

theorem malformed_answer_refused_witness:
  "sync_snapshot_rows (\<lambda>x. 1) (JArr [JObj [(''id'', JStr ''1'')], JObj [(''id'', JStr ''1'')]])
      (visibility_definition ''tasks'' ''id'' []) = Err Duplicate_Key"
proof -
  let ?d = "visibility_definition ''tasks'' ''id'' []" and ?rows = "[JObj [(''id'', JStr ''1'')], JObj [(''id'', JStr ''1'')]]"
  let ?open = "\<lparr>so_cursor = None, so_keys = [], so_hashes = [], so_digest = '''', so_full_integrity = False\<rparr>"
  let ?sub = "\<lparr>sb_cursor = (''e'', 0), sb_keys = [], sb_hashes = [], sb_client_digest = '''', sb_full_integrity = False, sb_truncated = False, sb_verified = False,
     sb_closed = False, sb_acquired = True, sb_running = False, sb_pending = False\<rparr>"
  have d: "sd_max_rows ?d \<le> 0" "sd_max_bytes ?d \<le> 0" "\<not> resumable ?open (''e'', 0) 0" "\<not> sb_closed ?sub" "\<not> sb_verified ?sub" "sb_cursor ?sub = (''e'', 0)"
    by (simp_all add: visibility_definition_def resumable_def)
  have key: "sync_row_key (JObj [(''id'', JStr ''1'')]) ''id'' = ''1''" by code_simp
  have bad: "rows_ok (sd_key ?d) (take 1 ?rows) \<and> row_error (sd_key ?d) (take 1 ?rows) (?rows ! 1) = Some Duplicate_Key"
    by (simp add: visibility_definition_def row_error_def key)
  note all = malformed_answer_refused[OF d, of ?rows "\<lambda>x. ''''" "\<lambda>x. 1" "\<lambda>x. ''''" "[]" True "\<lambda>a b c. Err No_Table", THEN conjunct2]
  have "1 < length ?rows" by simp
  from all[THEN spec, THEN mp, OF this, THEN spec, THEN mp, OF bad] show ?thesis by (rule conjunct1)
qed

section \<open>Filters that are shared\<close>

text \<open>
  The equality filters of a definition are a Go map, which a copy of the definition shares:
  a store of maps by address. Merging the definition of a second function over the same table
  writes into the map of the first (\<open>manifestSyncDefinitions\<close>), which is the map of the manifest.
\<close>

type_synonym filter_store = "nat \<Rightarrow> (string \<times> string) list"

definition merge_filters_at :: "nat \<Rightarrow> nat \<Rightarrow> filter_store \<Rightarrow> filter_store" where
  "merge_filters_at existing added st = st(existing := fold (\<lambda>(c, a). AList.update c a) (st added) (st existing))"

lemma merge_filters_value:
  "merge_filters_at a b st a = sd_equal_filters (merge_definition (d\<lparr>sd_equal_filters := st a\<rparr>) (d'\<lparr>sd_equal_filters := st b\<rparr>))"
  by (simp add: merge_filters_at_def merge_definition_def)

text \<open>
  After the definitions of a project were computed once, the first function requires an argument of
  the second: a changed row that its query shows does not match any more and is sent as deleted.
\<close>

lemma merged_filters_leak:
  fixes st :: filter_store
  assumes "st 0 = [(''project'', ''projectId'')]" and "st 1 = [(''owner'', ''ownerId'')]"
  defines "row \<equiv> JObj [(''id'', JStr ''1''), (''project'', JStr ''p''), (''owner'', JStr ''o'')]"
    and "collection \<equiv> \<lambda>st :: filter_store. (visibility_definition ''tasks'' ''id'' [])\<lparr>sd_equal_filters := st 0\<rparr>"
  shows "sync_value_matches row (collection st) [(''projectId'', JStr ''p'')]"
    and "\<not> sync_value_matches row (collection (merge_filters_at 0 1 st)) [(''projectId'', JStr ''p'')]"
    and "apply_sync_change hash (collection (merge_filters_at 0 1 st)) [(''projectId'', JStr ''p'')]
      \<lparr>sy_revision = 1, sy_ordinal = 1, sy_mutation = '''', sy_table = ''tasks'', sy_row = ''1'', sy_operation = Update_Op, sy_old = row, sy_new = row, sy_created = 0\<rparr>
      \<lparr>ds_upserts = [], ds_deleted = [], ds_keys = [''1''], ds_hashes = []\<rparr> = \<lparr>ds_upserts = [], ds_deleted = [''1''], ds_keys = [], ds_hashes = []\<rparr>"
proof -
  have row: "members_of row = Some [(''id'', JStr ''1''), (''owner'', JStr ''o''), (''project'', JStr ''p'')]" "row \<noteq> JNull"
    unfolding row_def by code_simp simp
  show "sync_value_matches row (collection st) [(''projectId'', JStr ''p'')]"
    using assms(1) row by (simp add: sync_value_matches_def collection_def visibility_definition_def json_scalar_equal_def)
  have filters: "merge_filters_at 0 1 st 0 = [(''project'', ''projectId''), (''owner'', ''ownerId'')]"
    using assms(1,2) by (simp add: merge_filters_at_def)
  show no: "\<not> sync_value_matches row (collection (merge_filters_at 0 1 st)) [(''projectId'', JStr ''p'')]"
    using row filters by (simp add: sync_value_matches_def collection_def visibility_definition_def)
  show "apply_sync_change hash (collection (merge_filters_at 0 1 st)) [(''projectId'', JStr ''p'')]
      \<lparr>sy_revision = 1, sy_ordinal = 1, sy_mutation = '''', sy_table = ''tasks'', sy_row = ''1'', sy_operation = Update_Op, sy_old = row, sy_new = row, sy_created = 0\<rparr>
      \<lparr>ds_upserts = [], ds_deleted = [], ds_keys = [''1''], ds_hashes = []\<rparr> = \<lparr>ds_upserts = [], ds_deleted = [''1''], ds_keys = [], ds_hashes = []\<rparr>"
    using no by (simp add: apply_sync_change_def Let_def)
qed

end
