(* ===== verification/Sync_Session.thy ===== *)
theory Sync_Session
  imports Sync_Collection
begin

text \<open>
  The client of a synchronised collection (\<open>packages/client/src/index.ts\<close>: \<open>boundSyncRows\<close>,
  \<open>applySyncDelta\<close>, \<open>handleSyncMessage\<close>, \<open>handleSyncWatermark\<close>, \<open>syncOpenRequest\<close>) and the
  session of a client and its server over the change log. The digest of the client's rows is
  compared at once here; the code computes it asynchronously and drops the comparison when
  another message was handled in between. \<open>order\<close> is the sorting of \<open>sortClientSyncRows\<close>.
\<close>

section \<open>The client\<close>

fun js_text :: "json \<Rightarrow> string" where
  "js_text JNull = ''null''"
| "js_text (JBool b) = (if b then ''true'' else ''false'')"
| "js_text (JNum neg ds dp) = js_num neg ds dp"
| "js_text (JStr s) = s"
| "js_text (JArr xs) = join_with '','' (map (\<lambda>x. if x = JNull then '''' else js_text x) xs)"
| "js_text (JObj ms) = ''[object Object]''"

definition client_row_key :: "json \<Rightarrow> string \<Rightarrow> string" where
  "client_row_key row key = (case field row key of None \<Rightarrow> '''' | Some v \<Rightarrow> if v = JNull then '''' else js_text v)"

fun bound_rows :: "(json \<Rightarrow> int) \<Rightarrow> sync_definition \<Rightarrow> json list \<Rightarrow> int \<Rightarrow> json list \<Rightarrow> json list" where
  "bound_rows bytes d acc n [] = acc"
| "bound_rows bytes d acc n (row # rows) =
    (let key = client_row_key row (sd_key d); size = bytes (canonical_sync_json row) in
     if key = '''' \<or> key \<in> (\<lambda>row. client_row_key row (sd_key d)) ` set acc then bound_rows bytes d acc n rows
     else if sd_max_rows d \<noteq> 0 \<and> sd_max_rows d \<le> int (length acc) then acc
     else if sd_max_bytes d \<noteq> 0 \<and> sd_max_bytes d < n + size then acc
     else bound_rows bytes d (acc @ [row]) (n + size) rows)"

definition bound_sync_rows :: "(json \<Rightarrow> int) \<Rightarrow> (json list \<Rightarrow> json list) \<Rightarrow> sync_definition \<Rightarrow> json list \<Rightarrow> json list" where
  "bound_sync_rows bytes order d rows = bound_rows bytes d [] 0 (order rows)"

definition apply_sync_delta :: "(json \<Rightarrow> int) \<Rightarrow> (json list \<Rightarrow> json list) \<Rightarrow> sync_definition \<Rightarrow> json list \<Rightarrow> json list \<Rightarrow> string list \<Rightarrow> json list" where
  "apply_sync_delta bytes order d current upserts deleted =
    (let upsert_keys = filter (\<lambda>k. k \<noteq> '''') (map (\<lambda>row. client_row_key row (sd_key d)) upserts);
         remainder = filter (\<lambda>row. let key = client_row_key row (sd_key d) in
           key \<noteq> '''' \<and> key \<notin> set deleted \<and> key \<notin> set upsert_keys) current
     in bound_sync_rows bytes order d (upserts @ remainder))"

record sync_client =
  cl_opening :: bool
  cl_cursor :: "cursor option"
  cl_floor :: "cursor option"
  cl_retired :: "string list"
  cl_rows :: "json list"
  cl_truncated :: "bool option"
  cl_up_to_date :: bool
  cl_force_full :: bool

definition cursor_is_stale :: "sync_client \<Rightarrow> cursor \<Rightarrow> bool" where
  "cursor_is_stale cl c \<longleftrightarrow> fst c \<in> set (cl_retired cl) \<or>
     (case cl_floor cl of None \<Rightarrow> False | Some f \<Rightarrow> fst f = fst c \<and> snd c < snd f)"

definition raise_floor :: "cursor \<Rightarrow> sync_client \<Rightarrow> sync_client" where
  "raise_floor c cl = cl\<lparr>
     cl_retired := (case cl_floor cl of Some f \<Rightarrow> if fst f \<noteq> fst c then fst f # cl_retired cl else cl_retired cl | None \<Rightarrow> cl_retired cl),
     cl_floor := (case cl_floor cl of Some f \<Rightarrow> if fst f \<noteq> fst c \<or> snd f < snd c then Some c else Some f | None \<Rightarrow> Some c)\<rparr>"

definition client_digest :: "(json \<Rightarrow> string) \<Rightarrow> ((string \<times> string) list \<Rightarrow> string) \<Rightarrow> sync_definition \<Rightarrow> json list \<Rightarrow> string" where
  "client_digest hash digest d rows =
    sync_hashes_digest digest (map (\<lambda>row. (client_row_key row (sd_key d), hash (canonical_sync_json row))) rows)"

definition reset_client :: "sync_client \<Rightarrow> sync_client" where
  "reset_client cl = cl\<lparr>cl_up_to_date := False, cl_cursor := None, cl_truncated := None, cl_rows := [], cl_force_full := False, cl_opening := False\<rparr>"

text \<open>\<open>handleSyncWatermark\<close> for a client whose rows were verified.\<close>

definition client_watermark :: "nat \<Rightarrow> sync_client \<Rightarrow> sync_client" where
  "client_watermark revision cl = (case cl_cursor cl of None \<Rightarrow> cl | Some c \<Rightarrow>
     if revision \<le> snd c \<or> \<not> cl_up_to_date cl \<or> cl_opening cl \<or> cl_force_full cl then cl
     else raise_floor (fst c, revision) (cl\<lparr>cl_cursor := Some (fst c, revision)\<rparr>))"

text \<open>\<open>handleSyncMessage\<close>; the key and the bounds of a snapshot message are those of the definition.\<close>

fun client_step :: "(json \<Rightarrow> string) \<Rightarrow> ((string \<times> string) list \<Rightarrow> string) \<Rightarrow> (json \<Rightarrow> int) \<Rightarrow> (json list \<Rightarrow> json list) \<Rightarrow> sync_definition \<Rightarrow>
    sync_message \<Rightarrow> sync_client \<Rightarrow> sync_client" where
  "client_step hash digest bytes order d (Sync_Snapshot c rows truncated) cl =
    (if \<not> cl_opening cl \<or> cursor_is_stale cl c \<or> (case cl_cursor cl of None \<Rightarrow> False | Some c0 \<Rightarrow> fst c = fst c0 \<and> snd c < snd c0) then cl
     else raise_floor c (cl\<lparr>cl_up_to_date := False, cl_opening := False, cl_cursor := Some c, cl_truncated := None,
       cl_rows := bound_sync_rows bytes order d rows\<rparr>))"
| "client_step hash digest bytes order d (Sync_Delta c upserts deleted mutations dg) cl =
    (if cursor_is_stale cl c \<or> (case cl_cursor cl of None \<Rightarrow> False
        | Some c0 \<Rightarrow> fst c \<noteq> fst c0 \<or> snd c < snd c0 \<or> (snd c = snd c0 \<and> dg = '''')) then cl
     else raise_floor c (cl\<lparr>cl_up_to_date := False, cl_cursor := Some c,
       cl_rows := apply_sync_delta bytes order d (cl_rows cl) upserts deleted\<rparr>))"
| "client_step hash digest bytes order d (Sync_Reset reason) cl = reset_client cl"
| "client_step hash digest bytes order d (Sync_Syncing reason) cl = cl\<lparr>cl_up_to_date := False\<rparr>"
| "client_step hash digest bytes order d Sync_Need_Hashes cl = cl\<lparr>cl_up_to_date := False, cl_opening := False, cl_force_full := True\<rparr>"
| "client_step hash digest bytes order d Sync_Error cl = cl\<lparr>cl_up_to_date := False, cl_opening := False\<rparr>"
| "client_step hash digest bytes order d (Sync_Watermark revision) cl = client_watermark revision cl"
| "client_step hash digest bytes order d (Sync_Ready c dg truncated) cl = (case cl_cursor cl of None \<Rightarrow> cl | Some c0 \<Rightarrow>
     if fst c \<noteq> fst c0 \<or> snd c < snd c0 \<or> cursor_is_stale cl c then cl
     else if dg = '''' \<or> client_digest hash digest d (cl_rows cl) \<noteq> dg then reset_client cl
     else raise_floor c (cl\<lparr>cl_up_to_date := True, cl_opening := False, cl_cursor := Some c, cl_truncated := Some truncated, cl_force_full := False\<rparr>))"

definition client_steps :: "(json \<Rightarrow> string) \<Rightarrow> ((string \<times> string) list \<Rightarrow> string) \<Rightarrow> (json \<Rightarrow> int) \<Rightarrow> (json list \<Rightarrow> json list) \<Rightarrow> sync_definition \<Rightarrow>
    sync_message list \<Rightarrow> sync_client \<Rightarrow> sync_client" where
  "client_steps hash digest bytes order d ms cl = fold (client_step hash digest bytes order d) ms cl"

text \<open>\<open>sendSyncOpen\<close>: the rows are hashed before the request of \<open>syncOpenRequest\<close> is made of them.\<close>

definition open_request :: "(json \<Rightarrow> string) \<Rightarrow> ((string \<times> string) list \<Rightarrow> string) \<Rightarrow> sync_definition \<Rightarrow> sync_client \<Rightarrow> sync_open" where
  "open_request hash digest d cl =
    (let known = cl_cursor cl \<noteq> None; full = known \<and> (cl_force_full cl \<or> length (cl_rows cl) \<le> 16);
         pairs = map (\<lambda>row. (client_row_key row (sd_key d), hash (canonical_sync_json row))) (cl_rows cl)
     in \<lparr>so_cursor = cl_cursor cl, so_keys = (if full then filter (\<lambda>k. k \<noteq> '''') (map fst pairs) else []),
         so_hashes = (if full then pairs else []), so_digest = (if known then client_digest hash digest d (cl_rows cl) else ''''),
         so_full_integrity = full\<rparr>)"

section \<open>What the client shows\<close>

lemma client_key: "sync_row_key row key \<noteq> '''' \<Longrightarrow> client_row_key row key = sync_row_key row key"
  by (cases row) (auto simp: sync_row_key_def client_row_key_def field_def map_of_canon split: option.splits json.splits if_splits)

lemma rows_okD: "rows_ok key rows \<Longrightarrow> row \<in> set rows \<Longrightarrow> sync_row_key row key \<noteq> ''''"
  unfolding rows_ok_def by (metis imageI)

lemma client_keys: "rows_ok key rows \<Longrightarrow> row \<in> set rows \<Longrightarrow> client_row_key row key = sync_row_key row key"
  by (rule client_key) (rule rows_okD)

lemma bound_rows_all:
  assumes "rows_ok (sd_key d) (acc @ rows)" and "fits bytes d (acc @ rows)" and "0 \<le> sd_max_rows d" and "0 \<le> sd_max_bytes d"
    and "\<And>x. 0 \<le> bytes x" and "n = (\<Sum>row\<leftarrow>acc. bytes (canonical_sync_json row))"
  shows "bound_rows bytes d acc n rows = acc @ rows"
  using assms
proof (induction rows arbitrary: acc n)
  case (Cons row rows)
  have keys: "client_row_key r (sd_key d) = sync_row_key r (sd_key d)" if "r \<in> set (acc @ row # rows)" for r
    using client_keys[OF Cons.prems(1)] that by blast
  have "sync_row_key row (sd_key d) \<noteq> ''''" "sync_row_key row (sd_key d) \<notin> (\<lambda>row. sync_row_key row (sd_key d)) ` set acc"
    using Cons.prems(1) by (auto simp: rows_ok_def)
  with keys have key: "client_row_key row (sd_key d) \<noteq> ''''"
      "client_row_key row (sd_key d) \<notin> (\<lambda>row. client_row_key row (sd_key d)) ` set acc"
    by (auto simp: image_iff)
  have "0 \<le> (\<Sum>r\<leftarrow>rows. bytes (canonical_sync_json r))" using Cons.prems(5) by (intro sum_list_nonneg) auto
  then have "\<not> (sd_max_rows d \<noteq> 0 \<and> sd_max_rows d \<le> int (length acc))"
      "\<not> (sd_max_bytes d \<noteq> 0 \<and> sd_max_bytes d < n + bytes (canonical_sync_json row))"
    using Cons.prems(2-4,6) by (auto simp: fits_def)
  with key have "bound_rows bytes d acc n (row # rows) = bound_rows bytes d (acc @ [row]) (n + bytes (canonical_sync_json row)) rows"
    by (auto simp: Let_def)
  also have "\<dots> = (acc @ [row]) @ rows"
    using Cons.prems by (intro Cons.IH) simp_all
  finally show ?case by simp
qed simp

lemma fits_mset: "mset rows' = mset rows \<Longrightarrow> fits bytes d rows' = fits bytes d rows"
  unfolding fits_def by (metis mset_map size_mset sum_mset_sum_list)

lemma rows_ok_append:
  "rows_ok key (xs @ ys) \<longleftrightarrow> rows_ok key xs \<and> rows_ok key ys \<and> (\<forall>row\<in>set ys. sync_row_key row key \<notin> (\<lambda>row. sync_row_key row key) ` set xs)"
  unfolding rows_ok_def map_append distinct_append set_append image_Un Un_iff set_map disjoint_iff by (metis imageE imageI)

definition rows_image :: "(json \<Rightarrow> 'a) \<Rightarrow> string \<Rightarrow> json list \<Rightarrow> string \<Rightarrow> 'a option" where
  "rows_image f key rows k = map_option f (row_at key rows k)"

lemma rows_image_mset:
  assumes "rows_ok key rows" and "rows_ok key rows'" and "\<And>k. rows_image f key rows k = rows_image f key rows' k"
  shows "mset (map f rows) = mset (map f rows')"
proof -
  let ?pairs = "map (\<lambda>row. (sync_row_key row key, f row))"
  have set: "(k, y) \<in> set (?pairs rs) \<longleftrightarrow> rows_image f key rs k = Some y" if "rows_ok key rs" for rs k y
    using row_at_in[OF that] row_at_Some[of key rs k] by (fastforce simp: rows_image_def)
  have "distinct (?pairs rs)" if "rows_ok key rs" for rs
    using that by (induction rs) auto
  moreover have "p \<in> set (?pairs rows) \<longleftrightarrow> p \<in> set (?pairs rows')" for p
    by (cases p) (simp only: set[OF assms(1)] set[OF assms(2)] assms(3))
  then have "set (?pairs rows) = set (?pairs rows')" by (rule set_eqI)
  ultimately have "mset (?pairs rows) = mset (?pairs rows')"
    using assms(1,2) by (simp add: set_eq_iff_mset_eq_distinct del: set_map)
  then have "image_mset snd (mset (?pairs rows)) = image_mset snd (mset (?pairs rows'))" by (rule arg_cong)
  then show ?thesis by (simp add: image_mset.compositionality comp_def)
qed

lemma fits_image:
  assumes "rows_ok (sd_key d) rows" and "rows_ok (sd_key d) rows'"
    and "\<And>k. rows_image canonical_sync_json (sd_key d) rows k = rows_image canonical_sync_json (sd_key d) rows' k"
  shows "fits bytes d rows = fits bytes d rows'"
proof -
  have m: "mset (map canonical_sync_json rows) = mset (map canonical_sync_json rows')"
    using rows_image_mset[OF assms] .
  then have "mset (map bytes (map canonical_sync_json rows)) = mset (map bytes (map canonical_sync_json rows'))"
    unfolding mset_map by (rule arg_cong)
  then have "(\<Sum>row\<leftarrow>rows. bytes (canonical_sync_json row)) = (\<Sum>row\<leftarrow>rows'. bytes (canonical_sync_json row))"
    by (metis (no_types, lifting) map_map comp_def sum_mset_sum_list map_eq_conv)
  moreover have "length rows = length rows'" using m by (metis length_map size_mset)
  ultimately show ?thesis by (simp add: fits_def)
qed

definition after_delta :: "json list \<Rightarrow> string \<Rightarrow> json list \<Rightarrow> string list \<Rightarrow> string \<Rightarrow> json option" where
  "after_delta rows key upserts deleted k = (case row_at key upserts k of Some v \<Rightarrow> Some v
     | None \<Rightarrow> if k \<in> set deleted then None else row_at key rows k)"

lemma apply_sync_delta_rows:
  fixes rows :: "json list"
  assumes rows: "rows_ok (sd_key d) rows" and ups: "rows_ok (sd_key d) upserts"
    and fits: "\<And>rs. rows_ok (sd_key d) rs \<Longrightarrow> (\<And>k. row_at (sd_key d) rs k = after_delta rows (sd_key d) upserts deleted k) \<Longrightarrow> fits bytes d rs"
    and bounds: "0 \<le> sd_max_rows d" "0 \<le> sd_max_bytes d" "\<And>x. 0 \<le> bytes x" and perm: "\<And>xs. mset (order xs) = mset xs"
  defines "rs \<equiv> apply_sync_delta bytes order d rows upserts deleted"
  shows "rows_ok (sd_key d) rs" and "row_at (sd_key d) rs k = after_delta rows (sd_key d) upserts deleted k" and "fits bytes d rs"
proof -
  let ?key = "\<lambda>row. sync_row_key row (sd_key d)"
  define P where "P row \<longleftrightarrow> ?key row \<notin> set deleted \<and> ?key row \<notin> ?key ` set upserts" for row
  have "client_row_key row (sd_key d) = ?key row \<and> ?key row \<noteq> ''''" if "row \<in> set rows \<or> row \<in> set upserts" for row
    using that client_keys[OF rows] client_keys[OF ups] rows_okD[OF rows] rows_okD[OF ups] by blast
  then have "filter (\<lambda>row. let key = client_row_key row (sd_key d) in key \<noteq> '''' \<and> key \<notin> set deleted \<and>
      key \<notin> set (filter (\<lambda>k. k \<noteq> '''') (map (\<lambda>row. client_row_key row (sd_key d)) upserts))) rows = filter P rows"
    by (intro filter_cong) (auto simp: P_def Let_def image_iff)
  then have rs: "rs = bound_rows bytes d [] 0 (order (upserts @ filter P rows))"
    by (simp add: rs_def apply_sync_delta_def bound_sync_rows_def Let_def)
  have merged: "rows_ok (sd_key d) (upserts @ filter P rows)"
    using ups rows_ok_filter[OF rows, of P] unfolding rows_ok_append by (simp add: P_def)
  have at: "row_at (sd_key d) (upserts @ filter P rows) k = after_delta rows (sd_key d) upserts deleted k" for k
  proof (cases "row_at (sd_key d) upserts k")
    case None
    moreover have "P r \<longleftrightarrow> k \<notin> set deleted" if "row_at (sd_key d) rows k = Some r" for r
      using row_at_Some[OF that] None by (auto simp: P_def row_at_None)
    moreover have "row_at (sd_key d) (filter P rows) k = (case row_at (sd_key d) rows k of Some r \<Rightarrow> if P r then Some r else None | None \<Rightarrow> None)"
      by (rule row_at_filter) (simp add: P_def)
    ultimately show ?thesis by (simp add: row_at_append after_delta_def split: option.splits)
  qed (simp add: row_at_append after_delta_def)
  note ordered = row_at_mset[OF merged perm]
  have "fits bytes d (order (upserts @ filter P rows))" using fits[OF ordered(1)] ordered(2) at by simp
  then have "rs = order (upserts @ filter P rows)"
    unfolding rs using bound_rows_all[of d "[]"] ordered(1) bounds by simp
  with ordered at \<open>fits bytes d (order _)\<close> show "rows_ok (sd_key d) rs"
      "row_at (sd_key d) rs k = after_delta rows (sd_key d) upserts deleted k" "fits bytes d rs" by simp_all
qed

lemma client_digest_is:
  assumes "rows_ok (sd_key d) rows" and "\<And>k. map_of hashes k = map_option (\<lambda>row. hash (canonical_sync_json row)) (row_at (sd_key d) rows k)"
  shows "client_digest hash digest d rows = sync_hashes_digest digest hashes"
proof -
  have "map (\<lambda>row. (client_row_key row (sd_key d), hash (canonical_sync_json row))) rows = sync_rows_hashes hash rows (sd_key d)"
    using client_keys[OF assms(1)] by (simp add: hashes_is[OF assms(1)])
  then show ?thesis unfolding client_digest_def using assms by (simp add: digest_map_of map_of_hashes)
qed

section \<open>The client and the server in step\<close>

definition in_step :: "(json \<Rightarrow> string) \<Rightarrow> (json \<Rightarrow> int) \<Rightarrow> sync_definition \<Rightarrow> sync_subscription \<Rightarrow> sync_client \<Rightarrow> bool" where
  "in_step hash bytes d sub cl \<longleftrightarrow> rows_ok (sd_key d) (cl_rows cl) \<and> fits bytes d (cl_rows cl) \<and>
     rows_known hash (sb_keys sub) (sb_hashes sub) (row_at (sd_key d) (cl_rows cl))"

definition cursor_ok :: "cursor \<Rightarrow> sync_client \<Rightarrow> bool" where
  "cursor_ok limit cl \<longleftrightarrow> (case (cl_cursor cl, cl_floor cl) of
     (Some c, Some f) \<Rightarrow> fst c = fst limit \<and> snd c \<le> snd limit \<and> fst f = fst c \<and> snd f \<le> snd c \<and> fst c \<notin> set (cl_retired cl)
   | _ \<Rightarrow> False)"

definition good_parameters :: "(json \<Rightarrow> string) \<Rightarrow> ((string \<times> string) list \<Rightarrow> string) \<Rightarrow> (json \<Rightarrow> int) \<Rightarrow> (json list \<Rightarrow> json list) \<Rightarrow> sync_definition \<Rightarrow> bool" where
  "good_parameters hash digest bytes order d \<longleftrightarrow> (\<forall>x. hash x \<noteq> '''' \<and> trim_space (hash x) = hash x) \<and>
     (\<forall>x. digest x \<noteq> '''' \<and> trim_space (digest x) = digest x) \<and> (\<forall>x. 0 \<le> bytes x) \<and> (\<forall>xs. mset (order xs) = mset xs) \<and>
     0 \<le> sd_max_rows d \<and> 0 \<le> sd_max_bytes d"

lemma good_parametersD:
  assumes "good_parameters hash digest bytes order d"
  shows "hash x \<noteq> ''''" "trim_space (hash x) = hash x" "digest y \<noteq> ''''" "trim_space (digest y) = digest y" "0 \<le> bytes x" "mset (order xs) = mset xs"
    "0 \<le> sd_max_rows d" "0 \<le> sd_max_bytes d"
  using assms by (simp_all add: good_parameters_def)

lemma client_steps_simps [simp]:
  "client_steps hash digest bytes order d [] cl = cl"
  "client_steps hash digest bytes order d (m # ms) cl = client_steps hash digest bytes order d ms (client_step hash digest bytes order d m cl)"
  "client_steps hash digest bytes order d (ms @ ms') cl = client_steps hash digest bytes order d ms' (client_steps hash digest bytes order d ms cl)"
  by (simp_all add: client_steps_def)

lemma cursor_ok_moves:
  assumes "cursor_ok limit cl" and "fst c = fst limit" and "\<And>c0. cl_cursor cl = Some c0 \<Longrightarrow> snd c0 \<le> snd c"
  shows "\<not> cursor_is_stale cl c" and "cl_cursor cl' = Some c \<Longrightarrow> cl_floor cl' = cl_floor cl \<Longrightarrow> cl_retired cl' = cl_retired cl \<Longrightarrow> snd c \<le> snd limit' \<Longrightarrow>
      fst limit' = fst limit \<Longrightarrow> cursor_ok limit' (raise_floor c cl')"
  using assms by (auto simp: cursor_ok_def cursor_is_stale_def raise_floor_def split: option.splits)

lemma raise_floor_fields [simp]:
  "cl_rows (raise_floor c cl) = cl_rows cl" "cl_cursor (raise_floor c cl) = cl_cursor cl" "cl_up_to_date (raise_floor c cl) = cl_up_to_date cl"
  "cl_opening (raise_floor c cl) = cl_opening cl" "cl_force_full (raise_floor c cl) = cl_force_full cl"
  by (simp_all add: raise_floor_def)

lemma in_step_cong: "cl_rows cl' = cl_rows cl \<Longrightarrow> sb_keys sub' = sb_keys sub \<Longrightarrow> sb_hashes sub' = sb_hashes sub \<Longrightarrow> in_step hash bytes d sub' cl' = in_step hash bytes d sub cl"
  by (simp add: in_step_def)

lemma in_step_digest:
  assumes "in_step hash bytes d sub cl"
  shows "client_digest hash digest d (cl_rows cl) = sync_hashes_digest digest (sb_hashes sub)"
  using assms by (intro client_digest_is) (auto simp: in_step_def rows_known_def)

text \<open>A ready message is accepted, and its digest is the client's.\<close>

lemma ready_accepted:
  assumes "good_parameters hash digest bytes order d" and "in_step hash bytes d sub cl" and "cursor_ok limit cl"
    and "fst c = fst limit" and "snd limit \<le> snd c"
  defines "cl' \<equiv> client_step hash digest bytes order d (sync_ready digest c sub) cl"
  shows "in_step hash bytes d sub cl'" and "cursor_ok c cl'" and "cl_up_to_date cl'" and "cl_rows cl' = cl_rows cl"
proof -
  obtain c0 where c0: "cl_cursor cl = Some c0" "fst c0 = fst limit" "snd c0 \<le> snd limit"
    using assms(3) by (auto simp: cursor_ok_def split: option.splits)
  have dg: "sync_hashes_digest digest (sb_hashes sub) \<noteq> ''''"
    using good_parametersD(3)[OF assms(1)] by (simp add: sync_hashes_digest_def)
  note moves = cursor_ok_moves[OF assms(3,4)]
  have "\<not> cursor_is_stale cl c" using moves(1) c0 assms(5) by simp
  then have cl': "cl' = raise_floor c (cl\<lparr>cl_up_to_date := True, cl_opening := False, cl_cursor := Some c, cl_truncated := Some (sb_truncated sub), cl_force_full := False\<rparr>)"
    using c0 assms(4,5) dg in_step_digest[OF assms(2)] by (simp add: cl'_def sync_ready_def)
  show "cursor_ok c cl'" unfolding cl' using c0 assms(4,5) by (intro moves(2)) auto
  show "in_step hash bytes d sub cl'" "cl_up_to_date cl'" "cl_rows cl' = cl_rows cl"
    using assms(2) unfolding cl' by (simp_all add: in_step_def)
qed

text \<open>A delta is applied, and leaves the rows it describes.\<close>

lemma delta_accepted:
  fixes mutations :: "string list"
  assumes good: "good_parameters hash digest bytes order d" and cursor: "cursor_ok limit cl" and c: "fst c = fst limit" "snd limit \<le> snd c"
    and rows: "rows_ok (sd_key d) (cl_rows cl)" and ups: "rows_ok (sd_key d) upserts"
    and fits: "\<And>rs. rows_ok (sd_key d) rs \<Longrightarrow> (\<And>k. row_at (sd_key d) rs k = after_delta (cl_rows cl) (sd_key d) upserts deleted k) \<Longrightarrow> fits bytes d rs"
    and known: "rows_known hash (sb_keys sub) (sb_hashes sub) (after_delta (cl_rows cl) (sd_key d) upserts deleted)"
    and "dg \<noteq> ''''" and step: "client_step hash digest bytes order d (Sync_Delta c upserts deleted mutations dg) cl = cl'"
  shows "in_step hash bytes d sub cl'" and "cursor_ok c cl'"
    and "row_at (sd_key d) (cl_rows cl') = after_delta (cl_rows cl) (sd_key d) upserts deleted"
proof -
  obtain c0 where c0: "cl_cursor cl = Some c0" "fst c0 = fst limit" "snd c0 \<le> snd limit"
    using cursor by (auto simp: cursor_ok_def split: option.splits)
  note moves = cursor_ok_moves[OF cursor c(1)]
  have "\<not> cursor_is_stale cl c" using moves(1) c0 c by simp
  then have cl': "cl' = raise_floor c (cl\<lparr>cl_up_to_date := False, cl_cursor := Some c,
      cl_rows := apply_sync_delta bytes order d (cl_rows cl) upserts deleted\<rparr>)"
    using c0 c \<open>dg \<noteq> ''''\<close> by (simp add: step[symmetric])
  note applied = apply_sync_delta_rows[OF rows ups fits good_parametersD(7,8,5,6)[OF good]]
  show at: "row_at (sd_key d) (cl_rows cl') = after_delta (cl_rows cl) (sd_key d) upserts deleted"
    unfolding cl' by (rule ext) (simp add: applied(2))
  have rows': "rows_ok (sd_key d) (cl_rows cl')" "fits bytes d (cl_rows cl')"
    using applied(1,3) by (simp_all add: cl')
  show "in_step hash bytes d sub cl'"
    unfolding in_step_def at using rows' known by blast
  show "cursor_ok c cl'" unfolding cl' using c0 c by (intro moves(2)) auto
qed

section \<open>The changes of the log\<close>

lemma batch_in_step:
  assumes good: "good_parameters hash digest bytes order d" and step: "in_step hash bytes d sub cl" and cursor: "cursor_ok limit cl"
    and b: "fst limit = epoch" "snd limit \<le> fst b" and keyed: "\<forall>c\<in>set (snd b). keyed_change d args c"
    and bounds: "sd_max_rows d = 0" "sd_max_bytes d = 0" and run: "deliver_batch hash digest d args epoch b sub = (sub', m)"
  shows "in_step hash bytes d sub' (client_step hash digest bytes order d m cl)" and "cursor_ok (sb_cursor sub') (client_step hash digest bytes order d m cl)"
    and "sb_cursor sub' = (epoch, fst b)"
    and "row_at (sd_key d) (cl_rows (client_step hash digest bytes order d m cl)) k = replay_visible d args k (snd b) (row_at (sd_key d) (cl_rows cl) k)"
proof -
  let ?old = "row_at (sd_key d) (cl_rows cl)"
  define st0 where "st0 = \<lparr>ds_upserts = [], ds_deleted = [], ds_keys = sb_keys sub, ds_hashes = sb_hashes sub\<rparr>"
  define st where "st = fold (apply_sync_change hash d args) (snd b) st0"
  have st0: "delta_row st0 ?old = ?old" by (rule ext) (simp add: st0_def delta_row_def)
  then have "delta_ok hash (sd_key d) ?old st0"
    using step by (simp add: delta_ok_def in_step_def) (simp add: st0_def)
  note st = apply_changes[OF this keyed, folded st_def]
  have ups: "\<And>k v. map_of (ds_upserts st) k = Some v \<Longrightarrow> sync_row_key v (sd_key d) = k \<and> k \<noteq> ''''"
    using st(1) by (simp add: delta_ok_def)
  note ups = sorted_rows[OF ups]
  have after: "after_delta (cl_rows cl) (sd_key d) (sorted_sync_rows (ds_upserts st)) (sorted_sync_keys (ds_deleted st)) = delta_row st ?old"
    by (rule ext) (simp add: after_delta_def delta_row_def ups(2))
  have sub': "sub' = sub\<lparr>sb_keys := ds_keys st, sb_hashes := ds_hashes st, sb_cursor := (epoch, fst b)\<rparr>"
    and m: "m = Sync_Delta (epoch, fst b) (sorted_sync_rows (ds_upserts st)) (sorted_sync_keys (ds_deleted st)) (sorted_sync_keys (mutation_ids (snd b)))
           (sync_hashes_digest digest (ds_hashes st))"
    using run unfolding deliver_batch_def Let_def st_def st0_def by simp_all
  have rows: "rows_ok (sd_key d) (cl_rows cl)" using step by (simp add: in_step_def)
  have known: "rows_known hash (sb_keys sub') (sb_hashes sub') (after_delta (cl_rows cl) (sd_key d) (sorted_sync_rows (ds_upserts st)) (sorted_sync_keys (ds_deleted st)))"
    using st(1) by (simp add: after delta_ok_def sub')
  have dg: "sync_hashes_digest digest (ds_hashes st) \<noteq> ''''"
    using good_parametersD(3)[OF good] by (simp add: sync_hashes_digest_def)
  have fits: "fits bytes d rs" for rs using bounds by (simp add: fits_def)
  define cl' where "cl' = client_step hash digest bytes order d m cl"
  have "client_step hash digest bytes order d (Sync_Delta (epoch, fst b) (sorted_sync_rows (ds_upserts st)) (sorted_sync_keys (ds_deleted st))
      (sorted_sync_keys (mutation_ids (snd b))) (sync_hashes_digest digest (ds_hashes st))) cl = cl'"
    by (simp only: m cl'_def)
  note applied = delta_accepted[OF good cursor _ _ rows ups(1) fits known dg this]
  have "in_step hash bytes d sub' cl'" "cursor_ok (epoch, fst b) cl'"
      "row_at (sd_key d) (cl_rows cl') k = replay_visible d args k (snd b) (?old k)"
    using applied b st(2)[of k] st0 by (simp_all add: after)
  then show "in_step hash bytes d sub' (client_step hash digest bytes order d m cl)" "sb_cursor sub' = (epoch, fst b)"
      "cursor_ok (sb_cursor sub') (client_step hash digest bytes order d m cl)"
      "row_at (sd_key d) (cl_rows (client_step hash digest bytes order d m cl)) k = replay_visible d args k (snd b) (?old k)"
    by (simp_all add: cl'_def sub')
qed

lemma group_concat: "concat (map snd (group_sync_changes cs)) = cs"
  by (induction cs) (auto split: list.splits prod.splits)

lemma group_revisions: "set (map fst (group_sync_changes cs)) = sy_revision ` set cs"
proof (induction cs)
  case (Cons c cs)
  show ?case
  proof (cases "group_sync_changes cs")
    case (Cons b bs)
    with Cons.IH show ?thesis by (cases b) auto
  qed (use Cons.IH in simp)
qed simp

lemma group_sorted: "sorted (map sy_revision cs) \<Longrightarrow> sorted (map fst (group_sync_changes cs))"
proof (induction cs)
  case (Cons c cs)
  have "\<forall>r\<in>set (map fst (group_sync_changes cs)). sy_revision c \<le> r"
    unfolding group_revisions using Cons.prems by simp
  with Cons.IH Cons.prems show ?case
    by (cases "group_sync_changes cs"; cases "fst (hd (group_sync_changes cs)) = sy_revision c") auto
qed simp

lemma batch_flags:
  assumes "deliver_batch hash digest d args epoch b sub = (sub', m)"
  shows "sb_verified sub' = sb_verified sub" "sb_closed sub' = sb_closed sub"
  using assms by (auto simp: deliver_batch_def Let_def)

lemma batches_in_step:
  assumes "good_parameters hash digest bytes order d" and "sd_max_rows d = 0" "sd_max_bytes d = 0"
    and "in_step hash bytes d sub cl" and "cursor_ok (sb_cursor sub) cl" and "fst (sb_cursor sub) = epoch"
    and "sorted (snd (sb_cursor sub) # map fst bs)" and "\<forall>c\<in>set (concat (map snd bs)). keyed_change d args c"
    and "deliver_batches hash digest d args epoch bs sub = (sub', ms)"
  shows "in_step hash bytes d sub' (client_steps hash digest bytes order d ms cl) \<and> cursor_ok (sb_cursor sub') (client_steps hash digest bytes order d ms cl) \<and>
    fst (sb_cursor sub') = epoch \<and> snd (sb_cursor sub') = last (snd (sb_cursor sub) # map fst bs) \<and>
    sb_verified sub' = sb_verified sub \<and> sb_closed sub' = sb_closed sub \<and>
    (\<forall>k. row_at (sd_key d) (cl_rows (client_steps hash digest bytes order d ms cl)) k =
      replay_visible d args k (concat (map snd bs)) (row_at (sd_key d) (cl_rows cl) k))"
  using assms(4-)
proof (induction bs arbitrary: sub cl ms)
  case (Cons b bs)
  obtain sub1 m where b: "deliver_batch hash digest d args epoch b sub = (sub1, m)" by fastforce
  with Cons.prems(6) obtain ms' where ms: "deliver_batches hash digest d args epoch bs sub1 = (sub', ms')" "ms = m # ms'"
    by (auto split: prod.splits)
  have prems: "snd (sb_cursor sub) \<le> fst b" "\<forall>c\<in>set (snd b). keyed_change d args c" using Cons.prems(4,5) by auto
  note one = batch_in_step[OF assms(1) Cons.prems(1,2,3) prems assms(2,3) b]
  have "sorted (snd (sb_cursor sub1) # map fst bs)" using Cons.prems(4) by (simp add: one(3))
  moreover have "\<forall>c\<in>set (concat (map snd bs)). keyed_change d args c" using Cons.prems(5) by simp
  moreover have "fst (sb_cursor sub1) = epoch" by (simp add: one(3))
  ultimately have rest: "in_step hash bytes d sub' (client_steps hash digest bytes order d ms' (client_step hash digest bytes order d m cl)) \<and>
      cursor_ok (sb_cursor sub') (client_steps hash digest bytes order d ms' (client_step hash digest bytes order d m cl)) \<and>
      fst (sb_cursor sub') = epoch \<and> snd (sb_cursor sub') = last (snd (sb_cursor sub1) # map fst bs) \<and>
      sb_verified sub' = sb_verified sub1 \<and> sb_closed sub' = sb_closed sub1 \<and>
      (\<forall>k. row_at (sd_key d) (cl_rows (client_steps hash digest bytes order d ms' (client_step hash digest bytes order d m cl))) k =
        replay_visible d args k (concat (map snd bs)) (row_at (sd_key d) (cl_rows (client_step hash digest bytes order d m cl)) k))"
    using Cons.IH[OF one(1,2) _ _ _ ms(1)] by blast
  show ?case using rest one(3,4) batch_flags[OF b] by (simp add: ms(2))
qed simp

section \<open>The authoritative result\<close>

definition no_collision :: "(json \<Rightarrow> string) \<Rightarrow> ((string \<times> string) list \<Rightarrow> string) \<Rightarrow> string \<Rightarrow> json list \<Rightarrow> json list \<Rightarrow> bool" where
  "no_collision hash digest key rows rows' \<longleftrightarrow>
    (\<forall>k a b. row_at key rows k = Some a \<and> row_at key rows' k = Some b \<and> hash (canonical_sync_json a) = hash (canonical_sync_json b) \<longrightarrow>
       canonical_sync_json a = canonical_sync_json b) \<and>
    (sync_hashes_digest digest (sync_rows_hashes hash rows key) = sync_hashes_digest digest (sync_rows_hashes hash rows' key) \<longrightarrow>
       canon (rev (sync_rows_hashes hash rows key)) = canon (rev (sync_rows_hashes hash rows' key)))"

definition agrees :: "(json \<Rightarrow> string) \<Rightarrow> ((string \<times> string) list \<Rightarrow> string) \<Rightarrow> (json \<Rightarrow> int) \<Rightarrow> sync_definition \<Rightarrow> sync_subscription \<Rightarrow> sync_client \<Rightarrow> bool" where
  "agrees hash digest bytes d sub cl \<longleftrightarrow> rows_ok (sd_key d) (cl_rows cl) \<and> fits bytes d (cl_rows cl) \<and> cursor_ok (sb_cursor sub) cl \<and>
     (if compact_resume sub then sb_client_digest sub = client_digest hash digest d (cl_rows cl)
      else rows_known hash (sb_keys sub) (sb_hashes sub) (row_at (sd_key d) (cl_rows cl)))"

lemma agrees_in_step: "agrees hash digest bytes d sub cl \<Longrightarrow> \<not> compact_resume sub \<Longrightarrow> in_step hash bytes d sub cl"
  by (simp add: agrees_def in_step_def)

lemma in_step_agrees: "in_step hash bytes d sub cl \<Longrightarrow> cursor_ok (sb_cursor sub) cl \<Longrightarrow> sb_verified sub \<Longrightarrow> agrees hash digest bytes d sub cl"
  by (simp add: agrees_def in_step_def compact_resume_def)

lemma rows_known_result:
  assumes "rows_ok key rows" and "\<And>k. map_option (\<lambda>r. hash (canonical_sync_json r)) (f k) = map_option (\<lambda>r. hash (canonical_sync_json r)) (row_at key rows k)"
  shows "rows_known hash (map fst (sync_rows_by_key rows key)) (sync_rows_hashes hash rows key) f"
proof -
  have "k \<in> set (map fst (sync_rows_by_key rows key)) \<longleftrightarrow> f k \<noteq> None" for k
  proof -
    have "k \<in> set (map fst (sync_rows_by_key rows key)) \<longleftrightarrow> row_at key rows k \<noteq> None"
      unfolding by_key_is[OF assms(1)] by (simp add: row_at_None comp_def)
    then show ?thesis using assms(2)[of k] by (metis option.map_disc_iff)
  qed
  then show ?thesis by (simp add: rows_known_def map_of_hashes[OF assms(1)] assms(2))
qed

lemma map_of_filter_key: "map_of (filter (\<lambda>(k, _). P k) m) k = (if P k then map_of m k else None)"
  by (induction m) auto

text \<open>Applied to rows that the subscription knows, the difference leads to the rows of the handler.\<close>

lemma difference_rows:
  assumes rows: "rows_ok key rows" and known: "rows_known hash keys hashes (row_at key old)"
    and diff: "progressive_sync_diff (sync_rows_by_key rows key) (sync_rows_hashes hash rows key) keys hashes changes = (ups, del, mutations)"
  shows "rows_ok key (sorted_sync_rows ups)"
    and "map_option (\<lambda>r. hash (canonical_sync_json r)) (after_delta old key (sorted_sync_rows ups) (sorted_sync_keys del) k) =
      map_option (\<lambda>r. hash (canonical_sync_json r)) (row_at key rows k)"
    and "(\<And>k a b. row_at key old k = Some a \<Longrightarrow> row_at key rows k = Some b \<Longrightarrow> hash (canonical_sync_json a) = hash (canonical_sync_json b) \<Longrightarrow>
          canonical_sync_json a = canonical_sync_json b) \<Longrightarrow>
      map_option canonical_sync_json (after_delta old key (sorted_sync_rows ups) (sorted_sync_keys del) k) =
      map_option canonical_sync_json (row_at key rows k)"
    and "ups = [] \<Longrightarrow> del = [] \<Longrightarrow> after_delta old key (sorted_sync_rows ups) (sorted_sync_keys del) = row_at key old"
proof -
  have ups: "map_of ups k = (if k \<notin> set keys \<or> hash_at hashes k \<noteq> hash_at (sync_rows_hashes hash rows key) k then row_at key rows k else None)" for k
    using diff map_of_filter_key[of _ "sync_rows_by_key rows key" k] by (auto simp: progressive_sync_diff_def map_of_by_key[OF rows])
  have del: "k \<in> set del \<longleftrightarrow> k \<in> set keys \<and> row_at key rows k = None" for k
    using diff by (auto simp: progressive_sync_diff_def map_of_by_key[OF rows])
  have key: "sync_row_key v key = k \<and> k \<noteq> ''''" if "map_of ups k = Some v" for k v
    using that row_at_Some[of key rows k v] rows_okD[OF rows] by (auto simp: ups split: if_splits)
  show "rows_ok key (sorted_sync_rows ups)" using sorted_rows(1)[of ups key] key by blast
  have sent: "row_at key (sorted_sync_rows ups) k = map_of ups k" for k using sorted_rows(2)[of ups key k] key by blast
  have known': "k \<in> set keys \<longleftrightarrow> row_at key old k \<noteq> None"
      "map_of hashes k = map_option (\<lambda>r. hash (canonical_sync_json r)) (row_at key old k)" for k
    using known by (auto simp: rows_known_def)
  have after: "after_delta old key (sorted_sync_rows ups) (sorted_sync_keys del) k =
      (case row_at key rows k of None \<Rightarrow> None | Some b \<Rightarrow> (case row_at key old k of None \<Rightarrow> Some b
        | Some a \<Rightarrow> if hash (canonical_sync_json a) = hash (canonical_sync_json b) then Some a else Some b))" for k
    by (auto simp: after_delta_def sent ups del known' hash_at_def map_of_hashes[OF rows] split: option.splits)
  show "map_option (\<lambda>r. hash (canonical_sync_json r)) (after_delta old key (sorted_sync_rows ups) (sorted_sync_keys del) k) =
      map_option (\<lambda>r. hash (canonical_sync_json r)) (row_at key rows k)"
    unfolding after by (auto split: option.splits)
  show "map_option canonical_sync_json (after_delta old key (sorted_sync_rows ups) (sorted_sync_keys del) k) =
      map_option canonical_sync_json (row_at key rows k)"
    if "\<And>k a b. row_at key old k = Some a \<Longrightarrow> row_at key rows k = Some b \<Longrightarrow> hash (canonical_sync_json a) = hash (canonical_sync_json b) \<Longrightarrow>
          canonical_sync_json a = canonical_sync_json b"
    unfolding after using that[of k] by (auto split: option.splits)
  show "ups = [] \<Longrightarrow> del = [] \<Longrightarrow> after_delta old key (sorted_sync_rows ups) (sorted_sync_keys del) = row_at key old"
    by (rule ext) (simp add: after_delta_def sorted_sync_rows_def)
qed

lemma verified_with_fields [simp]:
  "sb_cursor (verified_with hash d latest r sub) = latest" "sb_verified (verified_with hash d latest r sub) = True"
  "sb_closed (verified_with hash d latest r sub) = sb_closed sub"
  "sb_keys (verified_with hash d latest r sub) = map fst (sync_rows_by_key (fst r) (sd_key d))"
  "sb_hashes (verified_with hash d latest r sub) = sync_rows_hashes hash (fst r) (sd_key d)"
  by (simp_all add: verified_with_def)

definition same_rows :: "sync_definition \<Rightarrow> json list \<Rightarrow> json list \<Rightarrow> bool" where
  "same_rows d rows rows' \<longleftrightarrow> (\<forall>k. map_option canonical_sync_json (row_at (sd_key d) rows k) = map_option canonical_sync_json (row_at (sd_key d) rows' k))"

lemma same_rows_fits:
  "rows_ok (sd_key d) rows \<Longrightarrow> rows_ok (sd_key d) rows' \<Longrightarrow> same_rows d rows rows' \<Longrightarrow> fits bytes d rows \<longleftrightarrow> fits bytes d rows'"
  by (rule fits_image) (simp_all add: same_rows_def rows_image_def)

lemma cursor_ok_limit: "cursor_ok limit cl \<Longrightarrow> fst limit' = fst limit \<Longrightarrow> snd limit \<le> snd limit' \<Longrightarrow> cursor_ok limit' cl"
  by (auto simp: cursor_ok_def split: option.splits)

lemma authoritative_delta_agrees:
  fixes changes :: "sync_change list"
  assumes good: "good_parameters hash digest bytes order d" and step: "in_step hash bytes d sub cl" and cursor: "cursor_ok (sb_cursor sub) cl"
    and latest: "fst latest = fst (sb_cursor sub)" "snd (sb_cursor sub) \<le> snd latest"
    and result: "rows_ok (sd_key d) (fst r)" "fits bytes d (fst r)" and free: "no_collision hash digest (sd_key d) (cl_rows cl) (fst r)"
    and cl'_def: "cl' = client_steps hash digest bytes order d (authoritative_delta hash digest d changes latest (fst r) sub) cl"
  shows "in_step hash bytes d (verified_with hash d latest r sub) cl' \<and> cursor_ok latest cl' \<and> same_rows d (cl_rows cl') (fst r)"
proof -
  let ?hashes = "sync_rows_hashes hash (fst r) (sd_key d)" and ?sub = "verified_with hash d latest r sub"
  obtain ups del mutations where diff:
    "progressive_sync_diff (sync_rows_by_key (fst r) (sd_key d)) ?hashes (sb_keys sub) (sb_hashes sub) changes = (ups, del, mutations)"
    by (metis prod_cases3)
  have rows: "rows_ok (sd_key d) (cl_rows cl)" and known: "rows_known hash (sb_keys sub) (sb_hashes sub) (row_at (sd_key d) (cl_rows cl))"
    using step by (simp_all add: in_step_def)
  note parts = difference_rows[OF result(1) known diff]
  let ?after = "after_delta (cl_rows cl) (sd_key d) (sorted_sync_rows ups) (sorted_sync_keys del)"
  have canon: "map_option canonical_sync_json (?after k) = map_option canonical_sync_json (row_at (sd_key d) (fst r) k)" for k
    by (rule parts(3)) (use free in \<open>simp add: no_collision_def\<close>)
  have known': "rows_known hash (sb_keys ?sub) (sb_hashes ?sub) ?after"
    using rows_known_result[OF result(1), of hash ?after] parts(2) by simp
  have fits: "fits bytes d rs" if "rows_ok (sd_key d) rs" "\<And>k. row_at (sd_key d) rs k = ?after k" for rs
    using same_rows_fits[OF that(1) result(1)] canon that(2) result(2) by (simp add: same_rows_def)
  have dg: "sync_hashes_digest digest ?hashes \<noteq> ''''" using good_parametersD(3)[OF good] by (simp add: sync_hashes_digest_def)
  show ?thesis
  proof (cases "ups \<noteq> [] \<or> del \<noteq> [] \<or> mutations \<noteq> []")
    case True
    then have "cl' = client_step hash digest bytes order d
        (Sync_Delta latest (sorted_sync_rows ups) (sorted_sync_keys del) (sorted_sync_keys mutations) (sync_hashes_digest digest ?hashes)) cl"
      by (simp only: cl'_def authoritative_delta_def Let_def diff prod.case if_True client_steps_simps)
    note applied = delta_accepted[OF good cursor latest rows parts(1) fits known' dg this[symmetric]]
    show ?thesis using applied canon by (simp add: same_rows_def)
  next
    case False
    then have "cl' = cl" by (simp only: cl'_def authoritative_delta_def Let_def diff prod.case if_False client_steps_simps)
    moreover have "?after = row_at (sd_key d) (cl_rows cl)" using False by (intro parts(4)) auto
    ultimately show ?thesis
      using step known' canon cursor_ok_limit[OF cursor latest] by (simp add: in_step_def same_rows_def)
  qed
qed

lemma compact_known:
  assumes "no_collision hash digest (sd_key d) rows rows'" and "rows_ok (sd_key d) rows" and "rows_ok (sd_key d) rows'"
    and "client_digest hash digest d rows = sync_hashes_digest digest (sync_rows_hashes hash rows' (sd_key d))"
  shows "rows_known hash (map fst (sync_rows_by_key rows' (sd_key d))) (sync_rows_hashes hash rows' (sd_key d)) (row_at (sd_key d) rows) \<and> same_rows d rows rows'"
proof -
  have "client_digest hash digest d rows = sync_hashes_digest digest (sync_rows_hashes hash rows (sd_key d))"
    using assms(2) by (intro client_digest_is) (simp_all add: map_of_hashes)
  then have "canon (rev (sync_rows_hashes hash rows (sd_key d))) = canon (rev (sync_rows_hashes hash rows' (sd_key d)))"
    using assms(1,4) by (simp add: no_collision_def)
  then have "map_of (sync_rows_hashes hash rows (sd_key d)) k = map_of (sync_rows_hashes hash rows' (sd_key d)) k" for k
    using map_of_canon[of "rev (sync_rows_hashes hash rows (sd_key d))" k] map_of_canon[of "rev (sync_rows_hashes hash rows' (sd_key d))" k] by simp
  then have eq: "map_option (\<lambda>r. hash (canonical_sync_json r)) (row_at (sd_key d) rows k) = map_option (\<lambda>r. hash (canonical_sync_json r)) (row_at (sd_key d) rows' k)" for k
    unfolding map_of_hashes[OF assms(2)] map_of_hashes[OF assms(3)] .
  have "map_option canonical_sync_json (row_at (sd_key d) rows k) = map_option canonical_sync_json (row_at (sd_key d) rows' k)" for k
    using eq[of k] assms(1) unfolding no_collision_def by (cases "row_at (sd_key d) rows k"; cases "row_at (sd_key d) rows' k") auto
  with rows_known_result[OF assms(3) eq] show ?thesis by (simp add: same_rows_def)
qed

text \<open>The rows of a handler's result, when it is admitted and in form.\<close>

definition result_rows :: "(json \<Rightarrow> int) \<Rightarrow> sync_definition \<Rightarrow> json option \<Rightarrow> json list" where
  "result_rows bytes d result = (case result of None \<Rightarrow> [] | Some v \<Rightarrow>
     (case sync_snapshot_rows bytes v d of Ok r \<Rightarrow> fst r | _ \<Rightarrow> []))"

definition same_result :: "(json \<Rightarrow> int) \<Rightarrow> sync_definition \<Rightarrow> json option \<Rightarrow> json list \<Rightarrow> bool" where
  "same_result bytes d result rows \<longleftrightarrow> (\<exists>v r. result = Some v \<and> sync_snapshot_rows bytes v d = Ok r \<and> same_rows d rows (fst r))"

lemma authoritative_agrees:
  assumes good: "good_parameters hash digest bytes order d" and agrees: "agrees hash digest bytes d sub cl"
    and latest: "fst latest = fst (sb_cursor sub)" "snd (sb_cursor sub) \<le> snd latest"
    and free: "no_collision hash digest (sd_key d) (cl_rows cl) (result_rows bytes d result)"
    and run: "deliver_authoritative hash digest bytes d changes latest result sub = Delivered (settled, sub', ms)"
  defines "cl' \<equiv> client_steps hash digest bytes order d ms cl"
  shows "settled \<Longrightarrow> in_step hash bytes d sub' cl' \<and> cursor_ok latest cl' \<and> sb_cursor sub' = latest \<and> sb_verified sub' \<and>
      sb_closed sub' = sb_closed sub \<and> same_result bytes d result (cl_rows cl')"
    and "\<not> settled \<Longrightarrow> sb_closed sub' \<and> cl_rows cl' = cl_rows cl \<and> cl_force_full cl'"
proof -
  obtain v r where v: "result = Some v" "sync_snapshot_rows bytes v d = Ok r"
    using run by (auto simp: deliver_authoritative_def split: option.splits outcome.splits)
  then have rr: "result_rows bytes d result = fst r" by (simp add: result_rows_def)
  have r: "rows_ok (sd_key d) (fst r)" "fits bytes d (fst r)" using snapshot_rows_ok[of bytes v d "fst r" "snd r"] v by simp_all
  have rows: "rows_ok (sd_key d) (cl_rows cl)" "fits bytes d (cl_rows cl)" "cursor_ok (sb_cursor sub) cl" using agrees by (simp_all add: agrees_def)
  have all: "(settled \<longrightarrow> in_step hash bytes d sub' cl' \<and> cursor_ok latest cl' \<and> sb_cursor sub' = latest \<and> sb_verified sub' \<and>
      sb_closed sub' = sb_closed sub \<and> same_rows d (cl_rows cl') (fst r)) \<and> (\<not> settled \<longrightarrow> sb_closed sub' \<and> cl_rows cl' = cl_rows cl \<and> cl_force_full cl')"
  proof (cases "compact_resume sub")
    case True
    then have dg: "sb_client_digest sub = client_digest hash digest d (cl_rows cl)" using agrees by (simp add: agrees_def)
    show ?thesis
    proof (cases "sb_client_digest sub = sync_hashes_digest digest (sync_rows_hashes hash (fst r) (sd_key d))")
      case same: True
      then have run': "settled" "sub' = verified_with hash d latest r sub" "cl' = cl"
        using run True v by (simp_all add: deliver_authoritative_def cl'_def)
      have "rows_known hash (sb_keys sub') (sb_hashes sub') (row_at (sd_key d) (cl_rows cl)) \<and> same_rows d (cl_rows cl) (fst r)"
        using compact_known[OF free[unfolded rr] rows(1) r(1)] dg same by (simp add: run')
      then show ?thesis using rows cursor_ok_limit[OF rows(3) latest] by (simp add: run' in_step_def)
    next
      case differ: False
      then have "\<not> settled" "sb_closed sub'" "ms = [Sync_Need_Hashes]"
        using run True v by (auto simp: deliver_authoritative_def close_subscription_def)
      then show ?thesis by (simp add: cl'_def)
    qed
  next
    case False
    then have run': "settled" "sub' = verified_with hash d latest r sub" "ms = authoritative_delta hash digest d changes latest (fst r) sub"
      using run v by (simp_all add: deliver_authoritative_def)
    show ?thesis
      using authoritative_delta_agrees[OF good agrees_in_step[OF agrees False] rows(3) latest r free[unfolded rr] refl, of changes]
      by (simp add: run' cl'_def)
  qed
  show "settled \<Longrightarrow> in_step hash bytes d sub' cl' \<and> cursor_ok latest cl' \<and> sb_cursor sub' = latest \<and> sb_verified sub' \<and>
      sb_closed sub' = sb_closed sub \<and> same_result bytes d result (cl_rows cl')"
    and "\<not> settled \<Longrightarrow> sb_closed sub' \<and> cl_rows cl' = cl_rows cl \<and> cl_force_full cl'"
    using all v unfolding same_result_def by blast+
qed

section \<open>A delivery\<close>

lemma ready_messages_ok:
  fixes connected :: bool
  assumes "good_parameters hash digest bytes order d" and "in_step hash bytes d sub cl" and "cursor_ok limit cl"
    and "fst c = fst limit" and "snd limit \<le> snd c"
    and cl'_def: "cl' = client_steps hash digest bytes order d (ready_messages digest connected c sub) cl"
  shows "in_step hash bytes d sub cl' \<and> cursor_ok c cl' \<and> (connected \<longrightarrow> cl_up_to_date cl') \<and> cl_rows cl' = cl_rows cl"
proof (cases connected)
  case True
  then have "cl' = client_step hash digest bytes order d (sync_ready digest c sub) cl" by (simp add: cl'_def ready_messages_def)
  then show ?thesis using ready_accepted[OF assms(1-5)] by simp
next
  case False
  then have "cl' = cl" by (simp add: cl'_def ready_messages_def)
  then show ?thesis using False assms(2) cursor_ok_limit[OF assms(3-5)] by simp
qed

text \<open>The rows after the changes of the log, or after the handler ran.\<close>

definition delivered :: "(json \<Rightarrow> string) \<Rightarrow> (json \<Rightarrow> int) \<Rightarrow> sync_definition \<Rightarrow> bool \<Rightarrow> sync_subscription \<Rightarrow> sync_client \<Rightarrow> sync_client \<Rightarrow> bool" where
  "delivered hash bytes d connected sub' cl cl' \<longleftrightarrow>
     (if sb_closed sub' then (cl_cursor cl' = None \<and> cl_rows cl' = []) \<or> (cl_force_full cl' \<and> cl_rows cl' = cl_rows cl)
      else sb_verified sub' \<and> in_step hash bytes d sub' cl' \<and> cursor_ok (sb_cursor sub') cl' \<and> (connected \<longrightarrow> cl_up_to_date cl'))"

lemma syncing_agrees: "agrees hash digest bytes d sub cl \<Longrightarrow>
    agrees hash digest bytes d sub (client_step hash digest bytes order d (Sync_Syncing reason) cl)"
  by (auto simp: agrees_def cursor_ok_def split: option.splits)

lemma then_ready_authoritative:
  assumes good: "good_parameters hash digest bytes order d" and agrees: "agrees hash digest bytes d sub cl" and open_sub: "\<not> sb_closed sub"
    and latest: "fst latest = fst (sb_cursor sub)" "snd (sb_cursor sub) \<le> snd latest"
    and free: "no_collision hash digest (sd_key d) (cl_rows cl) (result_rows bytes d result)"
    and before: "before = [] \<or> before = [Sync_Syncing reason]"
    and run: "then_ready digest connected latest before (deliver_authoritative hash digest bytes d changes latest result sub) = Delivered (sub', ms)"
  defines "cl' \<equiv> client_steps hash digest bytes order d ms cl"
  shows "delivered hash bytes d connected sub' cl cl'"
    and "\<not> sb_closed sub' \<Longrightarrow> sb_cursor sub' = latest \<and> same_result bytes d result (cl_rows cl')"
proof -
  define cl0 where "cl0 = client_steps hash digest bytes order d before cl"
  have cl0: "agrees hash digest bytes d sub cl0" "cl_rows cl0 = cl_rows cl"
    using before agrees syncing_agrees by (auto simp: cl0_def)
  obtain settled ms' where a: "deliver_authoritative hash digest bytes d changes latest result sub = Delivered (settled, sub', ms')"
    and ms: "ms = before @ ms' @ (if settled then ready_messages digest connected latest sub' else [])"
    using run by (auto simp: then_ready_def split: delivery.splits)
  define cl1 where "cl1 = client_steps hash digest bytes order d ms' cl0"
  have cl': "cl' = (if settled then client_steps hash digest bytes order d (ready_messages digest connected latest sub') cl1 else cl1)"
    by (simp add: cl'_def ms cl0_def cl1_def)
  note parts = authoritative_agrees[OF good cl0(1) latest free[folded cl0(2)] a, folded cl1_def]
  have "delivered hash bytes d connected sub' cl cl' \<and>
      (\<not> sb_closed sub' \<longrightarrow> sb_cursor sub' = latest \<and> same_result bytes d result (cl_rows cl'))"
  proof (cases settled)
    case True
    then have p: "in_step hash bytes d sub' cl1" "cursor_ok latest cl1" "sb_cursor sub' = latest" "sb_verified sub'" "\<not> sb_closed sub'"
        "same_result bytes d result (cl_rows cl1)" using parts(1) open_sub by auto
    show ?thesis using ready_messages_ok[OF good p(1,2) refl order_refl refl, of connected] p True by (simp add: cl' delivered_def)
  next
    case False
    then show ?thesis using parts(2) cl0(2) by (simp add: cl' delivered_def)
  qed
  then show "delivered hash bytes d connected sub' cl cl'"
    and "\<not> sb_closed sub' \<Longrightarrow> sb_cursor sub' = latest \<and> same_result bytes d result (cl_rows cl')" by blast+
qed

definition log_part :: "sync_definition \<Rightarrow> (string \<times> json) list \<Rightarrow> nat \<Rightarrow> nat \<Rightarrow> sync_change list \<Rightarrow> bool" where
  "log_part d args after through cs \<longleftrightarrow> sorted (map sy_revision cs) \<and>
     (\<forall>c\<in>set cs. after < sy_revision c \<and> sy_revision c \<le> through \<and> (sy_table c = sd_table d \<longrightarrow> keyed_change d args c))"

lemma log_part_relevant: "log_part d args after through cs \<Longrightarrow> log_part d args after through (relevant_sync_changes d cs)"
  by (auto simp: log_part_def relevant_sync_changes_def sorted_filter)

lemma changes_delivered:
  assumes good: "good_parameters hash digest bytes order d" and agrees: "agrees hash digest bytes d sub cl" and open_sub: "\<not> sb_closed sub"
    and latest: "fst latest = fst (sb_cursor sub)" "snd (sb_cursor sub) \<le> snd latest"
    and log: "log_part d args (snd (sb_cursor sub)) (snd latest) cs"
    and free: "no_collision hash digest (sd_key d) (cl_rows cl) (result_rows bytes d result)"
    and run: "deliver_changes hash digest bytes d args connected latest cs result sub = Delivered (sub', ms)"
  defines "cl' \<equiv> client_steps hash digest bytes order d ms cl"
  shows "delivered hash bytes d connected sub' cl cl'"
    and "\<not> sb_closed sub' \<Longrightarrow> sb_cursor sub' = latest \<and> (same_result bytes d result (cl_rows cl') \<or>
      sb_verified sub \<and> (\<forall>c\<in>set cs. sy_table c = sd_table d) \<and> (\<forall>k. row_at (sd_key d) (cl_rows cl') k = replay_visible d args k cs (row_at (sd_key d) (cl_rows cl) k)))"
proof -
  have verified: "in_step hash bytes d sub cl" if "sb_verified sub"
    using agrees_in_step[OF agrees] that by (simp add: compact_resume_def)
  have cursor: "cursor_ok (sb_cursor sub) cl" using agrees by (simp add: agrees_def)
  have "delivered hash bytes d connected sub' cl cl' \<and>
    (\<not> sb_closed sub' \<longrightarrow> sb_cursor sub' = latest \<and> (same_result bytes d result (cl_rows cl') \<or>
      sb_verified sub \<and> (\<forall>c\<in>set cs. sy_table c = sd_table d) \<and> (\<forall>k. row_at (sd_key d) (cl_rows cl') k = replay_visible d args k cs (row_at (sd_key d) (cl_rows cl) k))))"
  proof (cases "\<not> sb_verified sub \<or> (cs \<noteq> [] \<and> sync_needs_reconcile d cs)")
    case True
    then have tr: "then_ready digest connected latest (if sb_verified sub then [Sync_Syncing ''reconciling''] else [])
        (deliver_authoritative hash digest bytes d cs latest result sub) = Delivered (sub', ms)"
      using run by (auto simp: deliver_changes_def)
    have before: "(if sb_verified sub then [Sync_Syncing ''reconciling''] else []) = [] \<or>
        (if sb_verified sub then [Sync_Syncing ''reconciling''] else []) = [Sync_Syncing ''reconciling'']" by simp
    note p = then_ready_authoritative[OF good agrees open_sub latest free before tr, folded cl'_def]
    show ?thesis using p(1) p(2) by blast
  next
    case False
    then have v: "sb_verified sub" by simp
    show ?thesis
    proof (cases "cs = []")
      case True
      let ?sub = "sub\<lparr>sb_cursor := latest\<rparr>"
      have s: "sub' = ?sub" "ms = ready_messages digest connected latest ?sub" using run True v by (auto simp: deliver_changes_def Let_def)
      have "in_step hash bytes d ?sub cl" using verified[OF v] by (simp add: in_step_def)
      from ready_messages_ok[OF good this cursor latest refl, of connected] show ?thesis
        using v open_sub True by (simp add: s cl'_def delivered_def)
    next
      case cs: False
      then have quiet: "\<not> sync_needs_reconcile d cs" using False by simp
      obtain after ms' where b: "deliver_batches hash digest d args (fst latest) (group_sync_changes cs) sub = (after, ms')" by fastforce
      let ?c = "(fst (sb_cursor after), max (snd (sb_cursor after)) (snd latest))"
      have s: "sub' = after\<lparr>sb_cursor := ?c\<rparr>" "ms = ms' @ ready_messages digest connected ?c after"
        using run cs v quiet by (auto simp: deliver_changes_def b Let_def)
      have bounds: "sd_max_rows d = 0" "sd_max_bytes d = 0" and table: "\<forall>c\<in>set cs. sy_table c = sd_table d"
        using quiet good_parametersD(7,8)[OF good] by (auto simp: sync_needs_reconcile_def sync_visibility_changed_def list_ex_iff)
      have keyed: "\<forall>c\<in>set (concat (map snd (group_sync_changes cs))). keyed_change d args c"
        using log table by (simp add: group_concat log_part_def)
      have revs: "\<forall>r\<in>set (map fst (group_sync_changes cs)). snd (sb_cursor sub) \<le> r \<and> r \<le> snd latest"
        unfolding group_revisions using log by (auto simp: log_part_def)
      then have "sorted (snd (sb_cursor sub) # map fst (group_sync_changes cs))"
        using group_sorted[of cs] log by (auto simp: log_part_def)
      note steps = batches_in_step[OF good bounds verified[OF v] cursor latest(1)[symmetric] this keyed b]
      have "last (snd (sb_cursor sub) # map fst (group_sync_changes cs)) \<le> snd latest"
        using revs latest(2) last_in_set[of "map fst (group_sync_changes cs)"] by (cases "group_sync_changes cs = []") auto
      then have c: "?c = latest" "fst latest = fst (sb_cursor after)" "snd (sb_cursor after) \<le> snd latest"
        using steps by (auto simp: prod_eq_iff)
      define cl1 where "cl1 = client_steps hash digest bytes order d ms' cl"
      have p: "in_step hash bytes d after cl1" "cursor_ok (sb_cursor after) cl1" "sb_verified after" "\<not> sb_closed after"
          "\<And>k. row_at (sd_key d) (cl_rows cl1) k = replay_visible d args k cs (row_at (sd_key d) (cl_rows cl) k)"
        using steps v open_sub by (simp_all add: cl1_def group_concat)
      have cl': "cl' = client_steps hash digest bytes order d (ready_messages digest connected latest after) cl1"
        by (simp add: cl'_def s(2) c(1) cl1_def)
      have sub': "sub' = after\<lparr>sb_cursor := latest\<rparr>" unfolding s(1) c(1) ..
      from ready_messages_ok[OF good p(1,2) c(2,3) cl'] show ?thesis
        using p(3-5) table v by (auto simp: sub' delivered_def in_step_def)
    qed
  qed
  then show "delivered hash bytes d connected sub' cl cl'"
    and "\<not> sb_closed sub' \<Longrightarrow> sb_cursor sub' = latest \<and> (same_result bytes d result (cl_rows cl') \<or>
      sb_verified sub \<and> (\<forall>c\<in>set cs. sy_table c = sd_table d) \<and> (\<forall>k. row_at (sd_key d) (cl_rows cl') k = replay_visible d args k cs (row_at (sd_key d) (cl_rows cl) k)))"
    by blast+
qed

end
