(* ===== verification/Sync_Run.thy ===== *)
theory Sync_Run
  imports Sync_Session
begin

text \<open>
  The session of one collection: the tenant's database with its change log, the subscription of
  the server, the messages under way and the client. Transactions commit and the log is pruned
  between the reads of a delivery. The invariant of the session and what the client shows.
\<close>

section \<open>A delivery keeps the client and the server in step\<close>

lemma deliver_sync_delivered:
  assumes good: "good_parameters hash digest bytes order d" and agrees: "agrees hash digest bytes d sub cl" and open_sub: "\<not> sb_closed sub"
    and clock: "clock = Some latest \<Longrightarrow> fst latest = fst (sb_cursor sub) \<Longrightarrow> snd (sb_cursor sub) \<le> snd latest"
    and log: "\<And>cs. read (snd (sb_cursor sub)) (snd latest) (sd_table d # sd_visibility_tables d) = Ok cs \<Longrightarrow>
        log_part d args (snd (sb_cursor sub)) (snd latest) cs"
    and free: "no_collision hash digest (sd_key d) (cl_rows cl) (result_rows bytes d result)" and some: "clock = Some latest"
    and run: "deliver_sync hash digest bytes d args connected clock read result sub = Delivered (sub', ms)"
  defines "cl' \<equiv> client_steps hash digest bytes order d ms cl"
  shows "delivered hash bytes d connected sub' cl cl'"
    and "\<not> sb_closed sub' \<Longrightarrow> sb_cursor sub' = latest \<and> (same_result bytes d result (cl_rows cl') \<or>
      (sb_verified sub \<and> snd (sb_cursor sub) = snd latest \<and> cl_rows cl' = cl_rows cl) \<or>
      (\<exists>cs. sb_verified sub \<and> read (snd (sb_cursor sub)) (snd latest) (sd_table d # sd_visibility_tables d) = Ok cs \<and>
        (\<forall>c\<in>set (relevant_sync_changes d cs). sy_table c = sd_table d) \<and>
        (\<forall>k. row_at (sd_key d) (cl_rows cl') k = replay_visible d args k (relevant_sync_changes d cs) (row_at (sd_key d) (cl_rows cl) k))))"
proof -
  let ?tables = "sd_table d # sd_visibility_tables d"
  have "delivered hash bytes d connected sub' cl cl' \<and>
      (\<not> sb_closed sub' \<longrightarrow> sb_cursor sub' = latest \<and> (same_result bytes d result (cl_rows cl') \<or>
      (sb_verified sub \<and> snd (sb_cursor sub) = snd latest \<and> cl_rows cl' = cl_rows cl) \<or>
      (\<exists>cs. sb_verified sub \<and> read (snd (sb_cursor sub)) (snd latest) ?tables = Ok cs \<and> (\<forall>c\<in>set (relevant_sync_changes d cs). sy_table c = sd_table d) \<and>
        (\<forall>k. row_at (sd_key d) (cl_rows cl') k = replay_visible d args k (relevant_sync_changes d cs) (row_at (sd_key d) (cl_rows cl) k)))))"
  proof (cases "fst latest = fst (sb_cursor sub)")
    case False
    then have "sb_closed sub'" "ms = [Sync_Reset ''definition-changed'']"
      using run some open_sub by (auto simp: deliver_sync_def close_subscription_def)
    then show ?thesis by (simp add: delivered_def cl'_def reset_client_def)
  next
    case epoch: True
    note latest = epoch clock[OF some epoch]
    show ?thesis
    proof (cases "snd latest \<le> snd (sb_cursor sub)")
      case True
      then have same: "snd (sb_cursor sub) = snd latest" "sb_cursor sub = latest" using latest by (auto simp: prod_eq_iff)
      show ?thesis
      proof (cases "sb_verified sub")
        case v: True
        then have s: "sub' = sub" "ms = ready_messages digest connected latest sub"
          using run some open_sub epoch True by (auto simp: deliver_sync_def)
        have "in_step hash bytes d sub cl" "cursor_ok (sb_cursor sub) cl"
          using agrees_in_step[OF agrees] v agrees by (simp_all add: compact_resume_def agrees_def)
        from ready_messages_ok[OF good this latest refl, of connected] show ?thesis
          using v open_sub same by (simp add: s cl'_def delivered_def)
      next
        case False
        then have tr: "then_ready digest connected latest [] (deliver_authoritative hash digest bytes d [] latest result sub) = Delivered (sub', ms)"
          using run some open_sub epoch True by (simp add: deliver_sync_def)
        note p = then_ready_authoritative[OF good agrees open_sub latest free _ tr, folded cl'_def]
        show ?thesis using p by simp
      qed
    next
      case later: False
      show ?thesis
      proof (cases "read (snd (sb_cursor sub)) (snd latest) ?tables")
        case (Ok cs)
        then have ch: "deliver_changes hash digest bytes d args connected latest (relevant_sync_changes d cs) result sub = Delivered (sub', ms)"
          using run some open_sub epoch later by (simp add: deliver_sync_def)
        note p = changes_delivered[OF good agrees open_sub latest log_part_relevant[OF log[OF Ok]] free ch, folded cl'_def]
        show ?thesis using p Ok by blast
      next
        case (Err e)
        then have "sb_closed sub'" "ms = [Sync_Reset ''cursor-expired'']"
          using run some open_sub epoch later by (auto simp: deliver_sync_def close_subscription_def split: read_error.splits)
        then show ?thesis by (simp add: delivered_def cl'_def reset_client_def)
      next
        case Panic
        then show ?thesis using run some open_sub epoch later by (simp add: deliver_sync_def)
      qed
    qed
  qed
  then show "delivered hash bytes d connected sub' cl cl'"
    and "\<not> sb_closed sub' \<Longrightarrow> sb_cursor sub' = latest \<and> (same_result bytes d result (cl_rows cl') \<or>
      (sb_verified sub \<and> snd (sb_cursor sub) = snd latest \<and> cl_rows cl' = cl_rows cl) \<or>
      (\<exists>cs. sb_verified sub \<and> read (snd (sb_cursor sub)) (snd latest) (sd_table d # sd_visibility_tables d) = Ok cs \<and>
        (\<forall>c\<in>set (relevant_sync_changes d cs). sy_table c = sd_table d) \<and>
        (\<forall>k. row_at (sd_key d) (cl_rows cl') k = replay_visible d args k (relevant_sync_changes d cs) (row_at (sd_key d) (cl_rows cl) k))))"
    by blast+
qed

lemma deliver_sync_failed:
  assumes "deliver_sync hash digest bytes d args connected clock read result sub = Failed_Delivery ms"
  shows "set ms \<subseteq> {Sync_Syncing ''reconciling''}"
proof -
  have auth: "deliver_authoritative hash digest bytes d cs latest result sub = Failed_Delivery ms' \<Longrightarrow> ms' = []" for cs latest ms'
    by (auto simp: deliver_authoritative_def split: option.splits outcome.splits if_splits)
  have ready: "then_ready digest connected latest before (deliver_authoritative hash digest bytes d cs latest result sub) = Failed_Delivery ms' \<Longrightarrow> ms' = before"
    for cs latest ms' before by (auto simp: then_ready_def dest!: auth split: delivery.splits)
  show ?thesis
    using assms by (auto simp: deliver_sync_def deliver_changes_def Let_def dest!: ready split: if_splits option.splits outcome.splits read_error.splits prod.splits)
qed

section \<open>Every message leaves the client in order\<close>

definition client_ok :: "(json \<Rightarrow> int) \<Rightarrow> sync_definition \<Rightarrow> string \<Rightarrow> nat \<Rightarrow> sync_client \<Rightarrow> bool" where
  "client_ok bytes d e revision cl \<longleftrightarrow> rows_ok (sd_key d) (cl_rows cl) \<and> fits bytes d (cl_rows cl) \<and> e \<notin> set (cl_retired cl) \<and>
     (case cl_floor cl of None \<Rightarrow> True | Some f \<Rightarrow> fst f = e \<longrightarrow> snd f \<le> revision) \<and>
     (case cl_cursor cl of None \<Rightarrow> \<not> cl_up_to_date cl | Some c \<Rightarrow> (fst c = e \<longrightarrow> snd c \<le> revision) \<and> fst c \<notin> set (cl_retired cl) \<and>
        (cl_up_to_date cl \<longrightarrow> fst c = e) \<and> (case cl_floor cl of None \<Rightarrow> False | Some f \<Rightarrow> fst f = fst c \<and> snd f \<le> snd c))"

definition message_rows_ok :: "sync_definition \<Rightarrow> json list \<Rightarrow> bool" where
  "message_rows_ok d rows \<longleftrightarrow> list_all (\<lambda>row. sync_row_key row (sd_key d) \<noteq> '''') rows"

fun message_ok :: "sync_definition \<Rightarrow> string \<Rightarrow> nat \<Rightarrow> sync_message \<Rightarrow> bool" where
  "message_ok d e revision (Sync_Snapshot c rows truncated) \<longleftrightarrow> fst c = e \<and> snd c \<le> revision \<and> message_rows_ok d rows"
| "message_ok d e revision (Sync_Delta c upserts deleted mutations dg) \<longleftrightarrow> fst c = e \<and> snd c \<le> revision \<and> message_rows_ok d upserts"
| "message_ok d e revision (Sync_Ready c dg truncated) \<longleftrightarrow> fst c = e \<and> snd c \<le> revision"
| "message_ok d e revision (Sync_Watermark r) \<longleftrightarrow> r \<le> revision"
| "message_ok d e revision m \<longleftrightarrow> True"

lemma message_ok_later: "message_ok d e revision m \<Longrightarrow> revision \<le> revision' \<Longrightarrow> message_ok d e revision' m"
  by (cases m) auto

lemma client_ok_later: "client_ok bytes d e revision cl \<Longrightarrow> revision \<le> revision' \<Longrightarrow> client_ok bytes d e revision' cl"
  by (auto simp: client_ok_def split: option.splits)

lemma bound_rows_ok:
  assumes "message_rows_ok d rows" and "rows_ok (sd_key d) acc" and "fits bytes d acc" and "n = (\<Sum>row\<leftarrow>acc. bytes (canonical_sync_json row))"
  shows "rows_ok (sd_key d) (bound_rows bytes d acc n rows) \<and> fits bytes d (bound_rows bytes d acc n rows)"
  using assms
proof (induction rows arbitrary: acc n)
  case (Cons row rows)
  let ?key = "client_row_key row (sd_key d)" and ?n = "n + bytes (canonical_sync_json row)"
  have rows: "message_rows_ok d rows" and row: "sync_row_key row (sd_key d) \<noteq> ''''"
    using Cons.prems(1) by (simp_all add: message_rows_ok_def)
  have keys: "client_row_key r (sd_key d) = sync_row_key r (sd_key d)" if "r \<in> set acc" for r
    using client_keys[OF Cons.prems(2) that] .
  show ?case
  proof (cases "?key = '''' \<or> ?key \<in> (\<lambda>row. client_row_key row (sd_key d)) ` set acc \<or>
      (sd_max_rows d \<noteq> 0 \<and> sd_max_rows d \<le> int (length acc)) \<or> (sd_max_bytes d \<noteq> 0 \<and> sd_max_bytes d < ?n)")
    case True
    then show ?thesis using Cons.IH[OF rows Cons.prems(2-4)] Cons.prems(2,3) by (auto simp: Let_def)
  next
    case False
    have "rows_ok (sd_key d) (acc @ [row])"
      unfolding rows_ok_append using False Cons.prems(2) row client_key[OF row] keys by (auto simp: image_iff)
    moreover have "fits bytes d (acc @ [row])" using False Cons.prems(3,4) by (auto simp: fits_def)
    ultimately show ?thesis using Cons.IH[OF rows, of "acc @ [row]" ?n] False Cons.prems(4) by (auto simp: Let_def)
  qed
qed simp

lemma bound_sync_rows_ok:
  assumes "message_rows_ok d rows" and "\<And>xs. mset (order xs) = mset xs"
  shows "rows_ok (sd_key d) (bound_sync_rows bytes order d rows)" and "fits bytes d (bound_sync_rows bytes order d rows)"
proof -
  have "set (order rows) = set rows" using assms(2) by (rule mset_eq_setD)
  then have "message_rows_ok d (order rows)" using assms(1) by (simp add: message_rows_ok_def list_all_iff)
  from bound_rows_ok[OF this, of "[]"] show "rows_ok (sd_key d) (bound_sync_rows bytes order d rows)"
    and "fits bytes d (bound_sync_rows bytes order d rows)" by (simp_all add: bound_sync_rows_def)
qed

lemma rows_ok_message: "rows_ok (sd_key d) rows \<Longrightarrow> message_rows_ok d rows"
  using rows_okD by (auto simp: message_rows_ok_def list_all_iff)

lemma apply_sync_delta_ok:
  assumes "message_rows_ok d upserts" and "rows_ok (sd_key d) rows" and "\<And>xs. mset (order xs) = mset xs"
  shows "rows_ok (sd_key d) (apply_sync_delta bytes order d rows upserts deleted)" and "fits bytes d (apply_sync_delta bytes order d rows upserts deleted)"
  using assms(1) rows_ok_message[OF assms(2)] unfolding apply_sync_delta_def Let_def
  by (auto simp: message_rows_ok_def list_all_iff intro!: bound_sync_rows_ok assms(3))

lemma moved_client_ok:
  assumes "client_ok bytes d e revision cl" and "\<not> cursor_is_stale cl c" and "fst c = e" and "snd c \<le> revision"
    and "cl_floor cl' = cl_floor cl" and "cl_retired cl' = cl_retired cl" and "cl_cursor cl' = Some c"
    and "rows_ok (sd_key d) (cl_rows cl')" and "fits bytes d (cl_rows cl')"
  shows "client_ok bytes d e revision (raise_floor c cl')"
  using assms by (auto simp: client_ok_def raise_floor_def cursor_is_stale_def split: option.splits)

lemma client_step_ok:
  assumes good: "good_parameters hash digest bytes order d" and ok: "client_ok bytes d e revision cl" and m: "message_ok d e revision m"
  shows "client_ok bytes d e revision (client_step hash digest bytes order d m cl)"
proof -
  have rows: "rows_ok (sd_key d) (cl_rows cl)" "fits bytes d (cl_rows cl)" using ok by (simp_all add: client_ok_def)
  note perm = good_parametersD(6)[OF good]
  show ?thesis
  proof (cases m)
    case (Sync_Snapshot c rs tr)
    then show ?thesis using ok m bound_sync_rows_ok[of d rs order bytes, OF _ perm]
      by (auto intro!: moved_client_ok[where cl = cl])
  next
    case (Sync_Delta c ups del mu dg)
    then show ?thesis using ok m apply_sync_delta_ok[of d ups "cl_rows cl" order bytes del, OF _ rows(1) perm]
      by (auto intro!: moved_client_ok[where cl = cl])
  next
    case (Sync_Ready c dg tr)
    have "client_ok bytes d e revision (reset_client cl)" using ok by (auto simp: client_ok_def reset_client_def split: option.splits)
    then show ?thesis using Sync_Ready ok m rows by (auto split: option.splits intro!: moved_client_ok[where cl = cl])
  next
    case (Sync_Watermark r)
    show ?thesis
    proof (cases "client_watermark r cl = cl")
      case False
      then obtain c where c: "cl_cursor cl = Some c" "snd c < r" "cl_up_to_date cl"
        by (auto simp: client_watermark_def split: option.splits if_splits)
      then have fresh: "\<not> cursor_is_stale cl (fst c, r)" "fst c = e"
        using ok by (auto simp: client_ok_def cursor_is_stale_def split: option.splits)
      have "client_watermark r cl = raise_floor (fst c, r) (cl\<lparr>cl_cursor := Some (fst c, r)\<rparr>)"
        using False c by (auto simp: client_watermark_def split: if_splits)
      then show ?thesis using Sync_Watermark m ok fresh rows by (auto intro!: moved_client_ok[where cl = cl])
    qed (use ok Sync_Watermark in simp)
  qed (use ok in \<open>auto simp: client_ok_def reset_client_def split: option.splits\<close>)
qed

lemma client_steps_ok:
  assumes "good_parameters hash digest bytes order d" and "client_ok bytes d e revision cl" and "list_all (message_ok d e revision) ms"
  shows "client_ok bytes d e revision (client_steps hash digest bytes order d ms cl)"
  using assms(2,3) by (induction ms arbitrary: cl) (simp_all add: client_step_ok[OF assms(1)])

section \<open>Every message is in order\<close>

definition keyed_rows :: "string \<Rightarrow> (string \<times> json) list \<Rightarrow> bool" where
  "keyed_rows key rows \<longleftrightarrow> (\<forall>k v. map_of rows k = Some v \<longrightarrow> sync_row_key v key = k \<and> k \<noteq> '''')"

lemma sent_rows_ok: "keyed_rows (sd_key d) rows \<Longrightarrow> message_rows_ok d (sorted_sync_rows rows)"
  by (intro rows_ok_message sorted_rows(1)) (auto simp: keyed_rows_def)

lemma keyed_changes_rows:
  assumes "\<forall>c\<in>set cs. keyed_change d args c" and "keyed_rows (sd_key d) (ds_upserts st)"
  shows "keyed_rows (sd_key d) (ds_upserts (fold (apply_sync_change hash d args) cs st))"
  using assms
proof (induction cs arbitrary: st)
  case (Cons c cs)
  have "keyed_rows (sd_key d) (ds_upserts (apply_sync_change hash d args c st))"
    using Cons.prems by (auto simp: keyed_rows_def keyed_change_def apply_sync_change_def Let_def map_of_alist_update map_of_alist_delete split: if_splits)
  with Cons show ?case by simp
qed simp

lemma batches_messages_ok:
  assumes "deliver_batches hash digest d args e bs sub = (sub', ms)" and "\<forall>c\<in>set (concat (map snd bs)). keyed_change d args c"
    and "\<forall>r\<in>set (map fst bs). r \<le> revision"
  shows "list_all (message_ok d e revision) ms"
  using assms
proof (induction bs arbitrary: sub ms)
  case (Cons b bs)
  obtain sub1 m where b: "deliver_batch hash digest d args e b sub = (sub1, m)" by fastforce
  with Cons.prems(1) obtain ms' where ms: "deliver_batches hash digest d args e bs sub1 = (sub', ms')" "ms = m # ms'"
    by (auto split: prod.splits)
  have "list_all (message_ok d e revision) ms'" using Cons.prems(2,3) by (intro Cons.IH[OF ms(1)]) simp_all
  moreover have "message_ok d e revision m"
    using b Cons.prems(2,3) by (auto simp: deliver_batch_def Let_def keyed_rows_def intro!: sent_rows_ok keyed_changes_rows)
  ultimately show ?case by (simp add: ms(2))
qed simp

lemma batches_cursor:
  "deliver_batches hash digest d args e bs sub = (sub', ms) \<Longrightarrow> sb_cursor sub' = (if bs = [] then sb_cursor sub else (e, fst (last bs)))"
proof (induction bs arbitrary: sub ms)
  case (Cons b bs)
  obtain sub1 m where b: "deliver_batch hash digest d args e b sub = (sub1, m)" by fastforce
  with Cons.prems obtain ms' where "deliver_batches hash digest d args e bs sub1 = (sub', ms')" by (auto split: prod.splits)
  moreover have "sb_cursor sub1 = (e, fst b)" using b by (auto simp: deliver_batch_def Let_def)
  ultimately show ?case using Cons.IH[of sub1 ms'] by simp
qed simp

lemma authoritative_messages_ok:
  assumes "deliver_authoritative hash digest bytes d changes latest result sub = Delivered (settled, sub', ms)"
    and "fst latest = e" "snd latest \<le> revision"
  shows "list_all (message_ok d e revision) ms"
proof -
  obtain v r where v: "result = Some v" "sync_snapshot_rows bytes v d = Ok r"
    using assms(1) by (auto simp: deliver_authoritative_def split: option.splits outcome.splits)
  have rows: "rows_ok (sd_key d) (fst r)" using snapshot_rows_ok(1)[of bytes v d "fst r" "snd r"] v by simp
  have at: "row_at (sd_key d) (fst r) k = Some v \<Longrightarrow> sync_row_key v (sd_key d) = k \<and> k \<noteq> ''''" for k v
    using row_at_Some[of "sd_key d" "fst r" k v] rows_okD[OF rows, of v] by auto
  have "keyed_rows (sd_key d) (filter (\<lambda>(k, _). P k) (sync_rows_by_key (fst r) (sd_key d)))" for P
    unfolding keyed_rows_def map_of_filter_key map_of_by_key[OF rows]
    using at by (simp split: if_splits)
  then have "list_all (message_ok d e revision) (authoritative_delta hash digest d changes latest (fst r) sub)"
    using assms(2,3) by (simp add: authoritative_delta_def progressive_sync_diff_def Let_def sent_rows_ok)
  then show ?thesis using assms(1) v by (auto simp: deliver_authoritative_def split: if_splits)
qed

lemma ready_messages_in_order: "fst c = e \<Longrightarrow> snd c \<le> revision \<Longrightarrow> list_all (message_ok d e revision) (ready_messages digest connected c sub)"
  by (simp add: ready_messages_def sync_ready_def)

lemma deliver_messages_ok:
  assumes run: "deliver_sync hash digest bytes d args connected (Some latest) read result sub = Delivered (sub', ms)"
    and latest: "snd latest \<le> revision" and log: "\<And>cs. read (snd (sb_cursor sub)) (snd latest) (sd_table d # sd_visibility_tables d) = Ok cs \<Longrightarrow>
        log_part d args (snd (sb_cursor sub)) (snd latest) cs"
    and bounds: "0 \<le> sd_max_rows d" "0 \<le> sd_max_bytes d" and cursor: "snd (sb_cursor sub) \<le> revision"
  shows "list_all (message_ok d (fst (sb_cursor sub)) revision) ms"
proof -
  let ?ok = "list_all (message_ok d (fst (sb_cursor sub)) revision)"
  note ready = ready_messages_in_order[OF _ latest]
  have auth: "?ok ms" if "then_ready digest connected latest before (deliver_authoritative hash digest bytes d cs latest result sub) = Delivered (sub', ms)"
    "?ok before" "fst latest = fst (sb_cursor sub)" for before cs
    using that authoritative_messages_ok[OF _ that(3) latest] ready[of "fst (sb_cursor sub)"]
    by (auto simp: then_ready_def split: delivery.splits)
  have changes: "?ok ms" if run: "deliver_changes hash digest bytes d args connected latest cs result sub = Delivered (sub', ms)"
      and part: "log_part d args (snd (sb_cursor sub)) (snd latest) cs" and epoch: "fst latest = fst (sb_cursor sub)" for cs
  proof (cases "\<not> sb_verified sub \<or> (cs \<noteq> [] \<and> sync_needs_reconcile d cs)")
    case True
    then have "then_ready digest connected latest (if sb_verified sub then [Sync_Syncing ''reconciling''] else [])
        (deliver_authoritative hash digest bytes d cs latest result sub) = Delivered (sub', ms)"
      using run by (auto simp: deliver_changes_def)
    from auth[OF this _ epoch] show ?thesis by simp
  next
    case False
    show ?thesis
    proof (cases "cs = []")
      case True
      then show ?thesis using run False ready[OF epoch] by (auto simp: deliver_changes_def Let_def)
    next
      case cs: False
      obtain after ms' where b: "deliver_batches hash digest d args (fst latest) (group_sync_changes cs) sub = (after, ms')" by fastforce
      have ms: "ms = ms' @ ready_messages digest connected (fst (sb_cursor after), max (snd (sb_cursor after)) (snd latest)) after"
        using run cs False by (auto simp: deliver_changes_def b Let_def)
      have table: "\<forall>c\<in>set cs. sy_table c = sd_table d"
        using False cs by (auto simp: sync_needs_reconcile_def sync_visibility_changed_def list_ex_iff)
      have revs: "\<forall>r\<in>set (map fst (group_sync_changes cs)). r \<le> revision"
        unfolding group_revisions using part latest by (auto simp: log_part_def)
      have ne: "group_sync_changes cs \<noteq> []" using group_concat[of cs] cs by (cases "group_sync_changes cs") auto
      have "sb_cursor after = (fst latest, fst (last (group_sync_changes cs)))"
        using batches_cursor[OF b] ne by simp
      moreover have "fst (last (group_sync_changes cs)) \<le> revision"
        using revs last_in_set[OF ne] by simp
      ultimately have "list_all (message_ok d (fst latest) revision) (ready_messages digest connected (fst (sb_cursor after), max (snd (sb_cursor after)) (snd latest)) after)"
        using latest by (intro ready_messages_in_order) auto
      moreover have "list_all (message_ok d (fst latest) revision) ms'"
        using part table revs by (intro batches_messages_ok[OF b]) (auto simp: group_concat log_part_def)
      ultimately show ?thesis by (simp add: ms epoch)
    qed
  qed
  show ?thesis
  proof (cases "sb_closed sub \<or> fst latest \<noteq> fst (sb_cursor sub)")
    case True
    then show ?thesis using run by (auto simp: deliver_sync_def split: if_splits)
  next
    case False
    then have epoch: "fst latest = fst (sb_cursor sub)" by simp
    show ?thesis
    proof (cases "snd latest \<le> snd (sb_cursor sub)")
      case True
      then show ?thesis using run False ready[OF epoch] auth[OF _ _ epoch, of "[]"] by (auto simp: deliver_sync_def split: if_splits)
    next
      case later: False
      then show ?thesis
        using run False changes[OF _ log_part_relevant[OF log] epoch]
        by (auto simp: deliver_sync_def split: outcome.splits read_error.splits)
    qed
  qed
qed

section \<open>Opening\<close>

definition trimmed_keys :: "sync_definition \<Rightarrow> json list \<Rightarrow> bool" where
  "trimmed_keys d rows \<longleftrightarrow> list_all (\<lambda>row. trim_space (sync_row_key row (sd_key d)) = sync_row_key row (sd_key d)) rows"

lemma client_ok_cursor:
  assumes "client_ok bytes d e revision cl" and "cl_cursor cl = Some c"
  shows "cursor_ok c cl"
  using assms by (auto simp: client_ok_def cursor_ok_def split: option.splits)

lemma pairs_of_rows:
  assumes "rows_ok (sd_key d) rows"
  shows "map (\<lambda>row. (client_row_key row (sd_key d), hash (canonical_sync_json row))) rows = sync_rows_hashes hash rows (sd_key d)"
    and "filter (\<lambda>k. k \<noteq> '''') (map fst (sync_rows_hashes hash rows (sd_key d))) = map (\<lambda>row. sync_row_key row (sd_key d)) rows"
proof -
  show "map (\<lambda>row. (client_row_key row (sd_key d), hash (canonical_sync_json row))) rows = sync_rows_hashes hash rows (sd_key d)"
    using client_keys[OF assms] by (simp add: hashes_is[OF assms])
  show "filter (\<lambda>k. k \<noteq> '''') (map fst (sync_rows_hashes hash rows (sd_key d))) = map (\<lambda>row. sync_row_key row (sd_key d)) rows"
    using rows_okD[OF assms] by (auto simp: hashes_is[OF assms] comp_def filter_id_conv)
qed

text \<open>A resumed subscription knows of the client's rows what the request said of them.\<close>

lemma resumed_agrees:
  assumes good: "good_parameters hash digest bytes order d" and ok: "client_ok bytes d e revision cl" and c: "cl_cursor cl = Some c"
    and trimmed: "trimmed_keys d (cl_rows cl)"
  shows "agrees hash digest bytes d ((opened_subscription (open_request hash digest d cl) base)\<lparr>sb_cursor := c, sb_acquired := True\<rparr>) (cl\<lparr>cl_opening := True\<rparr>)"
proof -
  have rows: "rows_ok (sd_key d) (cl_rows cl)" "fits bytes d (cl_rows cl)" using ok by (simp_all add: client_ok_def)
  let ?full = "cl_force_full cl \<or> length (cl_rows cl) \<le> 16"
  let ?sub = "(opened_subscription (open_request hash digest d cl) base)\<lparr>sb_cursor := c, sb_acquired := True\<rparr>"
  note req = open_request_def Let_def opened_subscription_def pairs_of_rows[OF rows(1)]
  have dg: "trim_space (client_digest hash digest d (cl_rows cl)) = client_digest hash digest d (cl_rows cl)" "client_digest hash digest d (cl_rows cl) \<noteq> ''''"
    using good_parametersD(3,4)[OF good] by (simp_all add: client_digest_def sync_hashes_digest_def)
  have compact: "compact_resume ?sub \<longleftrightarrow> \<not> ?full" using c dg by (simp add: compact_resume_def req)
  have cursor: "cursor_ok c (cl\<lparr>cl_opening := True\<rparr>)" using client_ok_cursor[OF ok c] by (auto simp: cursor_ok_def split: option.splits)
  show ?thesis
  proof (cases ?full)
    case False
    then show ?thesis using rows cursor compact c dg by (simp add: agrees_def) (simp add: req)
  next
    case True
    have keys: "set (sync_key_set (map (\<lambda>row. sync_row_key row (sd_key d)) (cl_rows cl))) = (\<lambda>row. sync_row_key row (sd_key d)) ` set (cl_rows cl)"
      using trimmed rows_okD[OF rows(1)] by (force simp: sync_key_set_def trimmed_keys_def list_all_iff)
    have hashes: "clone_string_map (sync_rows_hashes hash (cl_rows cl) (sd_key d)) = sync_rows_hashes hash (cl_rows cl) (sd_key d)"
      unfolding clone_string_map_def hashes_is[OF rows(1)] filter_id_conv
      using trimmed rows_okD[OF rows(1)] good_parametersD(1,2)[OF good] by (auto simp: trimmed_keys_def list_all_iff)
    have "sb_keys ?sub = sync_key_set (map (\<lambda>row. sync_row_key row (sd_key d)) (cl_rows cl))" "sb_hashes ?sub = sync_rows_hashes hash (cl_rows cl) (sd_key d)"
      using True c hashes by (simp_all add: req)
    then have "rows_known hash (sb_keys ?sub) (sb_hashes ?sub) (row_at (sd_key d) (cl_rows cl))"
      using keys by (simp add: rows_known_def map_of_hashes[OF rows(1)] row_at_None)
    then show ?thesis using rows cursor compact True by (simp add: agrees_def)
  qed
qed

lemma snapshot_agrees:
  assumes good: "good_parameters hash digest bytes order d" and ok: "client_ok bytes d (fst base) revision cl" and "snd base = revision"
    and r: "sync_snapshot_rows bytes v d = Ok (rows, truncated)"
    and sub: "sub = (opened_subscription open base)\<lparr>sb_keys := map fst (sync_rows_by_key rows (sd_key d)),
            sb_hashes := sync_rows_hashes hash rows (sd_key d), sb_truncated := truncated, sb_verified := True, sb_acquired := True\<rparr>"
  defines "cl' \<equiv> client_step hash digest bytes order d (Sync_Snapshot base rows truncated) (cl\<lparr>cl_opening := True\<rparr>)"
  shows "agrees hash digest bytes d sub cl'" and "row_at (sd_key d) (cl_rows cl') k = row_at (sd_key d) rows k"
proof -
  note rows = snapshot_rows_ok[OF r]
  note perm = good_parametersD(6)[OF good]
  note ordered = row_at_mset[OF rows(1) perm]
  have fits: "fits bytes d (order rows)" using fits_mset[OF perm] rows(2) by simp
  have bound: "bound_sync_rows bytes order d rows = order rows"
    unfolding bound_sync_rows_def using bound_rows_all[of d "[]" "order rows" bytes 0] ordered(1) fits good_parametersD(5,7,8)[OF good] by simp
  have fresh: "\<not> cursor_is_stale cl base" and later: "\<not> (case cl_cursor cl of None \<Rightarrow> False | Some c0 \<Rightarrow> fst base = fst c0 \<and> snd base < snd c0)"
    using ok assms(3) by (auto simp: cursor_is_stale_def client_ok_def split: option.splits)
  let ?cl = "cl\<lparr>cl_up_to_date := False, cl_opening := False, cl_cursor := Some base, cl_truncated := None, cl_rows := order rows\<rparr>"
  have "\<not> cursor_is_stale (cl\<lparr>cl_opening := True\<rparr>) base" using fresh by (simp add: cursor_is_stale_def)
  then have cl': "cl' = raise_floor base ?cl"
    using later by (simp add: cl'_def bound)
  have "cursor_ok base cl'" unfolding cl'
    using ok assms(3) by (auto simp: client_ok_def cursor_ok_def raise_floor_def split: option.splits)
  moreover have "rows_known hash (sb_keys sub) (sb_hashes sub) (row_at (sd_key d) (order rows))"
    using rows_known_result[OF rows(1), of hash "row_at (sd_key d) (order rows)"] ordered(2) by (simp add: sub)
  moreover have "sb_cursor sub = base" "\<not> compact_resume sub" by (simp_all add: sub opened_subscription_def compact_resume_def)
  ultimately show "agrees hash digest bytes d sub cl'"
    using ordered(1) fits by (simp add: agrees_def cl')
  show "row_at (sd_key d) (cl_rows cl') k = row_at (sd_key d) rows k" using ordered(2) by (simp add: cl')
qed

section \<open>Advancing\<close>

lemma watermark_agrees:
  assumes "in_step hash bytes d sub cl" and "cursor_ok limit cl" and "snd limit \<le> r"
  shows "in_step hash bytes d sub (client_watermark r cl)" and "cursor_ok (fst limit, r) (client_watermark r cl)"
proof -
  show "in_step hash bytes d sub (client_watermark r cl)"
    using assms(1) by (auto simp: client_watermark_def in_step_def split: option.splits)
  show "cursor_ok (fst limit, r) (client_watermark r cl)"
    using assms(2,3) by (auto simp: client_watermark_def cursor_ok_def raise_floor_def split: option.splits)
qed

lemma advance_sync_cases:
  assumes "advance_unchanged_sync digest latest emit sub = (sub', handled, advanced, ms)"
  obtains "advanced" "\<not> sb_closed sub" "sb_verified sub" "\<not> sb_running sub" "\<not> sb_pending sub" "fst latest = fst (sb_cursor sub)"
      "snd latest = snd (sb_cursor sub) + 1" "sub' = sub\<lparr>sb_cursor := latest\<rparr>" "ms = ready_messages digest emit latest sub'"
    | "\<not> advanced" "sub' = sub" "ms = []"
proof (cases "sb_closed sub \<or> \<not> sb_verified sub \<or> sb_running sub \<or> sb_pending sub \<or> fst latest \<noteq> fst (sb_cursor sub) \<or> snd latest \<noteq> snd (sb_cursor sub) + 1")
  case True
  then have "\<not> advanced \<and> sub' = sub \<and> ms = []"
    using assms unfolding advance_unchanged_sync_def Let_def by (auto split: if_split_asm)
  then show ?thesis using that(2) by blast
next
  case False
  then have "advanced \<and> sub' = sub\<lparr>sb_cursor := latest\<rparr> \<and> ms = ready_messages digest emit latest sub'"
    using assms unfolding advance_unchanged_sync_def Let_def ready_messages_def by auto
  then show ?thesis using that(1) False by blast
qed

lemma notify_cases:
  assumes "notify_sync_revision digest epoch d watermark connected tables ne nr clock sub = (sub', sched, ms)"
  obtains de r where "clock = Some (de, r)" "de = ne" "nr \<le> r" "\<not> sync_intersects_tables d tables" "\<not> sb_closed sub" "sb_verified sub" "epoch de = fst (sb_cursor sub)"
      "nr = snd (sb_cursor sub) + 1" "sub' = sub\<lparr>sb_cursor := (epoch de, nr)\<rparr>"
      "ms = ready_messages digest (\<not> watermark \<and> connected) (epoch de, nr) sub' @ (if watermark \<and> connected then [Sync_Watermark nr] else [])"
    | "sub' = sub" "ms = []"
proof (cases clock)
  case None
  then have "sub' = sub \<and> ms = []" using assms by (auto simp: notify_sync_revision_def split: if_split_asm)
  then show ?thesis using that(2) by blast
next
  case (Some p)
  obtain de r where p: "p = (de, r)" by fastforce
  show ?thesis
  proof (cases "tables = [] \<or> trim_space ne = '''' \<or> nr = 0 \<or> de \<noteq> ne \<or> r < nr \<or> sync_intersects_tables d tables")
    case True
    then have "notify_sync_revision digest epoch d watermark connected tables ne nr clock sub = (sub, True, [])"
      unfolding notify_sync_revision_def Some p by (elim disjE) simp_all
    then have "sub' = sub \<and> ms = []" unfolding assms by blast
    then show ?thesis using that(2) by blast
  next
    case False
    obtain sub1 handled advanced ms1 where a: "advance_unchanged_sync digest (epoch de, nr) (\<not> watermark \<and> connected) sub = (sub1, handled, advanced, ms1)"
      by (metis prod_cases4)
    have s: "sub' = sub1" "ms = ms1 @ (if watermark \<and> advanced \<and> connected then [Sync_Watermark nr] else [])"
      using assms False a unfolding notify_sync_revision_def Some p by auto
    from a show ?thesis
    proof (cases rule: advance_sync_cases)
      case 1
      then show ?thesis using that(1)[of de r] Some p False by (simp add: s)
    next
      case 2
      then show ?thesis using that(2) by (simp add: s)
    qed
  qed
qed

section \<open>The session\<close>

text \<open>Steps of the database whose logged rows of the collection's table carry their key.\<close>

definition db_keyed :: "sync_definition \<Rightarrow> (string \<times> json) list \<Rightarrow> sync_db \<Rightarrow> bool" where
  "db_keyed d args db \<longleftrightarrow> (\<forall>c\<in>set (sl_changes db). sy_table c = sd_table d \<longrightarrow> keyed_change d args c)"

definition db_step :: "sync_definition \<Rightarrow> (string \<times> json) list \<Rightarrow> sync_db \<Rightarrow> sync_db \<Rightarrow> bool" where
  "db_step d args db db' \<longleftrightarrow> log_step db db' \<and> db_keyed d args db'"

record sync_session =
  ss_db :: sync_db
  ss_sub :: "sync_subscription option"
  ss_wire :: "sync_message list"
  ss_client :: sync_client

record sync_code =
  co_hash :: "json \<Rightarrow> string"
  co_digest :: "(string \<times> string) list \<Rightarrow> string"
  co_bytes :: "json \<Rightarrow> int"
  co_order :: "json list \<Rightarrow> json list"
  co_epoch :: "string \<Rightarrow> string"
  co_handler :: "sync_db \<Rightarrow> nat \<Rightarrow> json option \<Rightarrow> bool"

definition flushed :: "sync_code \<Rightarrow> sync_definition \<Rightarrow> sync_session \<Rightarrow> sync_client" where
  "flushed p d s = client_steps (co_hash p) (co_digest p) (co_bytes p) (co_order p) d (ss_wire s) (ss_client s)"

definition db_cursor :: "sync_code \<Rightarrow> sync_db \<Rightarrow> cursor" where
  "db_cursor p db = (co_epoch p (sl_epoch db), sl_revision db)"

text \<open>
  \<open>co_handler p db r v\<close>: the handler, run between revision \<open>r\<close> and the state \<open>db\<close>, may return
  \<open>v\<close>. The messages on their way arrive in order; a client that opens again does so over a new
  connection or after it has read them all, so that they are gone. No two different rows or
  collections that are compared have the same hash.
\<close>

inductive session_step :: "sync_code \<Rightarrow> sync_definition \<Rightarrow> (string \<times> json) list \<Rightarrow> sync_session \<Rightarrow> sync_session \<Rightarrow> bool"
  for p d args where
  database: "db_step d args (ss_db s) db \<Longrightarrow> session_step p d args s (s\<lparr>ss_db := db\<rparr>)"
| receive: "ss_wire s = m # ms \<Longrightarrow>
    session_step p d args s (s\<lparr>ss_wire := ms, ss_client := client_step (co_hash p) (co_digest p) (co_bytes p) (co_order p) d m (ss_client s)\<rparr>)"
| open_ok: "(db_step d args)\<^sup>*\<^sup>* (ss_db s) db \<Longrightarrow> co_handler p db (sl_revision (ss_db s)) result \<Longrightarrow> trimmed_keys d (cl_rows (ss_client s)) \<Longrightarrow>
    open_sync (co_hash p) (co_bytes p) d (open_request (co_hash p) (co_digest p) d (ss_client s)) (db_cursor p (ss_db s)) (sl_retained (ss_db s)) result
      = Delivered (sub, ms) \<Longrightarrow>
    session_step p d args s (s\<lparr>ss_db := db, ss_sub := Some sub, ss_wire := ms, ss_client := (ss_client s)\<lparr>cl_opening := True\<rparr>\<rparr>)"
| open_failed: "session_step p d args s (s\<lparr>ss_sub := None, ss_wire := [Sync_Error], ss_client := (ss_client s)\<lparr>cl_opening := True\<rparr>\<rparr>)"
| deliver: "ss_sub s = Some sub \<Longrightarrow> (db_step d args)\<^sup>*\<^sup>* (ss_db s) db \<Longrightarrow> (db_step d args)\<^sup>*\<^sup>* db db' \<Longrightarrow> co_handler p db' (sl_revision (ss_db s)) result \<Longrightarrow>
    no_collision (co_hash p) (co_digest p) (sd_key d) (cl_rows (flushed p d s)) (result_rows (co_bytes p) d result) \<Longrightarrow>
    deliver_sync (co_hash p) (co_digest p) (co_bytes p) d args connected (Some (db_cursor p (ss_db s)))
      (\<lambda>after through tables. read_sync_changes after through tables db) result sub = Delivered (sub', ms) \<Longrightarrow>
    session_step p d args s (s\<lparr>ss_db := db', ss_sub := Some sub', ss_wire := ss_wire s @ ms\<rparr>)"
| deliver_failed: "ss_sub s = Some sub \<Longrightarrow>
    deliver_sync (co_hash p) (co_digest p) (co_bytes p) d args connected clock read result sub = Failed_Delivery ms \<Longrightarrow>
    session_step p d args s (s\<lparr>ss_wire := ss_wire s @ ms @ [Sync_Error]\<rparr>)"
| notify: "ss_sub s = Some sub \<Longrightarrow> clock = None \<or> clock = Some (sl_epoch (ss_db s), sl_revision (ss_db s)) \<Longrightarrow>
    (\<forall>t. ne = sl_epoch (ss_db s) \<and> 0 < nr \<and> nr \<le> sl_revision (ss_db s) \<and> t \<notin> set tables \<longrightarrow> sl_history (ss_db s) nr t = sl_history (ss_db s) (nr - 1) t) \<Longrightarrow>
    notify_sync_revision (co_digest p) (co_epoch p) d watermark connected tables ne nr clock sub = (sub', sched, ms) \<Longrightarrow>
    session_step p d args s (s\<lparr>ss_sub := Some sub', ss_wire := ss_wire s @ ms\<rparr>)"
| begin_delivery: "ss_sub s = Some sub \<Longrightarrow> begin_sync_delivery sub = (sub', runs) \<Longrightarrow> session_step p d args s (s\<lparr>ss_sub := Some sub'\<rparr>)"
| finish_delivery: "ss_sub s = Some sub \<Longrightarrow> finish_sync_delivery sub = (sub', again) \<Longrightarrow> session_step p d args s (s\<lparr>ss_sub := Some sub'\<rparr>)"

definition session_start :: "sync_code \<Rightarrow> sync_definition \<Rightarrow> (string \<times> json) list \<Rightarrow> sync_session \<Rightarrow> bool" where
  "session_start p d args s \<longleftrightarrow> log_ok (ss_db s) \<and> db_keyed d args (ss_db s) \<and> ss_sub s = None \<and> ss_wire s = [] \<and>
     client_ok (co_bytes p) d (co_epoch p (sl_epoch (ss_db s))) (sl_revision (ss_db s)) (ss_client s) \<and>
     good_parameters (co_hash p) (co_digest p) (co_bytes p) (co_order p) d"

definition session_ok :: "sync_code \<Rightarrow> sync_definition \<Rightarrow> (string \<times> json) list \<Rightarrow> sync_session \<Rightarrow> bool" where
  "session_ok p d args s \<longleftrightarrow> log_ok (ss_db s) \<and> db_keyed d args (ss_db s) \<and> good_parameters (co_hash p) (co_digest p) (co_bytes p) (co_order p) d \<and>
     client_ok (co_bytes p) d (fst (db_cursor p (ss_db s))) (sl_revision (ss_db s)) (ss_client s) \<and>
     list_all (message_ok d (fst (db_cursor p (ss_db s))) (sl_revision (ss_db s))) (ss_wire s) \<and>
     (\<forall>sub. ss_sub s = Some sub \<and> \<not> sb_closed sub \<longrightarrow> fst (sb_cursor sub) = fst (db_cursor p (ss_db s)) \<and> snd (sb_cursor sub) \<le> sl_revision (ss_db s) \<and>
        agrees (co_hash p) (co_digest p) (co_bytes p) d sub (flushed p d s))"

subsection \<open>The database moves on\<close>

definition db_later :: "sync_db \<Rightarrow> sync_db \<Rightarrow> bool" where
  "db_later db db' \<longleftrightarrow> sl_epoch db' = sl_epoch db \<and> sl_revision db \<le> sl_revision db' \<and> sl_retained db \<le> sl_retained db' \<and>
     (\<forall>r\<le>sl_revision db. sl_history db' r = sl_history db r)"

lemma log_step_later: "log_step db db' \<Longrightarrow> db_later db db'"
proof (induction rule: log_step.cases)
  case (commit ws s now mutation)
  then show ?case by (auto simp: db_later_def commit_writes_def Let_def split: prod.splits)
next
  case (prune s now retention)
  then show ?case by (auto simp: db_later_def prune_sync_log_def Let_def intro!: fold_max_bounds(1))
qed

lemma db_later_trans: "db_later a b \<Longrightarrow> db_later b c \<Longrightarrow> db_later a c"
  by (auto simp: db_later_def)

lemma db_steps:
  assumes "(db_step d args)\<^sup>*\<^sup>* db db'" and "log_ok db" and "db_keyed d args db"
  shows "db_later db db' \<and> log_ok db' \<and> db_keyed d args db'"
  using assms(1)
proof (induction rule: rtranclp_induct)
  case base
  then show ?case using assms(2,3) by (simp add: db_later_def)
next
  case (step db1 db2)
  then have "log_step db1 db2" "db_keyed d args db2" by (simp_all add: db_step_def)
  with step.IH show ?case using log_step_later db_later_trans sync_log.inv_step by blast
qed

lemma log_part_read:
  assumes "log_ok db" and "db_keyed d args db" and "read_sync_changes after through tables db = Ok cs"
  shows "log_part d args after through cs"
proof -
  have "append_unique_strings [] tables \<noteq> []" "sl_retained db \<le> after"
    using assms(3) by (auto simp: read_sync_changes_def Let_def split: if_splits)
  then have "cs = filter (\<lambda>c. after < sy_revision c \<and> sy_revision c \<le> through \<and> sy_table c \<in> set (append_unique_strings [] tables)) (sl_changes db)"
    using read_is_filter[OF assms(1)] assms(3) by simp
  then show ?thesis using assms(1,2) by (auto simp: log_part_def db_keyed_def log_ok_def in_order_def sorted_filter)
qed

subsection \<open>The invariant\<close>

lemma session_okI:
  assumes "log_ok (ss_db s)" "db_keyed d args (ss_db s)" "good_parameters (co_hash p) (co_digest p) (co_bytes p) (co_order p) d"
    and "client_ok (co_bytes p) d (fst (db_cursor p (ss_db s))) (sl_revision (ss_db s)) (ss_client s)"
    and "list_all (message_ok d (fst (db_cursor p (ss_db s))) (sl_revision (ss_db s))) (ss_wire s)"
    and "\<And>sub. ss_sub s = Some sub \<Longrightarrow> \<not> sb_closed sub \<Longrightarrow> fst (sb_cursor sub) = fst (db_cursor p (ss_db s)) \<and> snd (sb_cursor sub) \<le> sl_revision (ss_db s) \<and>
        agrees (co_hash p) (co_digest p) (co_bytes p) d sub (flushed p d s)"
  shows "session_ok p d args s"
  using assms unfolding session_ok_def by blast

lemma session_okD:
  assumes "session_ok p d args s"
  shows "log_ok (ss_db s)" "db_keyed d args (ss_db s)" "good_parameters (co_hash p) (co_digest p) (co_bytes p) (co_order p) d"
    "client_ok (co_bytes p) d (fst (db_cursor p (ss_db s))) (sl_revision (ss_db s)) (ss_client s)"
    "list_all (message_ok d (fst (db_cursor p (ss_db s))) (sl_revision (ss_db s))) (ss_wire s)"
    "ss_sub s = Some sub \<Longrightarrow> \<not> sb_closed sub \<Longrightarrow> fst (sb_cursor sub) = fst (db_cursor p (ss_db s))"
    "ss_sub s = Some sub \<Longrightarrow> \<not> sb_closed sub \<Longrightarrow> snd (sb_cursor sub) \<le> sl_revision (ss_db s)"
    "ss_sub s = Some sub \<Longrightarrow> \<not> sb_closed sub \<Longrightarrow> agrees (co_hash p) (co_digest p) (co_bytes p) d sub (flushed p d s)"
  using assms unfolding session_ok_def by blast+

lemma flushed_append: "flushed p d (s\<lparr>ss_wire := ss_wire s @ ms\<rparr>) = client_steps (co_hash p) (co_digest p) (co_bytes p) (co_order p) d ms (flushed p d s)"
  by (simp add: flushed_def)

lemma flushed_simps [simp]:
  "flushed p d (s\<lparr>ss_db := db\<rparr>) = flushed p d s" "flushed p d (s\<lparr>ss_sub := sub\<rparr>) = flushed p d s"
  by (simp_all add: flushed_def)

lemma messages_later: "list_all (message_ok d e r) ms \<Longrightarrow> r \<le> r' \<Longrightarrow> list_all (message_ok d e r') ms"
  using message_ok_later by (auto simp: list_all_iff)

lemma later_cursor: "db_later db db' \<Longrightarrow> fst (db_cursor p db') = fst (db_cursor p db)" "db_later db db' \<Longrightarrow> sl_revision db \<le> sl_revision db'"
  by (simp_all add: db_later_def db_cursor_def)

lemma database_ok:
  assumes "session_ok p d args s" and "(db_step d args)\<^sup>*\<^sup>* (ss_db s) db"
  shows "session_ok p d args (s\<lparr>ss_db := db\<rparr>)"
proof -
  note ok = session_okD[OF assms(1)]
  have db: "db_later (ss_db s) db" "log_ok db" "db_keyed d args db" using db_steps[OF assms(2) ok(1,2)] by blast+
  note later = later_cursor[OF db(1)]
  show ?thesis
    using db(2,3) ok(3) client_ok_later[OF ok(4) later(2)] messages_later[OF ok(5) later(2)] ok(6-8) later
    by (intro session_okI) (auto intro: order_trans)
qed

lemma agrees_cong:
  assumes "sb_cursor sub' = sb_cursor sub" "sb_keys sub' = sb_keys sub" "sb_hashes sub' = sb_hashes sub" "sb_client_digest sub' = sb_client_digest sub"
    "sb_full_integrity sub' = sb_full_integrity sub" "sb_verified sub' = sb_verified sub"
  shows "agrees hash digest bytes d sub' cl = agrees hash digest bytes d sub cl"
  using assms by (simp add: agrees_def compact_resume_def)

lemma flags_ok:
  assumes "session_ok p d args s" and "ss_sub s = Some sub" and "sub' = sub\<lparr>sb_running := a, sb_pending := b\<rparr>"
  shows "session_ok p d args (s\<lparr>ss_sub := Some sub'\<rparr>)"
proof -
  note ok = session_okD[OF assms(1)]
  have "agrees (co_hash p) (co_digest p) (co_bytes p) d sub' cl = agrees (co_hash p) (co_digest p) (co_bytes p) d sub cl" for cl
    by (rule agrees_cong) (simp_all add: assms(3))
  moreover have "sb_cursor sub' = sb_cursor sub" "sb_closed sub' = sb_closed sub" by (simp_all add: assms(3))
  ultimately show ?thesis using ok assms(2) by (intro session_okI) auto
qed

lemma flags: "fst (begin_sync_delivery sub) = sub\<lparr>sb_running := sb_running (fst (begin_sync_delivery sub)), sb_pending := sb_pending (fst (begin_sync_delivery sub))\<rparr>"
  "fst (finish_sync_delivery sub) = sub\<lparr>sb_running := sb_running (fst (finish_sync_delivery sub)), sb_pending := sb_pending (fst (finish_sync_delivery sub))\<rparr>"
  by (simp_all add: begin_sync_delivery_def finish_sync_delivery_def)

lemma receive_ok:
  assumes "session_ok p d args s" and "ss_wire s = m # ms"
  shows "session_ok p d args (s\<lparr>ss_wire := ms, ss_client := client_step (co_hash p) (co_digest p) (co_bytes p) (co_order p) d m (ss_client s)\<rparr>)"
proof -
  note ok = session_okD[OF assms(1)]
  have "flushed p d (s\<lparr>ss_wire := ms, ss_client := client_step (co_hash p) (co_digest p) (co_bytes p) (co_order p) d m (ss_client s)\<rparr>) = flushed p d s"
    using assms(2) by (simp add: flushed_def)
  then show ?thesis using ok assms(2) client_step_ok[OF ok(3,4), of m] by (intro session_okI) auto
qed

lemma quiet_agrees:
  assumes "agrees hash digest bytes d sub cl" and "set ms \<subseteq> {Sync_Syncing reason, Sync_Error}"
  shows "agrees hash digest bytes d sub (client_steps hash digest bytes order d ms cl)"
  using assms
proof (induction ms arbitrary: cl)
  case (Cons m ms)
  have "agrees hash digest bytes d sub (client_step hash digest bytes order d m cl)"
    using Cons.prems by (auto simp: agrees_def cursor_ok_def split: option.splits)
  with Cons show ?case by simp
qed simp

lemma deliver_failed_ok:
  assumes "session_ok p d args s" and "set ms \<subseteq> {Sync_Syncing ''reconciling''}"
  shows "session_ok p d args (s\<lparr>ss_wire := ss_wire s @ ms @ [Sync_Error]\<rparr>)"
proof -
  note ok = session_okD[OF assms(1)]
  have "set (ms @ [Sync_Error]) \<subseteq> {Sync_Syncing ''reconciling'', Sync_Error}" using assms(2) by auto
  then have agree: "agrees (co_hash p) (co_digest p) (co_bytes p) d sub (flushed p d s) \<Longrightarrow>
      agrees (co_hash p) (co_digest p) (co_bytes p) d sub (flushed p d (s\<lparr>ss_wire := ss_wire s @ (ms @ [Sync_Error])\<rparr>))" for sub
    unfolding flushed_append by (rule quiet_agrees[rotated])
  have "list_all (message_ok d e r) (ms @ [Sync_Error])" for e r using assms(2) by (auto simp: list_all_iff)
  then show ?thesis using ok agree by (intro session_okI) auto
qed

lemma open_ok:
  assumes inv: "session_ok p d args s" and steps: "(db_step d args)\<^sup>*\<^sup>* (ss_db s) db" and trimmed: "trimmed_keys d (cl_rows (ss_client s))"
    and run: "open_sync (co_hash p) (co_bytes p) d (open_request (co_hash p) (co_digest p) d (ss_client s)) (db_cursor p (ss_db s)) (sl_retained (ss_db s)) result
      = Delivered (sub, ms)"
  shows "session_ok p d args (s\<lparr>ss_db := db, ss_sub := Some sub, ss_wire := ms, ss_client := (ss_client s)\<lparr>cl_opening := True\<rparr>\<rparr>)"
proof -
  let ?cl = "ss_client s" and ?base = "db_cursor p (ss_db s)"
  let ?s = "s\<lparr>ss_db := db, ss_sub := Some sub, ss_wire := ms, ss_client := ?cl\<lparr>cl_opening := True\<rparr>\<rparr>"
  note ok = session_okD[OF inv]
  have db: "db_later (ss_db s) db" "log_ok db" "db_keyed d args db" using db_steps[OF steps ok(1,2)] by blast+
  note later = later_cursor[OF db(1)]
  have client: "client_ok (co_bytes p) d (fst ?base) (sl_revision db) (?cl\<lparr>cl_opening := True\<rparr>)"
    using client_ok_later[OF ok(4) later(2)] by (auto simp: client_ok_def split: option.splits)
  have sub: "fst (sb_cursor sub) = fst ?base \<and> snd (sb_cursor sub) \<le> sl_revision (ss_db s) \<and> list_all (message_ok d (fst ?base) (sl_revision (ss_db s))) ms \<and>
      agrees (co_hash p) (co_digest p) (co_bytes p) d sub (flushed p d ?s)"
  proof (cases "resumable (open_request (co_hash p) (co_digest p) d ?cl) ?base (sl_retained (ss_db s))")
    case True
    then obtain c where c: "cl_cursor ?cl = Some c" "fst c = fst ?base" "snd c \<le> sl_revision (ss_db s)"
      by (auto simp: resumable_def open_request_def Let_def db_cursor_def split: option.splits)
    then have s: "sub = (opened_subscription (open_request (co_hash p) (co_digest p) d ?cl) ?base)\<lparr>sb_cursor := c, sb_acquired := True\<rparr>" "ms = []"
      using run True by (auto simp: open_sync_def open_request_def Let_def)
    then have "sb_cursor sub = c" "flushed p d ?s = ?cl\<lparr>cl_opening := True\<rparr>" by (simp_all add: flushed_def)
    with resumed_agrees[OF ok(3,4) c(1) trimmed, of ?base] c(2,3) s show ?thesis by simp
  next
    case False
    then obtain v rows tr where v: "sync_snapshot_rows (co_bytes p) v d = Ok (rows, tr)" and ms: "ms = [Sync_Snapshot ?base rows tr]"
      and sub: "sub = (opened_subscription (open_request (co_hash p) (co_digest p) d ?cl) ?base)\<lparr>sb_keys := map fst (sync_rows_by_key rows (sd_key d)),
            sb_hashes := sync_rows_hashes (co_hash p) rows (sd_key d), sb_truncated := tr, sb_verified := True, sb_acquired := True\<rparr>"
      using run by (auto simp: open_sync_def open_snapshot_def split: option.splits outcome.splits)
    have "flushed p d ?s = client_step (co_hash p) (co_digest p) (co_bytes p) (co_order p) d (Sync_Snapshot ?base rows tr) (?cl\<lparr>cl_opening := True\<rparr>)"
      by (simp add: flushed_def ms)
    moreover have "snd ?base = sl_revision (ss_db s)" by (simp add: db_cursor_def)
    ultimately show ?thesis
      using snapshot_agrees(1)[OF ok(3,4) _ v sub] rows_ok_message[OF snapshot_rows_ok(1)[OF v]] by (simp add: ms sub opened_subscription_def)
  qed
  have "list_all (message_ok d (fst ?base) (sl_revision db)) ms" using sub messages_later later(2) by blast
  then show ?thesis
    using sub client db ok(3) later by (intro session_okI) auto
qed

lemma deliver_step_parts:
  assumes inv: "session_ok p d args s" and sub: "ss_sub s = Some sub" "\<not> sb_closed sub"
    and steps: "(db_step d args)\<^sup>*\<^sup>* (ss_db s) db"
    and free: "no_collision (co_hash p) (co_digest p) (sd_key d) (cl_rows (flushed p d s)) (result_rows (co_bytes p) d result)"
    and run: "deliver_sync (co_hash p) (co_digest p) (co_bytes p) d args connected (Some (db_cursor p (ss_db s)))
      (\<lambda>after through tables. read_sync_changes after through tables db) result sub = Delivered (sub', ms)"
  defines "s' \<equiv> s\<lparr>ss_sub := Some sub', ss_wire := ss_wire s @ ms\<rparr>"
  shows "delivered (co_hash p) (co_bytes p) d connected sub' (flushed p d s) (flushed p d s')"
    and "\<not> sb_closed sub' \<Longrightarrow> sb_cursor sub' = db_cursor p (ss_db s) \<and> (same_result (co_bytes p) d result (cl_rows (flushed p d s')) \<or>
      (sb_verified sub \<and> snd (sb_cursor sub) = sl_revision (ss_db s) \<and> cl_rows (flushed p d s') = cl_rows (flushed p d s)) \<or>
      (\<exists>cs. sb_verified sub \<and> read_sync_changes (snd (sb_cursor sub)) (sl_revision (ss_db s)) (sd_table d # sd_visibility_tables d) db = Ok cs \<and>
        (\<forall>c\<in>set (relevant_sync_changes d cs). sy_table c = sd_table d) \<and>
        (\<forall>k. row_at (sd_key d) (cl_rows (flushed p d s')) k = replay_visible d args k (relevant_sync_changes d cs) (row_at (sd_key d) (cl_rows (flushed p d s)) k))))"
    and "list_all (message_ok d (fst (db_cursor p (ss_db s))) (sl_revision (ss_db s))) ms"
proof -
  note ok = session_okD[OF inv]
  note at = ok(6)[OF sub] ok(7)[OF sub] ok(8)[OF sub]
  have db: "log_ok db" "db_keyed d args db" using db_steps[OF steps ok(1,2)] by blast+
  have s': "flushed p d s' = client_steps (co_hash p) (co_digest p) (co_bytes p) (co_order p) d ms (flushed p d s)"
    by (simp add: s'_def flushed_def)
  have cursor: "snd (db_cursor p (ss_db s)) = sl_revision (ss_db s)" by (simp add: db_cursor_def)
  have mono: "snd (sb_cursor sub) \<le> snd (db_cursor p (ss_db s))" using at(2) cursor by simp
  have bounds: "0 \<le> sd_max_rows d" "0 \<le> sd_max_bytes d" using good_parametersD(7,8)[OF ok(3)] by blast+
  have log: "log_part d args (snd (sb_cursor sub)) (snd (db_cursor p (ss_db s))) cs"
    if "read_sync_changes (snd (sb_cursor sub)) (snd (db_cursor p (ss_db s))) (sd_table d # sd_visibility_tables d) db = Ok cs" for cs
    using log_part_read[OF db that] .
  note parts = deliver_sync_delivered[OF ok(3) at(3) sub(2) mono _ free refl run, folded s', unfolded cursor]
  show "delivered (co_hash p) (co_bytes p) d connected sub' (flushed p d s) (flushed p d s')" by (rule parts(1)) (rule log[unfolded cursor])
  show "sb_cursor sub' = db_cursor p (ss_db s) \<and> (same_result (co_bytes p) d result (cl_rows (flushed p d s')) \<or>
      (sb_verified sub \<and> snd (sb_cursor sub) = sl_revision (ss_db s) \<and> cl_rows (flushed p d s') = cl_rows (flushed p d s)) \<or>
      (\<exists>cs. sb_verified sub \<and> read_sync_changes (snd (sb_cursor sub)) (sl_revision (ss_db s)) (sd_table d # sd_visibility_tables d) db = Ok cs \<and>
        (\<forall>c\<in>set (relevant_sync_changes d cs). sy_table c = sd_table d) \<and>
        (\<forall>k. row_at (sd_key d) (cl_rows (flushed p d s')) k = replay_visible d args k (relevant_sync_changes d cs) (row_at (sd_key d) (cl_rows (flushed p d s)) k))))"
    if "\<not> sb_closed sub'" by (rule parts(2)[OF _ that]) (rule log[unfolded cursor])
  have "snd (db_cursor p (ss_db s)) \<le> sl_revision (ss_db s)" using cursor by simp
  from deliver_messages_ok[OF run this log bounds at(2)] show "list_all (message_ok d (fst (db_cursor p (ss_db s))) (sl_revision (ss_db s))) ms"
    by (simp add: at(1))
qed

lemma deliver_ok:
  assumes inv: "session_ok p d args s" and sub: "ss_sub s = Some sub"
    and steps: "(db_step d args)\<^sup>*\<^sup>* (ss_db s) db" "(db_step d args)\<^sup>*\<^sup>* db db'"
    and free: "no_collision (co_hash p) (co_digest p) (sd_key d) (cl_rows (flushed p d s)) (result_rows (co_bytes p) d result)"
    and run: "deliver_sync (co_hash p) (co_digest p) (co_bytes p) d args connected (Some (db_cursor p (ss_db s)))
      (\<lambda>after through tables. read_sync_changes after through tables db) result sub = Delivered (sub', ms)"
  shows "session_ok p d args (s\<lparr>ss_db := db', ss_sub := Some sub', ss_wire := ss_wire s @ ms\<rparr>)"
proof -
  let ?s = "s\<lparr>ss_sub := Some sub', ss_wire := ss_wire s @ ms\<rparr>"
  note ok = session_okD[OF inv]
  have "session_ok p d args ?s"
  proof (cases "sb_closed sub")
    case True
    then have "sub' = sub" "ms = []" using run by (auto simp: deliver_sync_def)
    then show ?thesis using inv sub by (cases s) simp
  next
    case False
    note parts = deliver_step_parts[OF inv sub False steps(1) free run]
    show ?thesis
    proof (rule session_okI)
      fix sub'' assume "ss_sub ?s = Some sub''" "\<not> sb_closed sub''"
      then have "sub'' = sub'" and c: "\<not> sb_closed sub'" by simp_all
      then show "fst (sb_cursor sub'') = fst (db_cursor p (ss_db ?s)) \<and> snd (sb_cursor sub'') \<le> sl_revision (ss_db ?s) \<and>
          agrees (co_hash p) (co_digest p) (co_bytes p) d sub'' (flushed p d ?s)"
        using parts(1) parts(2)[OF c] in_step_agrees by (simp add: delivered_def db_cursor_def)
    qed (use ok(1-5) parts(3) in simp_all)
  qed
  moreover have "(db_step d args)\<^sup>*\<^sup>* (ss_db ?s) db'" using steps by simp
  ultimately have "session_ok p d args (?s\<lparr>ss_db := db'\<rparr>)" by (rule database_ok)
  moreover have "?s\<lparr>ss_db := db'\<rparr> = s\<lparr>ss_db := db', ss_sub := Some sub', ss_wire := ss_wire s @ ms\<rparr>" by (cases s) simp
  ultimately show ?thesis by (simp only:)
qed

lemma notify_session_ok:
  assumes inv: "session_ok p d args s" and sub: "ss_sub s = Some sub" and clock: "clock = None \<or> clock = Some (sl_epoch (ss_db s), sl_revision (ss_db s))"
    and run: "notify_sync_revision (co_digest p) (co_epoch p) d watermark connected tables ne nr clock sub = (sub', sched, ms)"
  shows "session_ok p d args (s\<lparr>ss_sub := Some sub', ss_wire := ss_wire s @ ms\<rparr>)"
proof -
  let ?s = "s\<lparr>ss_sub := Some sub', ss_wire := ss_wire s @ ms\<rparr>"
  note ok = session_okD[OF inv]
  from run show ?thesis
  proof (cases rule: notify_cases)
    case (1 de r)
    then have r: "nr \<le> sl_revision (ss_db s)" and e: "co_epoch p de = fst (db_cursor p (ss_db s))"
      using clock by (auto simp: db_cursor_def)
    have agree: "agrees (co_hash p) (co_digest p) (co_bytes p) d sub (flushed p d s)" using ok(8)[OF sub 1(5)] .
    have step: "in_step (co_hash p) (co_bytes p) d sub (flushed p d s)" and cursor: "cursor_ok (sb_cursor sub) (flushed p d s)"
      using agree agrees_in_step[OF agree] 1(6) by (auto simp: agrees_def compact_resume_def)
    have step': "in_step (co_hash p) (co_bytes p) d sub' (flushed p d s)" using step by (simp add: in_step_def 1(9))
    define cl where "cl = client_steps (co_hash p) (co_digest p) (co_bytes p) (co_order p) d (ready_messages (co_digest p) (\<not> watermark \<and> connected) (co_epoch p de, nr) sub') (flushed p d s)"
    have ready: "in_step (co_hash p) (co_bytes p) d sub' cl \<and> cursor_ok (co_epoch p de, nr) cl"
      using ready_messages_ok[OF ok(3) step' cursor _ _ cl_def] 1(7,8) by simp
    have flushed: "flushed p d ?s = (if watermark \<and> connected then client_watermark nr cl else cl)"
      unfolding cl_def by (simp add: flushed_def 1(10))
    have "in_step (co_hash p) (co_bytes p) d sub' (flushed p d ?s) \<and> cursor_ok (co_epoch p de, nr) (flushed p d ?s)"
      using ready watermark_agrees[of "co_hash p" "co_bytes p" d sub' cl "(co_epoch p de, nr)" nr] by (simp add: flushed)
    moreover have "sb_verified sub'" "sb_cursor sub' = (co_epoch p de, nr)" using 1 by simp_all
    ultimately have "agrees (co_hash p) (co_digest p) (co_bytes p) d sub' (flushed p d ?s)" using in_step_agrees by simp
    moreover have "list_all (message_ok d (fst (db_cursor p (ss_db s))) (sl_revision (ss_db s))) ms"
      using r e ready_messages_in_order[of "(co_epoch p de, nr)" "fst (db_cursor p (ss_db s))" "sl_revision (ss_db s)"] by (simp add: 1(10))
    ultimately show ?thesis using ok(1-5) r e \<open>sb_cursor sub' = _\<close> by (intro session_okI) auto
  next
    case 2
    then show ?thesis using inv sub by (cases s) simp
  qed
qed

lemma session_step_ok:
  assumes "session_step p d args s s'" and "session_ok p d args s"
  shows "session_ok p d args s'"
  using assms
proof (induction rule: session_step.induct)
  case (database s db)
  then show ?case by (intro database_ok) auto
next
  case (receive s m ms)
  then show ?case by (intro receive_ok) auto
next
  case (open_ok s db result sub ms)
  then show ?case by (intro Sync_Run.open_ok)
next
  case (open_failed s)
  note ok = session_okD[OF open_failed]
  have "client_ok (co_bytes p) d (fst (db_cursor p (ss_db s))) (sl_revision (ss_db s)) ((ss_client s)\<lparr>cl_opening := True\<rparr>)"
    using ok(4) by (auto simp: client_ok_def split: option.splits)
  then show ?case using ok(1-3) by (intro session_okI) auto
next
  case (deliver s sub db db' result connected sub' ms)
  then show ?case by (intro deliver_ok)
next
  case (deliver_failed s sub connected clock read result ms)
  then show ?case using deliver_sync_failed by (intro deliver_failed_ok) blast+
next
  case (notify s sub clock ne nr tables watermark connected sub' sched ms)
  then show ?case by (intro notify_session_ok) auto
next
  case (begin_delivery s sub sub' runs)
  then show ?case using flags_ok flags(1)[of sub] by (metis fst_conv)
next
  case (finish_delivery s sub sub' again)
  then show ?case using flags_ok flags(2)[of sub] by (metis fst_conv)
qed

interpretation sync_session: step_invariant "session_start p d args" "session_step p d args" "session_ok p d args" for p d args
proof
  show "session_start p d args s \<Longrightarrow> session_ok p d args s" for s
    by (intro session_okI) (auto simp: session_start_def db_cursor_def)
  show "session_ok p d args s \<Longrightarrow> session_step p d args s s' \<Longrightarrow> session_ok p d args s'" for s s'
    using session_step_ok by blast
qed

section \<open>What the client shows is what the table holds\<close>

text \<open>Every row shown is the row of the table, as far as it matches, at a revision from \<open>c\<close> on.\<close>

definition row_versions :: "sync_definition \<Rightarrow> (string \<times> json) list \<Rightarrow> sync_db \<Rightarrow> nat \<Rightarrow> json list \<Rightarrow> bool" where
  "row_versions d args db c rows \<longleftrightarrow> (\<forall>k. \<exists>r. c \<le> r \<and> r \<le> sl_revision db \<and>
     map_option canonical_sync_json (row_at (sd_key d) rows k) =
     map_option canonical_sync_json (visible d args (sl_history db r (sd_table d) k)))"

text \<open>A collection over one table without bounds, whose handler returns the matching rows of the table.\<close>

definition plain_collection :: "sync_code \<Rightarrow> sync_definition \<Rightarrow> (string \<times> json) list \<Rightarrow> bool" where
  "plain_collection p d args \<longleftrightarrow> sd_visibility_tables d = [] \<and> sd_table d \<noteq> '''' \<and> trim_space (sd_table d) = sd_table d \<and>
     (\<forall>db r v rows truncated. log_ok db \<and> r \<le> sl_revision db \<and> co_handler p db r (Some v) \<and>
        sync_snapshot_rows (co_bytes p) v d = Ok (rows, truncated) \<longrightarrow> row_versions d args db r rows)"

definition session_exact :: "sync_code \<Rightarrow> sync_definition \<Rightarrow> (string \<times> json) list \<Rightarrow> sync_session \<Rightarrow> bool" where
  "session_exact p d args s \<longleftrightarrow> session_ok p d args s \<and> (\<forall>sub. ss_sub s = Some sub \<and> \<not> sb_closed sub \<and> sb_verified sub \<longrightarrow>
     row_versions d args (ss_db s) (snd (sb_cursor sub)) (cl_rows (flushed p d s)))"

lemma versions_later: "row_versions d args db c rows \<Longrightarrow> db_later db db' \<Longrightarrow> row_versions d args db' c rows"
  unfolding row_versions_def db_later_def by (metis order_trans)

lemma versions_same: "same_rows d rows rows' \<Longrightarrow> row_versions d args db c rows' \<Longrightarrow> row_versions d args db c rows"
  by (simp add: row_versions_def same_rows_def)

lemma replay_visible_constant: "(\<forall>v. replay_visible d args k cs v = v) \<or> (\<exists>w. \<forall>v. replay_visible d args k cs v = w)"
proof (induction cs)
  case (Cons c cs)
  then show ?case by (cases "sy_row c = k") auto
qed simp

lemma versions_replayed:
  assumes log: "log_ok db" and versions: "row_versions d args db c rows" and table: "sd_visibility_tables d = []" "sd_table d \<noteq> ''''" "trim_space (sd_table d) = sd_table d"
    and l: "c \<le> l" "l \<le> sl_revision db" and read: "read_sync_changes c l (sd_table d # sd_visibility_tables d) db = Ok cs"
    and rows': "\<And>k. row_at (sd_key d) rows' k = replay_visible d args k (relevant_sync_changes d cs) (row_at (sd_key d) rows k)"
  shows "row_versions d args db l rows'"
  unfolding row_versions_def
proof
  fix k
  let ?t = "sd_table d" and ?range = "filter (\<lambda>x. c < sy_revision x \<and> sy_revision x \<le> l) (sl_changes db)"
  have tables: "append_unique_strings [] (sd_table d # sd_visibility_tables d) = [?t]" using table by (simp add: append_unique_strings_def)
  have retained: "sl_retained db \<le> c" using read by (auto simp: read_sync_changes_def split: if_splits)
  have cs: "cs = filter (\<lambda>x. sy_table x = ?t) ?range"
    using read read_is_filter[OF log retained, of "?t # sd_visibility_tables d" l] tables by (simp add: conj_ac)
  then have "\<forall>x\<in>set cs. sy_table x = ?t" by simp
  then have same: "relevant_sync_changes d cs = cs"
    unfolding relevant_sync_changes_def filter_id_conv by (simp add: relevant_sync_change_def Let_def)
  have replayed: "visible d args (replay ?t k ?range v) = replay_visible d args k cs (visible d args v)" for v
    using replay_visible[of cs ?t d args k v] replay_filter[of ?range ?t "\<lambda>x. sy_table x = ?t" k v] by (simp add: cs)
  have at_l: "replay_visible d args k cs (visible d args (sl_history db c ?t k)) = visible d args (sl_history db l ?t k)"
    unfolding replayed[symmetric] using replay_range[OF log retained l] by simp
  obtain r where r: "c \<le> r" "r \<le> sl_revision db" "map_option canonical_sync_json (row_at (sd_key d) rows k) =
      map_option canonical_sync_json (visible d args (sl_history db r ?t k))" using versions unfolding row_versions_def by blast
  from replay_visible_constant show "\<exists>r\<ge>l. r \<le> sl_revision db \<and> map_option canonical_sync_json (row_at (sd_key d) rows' k) =
      map_option canonical_sync_json (visible d args (sl_history db r ?t k))"
  proof
    assume same': "\<forall>v. replay_visible d args k cs v = v"
    show ?thesis
    proof (cases "r \<le> l")
      case True
      have "visible d args (sl_history db r ?t k) = visible d args (sl_history db l ?t k)"
        using replayed[of "sl_history db r ?t k"] replay_from_later[OF log retained r(1) True l(2), of ?t k] same' by simp
      then show ?thesis using r(3) l(2) same' by (auto simp: rows' same)
    next
      case False
      then show ?thesis using r same' by (intro exI[of _ r]) (simp add: rows' same)
    qed
  next
    assume "\<exists>w. \<forall>v. replay_visible d args k cs v = w"
    then have "replay_visible d args k cs (row_at (sd_key d) rows k) = visible d args (sl_history db l ?t k)" using at_l by metis
    then show ?thesis using l(2) by (auto simp: rows' same)
  qed
qed

lemma deliver_exact:
  assumes inv: "session_exact p d args s" and plain: "plain_collection p d args" and sub: "ss_sub s = Some sub"
    and steps: "(db_step d args)\<^sup>*\<^sup>* (ss_db s) db" "(db_step d args)\<^sup>*\<^sup>* db db'" and handler: "co_handler p db' (sl_revision (ss_db s)) result"
    and free: "no_collision (co_hash p) (co_digest p) (sd_key d) (cl_rows (flushed p d s)) (result_rows (co_bytes p) d result)"
    and run: "deliver_sync (co_hash p) (co_digest p) (co_bytes p) d args connected (Some (db_cursor p (ss_db s)))
      (\<lambda>after through tables. read_sync_changes after through tables db) result sub = Delivered (sub', ms)"
    and open_sub: "\<not> sb_closed sub'"
  shows "row_versions d args db' (snd (sb_cursor sub')) (cl_rows (flushed p d (s\<lparr>ss_db := db', ss_sub := Some sub', ss_wire := ss_wire s @ ms\<rparr>)))"
proof -
  let ?s = "s\<lparr>ss_sub := Some sub', ss_wire := ss_wire s @ ms\<rparr>"
  have ok: "session_ok p d args s" using inv by (simp add: session_exact_def)
  note base = session_okD[OF ok]
  have db1: "db_later (ss_db s) db" "log_ok db" "db_keyed d args db" using db_steps[OF steps(1) base(1,2)] by blast+
  have db2: "db_later db db'" "log_ok db'" using db_steps[OF steps(2) db1(2,3)] by blast+
  have flushed: "flushed p d (s\<lparr>ss_db := db', ss_sub := Some sub', ss_wire := ss_wire s @ ms\<rparr>) = flushed p d ?s" by (simp add: flushed_def)
  show ?thesis
  proof (cases "sb_closed sub")
    case True
    then show ?thesis using run open_sub by (auto simp: deliver_sync_def)
  next
    case False
    note parts = deliver_step_parts(2)[OF ok sub False steps(1) free run open_sub]
    have old: "sb_verified sub \<Longrightarrow> row_versions d args (ss_db s) (snd (sb_cursor sub)) (cl_rows (flushed p d s))"
      using inv sub False by (simp add: session_exact_def)
    have cursor: "snd (sb_cursor sub') = sl_revision (ss_db s)" using parts by (simp add: db_cursor_def)
    consider (result) "same_result (co_bytes p) d result (cl_rows (flushed p d ?s))"
      | (ready) "sb_verified sub" "snd (sb_cursor sub) = sl_revision (ss_db s)" "cl_rows (flushed p d ?s) = cl_rows (flushed p d s)"
      | (log) cs where "sb_verified sub" "read_sync_changes (snd (sb_cursor sub)) (sl_revision (ss_db s)) (sd_table d # sd_visibility_tables d) db = Ok cs"
          "\<And>k. row_at (sd_key d) (cl_rows (flushed p d ?s)) k = replay_visible d args k (relevant_sync_changes d cs) (row_at (sd_key d) (cl_rows (flushed p d s)) k)"
      using parts by blast
    then show ?thesis
    proof cases
      case result
      then obtain v r where v: "result = Some v" "sync_snapshot_rows (co_bytes p) v d = Ok r" "same_rows d (cl_rows (flushed p d ?s)) (fst r)"
        unfolding same_result_def by blast
      have "sl_revision (ss_db s) \<le> sl_revision db'" using db1(1) db2(1) by (auto simp: db_later_def)
      then have "row_versions d args db' (sl_revision (ss_db s)) (fst r)"
        using plain db2(2) handler v unfolding plain_collection_def by (metis prod.collapse)
      then show ?thesis unfolding flushed cursor using versions_same[OF v(3)] by blast
    next
      case ready
      then show ?thesis unfolding flushed cursor using versions_later[OF versions_later[OF old db1(1)] db2(1)] by simp
    next
      case log
      have "snd (sb_cursor sub) \<le> sl_revision (ss_db s)" "sl_revision (ss_db s) \<le> sl_revision db"
        using base(7)[OF sub False] db1(1) by (auto simp: db_later_def)
      moreover have "sd_visibility_tables d = []" "sd_table d \<noteq> ''''" "trim_space (sd_table d) = sd_table d"
        using plain by (simp_all add: plain_collection_def)
      ultimately have "row_versions d args db (sl_revision (ss_db s)) (cl_rows (flushed p d ?s))"
        using versions_replayed[OF db1(2) versions_later[OF old[OF log(1)] db1(1)] _ _ _ _ _ log(2,3)] by blast
      then show ?thesis unfolding flushed cursor using versions_later db2(1) by blast
    qed
  qed
qed

lemma advance_versions:
  assumes "row_versions d args db c rows" and "sl_history db (c + 1) (sd_table d) = sl_history db c (sd_table d)" and "c + 1 \<le> sl_revision db"
  shows "row_versions d args db (c + 1) rows"
  unfolding row_versions_def
proof
  fix k
  obtain r where r: "c \<le> r" "r \<le> sl_revision db" "map_option canonical_sync_json (row_at (sd_key d) rows k) =
      map_option canonical_sync_json (visible d args (sl_history db r (sd_table d) k))" using assms(1) unfolding row_versions_def by blast
  then show "\<exists>r\<ge>c + 1. r \<le> sl_revision db \<and> map_option canonical_sync_json (row_at (sd_key d) rows k) =
      map_option canonical_sync_json (visible d args (sl_history db r (sd_table d) k))"
    using assms(2,3) by (cases "r = c") (auto intro: exI[of _ r] exI[of _ "c + 1"])
qed

lemma quiet_rows: "set ms \<subseteq> {Sync_Syncing reason, Sync_Error} \<Longrightarrow> cl_rows (client_steps hash digest bytes order d ms cl) = cl_rows cl"
  by (induction ms arbitrary: cl) auto

lemma advance_rows:
  assumes good: "good_parameters hash digest bytes order d" and "in_step hash bytes d sub cl" "cursor_ok limit cl" "fst c = fst limit" "snd limit \<le> snd c"
  shows "cl_rows (client_steps hash digest bytes order d (ready_messages digest emit c sub @ (if w then [Sync_Watermark r] else [])) cl) = cl_rows cl"
proof -
  have "cl_rows (client_watermark r cl') = cl_rows cl'" for cl' by (simp add: client_watermark_def split: option.splits)
  then show ?thesis using ready_messages_ok[OF assms refl, of emit] by simp
qed

lemma session_exact_step:
  assumes "session_step p d args s s'" and "session_exact p d args s" and plain: "plain_collection p d args"
  shows "session_exact p d args s'"
proof -
  have ok: "session_ok p d args s" using assms(2) by (simp add: session_exact_def)
  note base = session_okD[OF ok]
  have ok': "session_ok p d args s'" using session_step_ok[OF assms(1) ok] .
  have old: "row_versions d args (ss_db s) (snd (sb_cursor sub)) (cl_rows (flushed p d s))"
    if "ss_sub s = Some sub" "\<not> sb_closed sub" "sb_verified sub" for sub
    using assms(2) that by (simp add: session_exact_def)
  have "row_versions d args (ss_db s') (snd (sb_cursor sub)) (cl_rows (flushed p d s'))"
    if sub: "ss_sub s' = Some sub" "\<not> sb_closed sub" "sb_verified sub" for sub
    using assms(1)
  proof cases
    case (database db)
    then have "db_later (ss_db s) db" using log_step_later by (simp add: db_step_def)
    then show ?thesis using versions_later old sub by (simp add: database(1))
  next
    case (receive m ms)
    then have "flushed p d s' = flushed p d s" by (simp add: flushed_def)
    then show ?thesis using old sub by (simp add: receive(1))
  next
    case (open_ok db result sub0 ms)
    have later: "db_later (ss_db s) db" "log_ok db" using db_steps[OF open_ok(2) base(1,2)] by blast+
    have "\<not> resumable (open_request (co_hash p) (co_digest p) d (ss_client s)) (db_cursor p (ss_db s)) (sl_retained (ss_db s))"
      using open_ok(5) sub by (auto simp: open_ok(1) open_sync_def opened_subscription_def)
    then obtain v rows tr where v: "result = Some v" "sync_snapshot_rows (co_bytes p) v d = Ok (rows, tr)" and ms: "ms = [Sync_Snapshot (db_cursor p (ss_db s)) rows tr]"
      and sub0: "sub0 = (opened_subscription (open_request (co_hash p) (co_digest p) d (ss_client s)) (db_cursor p (ss_db s)))\<lparr>sb_keys := map fst (sync_rows_by_key rows (sd_key d)),
            sb_hashes := sync_rows_hashes (co_hash p) rows (sd_key d), sb_truncated := tr, sb_verified := True, sb_acquired := True\<rparr>"
      using open_ok(5) by (auto simp: open_sync_def open_snapshot_def split: option.splits outcome.splits)
    have cursor: "snd (db_cursor p (ss_db s)) = sl_revision (ss_db s)" by (simp add: db_cursor_def)
    have "sl_revision (ss_db s) \<le> sl_revision db" using later(1) by (simp add: db_later_def)
    then have "row_versions d args db (sl_revision (ss_db s)) rows"
      using plain later(2) open_ok(3) v unfolding plain_collection_def by blast
    moreover have "row_at (sd_key d) (cl_rows (flushed p d s')) k = row_at (sd_key d) rows k" for k
      using snapshot_agrees(2)[OF base(3,4) cursor v(2) sub0] by (simp add: open_ok(1) flushed_def ms)
    moreover have "sub = sub0" using sub by (simp add: open_ok(1))
    then have "snd (sb_cursor sub) = sl_revision (ss_db s)" using cursor by (simp add: sub0 opened_subscription_def)
    ultimately show ?thesis by (simp add: open_ok(1) row_versions_def)
  next
    case open_failed
    then show ?thesis using sub by simp
  next
    case (deliver sub0 db db' result connected sub' ms)
    then show ?thesis using deliver_exact[OF assms(2) plain deliver(2-7)] sub by simp
  next
    case (deliver_failed sub0 connected clock read result ms)
    have "set (ms @ [Sync_Error]) \<subseteq> {Sync_Syncing ''reconciling'', Sync_Error}" using deliver_sync_failed[OF deliver_failed(3)] by auto
    then have "cl_rows (flushed p d s') = cl_rows (flushed p d s)"
      unfolding deliver_failed(1) flushed_append by (rule quiet_rows)
    then show ?thesis using old sub by (simp add: deliver_failed(1))
  next
    case (notify sub0 clock ne nr tables watermark connected sub' sched ms)
    from notify(5) show ?thesis
    proof (cases rule: notify_cases)
      case (1 de r)
      have sub': "sub = sub'" using sub by (simp add: notify(1))
      have agree: "agrees (co_hash p) (co_digest p) (co_bytes p) d sub0 (flushed p d s)" using base(8)[OF notify(2) 1(5)] .
      then have step: "in_step (co_hash p) (co_bytes p) d sub' (flushed p d s)" and cursor: "cursor_ok (sb_cursor sub0) (flushed p d s)"
        using agrees_in_step[OF agree] 1(6) by (auto simp: agrees_def compact_resume_def in_step_def 1(9))
      have rows: "cl_rows (flushed p d s') = cl_rows (flushed p d s)"
        using advance_rows[OF base(3) step cursor, of "(co_epoch p de, nr)" "\<not> watermark \<and> connected" "watermark \<and> connected" nr] 1(7,8)
        by (simp add: notify(1) flushed_def 1(10))
      have r: "de = sl_epoch (ss_db s)" "r = sl_revision (ss_db s)" using notify(3) 1(1) by auto
      have "sd_table d \<notin> set tables" using 1(4) by (auto simp: sync_intersects_tables_def intersects_strings_def list_ex_iff)
      then have same: "sl_history (ss_db s) nr (sd_table d) = sl_history (ss_db s) (nr - 1) (sd_table d)"
        using notify(4) 1(2,3,8) r by simp
      have "row_versions d args (ss_db s) nr (cl_rows (flushed p d s))"
        using advance_versions[OF old[OF notify(2) 1(5,6)]] same 1(3,8) r by simp
      then show ?thesis unfolding rows sub' 1(9) by (simp add: notify(1))
    next
      case 2
      then have "flushed p d s' = flushed p d s" by (simp add: notify(1) flushed_def)
      then show ?thesis using old[OF notify(2)] sub 2 by (simp add: notify(1))
    qed
  next
    case (begin_delivery sub0 sub' runs)
    have "sb_cursor sub = sb_cursor sub0" "sb_closed sub = sb_closed sub0" "sb_verified sub = sb_verified sub0"
      using sub begin_delivery by (auto simp: begin_sync_delivery_def split: if_splits)
    then show ?thesis using old[OF begin_delivery(2)] sub by (simp add: begin_delivery(1))
  next
    case (finish_delivery sub0 sub' again)
    have "sb_cursor sub = sb_cursor sub0" "sb_closed sub = sb_closed sub0" "sb_verified sub = sb_verified sub0"
      using sub finish_delivery by (auto simp: finish_sync_delivery_def split: if_splits)
    then show ?thesis using old[OF finish_delivery(2)] sub by (simp add: finish_delivery(1))
  qed
  then show ?thesis using ok' by (simp add: session_exact_def)
qed

lemma session_exact_reachable:
  assumes "session_start p d args s0" and "(session_step p d args)\<^sup>*\<^sup>* s0 s" and "plain_collection p d args"
  shows "session_exact p d args s"
  using assms(2)
proof (induction rule: rtranclp_induct)
  case base
  then show ?case using sync_session.inv_init[OF assms(1)] assms(1) by (simp add: session_exact_def session_start_def)
next
  case (step s s')
  then show ?case using session_exact_step[OF _ _ assms(3)] by blast
qed

lemma versions_head: "row_versions d args db (sl_revision db) rows \<Longrightarrow>
    map_option canonical_sync_json (row_at (sd_key d) rows k) = map_option canonical_sync_json (visible d args (sl_history db (sl_revision db) (sd_table d) k))"
  unfolding row_versions_def by (metis le_antisym)

text \<open>A delivery that nothing refuses.\<close>

lemma deliver_sync_runs:
  assumes "sb_verified sub" "\<not> sb_closed sub" "fst latest = fst (sb_cursor sub)" and result: "sync_snapshot_rows bytes v d = Ok r"
    and read: "snd (sb_cursor sub) < snd latest \<Longrightarrow> \<exists>cs. read (snd (sb_cursor sub)) (snd latest) (sd_table d # sd_visibility_tables d) = Ok cs"
  shows "\<exists>sub' ms. deliver_sync hash digest bytes d args connected (Some latest) read (Some v) sub = Delivered (sub', ms) \<and> \<not> sb_closed sub'"
proof (cases "snd latest \<le> snd (sb_cursor sub)")
  case True
  then show ?thesis using assms(1-3) by (simp add: deliver_sync_def)
next
  case False
  then obtain cs where cs: "read (snd (sb_cursor sub)) (snd latest) (sd_table d # sd_visibility_tables d) = Ok cs" using read by auto
  let ?cs = "relevant_sync_changes d cs"
  have "\<not> compact_resume sub" using assms(1) by (simp add: compact_resume_def)
  then have auth: "deliver_authoritative hash digest bytes d ?cs latest (Some v) sub =
      Delivered (True, verified_with hash d latest r sub, authoritative_delta hash digest d ?cs latest (fst r) sub)"
    by (simp add: deliver_authoritative_def result)
  have run: "deliver_sync hash digest bytes d args connected (Some latest) read (Some v) sub = deliver_changes hash digest bytes d args connected latest ?cs (Some v) sub"
    using False assms(1-3) cs by (simp add: deliver_sync_def)
  have closed: "sb_closed sub'' = sb_closed sub" if "deliver_batches hash digest d args e bs sub = (sub'', ms)" for e bs sub'' ms
    using that
  proof (induction bs arbitrary: sub ms)
    case (Cons b bs)
    then show ?case using batch_flags[of hash digest d args e b sub] by (auto split: prod.splits)
  qed simp
  show ?thesis unfolding run
    using assms(1,2) auth by (auto simp: deliver_changes_def then_ready_def Let_def split: prod.splits dest: closed)
qed

section \<open>Properties\<close>




section \<open>A session\<close>

definition demo_definition :: sync_definition where
  "demo_definition = \<lparr>sd_table = ''tasks'', sd_key = ''id'', sd_columns = [''id'', ''title''], sd_equal_filters = [], sd_exclude_when_set = [],
     sd_visibility_tables = [], sd_visibility_columns = [], sd_order_by = '''', sd_order_direction = '''', sd_mode = ''eager'', sd_max_rows = 0,
     sd_max_bytes = 0, sd_retention = 0\<rparr>"

definition demo_row :: json where "demo_row = JObj [(''id'', JStr ''1''), (''title'', JStr ''write'')]"

definition demo_hash :: "json \<Rightarrow> string" where "demo_hash x = (if x = demo_row then ''a'' else ''b'')"

definition demo_digest :: "(string \<times> string) list \<Rightarrow> string" where "demo_digest ps = (if ps = [] then ''e'' else ''f'')"

definition demo_code :: sync_code where
  "demo_code = \<lparr>co_hash = demo_hash, co_digest = demo_digest, co_bytes = \<lambda>x. 1, co_order = \<lambda>rows. rows,
     co_epoch = \<lambda>e. e, co_handler = \<lambda>db r result. \<forall>v rows truncated. result = Some v \<and> sync_snapshot_rows (\<lambda>x. 1) v demo_definition = Ok (rows, truncated) \<longrightarrow>
       row_versions demo_definition [] db r rows\<rparr>"

definition demo_tables :: tables where "demo_tables t k = (if t = ''tasks'' \<and> k = ''1'' then Some demo_row else None)"

definition demo_db :: sync_db where
  "demo_db = \<lparr>sl_epoch = ''e'', sl_revision = 0, sl_retained = 0, sl_changes = [], sl_tables = demo_tables, sl_history = \<lambda>r. demo_tables\<rparr>"

definition demo_client :: sync_client where
  "demo_client = \<lparr>cl_opening = False, cl_cursor = None, cl_floor = None, cl_retired = [], cl_rows = [], cl_truncated = None, cl_up_to_date = False, cl_force_full = False\<rparr>"

definition demo_session :: sync_session where
  "demo_session = \<lparr>ss_db = demo_db, ss_sub = None, ss_wire = [], ss_client = demo_client\<rparr>"

definition demo_sub :: sync_subscription where
  "demo_sub = \<lparr>sb_cursor = (''e'', 0), sb_keys = [''1''], sb_hashes = [(''1'', ''a'')], sb_client_digest = '''', sb_full_integrity = False, sb_truncated = False,
     sb_verified = True, sb_closed = False, sb_acquired = True, sb_running = False, sb_pending = False\<rparr>"

definition demo_opened :: sync_session where
  "demo_opened = \<lparr>ss_db = demo_db, ss_sub = Some demo_sub, ss_wire = [],
     ss_client = demo_client\<lparr>cl_cursor := Some (''e'', 0), cl_floor := Some (''e'', 0), cl_rows := [demo_row]\<rparr>\<rparr>"

lemma demo_code_fields: "co_hash demo_code = demo_hash" "co_digest demo_code = demo_digest" "co_bytes demo_code = (\<lambda>x. 1)" "co_order demo_code = (\<lambda>rows. rows)"
    "co_epoch demo_code = (\<lambda>e. e)"
  by (simp_all add: demo_code_def)

lemma demo_snapshot: "sync_snapshot_rows (\<lambda>x. 1) (JArr [demo_row]) demo_definition = Ok ([demo_row], False)" by code_simp

lemma demo_versions: "row_versions demo_definition [] demo_db 0 [demo_row]"
proof -
  have "sync_row_key demo_row ''id'' = ''1''" by code_simp
  moreover have "sync_value_matches demo_row demo_definition []" by code_simp
  ultimately show ?thesis by (auto simp: row_versions_def demo_db_def demo_tables_def visible_def demo_definition_def)
qed

lemma demo_handler: "co_handler demo_code demo_db 0 (Some (JArr [demo_row]))"
  using demo_versions demo_snapshot by (auto simp: demo_code_def)

lemma demo_start: "session_start demo_code demo_definition [] demo_session"
proof -
  have "log_ok demo_db" by (simp add: log_ok_def in_order_def demo_db_def)
  moreover have "good_parameters (co_hash demo_code) (co_digest demo_code) (co_bytes demo_code) (co_order demo_code) demo_definition"
  proof -
    have "trim_space ''a'' = ''a''" "trim_space ''b'' = ''b''" "trim_space ''e'' = ''e''" "trim_space ''f'' = ''f''" by code_simp+
    then show ?thesis by (simp add: good_parameters_def demo_code_fields demo_hash_def demo_digest_def demo_definition_def)
  qed
  ultimately show ?thesis
    by (simp add: session_start_def demo_session_def db_keyed_def demo_db_def client_ok_def demo_client_def)
qed

lemma demo_plain: "plain_collection demo_code demo_definition []"
proof -
  have "trim_space ''tasks'' = ''tasks''" by code_simp
  then show ?thesis by (auto simp: plain_collection_def demo_code_def demo_definition_def)
qed

lemma demo_steps: "(session_step demo_code demo_definition [])\<^sup>*\<^sup>* demo_session demo_opened"
proof -
  let ?s = "demo_session\<lparr>ss_db := demo_db, ss_sub := Some demo_sub, ss_wire := [Sync_Snapshot (''e'', 0) [demo_row] False], ss_client := demo_client\<lparr>cl_opening := True\<rparr>\<rparr>"
  have "open_sync demo_hash (\<lambda>x. 1) demo_definition (open_request demo_hash demo_digest demo_definition demo_client) (''e'', 0) 0 (Some (JArr [demo_row])) =
      Delivered (demo_sub, [Sync_Snapshot (''e'', 0) [demo_row] False])"
    by code_simp
  then have "open_sync (co_hash demo_code) (co_bytes demo_code) demo_definition (open_request (co_hash demo_code) (co_digest demo_code) demo_definition (ss_client demo_session))
      (db_cursor demo_code (ss_db demo_session)) (sl_retained (ss_db demo_session)) (Some (JArr [demo_row])) =
      Delivered (demo_sub, [Sync_Snapshot (''e'', 0) [demo_row] False])"
    by (simp add: demo_code_fields demo_session_def demo_db_def db_cursor_def)
  moreover have "trimmed_keys demo_definition (cl_rows (ss_client demo_session))" by (simp add: trimmed_keys_def demo_session_def demo_client_def)
  moreover have "co_handler demo_code demo_db (sl_revision (ss_db demo_session)) (Some (JArr [demo_row]))"
    using demo_handler by (simp add: demo_session_def demo_db_def)
  ultimately have "session_step demo_code demo_definition [] demo_session (demo_session\<lparr>ss_db := demo_db, ss_sub := Some demo_sub,
      ss_wire := [Sync_Snapshot (''e'', 0) [demo_row] False], ss_client := (ss_client demo_session)\<lparr>cl_opening := True\<rparr>\<rparr>)"
    by (intro session_step.open_ok[where result = "Some (JArr [demo_row])"]) (simp_all add: demo_session_def)
  then have "session_step demo_code demo_definition [] demo_session ?s" by (simp add: demo_session_def)
  moreover have "session_step demo_code demo_definition [] ?s demo_opened"
  proof -
    have "client_step demo_hash demo_digest (\<lambda>x. 1) (\<lambda>rows. rows) demo_definition (Sync_Snapshot (''e'', 0) [demo_row] False)
        (demo_client\<lparr>cl_opening := True\<rparr>) = demo_client\<lparr>cl_cursor := Some (''e'', 0), cl_floor := Some (''e'', 0), cl_rows := [demo_row]\<rparr>"
      by code_simp
    then have "demo_opened = ?s\<lparr>ss_wire := [], ss_client := client_step (co_hash demo_code) (co_digest demo_code) (co_bytes demo_code) (co_order demo_code) demo_definition
        (Sync_Snapshot (''e'', 0) [demo_row] False) (ss_client ?s)\<rparr>"
      by (simp add: demo_opened_def demo_session_def demo_code_fields)
    moreover have "ss_wire ?s = [Sync_Snapshot (''e'', 0) [demo_row] False]" by simp
    ultimately show ?thesis by (metis session_step.receive)
  qed
  ultimately show ?thesis by (metis rtranclp.rtrancl_into_rtrancl rtranclp.rtrancl_refl)
qed

lemma demo_at: "ss_sub demo_opened = Some demo_sub" "\<not> sb_closed demo_sub" "sb_verified demo_sub" "ss_wire demo_opened = []"
    "sl_revision (ss_db demo_opened) = 0" "snd (sb_cursor demo_sub) = 0" "ss_db demo_opened = demo_db" "sl_retained demo_db = 0"
    "flushed demo_code demo_definition demo_opened = ss_client demo_opened" "cl_rows (ss_client demo_opened) = [demo_row]"
    "sd_key demo_definition = ''id''" "sd_table demo_definition = ''tasks''" "sb_keys demo_sub = [''1'']" "sl_tables demo_db ''tasks'' ''1'' = Some demo_row"
  by (simp_all add: demo_opened_def demo_sub_def demo_db_def flushed_def demo_definition_def demo_tables_def)




end
