(* ===== verification/Job_Store.thy ===== *)
theory Job_Store
  imports Gonvex_Prelude
begin

text \<open>
  The interface \<open>scheduledJobStore\<close> of \<open>scheduler_store.go\<close> (a record of the five methods)
  and what its clients rely on: the locale \<open>leased_store\<close>. A method takes the clock of the
  store's server and the store's state; times are nanoseconds since 1970. \<open>None\<close> and \<open>False\<close>
  stand for a returned error.
\<close>

section \<open>Jobs\<close>

record scheduled_job =
  j_id :: string
  j_token :: string
  j_project :: string
  j_tenant :: string
  j_function :: string
  j_args :: string
  j_run_at :: int
  j_scheduled_for :: int
  j_cron :: string

text \<open>Go's zero time, 1 January of year 1.\<close>

definition zero_time :: int where "zero_time = - 62135596800000000000"

definition scheduled_job_lease :: int where "scheduled_job_lease = 300000000000"

definition is_cron :: "scheduled_job \<Rightarrow> bool" where "is_cron j \<longleftrightarrow> j_cron j \<noteq> ''''"

section \<open>The interface\<close>

record 's job_store =
  st_enqueue :: "int \<Rightarrow> scheduled_job \<Rightarrow> 's \<Rightarrow> 's \<times> bool"
  st_claim :: "int \<Rightarrow> int \<Rightarrow> int \<Rightarrow> string \<Rightarrow> 's \<Rightarrow> 's \<times> scheduled_job list option"
  st_renew :: "int \<Rightarrow> string \<Rightarrow> string \<Rightarrow> 's \<Rightarrow> 's \<times> bool option"
  st_complete :: "int \<Rightarrow> string \<Rightarrow> string \<Rightarrow> 's \<Rightarrow> 's \<times> bool"
  st_release :: "int \<Rightarrow> string \<Rightarrow> string \<Rightarrow> 's \<Rightarrow> 's \<times> bool"

text \<open>
  A history of calls, each with the store's clock: what the callers may believe from the
  results alone. A belief \<open>(i, t) \<mapsto> u\<close> says that the caller with token \<open>t\<close> holds job \<open>i\<close>
  until \<open>u\<close>; \<open>done\<close> holds the completed jobs with the time of completion.
\<close>

datatype store_op =
    Enqueue scheduled_job
  | Claim int int string
  | Renew string string
  | Complete string string
  | Release string string

record 's store_run =
  run_store :: 's
  run_held :: "string \<times> string \<Rightarrow> int option"
  run_done :: "string \<Rightarrow> int option"

definition believe :: "int \<Rightarrow> scheduled_job list \<Rightarrow> (string \<times> string \<Rightarrow> int option) \<Rightarrow>
    string \<times> string \<Rightarrow> int option" where
  "believe u js held = fold (\<lambda>j held. held((j_id j, j_token j) := Some u)) js held"

fun store_step :: "'s job_store \<Rightarrow> int \<Rightarrow> int \<times> store_op \<Rightarrow> 's store_run \<Rightarrow> 's store_run" where
  "store_step st lease (clk, Enqueue j) r = r\<lparr>run_store := fst (st_enqueue st clk j (run_store r))\<rparr>"
| "store_step st lease (clk, Claim now limit owner) r =
     (let (s, js) = st_claim st clk now limit owner (run_store r)
      in r\<lparr>run_store := s,
           run_held := (case js of None \<Rightarrow> run_held r | Some js \<Rightarrow> believe (clk + lease) js (run_held r))\<rparr>)"
| "store_step st lease (clk, Renew i t) r =
     (let (s, alive) = st_renew st clk i t (run_store r)
      in r\<lparr>run_store := s,
           run_held := (run_held r)((i, t) := (if alive = Some True then Some (clk + lease) else None))\<rparr>)"
| "store_step st lease (clk, Complete i t) r =
     (let held = (case run_held r (i, t) of None \<Rightarrow> False | Some u \<Rightarrow> clk < u);
          (s, fine) = st_complete st clk i t (run_store r)
      in r\<lparr>run_store := s, run_held := (run_held r)((i, t) := None),
           run_done := (if held \<and> fine then (run_done r)(i := Some clk) else run_done r)\<rparr>)"
| "store_step st lease (clk, Release i t) r =
     r\<lparr>run_store := fst (st_release st clk i t (run_store r)), run_held := (run_held r)((i, t) := None)\<rparr>"

definition store_run :: "'s job_store \<Rightarrow> int \<Rightarrow> (int \<times> store_op) list \<Rightarrow> 's store_run \<Rightarrow> 's store_run" where
  "store_run st lease ops r = fold (store_step st lease) ops r"

definition fresh_run :: "'s \<Rightarrow> 's store_run" where
  "fresh_run s = \<lparr>run_store = s, run_held = (\<lambda>_. None), run_done = (\<lambda>_. None)\<rparr>"

text \<open>
  The runtimes' clocks do not run ahead of the store's, and a runtime renews with the token it
  was given, which is never empty.
\<close>

definition ops_ok :: "(int \<times> store_op) list \<Rightarrow> bool" where
  "ops_ok ops \<longleftrightarrow>
     list_all (\<lambda>(clk, op). case op of Claim now _ _ \<Rightarrow> now \<le> clk | Renew _ t \<Rightarrow> t \<noteq> '''' | _ \<Rightarrow> True) ops"

section \<open>The contract\<close>

text \<open>
  \<open>holder c s i\<close> is the token that owns job \<open>i\<close> at time \<open>c\<close>; \<open>finished c s i\<close> says that \<open>i\<close> is
  completed and that the store still remembers it at \<open>c\<close>. A claim hands out distinct jobs for a
  whole lease; no call takes a job from a holder other than the caller; the holder's completion
  succeeds, and a finished job stays finished and is never handed out.
\<close>

locale leased_store =
  fixes st :: "'s job_store" and ok :: "'s \<Rightarrow> bool"
    and holder :: "int \<Rightarrow> 's \<Rightarrow> string \<Rightarrow> string option"
    and finished :: "int \<Rightarrow> 's \<Rightarrow> string \<Rightarrow> bool"
    and lease :: int and keep :: int
  assumes enqueue_ok: "ok s \<Longrightarrow> ok (fst (st_enqueue st clk j s))"
    and claim_ok: "ok s \<Longrightarrow> ok (fst (st_claim st clk now limit ow s))"
    and renew_ok: "ok s \<Longrightarrow> ok (fst (st_renew st clk i t s))"
    and complete_ok: "ok s \<Longrightarrow> ok (fst (st_complete st clk i t s))"
    and release_ok: "ok s \<Longrightarrow> ok (fst (st_release st clk i t s))"
    and enqueue_holder: "ok s \<Longrightarrow> clk \<le> c \<Longrightarrow> holder c s k = Some h \<Longrightarrow>
        holder c (fst (st_enqueue st clk j s)) k = Some h"
    and claim_distinct: "ok s \<Longrightarrow> st_claim st clk now limit ow s = (s', Some js) \<Longrightarrow> distinct (map j_id js)"
    and claim_holds: "ok s \<Longrightarrow> st_claim st clk now limit ow s = (s', Some js) \<Longrightarrow> j \<in> set js \<Longrightarrow>
        clk \<le> c \<Longrightarrow> c < clk + lease \<Longrightarrow> holder c s' (j_id j) = Some (j_token j)"
    and claim_keeps: "ok s \<Longrightarrow> clk \<le> c \<Longrightarrow> holder c s k = Some h \<Longrightarrow>
        holder c (fst (st_claim st clk now limit ow s)) k = Some h"
    and renew_holds: "ok s \<Longrightarrow> t \<noteq> '''' \<Longrightarrow> st_renew st clk i t s = (s', Some True) \<Longrightarrow> clk \<le> c \<Longrightarrow> c < clk + lease \<Longrightarrow>
        holder c s' i = Some t"
    and renew_keeps: "ok s \<Longrightarrow> clk \<le> c \<Longrightarrow> holder c s k = Some h \<Longrightarrow> (k, h) \<noteq> (i, t) \<Longrightarrow>
        holder c (fst (st_renew st clk i t s)) k = Some h"
    and complete_keeps: "ok s \<Longrightarrow> clk \<le> c \<Longrightarrow> holder c s k = Some h \<Longrightarrow> (k, h) \<noteq> (i, t) \<Longrightarrow>
        holder c (fst (st_complete st clk i t s)) k = Some h"
    and release_keeps: "ok s \<Longrightarrow> clk \<le> c \<Longrightarrow> holder c s k = Some h \<Longrightarrow> (k, h) \<noteq> (i, t) \<Longrightarrow>
        holder c (fst (st_release st clk i t s)) k = Some h"
    and complete_holder: "ok s \<Longrightarrow> holder clk s i = Some t \<Longrightarrow> clk \<le> c \<Longrightarrow> c < clk + keep \<Longrightarrow>
        snd (st_complete st clk i t s) \<and> finished c (fst (st_complete st clk i t s)) i"
    and claim_unfinished: "ok s \<Longrightarrow> finished clk s i \<Longrightarrow> st_claim st clk now limit ow s = (s', Some js) \<Longrightarrow>
        j \<in> set js \<Longrightarrow> j_id j \<noteq> i"
    and claim_finished: "ok s \<Longrightarrow> finished c s i \<Longrightarrow> clk \<le> c \<Longrightarrow> c < clk + keep \<Longrightarrow> now \<le> clk \<Longrightarrow>
        finished c (fst (st_claim st clk now limit ow s)) i"
    and enqueue_finished: "ok s \<Longrightarrow> finished c s i \<Longrightarrow> clk \<le> c \<Longrightarrow> finished c (fst (st_enqueue st clk j s)) i"
    and renew_finished: "ok s \<Longrightarrow> finished c s i \<Longrightarrow> clk \<le> c \<Longrightarrow> finished c (fst (st_renew st clk k t s)) i"
    and complete_finished: "ok s \<Longrightarrow> finished c s i \<Longrightarrow> clk \<le> c \<Longrightarrow> c < clk + keep \<Longrightarrow>
        finished c (fst (st_complete st clk k t s)) i"
    and release_finished: "ok s \<Longrightarrow> finished c s i \<Longrightarrow> clk \<le> c \<Longrightarrow> finished c (fst (st_release st clk k t s)) i"
begin

text \<open>What a run may believe at time \<open>c\<close> is true.\<close>

definition sound :: "int \<Rightarrow> 's store_run \<Rightarrow> bool" where
  "sound c r \<longleftrightarrow> ok (run_store r)
   \<and> (\<forall>i t u c'. run_held r (i, t) = Some u \<longrightarrow> c \<le> c' \<longrightarrow> c' < u \<longrightarrow> holder c' (run_store r) i = Some t)
   \<and> (\<forall>i d c'. run_done r i = Some d \<longrightarrow> c \<le> c' \<longrightarrow> c' < d + keep \<longrightarrow> finished c' (run_store r) i)
   \<and> (\<forall>i d. run_done r i = Some d \<longrightarrow> d \<le> c)"

lemma sound_later: "sound c r \<Longrightarrow> c \<le> c' \<Longrightarrow> sound c' r"
  unfolding sound_def by (meson order_trans)

lemma believe_Some:
  "believe u js held (i, t) = Some v \<Longrightarrow>
   (\<exists>j \<in> set js. j_id j = i \<and> j_token j = t \<and> v = u) \<or> held (i, t) = Some v"
  unfolding believe_def
  by (induction js arbitrary: held) (fastforce simp: fun_upd_def split: if_splits)+

lemma enqueue_sound:
  assumes "sound clk r"
  shows "sound clk (store_step st lease (clk, Enqueue j) r)"
  using assms unfolding sound_def
  by (auto intro: enqueue_ok enqueue_holder enqueue_finished)

lemma release_sound:
  assumes "sound clk r"
  shows "sound clk (store_step st lease (clk, Release k h) r)"
  using assms unfolding sound_def
  by (auto intro!: release_ok release_keeps release_finished)

lemma renew_sound:
  assumes "sound clk r" and "h \<noteq> ''''"
  shows "sound clk (store_step st lease (clk, Renew k h) r)"
proof -
  obtain s' alive where eq: "st_renew st clk k h (run_store r) = (s', alive)" by fastforce
  have ok: "ok (run_store r)" using assms(1) by (simp add: sound_def)
  have s': "s' = fst (st_renew st clk k h (run_store r))" by (simp add: eq)
  have "holder c' s' i = Some t"
    if "((run_held r)((k, h) := if alive = Some True then Some (clk + lease) else None)) (i, t) = Some u"
      "clk \<le> c'" "c' < u" for i t u c'
  proof (cases "(i, t) = (k, h)")
    case True
    then show ?thesis using that renew_holds [OF ok assms(2)] eq by (auto split: if_splits)
  next
    case False
    then have "holder c' (run_store r) i = Some t" using assms(1) that by (auto simp: sound_def)
    then show ?thesis unfolding s' using renew_keeps [OF ok that(2) _ False] by blast
  qed
  moreover have "finished c' s' i" if "run_done r i = Some d" "clk \<le> c'" "c' < d + keep" for i d c'
    unfolding s' using assms(1) that by (auto simp: sound_def intro!: renew_finished)
  moreover have "ok s'" unfolding s' by (rule renew_ok [OF ok])
  ultimately show ?thesis using assms(1) unfolding sound_def by (simp add: eq)
qed

lemma claim_sound:
  assumes "sound clk r" and "now \<le> clk"
  shows "sound clk (store_step st lease (clk, Claim now limit ow) r)"
proof -
  obtain s' js where eq: "st_claim st clk now limit ow (run_store r) = (s', js)" by fastforce
  have ok: "ok (run_store r)" using assms(1) by (simp add: sound_def)
  have s': "s' = fst (st_claim st clk now limit ow (run_store r))" by (simp add: eq)
  have old: "holder c' s' i = Some t" if "run_held r (i, t) = Some u" "clk \<le> c'" "c' < u" for i t u c'
    unfolding s' using assms(1) that by (intro claim_keeps [OF ok that(2)]) (auto simp: sound_def)
  have "holder c' s' i = Some t"
    if "(case js of None \<Rightarrow> run_held r | Some js \<Rightarrow> believe (clk + lease) js (run_held r)) (i, t) = Some u"
      "clk \<le> c'" "c' < u" for i t u c'
  proof (cases js)
    case None
    then show ?thesis using that old by simp
  next
    case (Some l)
    then have "believe (clk + lease) l (run_held r) (i, t) = Some u" using that(1) by simp
    then consider j where "j \<in> set l" "j_id j = i" "j_token j = t" "u = clk + lease" | "run_held r (i, t) = Some u"
      using believe_Some by blast
    then show ?thesis
      using claim_holds [OF ok eq [unfolded Some] _ that(2)] that(2,3) old by cases auto
  qed
  moreover have "finished c' s' i" if "run_done r i = Some d" "clk \<le> c'" "c' < d + keep" for i d c'
  proof -
    have "d \<le> clk" and fin: "finished c' (run_store r) i" using assms(1) that unfolding sound_def by blast+
    then have "c' < clk + keep" using that(3) by linarith
    then show ?thesis unfolding s' by (rule claim_finished [OF ok fin that(2) _ assms(2)])
  qed
  moreover have "ok s'" unfolding s' by (rule claim_ok [OF ok])
  ultimately show ?thesis using assms(1) unfolding sound_def by (simp add: eq)
qed

lemma complete_sound:
  assumes "sound clk r"
  shows "sound clk (store_step st lease (clk, Complete k h) r)"
proof -
  obtain s' fine where eq: "st_complete st clk k h (run_store r) = (s', fine)" by fastforce
  have ok: "ok (run_store r)" using assms by (simp add: sound_def)
  have s': "s' = fst (st_complete st clk k h (run_store r))" by (simp add: eq)
  define held where "held \<longleftrightarrow> (case run_held r (k, h) of None \<Rightarrow> False | Some u \<Rightarrow> clk < u)"
  have "holder c' s' i = Some t"
    if "((run_held r)((k, h) := None)) (i, t) = Some u" "clk \<le> c'" "c' < u" for i t u c'
    unfolding s' using assms that
    by (intro complete_keeps [OF ok that(2)]) (auto simp: sound_def split: if_splits)
  moreover have "finished c' s' i"
    if "(if held \<and> fine then (run_done r)(k := Some clk) else run_done r) i = Some d" "clk \<le> c'" "c' < d + keep" for i d c'
  proof (cases "held \<and> fine \<and> i = k")
    case True
    then have "holder clk (run_store r) k = Some h" using assms by (auto simp: sound_def held_def split: option.splits)
    then show ?thesis unfolding s' using complete_holder [OF ok] that True by auto
  next
    case False
    then have "run_done r i = Some d" using that(1) by (auto split: if_splits)
    with assms have "d \<le> clk" and fin: "finished c' (run_store r) i" using that(2,3) unfolding sound_def by blast+
    then have "c' < clk + keep" using that(3) by linarith
    then show ?thesis unfolding s' by (rule complete_finished [OF ok fin that(2)])
  qed
  moreover have "d \<le> clk" if "(if held \<and> fine then (run_done r)(k := Some clk) else run_done r) i = Some d" for i d
    using that assms by (auto simp: sound_def split: if_splits)
  moreover have "ok s'" unfolding s' by (rule complete_ok [OF ok])
  ultimately show ?thesis unfolding sound_def by (simp add: eq held_def)
qed

lemmas step_sound = enqueue_sound release_sound renew_sound claim_sound complete_sound

lemma run_sound_from:
  assumes "sound c0 r" and "\<forall>c \<in> fst ` set ops. c0 \<le> c" and "sorted (map fst ops)" and "ops_ok ops"
    and "\<forall>c \<in> fst ` set ops. c \<le> c1" and "c0 \<le> c1"
  shows "sound c1 (store_run st lease ops r)"
  using assms
proof (induction ops arbitrary: r c0)
  case Nil
  then show ?case by (auto simp: store_run_def intro: sound_later)
next
  case (Cons x ops)
  obtain clk op where x: "x = (clk, op)" by fastforce
  have "sound clk r" using Cons.prems x by (auto intro: sound_later)
  then have "sound clk (store_step st lease x r)"
    using Cons.prems(4) unfolding x
    by (cases op) (auto simp: ops_ok_def simp del: store_step.simps intro!: step_sound)
  from Cons.IH [OF this] show ?case
    using Cons.prems x by (auto simp: store_run_def ops_ok_def)
qed

lemma run_sound:
  assumes "ok s" and "sorted (map fst ops)" and "ops_ok ops" and "\<forall>c \<in> fst ` set ops. c \<le> c1"
  shows "sound c1 (store_run st lease ops (fresh_run s))"
proof -
  have fresh: "sound c (fresh_run s)" for c using assms(1) by (simp add: sound_def fresh_run_def)
  show ?thesis
  proof (cases ops)
    case Nil
    then show ?thesis using fresh by (simp add: store_run_def)
  next
    case (Cons x l)
    show ?thesis
      by (rule run_sound_from [OF fresh [of "fst x"]]) (use assms Cons in auto)
  qed
qed

text \<open>Two callers that both believe to hold a job at the same time are the same.\<close>

lemma exclusive:
  assumes "ok s" and "sorted (map fst ops)" and "ops_ok ops" and "\<forall>c \<in> fst ` set ops. c \<le> c1"
    and "run_held (store_run st lease ops (fresh_run s)) (i, t) = Some u" and "c1 < u"
    and "run_held (store_run st lease ops (fresh_run s)) (i, t') = Some u'" and "c1 < u'"
  shows "t = t'"
proof -
  have snd: "sound c1 (store_run st lease ops (fresh_run s))" by (rule run_sound [OF assms(1-4)])
  have "holder c1 (run_store (store_run st lease ops (fresh_run s))) i = Some t"
    using snd assms(5,6) unfolding sound_def by blast
  moreover have "holder c1 (run_store (store_run st lease ops (fresh_run s))) i = Some t'"
    using snd assms(7,8) unfolding sound_def by blast
  ultimately show ?thesis by simp
qed

text \<open>A job completed by its holder is not handed out again while the store remembers it.\<close>

lemma completed_final:
  assumes "ok s" and "sorted (map fst ops)" and "ops_ok ops" and "\<forall>c \<in> fst ` set ops. c \<le> c1"
    and "run_done (store_run st lease ops (fresh_run s)) i = Some d" and "c1 < d + keep"
    and "st_claim st c1 now limit ow (run_store (store_run st lease ops (fresh_run s))) = (s', Some js)"
    and "j \<in> set js"
  shows "j_id j \<noteq> i"
proof -
  have snd: "sound c1 (store_run st lease ops (fresh_run s))" by (rule run_sound [OF assms(1-4)])
  have "finished c1 (run_store (store_run st lease ops (fresh_run s))) i"
    using snd assms(5,6) unfolding sound_def by blast
  moreover have "ok (run_store (store_run st lease ops (fresh_run s)))" using snd by (simp add: sound_def)
  ultimately show ?thesis using claim_unfinished assms(7,8) by blast
qed

end
text \<open>
  The stronger contract of a store that never hands out a job which somebody holds, not even
  under the same token.
\<close>

locale exclusive_store = leased_store +
  assumes claim_free: "ok s \<Longrightarrow> st_claim st clk now limit ow s = (s', Some js) \<Longrightarrow> j \<in> set js \<Longrightarrow>
        clk \<le> c \<Longrightarrow> holder c s (j_id j) = None"
begin

lemma held_not_claimed:
  assumes "ok s" and "sorted (map fst ops)" and "ops_ok ops" and "\<forall>c \<in> fst ` set ops. c \<le> c1"
    and "run_held (store_run st lease ops (fresh_run s)) (i, t) = Some u" and "c1 < u"
    and "st_claim st c1 now limit ow (run_store (store_run st lease ops (fresh_run s))) = (s', Some js)"
  shows "i \<notin> j_id ` set js"
proof
  have snd: "sound c1 (store_run st lease ops (fresh_run s))" by (rule run_sound [OF assms(1-4)])
  then have held: "holder c1 (run_store (store_run st lease ops (fresh_run s))) i = Some t"
    unfolding sound_def using assms(5,6) by blast
  assume "i \<in> j_id ` set js"
  then obtain j where "j \<in> set js" "j_id j = i" by auto
  then show False using claim_free [OF _ assms(7), of j c1] snd held by (auto simp: sound_def)
qed

end

end
