(* ===== verification/Postgres_Store.thy ===== *)
theory Postgres_Store
  imports Job_Store "HOL-Library.Product_Lexorder"
begin

text \<open>
  \<open>scheduler_postgres_store.go\<close>: the durable job table. Each SQL statement is one function of
  the table, a list of rows with distinct primary keys; a transaction is the composition of its
  statements. \<open>locked\<close> are the ids whose rows another transaction has locked at a given time
  (\<open>SKIP LOCKED\<close>), \<open>jsonb\<close> is the server's reading of a \<open>jsonb\<close> parameter, which may refuse it,
  \<open>clk\<close> is the server's \<open>now()\<close>. Text compares by bytes (collation C). Times lose what is
  below a microsecond. The order in which \<open>RETURNING\<close> lists rows is not defined by SQL; here
  it is the table's.
\<close>

section \<open>The table\<close>

datatype job_status = Pending | Completed

record pg_row =
  r_job :: scheduled_job
  r_status :: job_status
  r_sequence :: int
  r_token :: string
  r_lease :: "int option"
  r_completed :: "int option"

text \<open>\<open>nextPrune\<close> belongs to the store object of one runtime, named by its owner string.\<close>

record pg_state =
  pg_rows :: "pg_row list"
  next_prune :: "string \<Rightarrow> int"

abbreviation r_id :: "pg_row \<Rightarrow> string" where "r_id r \<equiv> j_id (r_job r)"

definition completion_retention :: int where "completion_retention = 2592000000000000"
definition prune_interval :: int where "prune_interval = 60000000000"
definition prune_batch :: int where "prune_batch = 1000"

definition trunc_us :: "int \<Rightarrow> int" where "trunc_us t = t div 1000 * 1000"

lemma trunc_us_le: "trunc_us t \<le> t"
  using mult_div_mod_eq [of 1000 t] pos_mod_sign [of 1000 t] by (simp add: trunc_us_def)

section \<open>Statements\<close>

definition nullable_args :: "(string \<Rightarrow> string option) \<Rightarrow> string \<Rightarrow> string option" where
  "nullable_args jsonb args = (if args = '''' then Some '''' else jsonb args)"

definition insert_job :: "(string \<Rightarrow> string option) \<Rightarrow> scheduled_job \<Rightarrow> pg_row list \<Rightarrow> pg_row list option" where
  "insert_job jsonb j rows =
     (case nullable_args jsonb (j_args j) of
        None \<Rightarrow> None
      | Some args \<Rightarrow>
          if find_key r_id (j_id j) rows \<noteq> None then Some rows
          else Some (rows @ [\<lparr>r_job = j\<lparr>j_token := '''', j_args := args, j_run_at := trunc_us (j_run_at j),
                                j_scheduled_for := trunc_us (j_scheduled_for j)\<rparr>,
                             r_status = Pending, r_sequence = 0, r_token = '''', r_lease = None,
                             r_completed = None\<rparr>]))"

definition lapsed :: "int \<Rightarrow> pg_row \<Rightarrow> bool" where
  "lapsed clk r \<longleftrightarrow> (case r_lease r of None \<Rightarrow> True | Some u \<Rightarrow> u \<le> clk)"

definition claimable :: "(int \<Rightarrow> string \<Rightarrow> bool) \<Rightarrow> int \<Rightarrow> int \<Rightarrow> pg_row \<Rightarrow> bool" where
  "claimable locked clk now r \<longleftrightarrow>
     r_status r = Pending \<and> j_run_at (r_job r) \<le> trunc_us now
   \<and> (r_token r = '''' \<or> lapsed clk r) \<and> \<not> locked clk (r_id r)"

definition candidates :: "(int \<Rightarrow> string \<Rightarrow> bool) \<Rightarrow> int \<Rightarrow> int \<Rightarrow> int \<Rightarrow> pg_row list \<Rightarrow> string list" where
  "candidates locked clk now limit rows =
     map r_id (take (nat limit)
       (sort_key (\<lambda>r. (is_cron (r_job r), j_run_at (r_job r), r_id r)) (filter (claimable locked clk now) rows)))"

definition claim_row :: "int \<Rightarrow> string \<Rightarrow> pg_row \<Rightarrow> pg_row" where
  "claim_row clk owner r = r\<lparr>r_sequence := r_sequence r + 1,
     r_token := owner @ '':'' @ int_dec (r_sequence r + 1), r_lease := Some (clk + scheduled_job_lease)\<rparr>"

definition returned :: "pg_row \<Rightarrow> scheduled_job" where
  "returned r = (r_job r)\<lparr>j_token := r_token r\<rparr>"

definition prune_completed :: "(int \<Rightarrow> string \<Rightarrow> bool) \<Rightarrow> int \<Rightarrow> int \<Rightarrow> int \<Rightarrow> pg_row list \<Rightarrow> pg_row list" where
  "prune_completed locked clk before limit rows =
     (if limit \<le> 0 then rows
      else
        let old = (\<lambda>r. r_status r = Completed \<and> (case r_completed r of None \<Rightarrow> False | Some d \<Rightarrow> d < trunc_us before)
              \<and> \<not> locked clk (r_id r));
            ids = map r_id (take (nat limit) (sort_key (\<lambda>r. (the (r_completed r), r_id r)) (filter old rows)))
        in filter (\<lambda>r. r_id r \<notin> set ids) rows)"

section \<open>Operations\<close>

definition pg_enqueue :: "(string \<Rightarrow> string option) \<Rightarrow> int \<Rightarrow> scheduled_job \<Rightarrow> pg_state \<Rightarrow> pg_state \<times> bool" where
  "pg_enqueue jsonb clk j s =
     (case insert_job jsonb j (pg_rows s) of None \<Rightarrow> (s, False) | Some rows \<Rightarrow> (s\<lparr>pg_rows := rows\<rparr>, True))"

definition maybe_prune :: "(int \<Rightarrow> string \<Rightarrow> bool) \<Rightarrow> int \<Rightarrow> int \<Rightarrow> string \<Rightarrow> pg_state \<Rightarrow> pg_state" where
  "maybe_prune locked clk now owner s =
     (if next_prune s owner \<noteq> zero_time \<and> now < next_prune s owner then s
      else s\<lparr>next_prune := (next_prune s)(owner := now + prune_interval),
             pg_rows := prune_completed locked clk (now - completion_retention) prune_batch (pg_rows s)\<rparr>)"

definition pg_claim :: "(int \<Rightarrow> string \<Rightarrow> bool) \<Rightarrow> int \<Rightarrow> int \<Rightarrow> int \<Rightarrow> string \<Rightarrow> pg_state \<Rightarrow>
    pg_state \<times> scheduled_job list option" where
  "pg_claim locked clk now limit owner s =
     (if limit \<le> 0 then (s, Some [])
      else
        let s = maybe_prune locked clk now owner s;
            ids = candidates locked clk now limit (pg_rows s);
            rows = update_where (\<lambda>r. r_id r \<in> set ids) (claim_row clk owner) (pg_rows s)
        in (s\<lparr>pg_rows := rows\<rparr>, Some (map returned (filter (\<lambda>r. r_id r \<in> set ids) rows))))"

datatype adoption = Busy | Adopted | AlreadyCompleted

definition adopt_claim :: "(string \<Rightarrow> string option) \<Rightarrow> int \<Rightarrow> scheduled_job \<Rightarrow> pg_state \<Rightarrow> pg_state \<times> adoption option" where
  "adopt_claim jsonb clk j s =
     (case insert_job jsonb j (pg_rows s) of
        None \<Rightarrow> (s, None)
      | Some rows \<Rightarrow>
          let free = (\<lambda>r. r_id r = j_id j \<and> r_status r = Pending
                \<and> (r_token r = '''' \<or> r_token r = j_token j \<or> lapsed clk r))
          in if list_ex free rows then
               (s\<lparr>pg_rows := update_where free (\<lambda>r. r\<lparr>r_sequence := r_sequence r + 1, r_token := j_token j,
                    r_lease := Some (clk + scheduled_job_lease)\<rparr>) rows\<rparr>, Some Adopted)
             else
               (s\<lparr>pg_rows := rows\<rparr>,
                case find_key r_id (j_id j) rows of
                  None \<Rightarrow> None
                | Some r \<Rightarrow> Some (if r_status r = Completed then AlreadyCompleted else Busy)))"

text \<open>The condition of the three statements that a claim's holder issues.\<close>

definition held_by :: "string \<Rightarrow> string \<Rightarrow> pg_row \<Rightarrow> bool" where
  "held_by i t r \<longleftrightarrow> r_id r = i \<and> r_status r = Pending \<and> r_token r = t"

definition pg_renew :: "int \<Rightarrow> string \<Rightarrow> string \<Rightarrow> pg_state \<Rightarrow> pg_state \<times> bool option" where
  "pg_renew clk i t s =
     (s\<lparr>pg_rows := update_where (held_by i t) (\<lambda>r. r\<lparr>r_lease := Some (clk + scheduled_job_lease)\<rparr>) (pg_rows s)\<rparr>,
      Some (length (filter (held_by i t) (pg_rows s)) = 1))"

definition complete_row :: "int \<Rightarrow> pg_row \<Rightarrow> pg_row" where
  "complete_row clk r = r\<lparr>r_status := Completed,
     r_completed := (case r_completed r of None \<Rightarrow> Some clk | Some d \<Rightarrow> Some d), r_token := '''', r_lease := None\<rparr>"

definition pg_complete :: "int \<Rightarrow> string \<Rightarrow> string \<Rightarrow> pg_state \<Rightarrow> pg_state \<times> bool" where
  "pg_complete clk i t s =
     (let s' = s\<lparr>pg_rows := update_where (held_by i t) (complete_row clk) (pg_rows s)\<rparr>
      in if length (filter (held_by i t) (pg_rows s)) = 1 then (s', True)
         else case find_key r_id i (pg_rows s') of
                None \<Rightarrow> (s', False)
              | Some r \<Rightarrow> (s', r_status r = Completed))"

definition pg_release :: "int \<Rightarrow> string \<Rightarrow> string \<Rightarrow> pg_state \<Rightarrow> pg_state \<times> bool" where
  "pg_release clk i t s =
     (s\<lparr>pg_rows := update_where (held_by i t) (\<lambda>r. r\<lparr>r_token := '''', r_lease := None\<rparr>) (pg_rows s)\<rparr>, True)"

definition postgres_store :: "(int \<Rightarrow> string \<Rightarrow> bool) \<Rightarrow> (string \<Rightarrow> string option) \<Rightarrow> pg_state job_store" where
  "postgres_store locked jsonb = \<lparr>st_enqueue = pg_enqueue jsonb, st_claim = pg_claim locked,
     st_renew = pg_renew, st_complete = pg_complete, st_release = pg_release\<rparr>"

section \<open>The table as a map\<close>

definition rows_ok :: "pg_row list \<Rightarrow> bool" where
  "rows_ok rows \<longleftrightarrow> distinct (map r_id rows)
     \<and> (\<forall>r \<in> set rows. r_status r = Pending \<longrightarrow> r_completed r = None)"

abbreviation row :: "pg_row list \<Rightarrow> string \<Rightarrow> pg_row option" where
  "row rows i \<equiv> find_key r_id i rows"

definition pg_holder :: "int \<Rightarrow> pg_state \<Rightarrow> string \<Rightarrow> string option" where
  "pg_holder c s i = (case row (pg_rows s) i of None \<Rightarrow> None
     | Some r \<Rightarrow> if r_status r = Pending \<and> r_token r \<noteq> '''' \<and> \<not> lapsed c r then Some (r_token r) else None)"

definition pg_finished :: "int \<Rightarrow> pg_state \<Rightarrow> string \<Rightarrow> bool" where
  "pg_finished c s i = (case row (pg_rows s) i of None \<Rightarrow> False
     | Some r \<Rightarrow> r_status r = Completed \<and> (case r_completed r of None \<Rightarrow> True | Some d \<Rightarrow> c < d + completion_retention))"

lemma rows_ok_distinct: "rows_ok rows \<Longrightarrow> distinct (map r_id rows)"
  by (simp add: rows_ok_def)

lemma row_in: "rows_ok rows \<Longrightarrow> r \<in> set rows \<Longrightarrow> row rows (r_id r) = Some r"
  by (rule find_key_in) (simp_all add: rows_ok_def)

lemma row_Some: "row rows i = Some r \<Longrightarrow> r \<in> set rows \<and> r_id r = i"
  by (rule find_key_Some)

lemma row_filter_ids:
  "row (filter (\<lambda>r. r_id r \<notin> S) rows) i = (if i \<in> S then None else row rows i)"
  by (induction rows) auto

text \<open>A statement that updates rows in place.\<close>

lemma update_rows_ok:
  assumes "rows_ok rows" and "\<And>r. r_id (f r) = r_id r"
    and "\<And>r. r \<in> set rows \<Longrightarrow> P r \<Longrightarrow> r_status (f r) = Pending \<Longrightarrow> r_completed (f r) = None"
  shows "rows_ok (update_where P f rows)"
proof -
  have "map r_id (update_where P f rows) = map r_id rows" using assms(2) by (intro map_update_where)
  then show ?thesis using assms by (auto simp: rows_ok_def set_update_where)
qed

lemma row_update:
  assumes "\<And>r. r_id (f r) = r_id r"
  shows "row (update_where P f rows) i = map_option (\<lambda>r. if P r then f r else r) (row rows i)"
  using assms by (rule find_key_update_where)

lemma claim_row_fields [simp]:
  "r_job (claim_row clk ow r) = r_job r" "r_status (claim_row clk ow r) = r_status r"
  "r_completed (claim_row clk ow r) = r_completed r"
  by (simp_all add: claim_row_def)

lemma complete_row_fields [simp]:
  "r_job (complete_row clk r) = r_job r" "r_status (complete_row clk r) = Completed"
  by (simp_all add: complete_row_def)

lemma insert_job_spec:
  assumes "insert_job jsonb j rows = Some rows'"
  shows "rows_ok rows \<Longrightarrow> rows_ok rows'"
    and "row rows i = Some r \<Longrightarrow> row rows' i = Some r"
    and "row rows i = None \<Longrightarrow> row rows' i = Some r \<Longrightarrow>
      i = j_id j \<and> r_status r = Pending \<and> r_token r = '''' \<and> r_lease r = None"
    and "row rows' (j_id j) \<noteq> None"
proof -
  obtain args where args: "nullable_args jsonb (j_args j) = Some args"
    using assms by (auto simp: insert_job_def split: option.splits)
  define q where "q = \<lparr>r_job = j\<lparr>j_token := '''', j_args := args, j_run_at := trunc_us (j_run_at j),
      j_scheduled_for := trunc_us (j_scheduled_for j)\<rparr>, r_status = Pending, r_sequence = 0, r_token = '''',
      r_lease = None, r_completed = None\<rparr>"
  have q: "r_id q = j_id j" "r_status q = Pending" "r_token q = ''''" "r_lease q = None" "r_completed q = None"
    by (simp_all add: q_def)
  consider "row rows (j_id j) \<noteq> None" "rows' = rows" | "row rows (j_id j) = None" "rows' = rows @ [q]"
    using assms args by (auto simp: insert_job_def q_def split: if_splits)
  note cases = this
  have none: "row rows (j_id j) = None \<longleftrightarrow> j_id j \<notin> r_id ` set rows" by (rule find_key_None_iff)
  show "rows_ok rows \<Longrightarrow> rows_ok rows'"
    using none q by (cases rule: cases) (auto simp: rows_ok_def)
  show "row rows i = Some r \<Longrightarrow> row rows' i = Some r"
    by (cases rule: cases) (auto simp: find_key_append)
  show "row rows i = None \<Longrightarrow> row rows' i = Some r \<Longrightarrow>
      i = j_id j \<and> r_status r = Pending \<and> r_token r = '''' \<and> r_lease r = None"
    using q by (cases rule: cases) (auto simp: find_key_append split: if_splits)
  show "row rows' (j_id j) \<noteq> None"
    using q by (cases rule: cases) (auto simp: find_key_append)
qed

lemma candidates_claimable:
  assumes "rows_ok rows" and "i \<in> set (candidates locked clk now limit rows)"
  obtains r where "row rows i = Some r" and "claimable locked clk now r"
proof -
  from assms(2) obtain r where "r \<in> set rows" "claimable locked clk now r" "i = r_id r"
    by (auto simp: candidates_def dest!: in_set_takeD)
  then show ?thesis using that row_in [OF assms(1)] by auto
qed

lemma prune_spec:
  assumes "rows_ok rows"
  shows "rows_ok (prune_completed locked clk before limit rows)"
    and "row (prune_completed locked clk before limit rows) i = None \<Longrightarrow> row rows i = Some r \<Longrightarrow>
      r_status r = Completed \<and> (\<exists>d. r_completed r = Some d \<and> d < before)"
    and "row (prune_completed locked clk before limit rows) i = Some r \<Longrightarrow> row rows i = Some r"
proof -
  show "rows_ok (prune_completed locked clk before limit rows)"
    using assms by (auto simp: prune_completed_def Let_def rows_ok_def intro: distinct_map_filter)
  show "row rows i = Some r" if "row (prune_completed locked clk before limit rows) i = Some r"
    using that by (auto simp: prune_completed_def Let_def row_filter_ids split: if_splits)
  assume none: "row (prune_completed locked clk before limit rows) i = None" and r: "row rows i = Some r"
  then obtain q where q: "q \<in> set rows" "r_id q = i" "r_status q = Completed"
    "case r_completed q of None \<Rightarrow> False | Some d \<Rightarrow> d < trunc_us before"
    by (auto simp: prune_completed_def Let_def row_filter_ids split: if_splits dest!: in_set_takeD)
  then have "q = r" using row_in [OF assms q(1)] r by simp
  then show "r_status r = Completed \<and> (\<exists>d. r_completed r = Some d \<and> d < before)"
    using q trunc_us_le [of before] by (auto split: option.splits)
qed

lemma maybe_prune_spec:
  assumes "rows_ok (pg_rows s)"
  shows "rows_ok (pg_rows (maybe_prune locked clk now ow s))"
    and "row (pg_rows (maybe_prune locked clk now ow s)) i = None \<Longrightarrow> row (pg_rows s) i = Some r \<Longrightarrow>
      r_status r = Completed \<and> (\<exists>d. r_completed r = Some d \<and> d + completion_retention < now)"
    and "row (pg_rows (maybe_prune locked clk now ow s)) i = Some r \<Longrightarrow> row (pg_rows s) i = Some r"
  using prune_spec [OF assms] assms by (fastforce simp: maybe_prune_def split: if_splits)+

text \<open>What a claim does to one row.\<close>

lemma pg_claim_cases:
  assumes ok: "rows_ok (pg_rows s)" and eq: "pg_claim locked clk now limit ow s = (s', Some js)"
  shows "rows_ok (pg_rows s')"
    and "distinct (map j_id js)"
    and "j \<in> set js \<Longrightarrow> \<exists>r. row (pg_rows s) (j_id j) = Some r \<and> claimable locked clk now r
      \<and> row (pg_rows s') (j_id j) = Some (claim_row clk ow r) \<and> j = returned (claim_row clk ow r)"
    and "i \<notin> j_id ` set js \<Longrightarrow> row (pg_rows s) i = Some r \<Longrightarrow> row (pg_rows s') i = Some r
      \<or> r_status r = Completed \<and> (\<exists>d. r_completed r = Some d \<and> d + completion_retention < now)"
    and "row (pg_rows s) i = None \<Longrightarrow> row (pg_rows s') i = None"
proof -
  define p where "p = maybe_prune locked clk now ow s"
  define ids where "ids = candidates locked clk now limit (pg_rows p)"
  define rows where "rows = update_where (\<lambda>r. r_id r \<in> set ids) (claim_row clk ow) (pg_rows p)"
  have pok: "rows_ok (pg_rows p)" unfolding p_def by (rule maybe_prune_spec(1) [OF ok])
  have rok: "rows_ok rows"
    unfolding rows_def using pok by (intro update_rows_ok) (auto simp: rows_ok_def)
  have rrow: "row rows i = map_option (\<lambda>r. if r_id r \<in> set ids then claim_row clk ow r else r) (row (pg_rows p) i)" for i
    unfolding rows_def by (rule row_update) simp
  have js: "s' = (if limit \<le> 0 then s else p\<lparr>pg_rows := rows\<rparr>)"
    "js = (if limit \<le> 0 then [] else map returned (filter (\<lambda>r. r_id r \<in> set ids) rows))"
    using eq by (auto simp: pg_claim_def Let_def p_def ids_def rows_def split: if_splits)
  show "rows_ok (pg_rows s')" using ok rok by (simp add: js)
  show "distinct (map j_id js)"
    using rok by (auto simp: js rows_ok_def comp_def returned_def intro: distinct_map_filter)
  have jids: "j_id ` set js = (if limit \<le> 0 then {} else set ids)"
  proof -
    have sub: "i \<in> r_id ` set rows" if "i \<in> set ids" for i
    proof -
      obtain r where "row (pg_rows p) i = Some r"
        using candidates_claimable [OF pok] \<open>i \<in> set ids\<close> unfolding ids_def by blast
      then have "row rows i \<noteq> None" by (simp add: rrow)
      then show ?thesis using find_key_None_iff by metis
    qed
    have "r_id ` {r \<in> set rows. r_id r \<in> set ids} = set ids" using sub by blast
    moreover have "j_id ` set (map returned (filter (\<lambda>r. r_id r \<in> set ids) rows)) = r_id ` {r \<in> set rows. r_id r \<in> set ids}"
      by (simp add: image_image returned_def)
    ultimately have "j_id ` set (map returned (filter (\<lambda>r. r_id r \<in> set ids) rows)) = set ids" by (rule trans [rotated])
    then show ?thesis unfolding js by (cases "limit \<le> 0") simp_all
  qed
  show "\<exists>r. row (pg_rows s) (j_id j) = Some r \<and> claimable locked clk now r
      \<and> row (pg_rows s') (j_id j) = Some (claim_row clk ow r) \<and> j = returned (claim_row clk ow r)"
    if j: "j \<in> set js"
  proof -
    have lim: "\<not> limit \<le> 0" using j by (auto simp: js split: if_splits)
    obtain q where q: "q \<in> set rows" "r_id q \<in> set ids" "j = returned q"
      using j lim by (auto simp: js)
    obtain r where r: "row (pg_rows p) (r_id q) = Some r" "claimable locked clk now r"
      using candidates_claimable [OF pok] q(2) unfolding ids_def by blast
    have "row rows (r_id q) = Some q" using row_in [OF rok q(1)] .
    then have qr: "q = claim_row clk ow r" using rrow [of "r_id q"] r q(2) row_Some [OF r(1)] by auto
    have "row (pg_rows s) (r_id q) = Some r" using maybe_prune_spec(3) [OF ok] r(1) unfolding p_def by blast
    moreover have "j_id j = r_id q" using q(3) by (simp add: returned_def)
    ultimately show ?thesis using r q qr lim \<open>row rows (r_id q) = Some q\<close> by (auto simp: js)
  qed
  show "row (pg_rows s') i = Some r
      \<or> r_status r = Completed \<and> (\<exists>d. r_completed r = Some d \<and> d + completion_retention < now)"
    if "i \<notin> j_id ` set js" "row (pg_rows s) i = Some r"
  proof (cases "limit \<le> 0")
    case False
    show ?thesis
    proof (cases "row (pg_rows p) i")
      case None
      then show ?thesis using maybe_prune_spec(2) [OF ok _ that(2)] unfolding p_def by blast
    next
      case (Some r')
      then have "r' = r" using maybe_prune_spec(3) [OF ok] that(2) unfolding p_def by fastforce
      then show ?thesis using that(1) False Some row_Some [OF Some] jids by (auto simp: js rrow)
    qed
  qed (use that in \<open>simp add: js\<close>)
  show "row (pg_rows s') i = None" if none: "row (pg_rows s) i = None"
  proof -
    have "row (pg_rows p) i = None"
      using maybe_prune_spec(3) [OF ok] none unfolding p_def by (metis not_None_eq)
    then show ?thesis using none by (simp add: js rrow)
  qed
qed

section \<open>The table keeps the contract\<close>

lemma pg_holder_Some:
  "pg_holder c s i = Some h \<longleftrightarrow>
   (\<exists>r. row (pg_rows s) i = Some r \<and> r_status r = Pending \<and> r_token r = h \<and> h \<noteq> '''' \<and> \<not> lapsed c r)"
  by (auto simp: pg_holder_def split: option.splits)

lemma pg_finished_iff:
  "pg_finished c s i \<longleftrightarrow> (\<exists>r. row (pg_rows s) i = Some r \<and> r_status r = Completed
     \<and> (\<forall>d. r_completed r = Some d \<longrightarrow> c < d + completion_retention))"
  by (auto simp: pg_finished_def split: option.splits)

lemma lapsed_mono: "lapsed clk r \<Longrightarrow> clk \<le> c \<Longrightarrow> lapsed c r"
  by (auto simp: lapsed_def split: option.splits)

lemma held_filter:
  assumes "distinct (map r_id rows)"
  shows "filter (held_by i t) rows =
    (case row rows i of None \<Rightarrow> [] | Some r \<Rightarrow> if held_by i t r then [r] else [])"
  using assms
proof (induction rows)
  case (Cons r rows)
  have "filter (held_by i t) rows = []" if "r_id r = i"
  proof -
    have "i \<notin> r_id ` set rows" using Cons.prems that by simp
    then show ?thesis unfolding filter_empty_conv held_by_def by blast
  qed
  then show ?case using Cons by (cases "r_id r = i") (simp_all, simp add: held_by_def)
qed simp

lemma held_count:
  assumes "rows_ok rows"
  shows "length (filter (held_by i t) rows) = 1 \<longleftrightarrow> (\<exists>r. row rows i = Some r \<and> held_by i t r)"
  unfolding held_filter [OF rows_ok_distinct [OF assms]] by (auto split: option.splits)

text \<open>A statement guarded by the token leaves other holders and finished jobs alone.\<close>

lemma held_update_holder:
  assumes "\<And>r. r_id (f r) = r_id r" and "pg_holder c s k = Some h" and "(k, h) \<noteq> (i, t)"
  shows "pg_holder c (s\<lparr>pg_rows := update_where (held_by i t) f (pg_rows s)\<rparr>) k = Some h"
proof -
  obtain r where r: "row (pg_rows s) k = Some r" "r_status r = Pending" "r_token r = h" "h \<noteq> ''''" "\<not> lapsed c r"
    using assms(2) by (auto simp: pg_holder_Some)
  have "\<not> held_by i t r" using row_Some [OF r(1)] r(3) assms(3) by (auto simp: held_by_def)
  then show ?thesis using r by (simp add: pg_holder_Some row_update assms(1))
qed

lemma held_update_finished:
  assumes "\<And>r. r_id (f r) = r_id r" and "pg_finished c s k"
  shows "pg_finished c (s\<lparr>pg_rows := update_where (held_by i t) f (pg_rows s)\<rparr>) k"
proof -
  obtain r where r: "row (pg_rows s) k = Some r" "r_status r = Completed"
    "\<And>d. r_completed r = Some d \<Longrightarrow> c < d + completion_retention"
    using assms(2) by (auto simp: pg_finished_iff)
  then have "\<not> held_by i t r" by (simp add: held_by_def)
  then show ?thesis using r by (simp add: pg_finished_iff row_update assms(1))
qed

lemma pg_complete_store:
  "fst (pg_complete clk i t s) = s\<lparr>pg_rows := update_where (held_by i t) (complete_row clk) (pg_rows s)\<rparr>"
  by (simp add: pg_complete_def Let_def split: option.split)

lemma claim_token_nonempty: "r_token (claim_row clk ow r) \<noteq> ''''"
  by (simp add: claim_row_def)

lemma pg_claim_some: "\<exists>s' js. pg_claim locked clk now limit ow s = (s', Some js)"
  by (simp add: pg_claim_def Let_def)

lemma pg_claim_keeps:
  assumes "rows_ok (pg_rows s)" and "clk \<le> c" and "pg_holder c s k = Some h"
  shows "pg_holder c (fst (pg_claim locked clk now limit ow s)) k = Some h"
proof -
  obtain s' js where eq: "pg_claim locked clk now limit ow s = (s', Some js)" using pg_claim_some by blast
  note claim = pg_claim_cases [OF assms(1) eq]
  obtain r where r: "row (pg_rows s) k = Some r" "r_status r = Pending" "r_token r = h" "h \<noteq> ''''" "\<not> lapsed c r"
    using assms(3) by (auto simp: pg_holder_Some)
  have "k \<notin> j_id ` set js"
  proof
    assume "k \<in> j_id ` set js"
    then obtain j where j: "j \<in> set js" "j_id j = k" by auto
    have "claimable locked clk now r" using claim(3) [OF j(1)] j(2) r(1) by auto
    then show False using r lapsed_mono [OF _ assms(2)] by (auto simp: claimable_def)
  qed
  from claim(4) [OF this r(1)] have "row (pg_rows s') k = Some r" using r(2) by simp
  then show ?thesis using r eq by (simp add: pg_holder_Some)
qed

lemma pg_claim_finished:
  assumes "rows_ok (pg_rows s)" and "pg_finished c s i" and "clk \<le> c" and "now \<le> clk"
  shows "pg_finished c (fst (pg_claim locked clk now limit ow s)) i"
proof -
  obtain s' js where eq: "pg_claim locked clk now limit ow s = (s', Some js)" using pg_claim_some by blast
  note claim = pg_claim_cases [OF assms(1) eq]
  obtain r where r: "row (pg_rows s) i = Some r" "r_status r = Completed"
    "\<And>d. r_completed r = Some d \<Longrightarrow> c < d + completion_retention"
    using assms(2) by (auto simp: pg_finished_iff)
  have "i \<notin> j_id ` set js" using claim(3) r by (fastforce simp: claimable_def)
  from claim(4) [OF this r(1)] have "row (pg_rows s') i = Some r" using r assms(3,4) by fastforce
  then show ?thesis using r eq by (auto simp: pg_finished_iff)
qed

lemma pg_enqueue_rows:
  assumes "row (pg_rows s) i = Some r"
  shows "row (pg_rows (fst (pg_enqueue jsonb clk j s))) i = Some r"
  using assms by (auto simp: pg_enqueue_def split: option.split dest: insert_job_spec(2))

interpretation pg: exclusive_store "postgres_store locked jsonb" "\<lambda>s. rows_ok (pg_rows s)" pg_holder pg_finished
    scheduled_job_lease completion_retention for locked jsonb
proof
  fix s s' :: pg_state and clk c now limit i k t h ow j and js :: "scheduled_job list"
  assume ok: "rows_ok (pg_rows s)"
  show "rows_ok (pg_rows (fst (st_enqueue (postgres_store locked jsonb) clk j s)))"
    using ok by (auto simp: postgres_store_def pg_enqueue_def split: option.split dest: insert_job_spec(1))
  show "rows_ok (pg_rows (fst (st_claim (postgres_store locked jsonb) clk now limit ow s)))"
    using pg_claim_some [of locked clk now limit ow s] pg_claim_cases(1) [OF ok] by (auto simp: postgres_store_def)
  show "rows_ok (pg_rows (fst (st_renew (postgres_store locked jsonb) clk i t s)))"
    by (simp add: postgres_store_def pg_renew_def, rule update_rows_ok [OF ok]) (use ok in \<open>auto simp: rows_ok_def held_by_def\<close>)
  show "rows_ok (pg_rows (fst (st_complete (postgres_store locked jsonb) clk i t s)))"
    using ok by (auto simp: postgres_store_def pg_complete_store intro!: update_rows_ok)
  show "rows_ok (pg_rows (fst (st_release (postgres_store locked jsonb) clk i t s)))"
    by (simp add: postgres_store_def pg_release_def, rule update_rows_ok [OF ok]) (use ok in \<open>auto simp: rows_ok_def held_by_def\<close>)
  {
    assume "pg_holder c s k = Some h"
    then show "pg_holder c (fst (st_enqueue (postgres_store locked jsonb) clk j s)) k = Some h"
      by (auto simp: postgres_store_def pg_holder_Some dest: pg_enqueue_rows)
  }
  {
    assume "clk \<le> c" "pg_holder c s k = Some h"
    then show "pg_holder c (fst (st_claim (postgres_store locked jsonb) clk now limit ow s)) k = Some h"
      using pg_claim_keeps [OF ok] by (simp add: postgres_store_def)
  }
  {
    assume "pg_holder c s k = Some h" "(k, h) \<noteq> (i, t)"
    note keep = held_update_holder [OF _ this]
    show "pg_holder c (fst (st_renew (postgres_store locked jsonb) clk i t s)) k = Some h"
      by (simp add: postgres_store_def pg_renew_def keep)
    show "pg_holder c (fst (st_complete (postgres_store locked jsonb) clk i t s)) k = Some h"
      by (simp add: postgres_store_def pg_complete_store keep)
    show "pg_holder c (fst (st_release (postgres_store locked jsonb) clk i t s)) k = Some h"
      by (simp add: postgres_store_def pg_release_def keep)
  }
  {
    assume "pg_finished c s i"
    note keep = held_update_finished [OF _ this]
    show "pg_finished c (fst (st_renew (postgres_store locked jsonb) clk k t s)) i"
      by (simp add: postgres_store_def pg_renew_def keep)
    show "pg_finished c (fst (st_complete (postgres_store locked jsonb) clk k t s)) i"
      by (simp add: postgres_store_def pg_complete_store keep)
    show "pg_finished c (fst (st_release (postgres_store locked jsonb) clk k t s)) i"
      by (simp add: postgres_store_def pg_release_def keep)
    show "pg_finished c (fst (st_enqueue (postgres_store locked jsonb) clk j s)) i"
      using \<open>pg_finished c s i\<close> by (auto simp: postgres_store_def pg_finished_iff dest: pg_enqueue_rows)
  }
  {
    assume "pg_finished c s i" "clk \<le> c" "now \<le> clk"
    then show "pg_finished c (fst (st_claim (postgres_store locked jsonb) clk now limit ow s)) i"
      using pg_claim_finished [OF ok] by (simp add: postgres_store_def)
  }
  {
    assume t: "t \<noteq> ''''" and renew: "st_renew (postgres_store locked jsonb) clk i t s = (s', Some True)"
      and c: "clk \<le> c" "c < clk + scheduled_job_lease"
    then have "length (filter (held_by i t) (pg_rows s)) = 1"
      and s': "s' = s\<lparr>pg_rows := update_where (held_by i t) (\<lambda>r. r\<lparr>r_lease := Some (clk + scheduled_job_lease)\<rparr>) (pg_rows s)\<rparr>"
      by (simp_all add: postgres_store_def pg_renew_def)
    then obtain r where "row (pg_rows s) i = Some r" "held_by i t r" using held_count [OF ok] by blast
    then show "pg_holder c s' i = Some t"
      using t c by (auto simp: pg_holder_Some s' row_update lapsed_def held_by_def)
  }
  {
    assume "pg_holder clk s i = Some t" "clk \<le> c" "c < clk + completion_retention"
    then obtain r where r: "row (pg_rows s) i = Some r" "held_by i t r" "r_completed r = None"
      using ok by (auto simp: pg_holder_Some held_by_def rows_ok_def dest: row_Some)
    then have "length (filter (held_by i t) (pg_rows s)) = 1" using held_count [OF ok] by blast
    then show "snd (st_complete (postgres_store locked jsonb) clk i t s)
        \<and> pg_finished c (fst (st_complete (postgres_store locked jsonb) clk i t s)) i"
      using r \<open>c < clk + completion_retention\<close>
      by (simp add: postgres_store_def pg_complete_def pg_finished_iff row_update complete_row_def Let_def)
  }
  assume "st_claim (postgres_store locked jsonb) clk now limit ow s = (s', Some js)"
  then have eq: "pg_claim locked clk now limit ow s = (s', Some js)" by (simp add: postgres_store_def)
  note claim = pg_claim_cases [OF ok eq]
  show "distinct (map j_id js)" by (rule claim(2))
  assume j: "j \<in> set js"
  from claim(3) [OF j] obtain r where r: "row (pg_rows s) (j_id j) = Some r" "claimable locked clk now r"
    "row (pg_rows s') (j_id j) = Some (claim_row clk ow r)" "j = returned (claim_row clk ow r)" by blast
  {
    assume "clk \<le> c"
    then show "pg_holder c s (j_id j) = None"
      using r lapsed_mono [of clk r c] by (auto simp: pg_holder_def claimable_def)
    assume "c < clk + scheduled_job_lease"
    then show "pg_holder c s' (j_id j) = Some (j_token j)"
      using r(2-4) claim_token_nonempty by (auto simp: pg_holder_Some returned_def lapsed_def claim_row_def claimable_def)
  }
  assume "pg_finished clk s i"
  then show "j_id j \<noteq> i" using r by (auto simp: pg_finished_iff claimable_def)
qed

section \<open>Properties\<close>

text \<open>
  C23: exclusive leases. In every history of calls by any number of runtimes, a runtime whose
  lease has not run out owns the row, no other token has an unexpired lease on that job, and no
  claim hands the job out.
\<close>

theorem postgres_lease_exclusive:
  assumes "rows_ok (pg_rows s)" and "sorted (map fst ops)" and "ops_ok ops" and "\<forall>c \<in> fst ` set ops. c \<le> c1"
    and "run = store_run (postgres_store locked jsonb) scheduled_job_lease ops (fresh_run s)"
    and "run_held run (i, t) = Some u" and "c1 < u"
  shows "pg_holder c1 (run_store run) i = Some t
    \<and> (\<forall>t' u'. run_held run (i, t') = Some u' \<longrightarrow> c1 < u' \<longrightarrow> t' = t)
    \<and> (\<forall>now limit ow s' js. pg_claim locked c1 now limit ow (run_store run) = (s', Some js) \<longrightarrow> i \<notin> j_id ` set js)"
proof -
  have "i \<notin> j_id ` set js" if "pg_claim locked c1 now limit ow (run_store run) = (s', Some js)" for now limit ow s' js
    using pg.held_not_claimed [OF assms(1-4), of locked jsonb i t u now limit ow s' js] that assms(5-7)
    by (simp add: postgres_store_def)
  moreover have "pg.sound c1 run" unfolding assms(5) by (rule pg.run_sound [OF assms(1-4)])
  then have "pg_holder c1 (run_store run) i = Some t" unfolding pg.sound_def using assms(6,7) by blast
  moreover have "t' = t" if "run_held run (i, t') = Some u'" "c1 < u'" for t' u'
    using pg.exclusive [OF assms(1-4)] that assms(6,7) unfolding assms(5) by blast
  ultimately show ?thesis by blast
qed

definition sample_job :: scheduled_job where
  "sample_job = \<lparr>j_id = ''a'', j_token = '''', j_project = ''p'', j_tenant = '''', j_function = ''f'',
     j_args = '''', j_run_at = 1000, j_scheduled_for = 1000, j_cron = ''''\<rparr>"

definition sample_ops :: "(int \<times> store_op) list" where
  "sample_ops = [(500, Enqueue sample_job), (2000, Claim 2000 4 ''x''), (300000002000, Claim 300000002000 4 ''y'')]"

definition sample_run :: "pg_state store_run" where
  "sample_run = store_run (postgres_store (\<lambda>_ _. False) Some) scheduled_job_lease sample_ops
     (fresh_run \<lparr>pg_rows = [], next_prune = (\<lambda>_. zero_time)\<rparr>)"

theorem postgres_lease_exclusive_witness:
  "pg_holder 300000002500 (run_store sample_run) ''a'' = Some ''y:2''"
proof (rule conjunct1 [OF postgres_lease_exclusive [where ops = sample_ops and run = sample_run and u = 600000002000]])
  show "rows_ok (pg_rows \<lparr>pg_rows = [], next_prune = (\<lambda>_. zero_time)\<rparr>)" by (simp add: rows_ok_def)
  show "sorted (map fst sample_ops)" "ops_ok sample_ops" "\<forall>c \<in> fst ` set sample_ops. c \<le> 300000002500"
    by (simp_all add: sample_ops_def ops_ok_def)
  show "run_held sample_run (''a'', ''y:2'') = Some 600000002000" by code_simp
qed (simp_all add: sample_run_def)

text \<open>
  C24: at most one completion. A job that its holder completed at \<open>d\<close> is handed out to nobody
  for the thirty days for which the row is kept.
\<close>

theorem postgres_completed_final:
  assumes "rows_ok (pg_rows s)" and "sorted (map fst ops)" and "ops_ok ops" and "\<forall>c \<in> fst ` set ops. c \<le> c1"
    and "run = store_run (postgres_store locked jsonb) scheduled_job_lease ops (fresh_run s)"
    and "run_done run i = Some d" and "c1 < d + completion_retention"
    and "pg_claim locked c1 now limit ow (run_store run) = (s', Some js)"
  shows "i \<notin> j_id ` set js"
  using pg.completed_final [OF assms(1-4), of locked jsonb i d now limit ow s' js] assms(5-8)
  by (auto simp: postgres_store_def)

definition done_ops :: "(int \<times> store_op) list" where
  "done_ops = [(500, Enqueue sample_job), (2000, Claim 2000 4 ''x''), (3000, Complete ''a'' ''x:1''),
     (4000, Enqueue sample_job)]"

definition done_run :: "pg_state store_run" where
  "done_run = store_run (postgres_store (\<lambda>_ _. False) Some) scheduled_job_lease done_ops
     (fresh_run \<lparr>pg_rows = [], next_prune = (\<lambda>_. zero_time)\<rparr>)"

theorem postgres_completed_final_witness:
  "\<exists>s' js. pg_claim (\<lambda>_ _. False) 5000 5000 4 ''y'' (run_store done_run) = (s', Some js) \<and> ''a'' \<notin> j_id ` set js"
proof -
  obtain s' js where claim: "pg_claim (\<lambda>_ _. False) 5000 5000 4 ''y'' (run_store done_run) = (s', Some js)"
    using pg_claim_some by blast
  have "''a'' \<notin> j_id ` set js"
  proof (rule postgres_completed_final [where ops = done_ops and run = done_run and d = 3000])
    show "rows_ok (pg_rows \<lparr>pg_rows = [], next_prune = (\<lambda>_. zero_time)\<rparr>)" by (simp add: rows_ok_def)
    show "sorted (map fst done_ops)" "ops_ok done_ops" "\<forall>c \<in> fst ` set done_ops. c \<le> 5000"
      by (simp_all add: done_ops_def ops_ok_def)
    show "run_done done_run ''a'' = Some 3000" by code_simp
    show "pg_claim (\<lambda>_ _. False) 5000 5000 4 ''y'' (run_store done_run) = (s', Some js)" by (rule claim)
  qed (simp_all add: done_run_def completion_retention_def)
  with claim show ?thesis by blast
qed

lemma candidates_left:
  assumes "r \<in> set rows" and "claimable locked clk now r" and "r_id r \<notin> set (candidates locked clk now limit rows)"
    and "i \<in> set (candidates locked clk now limit rows)"
  shows "\<exists>q \<in> set rows. r_id q = i \<and> (is_cron (r_job q), j_run_at (r_job q), r_id q)
      \<le> (is_cron (r_job r), j_run_at (r_job r), r_id r)"
proof -
  let ?key = "\<lambda>r. (is_cron (r_job r), j_run_at (r_job r), r_id r)"
  let ?sel = "take (nat limit) (sort_key ?key (filter (claimable locked clk now) rows))"
  obtain q where q: "q \<in> set ?sel" "r_id q = i" using assms(4) by (auto simp: candidates_def)
  have "r \<notin> set ?sel" using assms(3) by (auto simp: candidates_def)
  then have "?key q \<le> ?key r" using take_sort_key_le(1) [OF q(1), of r] assms(1,2) by simp
  moreover have "q \<in> set rows" using q(1) by (auto dest!: in_set_takeD)
  ultimately show ?thesis using q(2) by blast
qed

lemma candidates_full:
  assumes "r \<in> set rows" and "claimable locked clk now r" and "r_id r \<notin> set (candidates locked clk now limit rows)"
    and "0 < limit"
  shows "length (candidates locked clk now limit rows) = nat limit"
proof -
  let ?key = "\<lambda>r. (is_cron (r_job r), j_run_at (r_job r), r_id r)"
  let ?xs = "filter (claimable locked clk now) rows"
  have r: "r \<in> set ?xs" using assms(1,2) by simp
  have out: "r \<notin> set (take (nat limit) (sort_key ?key ?xs))" using assms(3) by (auto simp: candidates_def)
  have "nat limit \<le> length ?xs"
  proof (rule ccontr)
    assume "\<not> nat limit \<le> length ?xs"
    then have "take (nat limit) (sort_key ?key ?xs) = sort_key ?key ?xs" by simp
    then show False using out r by simp
  qed
  then show ?thesis by (simp add: candidates_def)
qed

lemma claimed_ids:
  assumes ok: "rows_ok (pg_rows s)" and lim: "0 < limit" and eq: "pg_claim locked clk now limit ow s = (s', Some js)"
  defines "ids \<equiv> candidates locked clk now limit (pg_rows (maybe_prune locked clk now ow s))"
  shows "j_id ` set js = set ids" and "length js = length ids"
proof -
  let ?p = "pg_rows (maybe_prune locked clk now ow s)"
  let ?rows = "update_where (\<lambda>r. r_id r \<in> set ids) (claim_row clk ow) ?p"
  have pok: "rows_ok ?p" by (rule maybe_prune_spec(1) [OF ok])
  have js: "js = map returned (filter (\<lambda>r. r_id r \<in> set ids) ?rows)"
    using eq lim by (auto simp: pg_claim_def Let_def ids_def)
  have ids: "map r_id ?rows = map r_id ?p" by (rule map_update_where) simp
  have sub: "set ids \<subseteq> r_id ` set ?p"
  proof
    fix i assume "i \<in> set ids"
    then obtain r where "row ?p i = Some r" using candidates_claimable [OF pok] unfolding ids_def by blast
    then show "i \<in> r_id ` set ?p" using row_Some by blast
  qed
  have map: "map j_id js = filter (\<lambda>i. i \<in> set ids) (map r_id ?p)"
    unfolding js ids [symmetric] by (simp add: filter_map comp_def returned_def)
  show set: "j_id ` set js = set ids"
    using arg_cong [OF map, of set] sub by auto
  have "distinct (map j_id js)" by (rule pg_claim_cases(2) [OF ok eq])
  moreover have "distinct ids"
    using pok by (auto simp: ids_def candidates_def rows_ok_def distinct_map_filter' inj_on_def
        intro!: distinct_map_take_sort)
  ultimately show "length js = length ids"
    using distinct_card [of "map j_id js"] distinct_card [of ids] set by simp
qed

text \<open>
  what a claim picks. It returns at most \<open>limit\<close> jobs; when it leaves a due and free row
  behind it returns exactly \<open>limit\<close>, and each of them comes before that row: one-shots before
  crons, then by due time.
\<close>

theorem postgres_claim_priority:
  assumes ok: "rows_ok (pg_rows s)" and lim: "0 < limit" and eq: "pg_claim locked clk now limit ow s = (s', Some js)"
  shows "int (length js) \<le> limit
    \<and> (\<forall>i r. row (pg_rows s) i = Some r \<longrightarrow> claimable locked clk now r \<longrightarrow> i \<notin> j_id ` set js \<longrightarrow>
         int (length js) = limit
       \<and> (\<forall>j \<in> set js. (is_cron j, j_run_at j, j_id j) \<le> (is_cron (r_job r), j_run_at (r_job r), i)))"
proof (intro conjI allI impI ballI)
  let ?p = "pg_rows (maybe_prune locked clk now ow s)"
  note ids = claimed_ids [OF assms]
  show "int (length js) \<le> limit" using lim by (simp add: ids(2)) (simp add: candidates_def)
  fix i r
  assume r: "row (pg_rows s) i = Some r" and free: "claimable locked clk now r" and out: "i \<notin> j_id ` set js"
  have "row ?p i = Some r"
  proof (cases "row ?p i")
    case None
    then show ?thesis using maybe_prune_spec(2) [OF ok None r] free by (simp add: claimable_def)
  next
    case (Some q)
    then show ?thesis using maybe_prune_spec(3) [OF ok Some] r by simp
  qed
  then have rp: "r \<in> set ?p" "r_id r = i" using row_Some by blast+
  then show "int (length js) = limit"
    using candidates_full [OF rp(1) free] out lim by (simp add: ids)
  fix j assume j: "j \<in> set js"
  then have "j_id j \<in> set (candidates locked clk now limit ?p)" using ids(1) by blast
  from candidates_left [OF rp(1) free _ this] obtain q where q: "q \<in> set ?p" "r_id q = j_id j"
    "(is_cron (r_job q), j_run_at (r_job q), r_id q) \<le> (is_cron (r_job r), j_run_at (r_job r), r_id r)"
    using out ids(1) rp(2) by auto
  have "row ?p (j_id j) = Some q" using row_in [OF maybe_prune_spec(1) [OF ok] q(1)] q(2) by simp
  then have sq: "row (pg_rows s) (j_id j) = Some q" by (rule maybe_prune_spec(3) [OF ok])
  obtain r' where "row (pg_rows s) (j_id j) = Some r'" "j = returned (claim_row clk ow r')"
    using pg_claim_cases(3) [OF ok eq j] by blast
  then have "is_cron j = is_cron (r_job q)" "j_run_at j = j_run_at (r_job q)" using sq
    by (simp_all add: returned_def is_cron_def)
  then show "(is_cron j, j_run_at j, j_id j) \<le> (is_cron (r_job r), j_run_at (r_job r), i)"
    using q(2,3) rp(2) by simp
qed

definition two_jobs :: pg_state where
  "two_jobs = fst (pg_enqueue Some 0 (sample_job\<lparr>j_id := ''b'', j_cron := ''c'', j_run_at := 500\<rparr>)
     (fst (pg_enqueue Some 0 sample_job \<lparr>pg_rows = [], next_prune = (\<lambda>_. zero_time)\<rparr>)))"

theorem postgres_claim_priority_witness:
  "\<exists>s' js. pg_claim (\<lambda>_ _. False) 5000 5000 1 ''y'' two_jobs = (s', Some js) \<and> int (length js) = 1
     \<and> (\<forall>j \<in> set js. (is_cron j, j_run_at j, j_id j) \<le> (True, 0, ''b''))"
proof -
  obtain s' js where claim: "pg_claim (\<lambda>_ _. False) 5000 5000 1 ''y'' two_jobs = (s', Some js)"
    using pg_claim_some by blast
  have ok: "rows_ok (pg_rows two_jobs)"
    unfolding rows_ok_def by (intro conjI; code_simp)
  have "map_option (map j_id) (snd (pg_claim (\<lambda>_ _. False) 5000 5000 1 ''y'' two_jobs)) = Some [''a'']" by code_simp
  then have js: "map j_id js = [''a'']" by (simp add: claim)
  have "(case row (pg_rows two_jobs) ''b'' of Some r \<Rightarrow> claimable (\<lambda>_ _. False) 5000 5000 r
      \<and> is_cron (r_job r) \<and> j_run_at (r_job r) = 0 | None \<Rightarrow> False)" by code_simp
  then obtain r where r: "row (pg_rows two_jobs) ''b'' = Some r" "claimable (\<lambda>_ _. False) 5000 5000 r"
    "is_cron (r_job r)" "j_run_at (r_job r) = 0" by (auto split: option.splits)
  have "''b'' \<notin> j_id ` set js" using arg_cong [OF js, of set] by simp
  then show ?thesis using postgres_claim_priority [OF ok _ claim] r claim by fastforce
qed

end
