(* ===== verification/Valkey_Store.thy ===== *)
theory Valkey_Store
  imports Job_Store "HOL-Library.AList" "HOL-Library.Product_Lexorder"
begin

text \<open>
  \<open>scheduler_store.go\<close>: the queue of the runtimes that kept jobs in Valkey only. A Lua script
  runs atomically, so each is one function of the keyspace: three sorted sets (score and member;
  a range is ordered by both), the hash of payloads, the claim and dedupe keys with the
  millisecond after which they expire, and the fence counter. A payload is the JSON text of a
  job, or a text that \<open>json.Unmarshal\<close> refuses, with what the script's own decoder reads of its
  \<open>cronName\<close>.
\<close>

section \<open>Keyspace\<close>

datatype payload = JobText scheduled_job | Garbled bool

record valkey =
  z_oneshot :: "(string \<times> int) list"
  z_cron :: "(string \<times> int) list"
  z_legacy :: "(string \<times> int) list"
  payloads :: "(string \<times> payload) list"
  claim_keys :: "(string \<times> string \<times> int) list"
  seen :: "(string \<times> int) list"
  fence :: int

definition millis :: "int \<Rightarrow> int" where "millis t = t div 1000000"

definition lease_ms :: int where "lease_ms = 300000"
definition dedupe_ttl_ms :: int where "dedupe_ttl_ms = 2592000000"
definition legacy_batch_limit :: nat where "legacy_batch_limit = 4096"
definition claim_page_limit :: nat where "claim_page_limit = 16"

text \<open>\<open>GET\<close> and \<open>EXISTS\<close>: a key is gone once the clock is past its expiry.\<close>

definition live_claim :: "int \<Rightarrow> valkey \<Rightarrow> string \<Rightarrow> string option" where
  "live_claim ms v i = (case map_of (claim_keys v) i of None \<Rightarrow> None
     | Some (t, e) \<Rightarrow> if ms \<le> e then Some t else None)"

definition live_seen :: "int \<Rightarrow> valkey \<Rightarrow> string \<Rightarrow> bool" where
  "live_seen ms v i = (case map_of (seen v) i of None \<Rightarrow> False | Some e \<Rightarrow> ms \<le> e)"

definition zadd_nx :: "int \<Rightarrow> string \<Rightarrow> (string \<times> int) list \<Rightarrow> (string \<times> int) list" where
  "zadd_nx score i z = (if map_of z i = None then z @ [(i, score)] else z)"

definition zrange :: "(string \<times> int) list \<Rightarrow> int \<Rightarrow> nat \<Rightarrow> nat \<Rightarrow> string list" where
  "zrange z hi offset n =
     map fst (take n (drop offset (sort_key (\<lambda>(i, score). (score, i)) (filter (\<lambda>(i, score). score \<le> hi) z))))"

section \<open>The scripts\<close>

definition vk_enqueue :: "int \<Rightarrow> scheduled_job \<Rightarrow> valkey \<Rightarrow> valkey" where
  "vk_enqueue ms j v =
     (if live_seen ms v (j_id j) then v
      else
        let v = v\<lparr>seen := AList.update (j_id j) (ms + dedupe_ttl_ms) (seen v),
                  payloads := AList.update (j_id j) (JobText (j\<lparr>j_token := ''''\<rparr>)) (payloads v)\<rparr>
        in if is_cron j then v\<lparr>z_cron := zadd_nx (millis (j_run_at j)) (j_id j) (z_cron v)\<rparr>
           else v\<lparr>z_oneshot := zadd_nx (millis (j_run_at j)) (j_id j) (z_oneshot v)\<rparr>)"

definition remove_job :: "string \<Rightarrow> valkey \<Rightarrow> valkey" where
  "remove_job i v = v\<lparr>z_oneshot := AList.delete i (z_oneshot v), z_cron := AList.delete i (z_cron v),
     z_legacy := AList.delete i (z_legacy v)\<rparr>"

type_synonym claims = "(string \<times> payload \<times> string) list"

definition take_claim :: "int \<Rightarrow> string \<Rightarrow> string \<Rightarrow> payload \<Rightarrow> valkey \<times> claims \<Rightarrow> valkey \<times> claims" where
  "take_claim ms owner i p vc =
     (let (v, cl) = vc; tok = owner @ '':'' @ int_dec (fence v + 1)
      in (v\<lparr>fence := fence v + 1, claim_keys := AList.update i (tok, ms + lease_ms) (claim_keys v)\<rparr>,
          cl @ [(i, p, tok)]))"

text \<open>The loop over one page; the flag is its early return.\<close>

fun claim_ids :: "int \<Rightarrow> nat \<Rightarrow> string \<Rightarrow> string list \<Rightarrow> valkey \<times> claims \<Rightarrow> nat \<Rightarrow>
    (valkey \<times> claims) \<times> nat \<times> bool" where
  "claim_ids ms limit owner [] vc removed = (vc, removed, False)"
| "claim_ids ms limit owner (i # is) vc removed =
     (if limit \<le> length (snd vc) then (vc, removed, True)
      else case map_of (payloads (fst vc)) i of
             Some p \<Rightarrow>
               if live_claim ms (fst vc) i = None
               then claim_ids ms limit owner is (take_claim ms owner i p vc) removed
               else claim_ids ms limit owner is vc removed
           | None \<Rightarrow> claim_ids ms limit owner is (remove_job i (fst vc), snd vc) (removed + 1))"

text \<open>The loop over pages, counted down from the page limit.\<close>

fun claim_from :: "int \<Rightarrow> int \<Rightarrow> nat \<Rightarrow> string \<Rightarrow> (valkey \<Rightarrow> (string \<times> int) list) \<Rightarrow> nat \<Rightarrow> nat \<Rightarrow>
    valkey \<times> claims \<Rightarrow> valkey \<times> claims" where
  "claim_from ms now limit owner z 0 offset vc = vc"
| "claim_from ms now limit owner z (Suc n) offset vc =
     (if limit \<le> length (snd vc) then vc
      else
        let page = max (limit * 8) 64; ids = zrange (z (fst vc)) now offset page
        in if ids = [] then vc
           else
             let (vc', removed, stop) = claim_ids ms limit owner ids vc 0
             in if stop \<or> length ids < page then vc'
                else claim_from ms now limit owner z n (offset + length ids - removed) vc')"

definition text_is_cron :: "payload \<Rightarrow> bool" where
  "text_is_cron p = (case p of JobText j \<Rightarrow> is_cron j | Garbled b \<Rightarrow> b)"

definition move_legacy :: "string \<Rightarrow> valkey \<Rightarrow> valkey" where
  "move_legacy i v =
     (let v = (case map_of (payloads v) i of
            Some p \<Rightarrow>
              (case map_of (z_legacy v) i of
                 None \<Rightarrow> v
               | Some score \<Rightarrow> if text_is_cron p then v\<lparr>z_cron := zadd_nx score i (z_cron v)\<rparr>
                   else v\<lparr>z_oneshot := zadd_nx score i (z_oneshot v)\<rparr>)
          | None \<Rightarrow> v\<lparr>payloads := AList.delete i (payloads v)\<rparr>)
      in v\<lparr>z_legacy := AList.delete i (z_legacy v)\<rparr>)"

definition claim_script :: "int \<Rightarrow> int \<Rightarrow> nat \<Rightarrow> string \<Rightarrow> valkey \<Rightarrow> valkey \<times> claims" where
  "claim_script ms now limit owner v =
     (let vc = claim_from ms now limit owner z_oneshot claim_page_limit 0 (v, []);
          vc = (if length (snd vc) < limit then
                  let ids = zrange (z_legacy (fst vc)) now 0 legacy_batch_limit
                  in claim_from ms now limit owner z_oneshot claim_page_limit 0
                       (fold move_legacy ids (fst vc), snd vc)
                else vc)
      in if length (snd vc) < limit \<and> list_ex (\<lambda>(i, score). score \<le> now) (z_legacy (fst vc)) then vc
         else claim_from ms now limit owner z_cron claim_page_limit 0 vc)"

definition vk_release :: "int \<Rightarrow> string \<Rightarrow> string \<Rightarrow> valkey \<Rightarrow> valkey" where
  "vk_release ms i t v =
     (if live_claim ms v i = Some t then v\<lparr>claim_keys := AList.delete i (claim_keys v)\<rparr> else v)"

text \<open>
  \<open>claimDue\<close> decodes the payloads in order; at the first that does not decode it releases the
  jobs decoded so far and that one, and fails.
\<close>

fun decode_claims :: "int \<Rightarrow> claims \<Rightarrow> scheduled_job list \<Rightarrow> valkey \<Rightarrow> valkey \<times> scheduled_job list option" where
  "decode_claims ms [] jobs v = (v, Some jobs)"
| "decode_claims ms ((i, JobText j, t) # cl) jobs v = decode_claims ms cl (jobs @ [j\<lparr>j_id := i, j_token := t\<rparr>]) v"
| "decode_claims ms ((i, Garbled b, t) # cl) jobs v =
     (vk_release ms i t (fold (\<lambda>j. vk_release ms (j_id j) (j_token j)) jobs v), None)"

definition vk_claim :: "int \<Rightarrow> int \<Rightarrow> int \<Rightarrow> string \<Rightarrow> valkey \<Rightarrow> valkey \<times> scheduled_job list option" where
  "vk_claim ms now limit owner v =
     (if limit \<le> 0 then (v, Some [])
      else let (v, cl) = claim_script ms (millis now) (nat limit) owner v in decode_claims ms cl [] v)"

definition vk_renew :: "int \<Rightarrow> string \<Rightarrow> string \<Rightarrow> valkey \<Rightarrow> valkey \<times> bool" where
  "vk_renew ms i t v =
     (if live_claim ms v i = Some t
      then (v\<lparr>claim_keys := AList.update i (t, ms + lease_ms) (claim_keys v)\<rparr>, True) else (v, False))"

definition in_no_queue :: "string \<Rightarrow> valkey \<Rightarrow> bool" where
  "in_no_queue i v \<longleftrightarrow> map_of (z_oneshot v) i = None \<and> map_of (z_cron v) i = None \<and> map_of (z_legacy v) i = None"

definition vk_complete :: "int \<Rightarrow> string \<Rightarrow> string \<Rightarrow> valkey \<Rightarrow> valkey \<times> bool" where
  "vk_complete ms i t v =
     (if live_claim ms v i \<noteq> Some t then
        (v, live_claim ms v i = None \<and> map_of (payloads v) i = None \<and> in_no_queue i v)
      else ((remove_job i v)\<lparr>payloads := AList.delete i (payloads v), claim_keys := AList.delete i (claim_keys v),
              seen := AList.update i (ms + dedupe_ttl_ms) (seen v)\<rparr>, True))"

datatype guard_result = Guarded | LegacyPending | LegacyCompleted

definition vk_guard :: "int \<Rightarrow> string \<Rightarrow> string \<Rightarrow> valkey \<Rightarrow> valkey \<times> guard_result" where
  "vk_guard ms i t v =
     (if map_of (payloads v) i \<noteq> None then (v, LegacyPending)
      else if live_seen ms v i then (v, LegacyCompleted)
      else case live_claim ms v i of
             Some t' \<Rightarrow> if t' = t then (v\<lparr>claim_keys := AList.update i (t', ms + lease_ms) (claim_keys v)\<rparr>, Guarded)
                 else (v, LegacyPending)
           | None \<Rightarrow> (v\<lparr>claim_keys := AList.update i (t, ms + lease_ms) (claim_keys v)\<rparr>, Guarded))"

definition vk_refresh_markers :: "int \<Rightarrow> valkey \<Rightarrow> valkey" where
  "vk_refresh_markers ms v =
     v\<lparr>seen := fold (\<lambda>i m. AList.update i (ms + dedupe_ttl_ms) m) (map fst (payloads v)) (seen v)\<rparr>"

definition valkey_store :: "valkey job_store" where
  "valkey_store =
     \<lparr>st_enqueue = (\<lambda>clk j v. (vk_enqueue (millis clk) j v, True)),
      st_claim = (\<lambda>clk. vk_claim (millis clk)),
      st_renew = (\<lambda>clk i t v. apsnd Some (vk_renew (millis clk) i t v)),
      st_complete = (\<lambda>clk. vk_complete (millis clk)),
      st_release = (\<lambda>clk i t v. (vk_release (millis clk) i t v, True))\<rparr>"

section \<open>What the claim script does\<close>

lemma map_of_update: "map_of (AList.update k x m) i = (if i = k then Some x else map_of m i)"
  by (simp add: update_conv')

lemma map_of_delete: "map_of (AList.delete k m) i = (if i = k then None else map_of m i)"
  by (simp add: delete_conv')

lemma map_of_zadd_nx: "map_of (zadd_nx x k z) i = (if i = k \<and> map_of z i = None then Some x else map_of z i)"
  by (auto simp: zadd_nx_def map_add_def split: option.split)

lemmas keyspace = map_of_update map_of_delete map_of_zadd_nx live_claim_def live_seen_def in_no_queue_def remove_job_def

lemma live_claim_later: "live_claim ms v i = None \<Longrightarrow> ms \<le> ms' \<Longrightarrow> live_claim ms' v i = None"
  by (auto simp: live_claim_def split: option.splits if_splits)

lemma live_claim_before: "live_claim ms' v i = Some t \<Longrightarrow> ms \<le> ms' \<Longrightarrow> live_claim ms v i = Some t"
  by (auto simp: live_claim_def split: option.splits if_splits)

text \<open>
  From \<open>v0\<close> on, a run of the script has claimed distinct jobs with a payload that nobody held,
  with claim keys for a whole lease; it has left every other claim key, the dedupe keys and the
  payloads as they were, and queued no id that was not queued.
\<close>

definition script_inv :: "int \<Rightarrow> valkey \<Rightarrow> valkey \<times> claims \<Rightarrow> bool" where
  "script_inv ms v0 vc \<longleftrightarrow>
     distinct (map fst (snd vc))
   \<and> (\<forall>(i, p, t) \<in> set (snd vc). live_claim ms v0 i = None \<and> map_of (payloads v0) i = Some p
        \<and> map_of (claim_keys (fst vc)) i = Some (t, ms + lease_ms) \<and> t \<noteq> '''')
   \<and> (\<forall>i. i \<notin> fst ` set (snd vc) \<longrightarrow> map_of (claim_keys (fst vc)) i = map_of (claim_keys v0) i)
   \<and> (\<forall>i. map_of (payloads (fst vc)) i = map_of (payloads v0) i)
   \<and> seen (fst vc) = seen v0
   \<and> (\<forall>i. in_no_queue i v0 \<longrightarrow> in_no_queue i (fst vc))"

lemma script_inv_start: "script_inv ms v (v, [])"
  by (simp add: script_inv_def)

lemma script_inv_live:
  assumes "script_inv ms v0 vc" and "i \<in> fst ` set (snd vc)"
  shows "live_claim ms (fst vc) i \<noteq> None"
  using assms by (fastforce simp: script_inv_def live_claim_def lease_ms_def)

lemma take_claim_inv:
  assumes inv: "script_inv ms v0 vc" and p: "map_of (payloads (fst vc)) i = Some p"
    and free: "live_claim ms (fst vc) i = None"
  shows "script_inv ms v0 (take_claim ms owner i p vc)"
proof -
  obtain v cl where vc: "vc = (v, cl)" by (cases vc)
  have new: "i \<notin> fst ` set cl" using script_inv_live [OF inv] free vc by fastforce
  have keys: "map_of (claim_keys v) i = map_of (claim_keys v0) i" using inv new vc by (simp add: script_inv_def)
  have "live_claim ms v0 i = None" using free keys vc by (simp add: live_claim_def)
  moreover have "map_of (payloads v0) i = Some p" using inv p vc by (simp add: script_inv_def)
  moreover have "k \<noteq> i" if "(k, q, t) \<in> set cl" for k q t using new that by force
  ultimately show ?thesis
    using inv new unfolding vc script_inv_def
    by (auto simp: take_claim_def Let_def map_of_update in_no_queue_def)
qed

lemma remove_job_inv:
  assumes "script_inv ms v0 vc"
  shows "script_inv ms v0 (remove_job i (fst vc), snd vc)"
  using assms unfolding script_inv_def by (auto simp: remove_job_def in_no_queue_def map_of_delete)

lemma move_legacy_inv:
  assumes "script_inv ms v0 vc"
  shows "script_inv ms v0 (move_legacy i (fst vc), snd vc)"
  using assms unfolding script_inv_def
  by (auto simp: move_legacy_def Let_def in_no_queue_def map_of_delete map_of_zadd_nx split: option.splits)

lemma fold_move_legacy_inv:
  "script_inv ms v0 vc \<Longrightarrow> script_inv ms v0 (fold move_legacy ids (fst vc), snd vc)"
proof (induction ids arbitrary: vc)
  case (Cons i ids)
  from Cons.IH [OF move_legacy_inv [OF Cons.prems]] show ?case by simp
qed simp

lemma claim_ids_inv:
  "script_inv ms v0 vc \<Longrightarrow> script_inv ms v0 (fst (claim_ids ms limit owner ids vc removed))"
  by (induction ms limit owner ids vc removed rule: claim_ids.induct)
    (auto simp: take_claim_inv remove_job_inv split: option.splits)

lemma claim_from_inv:
  "script_inv ms v0 vc \<Longrightarrow> script_inv ms v0 (claim_from ms now limit owner z n offset vc)"
proof (induction ms now limit owner z n offset vc rule: claim_from.induct)
  case (2 ms now limit owner z n offset vc)
  let ?ids = "zrange (z (fst vc)) now offset (max (limit * 8) 64)"
  obtain vc' removed stop where ids: "claim_ids ms limit owner ?ids vc 0 = (vc', removed, stop)"
    by (cases "claim_ids ms limit owner ?ids vc 0") auto
  have inv: "script_inv ms v0 vc'" using claim_ids_inv [OF "2.prems", of limit owner ?ids 0] by (simp add: ids)
  show ?case
    using "2.IH" [OF _ refl refl _ ids [symmetric] refl refl] inv "2.prems" ids by (auto simp: Let_def)
qed simp

lemma claim_script_inv: "script_inv ms v (claim_script ms now limit owner v)"
proof -
  define a where "a = claim_from ms now limit owner z_oneshot claim_page_limit 0 (v, [])"
  define b where "b = (if length (snd a) < limit then
      claim_from ms now limit owner z_oneshot claim_page_limit 0
        (fold move_legacy (zrange (z_legacy (fst a)) now 0 legacy_batch_limit) (fst a), snd a) else a)"
  have a: "script_inv ms v a" unfolding a_def by (rule claim_from_inv [OF script_inv_start])
  have b: "script_inv ms v b"
    unfolding b_def using a claim_from_inv [OF fold_move_legacy_inv [OF a]] by simp
  have "claim_script ms now limit owner v =
      (if length (snd b) < limit \<and> list_ex (\<lambda>(i, score). score \<le> now) (z_legacy (fst b)) then b
       else claim_from ms now limit owner z_cron claim_page_limit 0 b)"
    unfolding claim_script_def a_def [symmetric] Let_def b_def by simp
  then show ?thesis using b claim_from_inv [OF b] by simp
qed

lemma decode_claims_Some:
  "decode_claims ms cl jobs v = (v', Some js) \<Longrightarrow>
   v' = v \<and> (\<exists>ks. js = jobs @ ks \<and> map j_id ks = map fst cl
     \<and> map j_token ks = map (snd \<circ> snd) cl)"
  by (induction ms cl jobs v rule: decode_claims.induct) fastforce+

lemma vk_release_other:
  "i \<noteq> k \<Longrightarrow> map_of (claim_keys (vk_release ms i t v)) k = map_of (claim_keys v) k"
  "payloads (vk_release ms i t v) = payloads v" "seen (vk_release ms i t v) = seen v"
  "in_no_queue k (vk_release ms i t v) = in_no_queue k v"
  by (auto simp: vk_release_def map_of_delete in_no_queue_def)

lemma fold_release_other:
  "k \<notin> j_id ` set jobs \<Longrightarrow>
     map_of (claim_keys (fold (\<lambda>j. vk_release ms (j_id j) (j_token j)) jobs v)) k = map_of (claim_keys v) k"
  "payloads (fold (\<lambda>j. vk_release ms (j_id j) (j_token j)) jobs v) = payloads v"
  "seen (fold (\<lambda>j. vk_release ms (j_id j) (j_token j)) jobs v) = seen v"
  "in_no_queue i (fold (\<lambda>j. vk_release ms (j_id j) (j_token j)) jobs v) = in_no_queue i v"
  by (induction jobs arbitrary: v) (auto simp: vk_release_other)

lemma decode_claims_other:
  "k \<notin> fst ` set cl \<Longrightarrow> k \<notin> j_id ` set jobs \<Longrightarrow>
     map_of (claim_keys (fst (decode_claims ms cl jobs v))) k = map_of (claim_keys v) k"
  "payloads (fst (decode_claims ms cl jobs v)) = payloads v"
  "seen (fst (decode_claims ms cl jobs v)) = seen v"
  "in_no_queue i (fst (decode_claims ms cl jobs v)) = in_no_queue i v"
  by (induction ms cl jobs v rule: decode_claims.induct)
    (auto simp: vk_release_other fold_release_other)

text \<open>The effect of \<open>claimDue\<close> on one id.\<close>

lemma vk_claim_script:
  assumes "vk_claim ms now limit ow v = (v', r)" and "\<not> limit \<le> 0"
  obtains w cl where "script_inv ms v (w, cl)" and "decode_claims ms cl [] w = (v', r)"
proof -
  obtain w cl where eq: "claim_script ms (millis now) (nat limit) ow v = (w, cl)" by fastforce
  have "script_inv ms v (w, cl)" using claim_script_inv [of ms v "millis now" "nat limit" ow] by (simp add: eq)
  then show ?thesis using that assms eq by (simp add: vk_claim_def)
qed

lemma vk_claim_frame:
  assumes "vk_claim ms now limit ow v = (v', r)"
  shows "live_claim ms v k = Some h \<Longrightarrow> map_of (claim_keys v') k = map_of (claim_keys v) k"
    and "seen v' = seen v" and "map_of (payloads v') i = map_of (payloads v) i"
    and "in_no_queue i v \<Longrightarrow> in_no_queue i v'"
proof -
  have "(live_claim ms v k = Some h \<longrightarrow> map_of (claim_keys v') k = map_of (claim_keys v) k)
      \<and> seen v' = seen v \<and> map_of (payloads v') i = map_of (payloads v) i \<and> (in_no_queue i v \<longrightarrow> in_no_queue i v')"
  proof (cases "limit \<le> 0")
    case True
    then show ?thesis using assms by (simp add: vk_claim_def)
  next
    case False
    from vk_claim_script [OF assms False] obtain w cl
      where inv: "script_inv ms v (w, cl)" and dec: "decode_claims ms cl [] w = (v', r)" .
    have v': "v' = fst (decode_claims ms cl [] w)" by (simp add: dec)
    have "k \<notin> fst ` set cl" if "live_claim ms v k = Some h"
      using inv that by (force simp: script_inv_def)
    then show ?thesis
      using inv unfolding v' by (auto simp: decode_claims_other script_inv_def)
  qed
  then show "live_claim ms v k = Some h \<Longrightarrow> map_of (claim_keys v') k = map_of (claim_keys v) k"
    and "seen v' = seen v" and "map_of (payloads v') i = map_of (payloads v) i"
    and "in_no_queue i v \<Longrightarrow> in_no_queue i v'" by blast+
qed

lemma vk_claim_jobs:
  assumes "vk_claim ms now limit ow v = (v', Some js)"
  shows "distinct (map j_id js)"
    and "j \<in> set js \<Longrightarrow> live_claim ms v (j_id j) = None \<and> map_of (payloads v) (j_id j) \<noteq> None
      \<and> map_of (claim_keys v') (j_id j) = Some (j_token j, ms + lease_ms) \<and> j_token j \<noteq> ''''"
proof -
  have "distinct (map j_id js) \<and> (j \<in> set js \<longrightarrow> live_claim ms v (j_id j) = None \<and> map_of (payloads v) (j_id j) \<noteq> None
      \<and> map_of (claim_keys v') (j_id j) = Some (j_token j, ms + lease_ms) \<and> j_token j \<noteq> '''')"
  proof (cases "limit \<le> 0")
    case True
    then show ?thesis using assms by (auto simp: vk_claim_def)
  next
    case False
    from vk_claim_script [OF assms False] obtain w cl
      where inv: "script_inv ms v (w, cl)" and dec: "decode_claims ms cl [] w = (v', Some js)" .
    from decode_claims_Some [OF dec] have w: "v' = w" and ids: "map j_id js = map fst cl"
      and toks: "map j_token js = map (snd \<circ> snd) cl" by auto
    have "distinct (map j_id js)" using inv by (simp add: ids script_inv_def)
    moreover have "live_claim ms v (j_id j) = None \<and> map_of (payloads v) (j_id j) \<noteq> None
        \<and> map_of (claim_keys v') (j_id j) = Some (j_token j, ms + lease_ms) \<and> j_token j \<noteq> ''''" if "j \<in> set js"
    proof -
      obtain n where n: "n < length js" "j = js ! n" using \<open>j \<in> set js\<close> by (metis in_set_conv_nth)
      have len: "length js = length cl" using arg_cong [OF ids, of length] by simp
      obtain i p t where e: "cl ! n = (i, p, t)" by (cases "cl ! n")
      have "(i, p, t) \<in> set cl" using n(1) len e nth_mem by metis
      moreover have "j_id j = i" using arg_cong [OF ids, of "\<lambda>xs. xs ! n"] n len e by simp
      moreover have "j_token j = t" using arg_cong [OF toks, of "\<lambda>xs. xs ! n"] n len e by simp
      ultimately show ?thesis using inv by (fastforce simp: w script_inv_def)
    qed
    ultimately show ?thesis by blast
  qed
  then show "distinct (map j_id js)"
    and "j \<in> set js \<Longrightarrow> live_claim ms v (j_id j) = None \<and> map_of (payloads v) (j_id j) \<noteq> None
      \<and> map_of (claim_keys v') (j_id j) = Some (j_token j, ms + lease_ms) \<and> j_token j \<noteq> ''''" by blast+
qed

section \<open>The queue keeps the contract\<close>

definition vk_holder :: "int \<Rightarrow> valkey \<Rightarrow> string \<Rightarrow> string option" where
  "vk_holder c v i = live_claim (millis c) v i"

definition vk_finished :: "int \<Rightarrow> valkey \<Rightarrow> string \<Rightarrow> bool" where
  "vk_finished c v i \<longleftrightarrow> live_seen (millis c) v i \<and> map_of (payloads v) i = None \<and> in_no_queue i v"

lemma millis_mono: "a \<le> b \<Longrightarrow> millis a \<le> millis b"
  by (simp add: millis_def zdiv_mono1)

lemma millis_lease: "c < clk + scheduled_job_lease \<Longrightarrow> millis c \<le> millis clk + lease_ms"
  using millis_mono [of c "clk + scheduled_job_lease"]
  by (simp add: millis_def scheduled_job_lease_def lease_ms_def div_add_self2 [symmetric])

definition dedupe_ttl :: int where "dedupe_ttl = 2592000000000000"

lemma millis_keep: "c < clk + dedupe_ttl \<Longrightarrow> millis c \<le> millis clk + dedupe_ttl_ms"
  using millis_mono [of c "clk + dedupe_ttl"] by (simp add: millis_def dedupe_ttl_def dedupe_ttl_ms_def)

lemma live_claim_cong:
  "map_of (claim_keys v') k = map_of (claim_keys v) k \<Longrightarrow> live_claim ms v' k = live_claim ms v k"
  by (simp add: live_claim_def)

lemma live_seen_before: "live_seen ms' v i \<Longrightarrow> ms \<le> ms' \<Longrightarrow> live_seen ms v i"
  by (auto simp: live_seen_def split: option.splits)

text \<open>A script guarded by the token leaves other holders alone.\<close>

lemma vk_renew_keeps:
  assumes "ms \<le> ms'" and "live_claim ms' v k = Some h" and "(k, h) \<noteq> (i, t)"
  shows "live_claim ms' (fst (vk_renew ms i t v)) k = Some h"
  using assms live_claim_before [OF assms(2,1)] by (auto simp: vk_renew_def keyspace)

lemma vk_release_keeps:
  assumes "ms \<le> ms'" and "live_claim ms' v k = Some h" and "(k, h) \<noteq> (i, t)"
  shows "live_claim ms' (vk_release ms i t v) k = Some h"
  using assms live_claim_before [OF assms(2,1)] by (auto simp: vk_release_def keyspace)

lemma vk_complete_keeps:
  assumes "ms \<le> ms'" and "live_claim ms' v k = Some h" and "(k, h) \<noteq> (i, t)"
  shows "live_claim ms' (fst (vk_complete ms i t v)) k = Some h"
  using assms live_claim_before [OF assms(2,1)] by (auto simp: vk_complete_def keyspace)

interpretation vk: exclusive_store valkey_store "\<lambda>_. True" vk_holder vk_finished scheduled_job_lease dedupe_ttl
proof
  fix s s' :: valkey and clk c now limit i k t h ow j and js :: "scheduled_job list"
  show "vk_holder c (fst (st_enqueue valkey_store clk j s)) k = Some h" if "vk_holder c s k = Some h"
    using that by (simp add: vk_holder_def valkey_store_def vk_enqueue_def Let_def live_claim_def)
  show "vk_holder c (fst (st_claim valkey_store clk now limit ow s)) k = Some h"
    if "clk \<le> c" "vk_holder c s k = Some h"
  proof -
    obtain v' r where eq: "vk_claim (millis clk) now limit ow s = (v', r)" by fastforce
    have "live_claim (millis clk) s k = Some h"
      using that(2) live_claim_before [OF _ millis_mono [OF that(1)], of s k h] by (simp add: vk_holder_def)
    from live_claim_cong [OF vk_claim_frame(1) [OF eq this]] show ?thesis
      using that by (simp add: vk_holder_def valkey_store_def eq)
  qed
  {
    assume "clk \<le> c" "vk_holder c s k = Some h" "(k, h) \<noteq> (i, t)"
    then have keep: "millis clk \<le> millis c" "live_claim (millis c) s k = Some h" "(k, h) \<noteq> (i, t)"
      by (simp_all add: millis_mono vk_holder_def)
    show "vk_holder c (fst (st_renew valkey_store clk i t s)) k = Some h"
      using vk_renew_keeps [OF keep] by (simp add: vk_holder_def valkey_store_def)
    show "vk_holder c (fst (st_complete valkey_store clk i t s)) k = Some h"
      using vk_complete_keeps [OF keep] by (simp add: vk_holder_def valkey_store_def)
    show "vk_holder c (fst (st_release valkey_store clk i t s)) k = Some h"
      using vk_release_keeps [OF keep] by (simp add: vk_holder_def valkey_store_def)
  }
  show "vk_holder c s' i = Some t"
    if "st_renew valkey_store clk i t s = (s', Some True)" "c < clk + scheduled_job_lease"
    using that millis_lease [of c clk]
    by (auto simp: vk_holder_def valkey_store_def vk_renew_def keyspace split: if_splits)
  show "snd (st_complete valkey_store clk i t s) \<and> vk_finished c (fst (st_complete valkey_store clk i t s)) i"
    if "vk_holder clk s i = Some t" "c < clk + dedupe_ttl"
    using that millis_keep [of c clk]
    by (simp add: valkey_store_def vk_complete_def vk_holder_def vk_finished_def) (simp add: keyspace)
  {
    assume fin: "vk_finished c s i" and le: "clk \<le> c"
    have live: "live_seen (millis clk) s i"
      using fin live_seen_before [OF _ millis_mono [OF le], of s i] by (simp add: vk_finished_def)
    show "vk_finished c (fst (st_enqueue valkey_store clk j s)) i"
      using fin live
      by (auto simp: vk_finished_def valkey_store_def vk_enqueue_def Let_def keyspace split: option.splits)
    show "vk_finished c (fst (st_renew valkey_store clk k t s)) i"
      using fin by (auto simp: vk_finished_def valkey_store_def vk_renew_def live_seen_def in_no_queue_def)
    show "vk_finished c (fst (st_release valkey_store clk k t s)) i"
      using fin by (auto simp: vk_finished_def valkey_store_def vk_release_def live_seen_def in_no_queue_def)
    show "vk_finished c (fst (st_complete valkey_store clk k t s)) i" if "c < clk + dedupe_ttl"
      using fin millis_keep [OF that]
      by (auto simp: vk_finished_def valkey_store_def vk_complete_def live_seen_def in_no_queue_def remove_job_def
          map_of_update map_of_delete)
    show "vk_finished c (fst (st_claim valkey_store clk now limit ow s)) i"
    proof -
      obtain v' r where eq: "vk_claim (millis clk) now limit ow s = (v', r)" by fastforce
      show ?thesis using fin vk_claim_frame(2-4) [OF eq]
        by (simp add: vk_finished_def valkey_store_def eq live_seen_def)
    qed
  }
  assume "st_claim valkey_store clk now limit ow s = (s', Some js)"
  then have eq: "vk_claim (millis clk) now limit ow s = (s', Some js)" by (simp add: valkey_store_def)
  show "distinct (map j_id js)" by (rule vk_claim_jobs(1) [OF eq])
  assume j: "j \<in> set js"
  note jobs = vk_claim_jobs(2) [OF eq j]
  show "vk_holder c s (j_id j) = None" if "clk \<le> c"
    using jobs live_claim_later [OF _ millis_mono [OF that], of s "j_id j"] by (simp add: vk_holder_def)
  show "vk_holder c s' (j_id j) = Some (j_token j)" if "c < clk + scheduled_job_lease"
    using jobs millis_lease [OF that] by (simp add: vk_holder_def live_claim_def)
  show "j_id j \<noteq> i" if "vk_finished clk s i" using jobs that by (auto simp: vk_finished_def)
qed simp_all

section \<open>Properties\<close>

text \<open>
  C25: the Valkey queue leases exclusively too. In every history of calls a runtime whose lease
  has not run out owns the claim key, and no other token has an unexpired lease on that job.
\<close>

theorem valkey_lease_exclusive:
  assumes "sorted (map fst ops)" and "ops_ok ops" and "\<forall>c \<in> fst ` set ops. c \<le> c1"
    and "run = store_run valkey_store scheduled_job_lease ops (fresh_run v)"
    and "run_held run (i, t) = Some u" and "c1 < u"
  shows "live_claim (millis c1) (run_store run) i = Some t
    \<and> (\<forall>t' u'. run_held run (i, t') = Some u' \<longrightarrow> c1 < u' \<longrightarrow> t' = t)"
proof -
  have "vk.sound c1 run" unfolding assms(4) by (rule vk.run_sound [OF TrueI assms(1-3)])
  then have "vk_holder c1 (run_store run) i = Some t" unfolding vk.sound_def using assms(5,6) by blast
  moreover have "t' = t" if "run_held run (i, t') = Some u'" "c1 < u'" for t' u'
    using vk.exclusive [OF TrueI assms(1-3)] that assms(5,6) unfolding assms(4) by blast
  ultimately show ?thesis by (simp add: vk_holder_def)
qed

definition empty_valkey :: valkey where
  "empty_valkey = \<lparr>z_oneshot = [], z_cron = [], z_legacy = [], payloads = [], claim_keys = [], seen = [], fence = 0\<rparr>"

definition late_job :: scheduled_job where
  "late_job = \<lparr>j_id = ''a'', j_token = '''', j_project = ''p'', j_tenant = '''', j_function = ''f'',
     j_args = '''', j_run_at = 5000000, j_scheduled_for = 5000000, j_cron = ''''\<rparr>"

definition lease_ops :: "(int \<times> store_op) list" where
  "lease_ops = [(0, Enqueue late_job), (6000000, Claim 6000000 4 ''x''), (400000000000, Claim 400000000000 4 ''y'')]"

definition lease_run :: "valkey store_run" where
  "lease_run = store_run valkey_store scheduled_job_lease lease_ops (fresh_run empty_valkey)"

theorem valkey_lease_exclusive_witness:
  "live_claim 400001 (run_store lease_run) ''a'' = Some ''y:2''"
proof -
  have ms: "millis 400001000000 = 400001" by (simp add: millis_def)
  show ?thesis
    unfolding ms [symmetric]
  proof (rule conjunct1 [OF valkey_lease_exclusive [where ops = lease_ops and run = lease_run and v = empty_valkey and u = 700000000000]])
    show "sorted (map fst lease_ops)" "ops_ok lease_ops" "\<forall>c \<in> fst ` set lease_ops. c \<le> 400001000000"
      by (simp_all add: lease_ops_def ops_ok_def)
    show "run_held lease_run (''a'', ''y:2'') = Some 700000000000" by code_simp
  qed (rule lease_run_def, simp)
qed

definition garbled_valkey :: valkey where
  "garbled_valkey = vk_enqueue 0 (late_job\<lparr>j_id := ''c'', j_run_at := 7000000\<rparr>)
     (vk_enqueue 0 late_job empty_valkey)
       \<lparr>z_oneshot := [(''a'', 5), (''b'', 6), (''c'', 7)],
        payloads := [(''a'', JobText late_job), (''b'', Garbled False), (''c'', JobText (late_job\<lparr>j_id := ''c''\<rparr>))]\<rparr>"

text \<open>
  a payload that does not decode stops the queue. Of three due jobs the second is garbled:
  the claim fails, leaves the third leased to nobody for the whole lease, and fails again at
  every later poll, although two of the jobs are sound.
\<close>

theorem garbled_payload_stops_claims:
  "snd (vk_claim 10 10000000 4 ''x'' garbled_valkey) = None
   \<and> live_claim 300000 (fst (vk_claim 10 10000000 4 ''x'' garbled_valkey)) ''c'' = Some ''x:3''
   \<and> snd (vk_claim 510 510000000 4 ''x'' (fst (vk_claim 10 10000000 4 ''x'' garbled_valkey))) = None
   \<and> snd (vk_claim 400000 400000000000 4 ''x'' (fst (vk_claim 510 510000000 4 ''x''
        (fst (vk_claim 10 10000000 4 ''x'' garbled_valkey))))) = None"
  by (intro conjI; code_simp)

end
