(* ===== verification/Migrating_Store.thy ===== *)
theory Migrating_Store
  imports Postgres_Store Valkey_Store
begin

text \<open>
  \<open>scheduler_migrating_store.go\<close>: the store of a rolling upgrade. Jobs live in the Postgres
  table; the claim keys of the old Valkey queue are kept as a second fence against runtimes that
  know only Valkey. The two servers' clocks differ by \<open>skew\<close>.
\<close>

section \<open>Operations\<close>

record migrating =
  m_pg :: pg_state
  m_vk :: valkey

text \<open>The release of both sides, used by every error path.\<close>

definition primary_release :: "int \<Rightarrow> scheduled_job \<Rightarrow> migrating \<Rightarrow> migrating" where
  "primary_release clk j s = s\<lparr>m_pg := fst (pg_release clk (j_id j) (j_token j) (m_pg s))\<rparr>"

definition legacy_release :: "int \<Rightarrow> int \<Rightarrow> scheduled_job \<Rightarrow> migrating \<Rightarrow> migrating" where
  "legacy_release skew clk j s = s\<lparr>m_vk := vk_release (millis (clk + skew)) (j_id j) (j_token j) (m_vk s)\<rparr>"

definition release_both :: "int \<Rightarrow> int \<Rightarrow> scheduled_job list \<Rightarrow> migrating \<Rightarrow> migrating" where
  "release_both skew clk js s = fold (\<lambda>j s. legacy_release skew clk j (primary_release clk j s)) js s"

definition release_legacy :: "int \<Rightarrow> int \<Rightarrow> scheduled_job list \<Rightarrow> migrating \<Rightarrow> migrating" where
  "release_legacy skew clk js s = fold (legacy_release skew clk) js s"

definition mg_enqueue :: "(string \<Rightarrow> string option) \<Rightarrow> int \<Rightarrow> scheduled_job \<Rightarrow> migrating \<Rightarrow> migrating \<times> bool" where
  "mg_enqueue jsonb clk j s = (let (pg, r) = pg_enqueue jsonb clk j (m_pg s) in (s\<lparr>m_pg := pg\<rparr>, r))"

text \<open>The loop that moves the claimed legacy jobs into the table.\<close>

definition adopt_job :: "(string \<Rightarrow> string option) \<Rightarrow> int \<Rightarrow> scheduled_job \<Rightarrow> migrating \<Rightarrow> migrating \<times> adoption option" where
  "adopt_job jsonb clk j s = (let (pg, r) = adopt_claim jsonb clk j (m_pg s) in (s\<lparr>m_pg := pg\<rparr>, r))"

definition legacy_complete :: "int \<Rightarrow> int \<Rightarrow> scheduled_job \<Rightarrow> migrating \<Rightarrow> migrating \<times> bool" where
  "legacy_complete skew clk j s =
     (let (vk, r) = vk_complete (millis (clk + skew)) (j_id j) (j_token j) (m_vk s) in (s\<lparr>m_vk := vk\<rparr>, r))"

definition primary_complete :: "int \<Rightarrow> scheduled_job \<Rightarrow> migrating \<Rightarrow> migrating \<times> bool" where
  "primary_complete clk j s =
     (let (pg, r) = pg_complete clk (j_id j) (j_token j) (m_pg s) in (s\<lparr>m_pg := pg\<rparr>, r))"

fun adopt_all :: "(string \<Rightarrow> string option) \<Rightarrow> int \<Rightarrow> int \<Rightarrow> scheduled_job list \<Rightarrow> scheduled_job list \<Rightarrow>
    migrating \<Rightarrow> scheduled_job list \<Rightarrow> migrating \<times> scheduled_job list option" where
  "adopt_all jsonb skew clk legacy [] s claimed = (s, Some claimed)"
| "adopt_all jsonb skew clk legacy (j # js) s claimed =
     (case adopt_job jsonb clk j s of
        (s, None) \<Rightarrow> (release_both skew clk claimed (release_legacy skew clk legacy s), None)
      | (s, Some Adopted) \<Rightarrow> adopt_all jsonb skew clk legacy js s (claimed @ [j])
      | (s, Some AlreadyCompleted) \<Rightarrow>
          (case legacy_complete skew clk j s of
             (s, True) \<Rightarrow> adopt_all jsonb skew clk legacy js s claimed
           | (s, False) \<Rightarrow> (release_both skew clk claimed (release_legacy skew clk legacy s), None))
      | (s, Some Busy) \<Rightarrow> adopt_all jsonb skew clk legacy js (legacy_release skew clk j s) claimed)"

text \<open>The loop that fences the claimed table rows against the old runtimes.\<close>

definition guard_job :: "int \<Rightarrow> int \<Rightarrow> scheduled_job \<Rightarrow> migrating \<Rightarrow> migrating \<times> guard_result" where
  "guard_job skew clk j s =
     (let (vk, r) = vk_guard (millis (clk + skew)) (j_id j) (j_token j) (m_vk s) in (s\<lparr>m_vk := vk\<rparr>, r))"

fun guard_all :: "int \<Rightarrow> int \<Rightarrow> scheduled_job list \<Rightarrow> scheduled_job list \<Rightarrow>
    migrating \<Rightarrow> scheduled_job list \<Rightarrow> migrating \<times> scheduled_job list option" where
  "guard_all skew clk primary [] s claimed = (s, Some claimed)"
| "guard_all skew clk primary (j # js) s claimed =
     (case guard_job skew clk j s of
        (s, Guarded) \<Rightarrow> guard_all skew clk primary js s (claimed @ [j])
      | (s, LegacyCompleted) \<Rightarrow>
          (case primary_complete clk j s of
             (s, True) \<Rightarrow> guard_all skew clk primary js s claimed
           | (s, False) \<Rightarrow> (release_both skew clk claimed (release_both skew clk primary s), None))
      | (s, LegacyPending) \<Rightarrow> guard_all skew clk primary js (primary_release clk j s) claimed)"

definition mg_claim :: "(int \<Rightarrow> string \<Rightarrow> bool) \<Rightarrow> (string \<Rightarrow> string option) \<Rightarrow> int \<Rightarrow>
    int \<Rightarrow> int \<Rightarrow> int \<Rightarrow> string \<Rightarrow> migrating \<Rightarrow> migrating \<times> scheduled_job list option" where
  "mg_claim locked jsonb skew clk now limit owner s =
     (if limit \<le> 0 then (s, Some [])
      else case vk_claim (millis (clk + skew)) now limit owner (m_vk s) of
        (vk, None) \<Rightarrow> (s\<lparr>m_vk := vk\<rparr>, None)
      | (vk, Some legacy) \<Rightarrow>
          (case adopt_all jsonb skew clk legacy legacy (s\<lparr>m_vk := vk\<rparr>) [] of
             (s, None) \<Rightarrow> (s, None)
           | (s, Some claimed) \<Rightarrow>
               (case pg_claim locked clk now limit owner (m_pg s) of
                  (pg, None) \<Rightarrow> (release_both skew clk claimed (s\<lparr>m_pg := pg\<rparr>), None)
                | (pg, Some primary) \<Rightarrow>
                    (case guard_all skew clk primary primary (s\<lparr>m_pg := pg\<rparr>) claimed of
                       (s, None) \<Rightarrow> (s, None)
                     | (s, Some claimed) \<Rightarrow>
                         let js = sort_key (\<lambda>j. (is_cron j, j_scheduled_for j)) claimed
                         in if int (length js) \<le> limit then (s, Some js)
                            else (release_both skew clk (drop (nat limit) js) s, Some (take (nat limit) js))))))"

definition mg_renew :: "int \<Rightarrow> int \<Rightarrow> string \<Rightarrow> string \<Rightarrow> migrating \<Rightarrow> migrating \<times> bool option" where
  "mg_renew skew clk i t s =
     (case pg_renew clk i t (m_pg s) of
        (pg, Some True) \<Rightarrow>
          (let (vk, alive) = vk_renew (millis (clk + skew)) i t (m_vk s) in (s\<lparr>m_pg := pg, m_vk := vk\<rparr>, Some alive))
      | (pg, r) \<Rightarrow> (s\<lparr>m_pg := pg\<rparr>, r))"

definition mg_complete :: "int \<Rightarrow> int \<Rightarrow> string \<Rightarrow> string \<Rightarrow> migrating \<Rightarrow> migrating \<times> bool" where
  "mg_complete skew clk i t s =
     (case vk_complete (millis (clk + skew)) i t (m_vk s) of
        (vk, False) \<Rightarrow> (s\<lparr>m_vk := vk\<rparr>, False)
      | (vk, True) \<Rightarrow> (let (pg, r) = pg_complete clk i t (m_pg s) in (s\<lparr>m_pg := pg, m_vk := vk\<rparr>, r)))"

definition mg_release :: "int \<Rightarrow> int \<Rightarrow> string \<Rightarrow> string \<Rightarrow> migrating \<Rightarrow> migrating \<times> bool" where
  "mg_release skew clk i t s =
     (let (pg, r) = pg_release clk i t (m_pg s)
      in (s\<lparr>m_pg := pg, m_vk := vk_release (millis (clk + skew)) i t (m_vk s)\<rparr>, r))"

definition migrating_store :: "(int \<Rightarrow> string \<Rightarrow> bool) \<Rightarrow> (string \<Rightarrow> string option) \<Rightarrow> int \<Rightarrow> migrating job_store" where
  "migrating_store locked jsonb skew = \<lparr>st_enqueue = mg_enqueue jsonb, st_claim = mg_claim locked jsonb skew,
     st_renew = mg_renew skew, st_complete = mg_complete skew, st_release = mg_release skew\<rparr>"

section \<open>What one step leaves alone\<close>

text \<open>A property of the state that no step on behalf of job \<open>j\<close> destroys.\<close>

definition undisturbed :: "(string \<Rightarrow> string option) \<Rightarrow> int \<Rightarrow> int \<Rightarrow> (migrating \<Rightarrow> bool) \<Rightarrow> scheduled_job \<Rightarrow> bool" where
  "undisturbed jsonb skew clk P j \<longleftrightarrow>
     (\<forall>s. P s \<longrightarrow> P (primary_release clk j s) \<and> P (legacy_release skew clk j s)
        \<and> P (fst (adopt_job jsonb clk j s)) \<and> P (fst (legacy_complete skew clk j s))
        \<and> P (fst (primary_complete clk j s)) \<and> P (fst (guard_job skew clk j s)))"

lemma undisturbedD:
  assumes "undisturbed jsonb skew clk P j" and "P s"
  shows "P (primary_release clk j s)" "P (legacy_release skew clk j s)"
    "adopt_job jsonb clk j s = (s1, a) \<Longrightarrow> P s1" "legacy_complete skew clk j s = (s2, b) \<Longrightarrow> P s2"
    "primary_complete clk j s = (s3, b) \<Longrightarrow> P s3" "guard_job skew clk j s = (s4, g) \<Longrightarrow> P s4"
  using assms unfolding undisturbed_def by (metis fst_conv)+

lemma release_both_undisturbed:
  "\<forall>j \<in> set js. undisturbed jsonb skew clk P j \<Longrightarrow> P s \<Longrightarrow> P (release_both skew clk js s)"
proof (induction js arbitrary: s)
  case (Cons j js)
  then have st: "undisturbed jsonb skew clk P j" by simp
  have "P (legacy_release skew clk j (primary_release clk j s))"
    by (rule undisturbedD(2) [OF st undisturbedD(1) [OF st Cons.prems(2)]])
  then show ?case using Cons by (simp add: release_both_def)
qed (simp add: release_both_def)

lemma release_legacy_undisturbed:
  "\<forall>j \<in> set js. undisturbed jsonb skew clk P j \<Longrightarrow> P s \<Longrightarrow> P (release_legacy skew clk js s)"
proof (induction js arbitrary: s)
  case (Cons j js)
  then have st: "undisturbed jsonb skew clk P j" by simp
  have "P (legacy_release skew clk j s)" by (rule undisturbedD(2) [OF st Cons.prems(2)])
  then show ?case using Cons by (simp add: release_legacy_def)
qed (simp add: release_legacy_def)

lemma adopt_all_undisturbed:
  assumes "\<forall>j \<in> set (legacy @ js @ claimed). undisturbed jsonb skew clk P j" and "P s"
    and "adopt_all jsonb skew clk legacy js s claimed = (s', r)"
  shows "P s'"
  using assms
proof (induction jsonb skew clk legacy js s claimed arbitrary: s' r rule: adopt_all.induct)
  case (2 jsonb skew clk legacy j js s claimed)
  have st: "undisturbed jsonb skew clk P j" using "2.prems"(1) by simp
  obtain s1 a where a: "adopt_job jsonb clk j s = (s1, a)" by fastforce
  have P1: "P s1" by (rule undisturbedD(3) [OF st "2.prems"(2) a])
  have un: "\<forall>j \<in> set claimed. undisturbed jsonb skew clk P j" "\<forall>j \<in> set legacy. undisturbed jsonb skew clk P j"
    using "2.prems"(1) by simp_all
  have rel: "P (release_both skew clk claimed (release_legacy skew clk legacy s2))" if "P s2" for s2
    by (rule release_both_undisturbed [OF un(1) release_legacy_undisturbed [OF un(2) that]])
  show ?case
  proof (cases a)
    case None
    then show ?thesis using "2.prems"(3) a rel [OF P1] by simp
  next
    case (Some ad)
    show ?thesis
    proof (cases ad)
      case Busy
      then show ?thesis
        using "2.IH"(1) [OF a [symmetric] Some Busy] "2.prems" a Some undisturbedD(2) [OF st P1] by simp
    next
      case Adopted
      then show ?thesis using "2.IH"(2) [OF a [symmetric] Some Adopted] "2.prems" a Some P1 by simp
    next
      case AlreadyCompleted
      obtain s2 b where c: "legacy_complete skew clk j s1 = (s2, b)" by fastforce
      have P2: "P s2" by (rule undisturbedD(4) [OF st P1 c])
      show ?thesis
        using "2.IH"(3) [OF a [symmetric] Some AlreadyCompleted c [symmetric]] "2.prems" a Some AlreadyCompleted c P2 rel [OF P2]
        by (cases b) simp_all
    qed
  qed
qed simp

lemma guard_all_undisturbed:
  assumes "\<forall>j \<in> set (primary @ js @ claimed). undisturbed jsonb skew clk P j" and "P s"
    and "guard_all skew clk primary js s claimed = (s', r)"
  shows "P s'"
  using assms
proof (induction skew clk primary js s claimed arbitrary: s' r rule: guard_all.induct)
  case (2 skew clk primary j js s claimed)
  have st: "undisturbed jsonb skew clk P j" using "2.prems"(1) by simp
  obtain s1 g where g: "guard_job skew clk j s = (s1, g)" by fastforce
  have P1: "P s1" by (rule undisturbedD(6) [OF st "2.prems"(2) g])
  have un: "\<forall>j \<in> set claimed. undisturbed jsonb skew clk P j" "\<forall>j \<in> set primary. undisturbed jsonb skew clk P j"
    using "2.prems"(1) by simp_all
  have rel: "P (release_both skew clk claimed (release_both skew clk primary s2))" if "P s2" for s2
    by (rule release_both_undisturbed [OF un(1) release_both_undisturbed [OF un(2) that]])
  show ?case
  proof (cases g)
    case Guarded
    then show ?thesis using "2.IH"(1) [OF g [symmetric] Guarded] "2.prems" g P1 by simp
  next
    case LegacyPending
    then show ?thesis
      using "2.IH"(2) [OF g [symmetric] LegacyPending] "2.prems" g undisturbedD(1) [OF st P1] by simp
  next
    case LegacyCompleted
    obtain s2 b where c: "primary_complete clk j s1 = (s2, b)" by fastforce
    have P2: "P s2" by (rule undisturbedD(5) [OF st P1 c])
    show ?thesis
      using "2.IH"(3) [OF g [symmetric] LegacyCompleted c [symmetric]] "2.prems" g LegacyCompleted c P2 rel [OF P2]
      by (cases b) simp_all
  qed
qed simp

text \<open>Three properties that the steps for other jobs leave alone.\<close>

lemma rows_ok_undisturbed: "undisturbed jsonb skew clk (\<lambda>s. rows_ok (pg_rows (m_pg s))) j"
  unfolding undisturbed_def
proof (intro allI impI conjI)
  fix s :: migrating assume ok: "rows_ok (pg_rows (m_pg s))"
  show "rows_ok (pg_rows (m_pg (primary_release clk j s)))"
    using pg.release_ok [OF ok] by (simp add: primary_release_def postgres_store_def)
  show "rows_ok (pg_rows (m_pg (legacy_release skew clk j s)))" using ok by (simp add: legacy_release_def)
  show "rows_ok (pg_rows (m_pg (fst (legacy_complete skew clk j s))))"
    using ok by (simp add: legacy_complete_def split: prod.split)
  show "rows_ok (pg_rows (m_pg (fst (guard_job skew clk j s))))"
    using ok by (simp add: guard_job_def split: prod.split)
  show "rows_ok (pg_rows (m_pg (fst (primary_complete clk j s))))"
    using pg.complete_ok [OF ok] by (simp add: primary_complete_def postgres_store_def split: prod.split) (metis fst_conv)
  have "rows_ok (pg_rows (fst (adopt_claim jsonb clk j (m_pg s))))"
  proof (cases "insert_job jsonb j (pg_rows (m_pg s))")
    case None
    then show ?thesis using ok by (simp add: adopt_claim_def)
  next
    case (Some rows)
    have rok: "rows_ok rows" by (rule insert_job_spec(1) [OF Some ok])
    have "rows_ok (update_where (\<lambda>r. r_id r = j_id j \<and> r_status r = Pending
        \<and> (r_token r = '''' \<or> r_token r = j_token j \<or> lapsed clk r))
        (\<lambda>r. r\<lparr>r_sequence := r_sequence r + 1, r_token := j_token j, r_lease := Some (clk + scheduled_job_lease)\<rparr>) rows)"
      by (rule update_rows_ok [OF rok]) (use rok in \<open>auto simp: rows_ok_def\<close>)
    then show ?thesis using Some rok by (simp add: adopt_claim_def Let_def)
  qed
  then show "rows_ok (pg_rows (m_pg (fst (adopt_job jsonb clk j s))))"
    by (simp add: adopt_job_def split: prod.split) (metis fst_conv)
qed

definition adoptable :: "int \<Rightarrow> scheduled_job \<Rightarrow> pg_row \<Rightarrow> bool" where
  "adoptable clk j r \<longleftrightarrow> r_id r = j_id j \<and> r_status r = Pending
     \<and> (r_token r = '''' \<or> r_token r = j_token j \<or> lapsed clk r)"

lemma adopt_claim_cases:
  assumes "adopt_claim jsonb clk j s = (s', r)"
  shows "row (pg_rows s) k = Some q \<Longrightarrow> \<not> adoptable clk j q \<Longrightarrow> row (pg_rows s') k = Some q"
    and "row (pg_rows s) k = Some q \<Longrightarrow> row (pg_rows s') k = Some q
      \<or> row (pg_rows s') k = Some (q\<lparr>r_sequence := r_sequence q + 1, r_token := j_token j,
          r_lease := Some (clk + scheduled_job_lease)\<rparr>)"
    and "rows_ok (pg_rows s) \<Longrightarrow> r = Some Adopted \<Longrightarrow> \<exists>q. row (pg_rows s') (j_id j) = Some q
      \<and> r_status q = Pending \<and> r_token q = j_token j \<and> r_lease q = Some (clk + scheduled_job_lease)"
    and "rows_ok (pg_rows s) \<Longrightarrow> r = Some Adopted \<Longrightarrow> row (pg_rows s) (j_id j) = Some q \<Longrightarrow> r_status q = Pending"
proof -
  let ?f = "\<lambda>r. r\<lparr>r_sequence := r_sequence r + 1, r_token := j_token j, r_lease := Some (clk + scheduled_job_lease)\<rparr>"
  have eq: "adopt_claim jsonb clk j s =
      (case insert_job jsonb j (pg_rows s) of None \<Rightarrow> (s, None)
       | Some rows \<Rightarrow> if list_ex (adoptable clk j) rows
           then (s\<lparr>pg_rows := update_where (adoptable clk j) ?f rows\<rparr>, Some Adopted)
           else (s\<lparr>pg_rows := rows\<rparr>, case row rows (j_id j) of None \<Rightarrow> None
               | Some r \<Rightarrow> Some (if r_status r = Completed then AlreadyCompleted else Busy)))"
    by (simp add: adopt_claim_def adoptable_def [abs_def] Let_def split: option.split)
  have row_f: "row (update_where (adoptable clk j) ?f rows) k =
      map_option (\<lambda>r. if adoptable clk j r then ?f r else r) (row rows k)" for rows k
    by (rule row_update) simp
  show "row (pg_rows s') k = Some q" if "row (pg_rows s) k = Some q" "\<not> adoptable clk j q"
    using assms that insert_job_spec(2) [of jsonb j "pg_rows s"]
    by (auto simp: eq row_f split: option.splits if_splits)
  show "row (pg_rows s') k = Some q \<or> row (pg_rows s') k = Some (?f q)" if "row (pg_rows s) k = Some q"
    using assms that insert_job_spec(2) [of jsonb j "pg_rows s"]
    by (auto simp: eq row_f split: option.splits if_splits)
  assume ok: "rows_ok (pg_rows s)" and r: "r = Some Adopted"
  obtain rows where ins: "insert_job jsonb j (pg_rows s) = Some rows" and ex: "list_ex (adoptable clk j) rows"
    and s': "s' = s\<lparr>pg_rows := update_where (adoptable clk j) ?f rows\<rparr>"
    using assms r by (auto simp: eq split: option.splits if_splits)
  obtain q' where q': "q' \<in> set rows" "adoptable clk j q'" using ex by (auto simp: list_ex_iff)
  have "row rows (j_id j) = Some q'"
    using row_in [OF insert_job_spec(1) [OF ins ok] q'(1)] q'(2) by (simp add: adoptable_def)
  then show "\<exists>q. row (pg_rows s') (j_id j) = Some q
      \<and> r_status q = Pending \<and> r_token q = j_token j \<and> r_lease q = Some (clk + scheduled_job_lease)"
    using q'(2) by (simp add: s' row_f adoptable_def)
  show "r_status q = Pending" if "row (pg_rows s) (j_id j) = Some q"
    using insert_job_spec(2) [OF ins that] \<open>row rows (j_id j) = Some q'\<close> q'(2) by (simp add: adoptable_def)
qed

lemma finished_undisturbed: "undisturbed jsonb skew clk (\<lambda>s. pg_finished c (m_pg s) i) j"
  unfolding undisturbed_def
proof (intro allI impI conjI)
  fix s :: migrating assume fin: "pg_finished c (m_pg s) i"
  show "pg_finished c (m_pg (primary_release clk j s)) i"
    using held_update_finished [OF _ fin] by (simp add: primary_release_def pg_release_def)
  show "pg_finished c (m_pg (legacy_release skew clk j s)) i" using fin by (simp add: legacy_release_def)
  show "pg_finished c (m_pg (fst (legacy_complete skew clk j s))) i"
    using fin by (simp add: legacy_complete_def split: prod.split)
  show "pg_finished c (m_pg (fst (guard_job skew clk j s))) i"
    using fin by (simp add: guard_job_def split: prod.split)
  have "pg_finished c (fst (pg_complete clk (j_id j) (j_token j) (m_pg s))) i"
    unfolding pg_complete_store by (rule held_update_finished [OF _ fin]) simp
  then show "pg_finished c (m_pg (fst (primary_complete clk j s))) i"
    by (simp add: primary_complete_def split: prod.split) (metis fst_conv)
  obtain s' r where a: "adopt_claim jsonb clk j (m_pg s) = (s', r)" by fastforce
  obtain q where q: "row (pg_rows (m_pg s)) i = Some q" "r_status q = Completed"
    "\<And>d. r_completed q = Some d \<Longrightarrow> c < d + completion_retention"
    using fin by (auto simp: pg_finished_iff)
  then have "row (pg_rows s') i = Some q" using adopt_claim_cases(1) [OF a q(1)] by (simp add: adoptable_def)
  then show "pg_finished c (m_pg (fst (adopt_job jsonb clk j s))) i"
    using q by (simp add: adopt_job_def a pg_finished_iff)
qed

lemma vk_guard_keeps:
  assumes "ms \<le> ms'" and "live_claim ms' v k = Some h" and "(k, h) \<noteq> (i, t)"
  shows "live_claim ms' (fst (vk_guard ms i t v)) k = Some h"
  using assms live_claim_before [OF assms(2,1)]
  by (auto simp: vk_guard_def live_claim_def map_of_update split: option.splits if_splits)

lemma adopt_claim_keeps:
  assumes "clk \<le> c" and "pg_holder c s k = Some h"
  shows "(k, h) \<noteq> (j_id j, j_token j) \<Longrightarrow> pg_holder c (fst (adopt_claim jsonb clk j s)) k = Some h"
    and "c < clk + scheduled_job_lease \<Longrightarrow> pg_holder c (fst (adopt_claim jsonb clk j s)) k = Some h"
proof -
  obtain s' r where a: "adopt_claim jsonb clk j s = (s', r)" by fastforce
  obtain q where q: "row (pg_rows s) k = Some q" "r_status q = Pending" "r_token q = h" "h \<noteq> ''''" "\<not> lapsed c q"
    using assms(2) by (auto simp: pg_holder_Some)
  have nl: "\<not> lapsed clk q" using q(5) lapsed_mono [OF _ assms(1)] by blast
  show "pg_holder c (fst (adopt_claim jsonb clk j s)) k = Some h" if "(k, h) \<noteq> (j_id j, j_token j)"
  proof -
    have "\<not> adoptable clk j q" using q nl that row_Some [OF q(1)] by (auto simp: adoptable_def)
    from adopt_claim_cases(1) [OF a q(1) this] show ?thesis using q by (simp add: a pg_holder_Some)
  qed
  show "pg_holder c (fst (adopt_claim jsonb clk j s)) k = Some h" if "c < clk + scheduled_job_lease"
  proof (cases "adoptable clk j q")
    case True
    then have "r_token q = j_token j" using q nl by (auto simp: adoptable_def)
    then show ?thesis
      using adopt_claim_cases(2) [OF a q(1)] q that by (auto simp: a pg_holder_Some lapsed_def)
  next
    case False
    from adopt_claim_cases(1) [OF a q(1) this] show ?thesis using q by (simp add: a pg_holder_Some)
  qed
qed

definition vk_held :: "int \<Rightarrow> int \<Rightarrow> string \<Rightarrow> string \<Rightarrow> migrating \<Rightarrow> bool" where
  "vk_held skew c k h s \<longleftrightarrow> live_claim (millis (c + skew)) (m_vk s) k = Some h"

definition mg_holds :: "int \<Rightarrow> int \<Rightarrow> string \<Rightarrow> string \<Rightarrow> migrating \<Rightarrow> bool" where
  "mg_holds skew c k h s \<longleftrightarrow> pg_holder c (m_pg s) k = Some h \<and> vk_held skew c k h s"

lemma pg_held_undisturbed:
  assumes "clk \<le> c" and "(k, h) \<noteq> (j_id j, j_token j)"
  shows "undisturbed jsonb skew clk (\<lambda>s. pg_holder c (m_pg s) k = Some h) j"
  unfolding undisturbed_def
proof (intro allI impI conjI)
  fix s :: migrating assume p: "pg_holder c (m_pg s) k = Some h"
  show "pg_holder c (m_pg (primary_release clk j s)) k = Some h"
    using held_update_holder [OF _ p assms(2)] by (simp add: primary_release_def pg_release_def)
  show "pg_holder c (m_pg (legacy_release skew clk j s)) k = Some h" using p by (simp add: legacy_release_def)
  show "pg_holder c (m_pg (fst (legacy_complete skew clk j s))) k = Some h"
    using p by (simp add: legacy_complete_def split: prod.split)
  show "pg_holder c (m_pg (fst (guard_job skew clk j s))) k = Some h"
    using p by (simp add: guard_job_def split: prod.split)
  have "pg_holder c (fst (pg_complete clk (j_id j) (j_token j) (m_pg s))) k = Some h"
    unfolding pg_complete_store by (rule held_update_holder [OF _ p assms(2)]) simp
  then show "pg_holder c (m_pg (fst (primary_complete clk j s))) k = Some h"
    by (simp add: primary_complete_def split: prod.split) (metis fst_conv)
  show "pg_holder c (m_pg (fst (adopt_job jsonb clk j s))) k = Some h"
    using adopt_claim_keeps(1) [OF assms(1) p assms(2)]
    by (simp add: adopt_job_def split: prod.split) (metis fst_conv)
qed

lemma vk_held_undisturbed:
  assumes "clk \<le> c" and "(k, h) \<noteq> (j_id j, j_token j)"
  shows "undisturbed jsonb skew clk (vk_held skew c k h) j"
  unfolding undisturbed_def
proof (intro allI impI conjI)
  fix s :: migrating assume "vk_held skew c k h s"
  then have v: "live_claim (millis (c + skew)) (m_vk s) k = Some h" by (simp add: vk_held_def)
  have ms: "millis (clk + skew) \<le> millis (c + skew)" using assms(1) by (intro millis_mono) simp
  show "vk_held skew c k h (primary_release clk j s)" using v by (simp add: vk_held_def primary_release_def)
  show "vk_held skew c k h (legacy_release skew clk j s)"
    using vk_release_keeps [OF ms v assms(2)] by (simp add: vk_held_def legacy_release_def)
  show "vk_held skew c k h (fst (legacy_complete skew clk j s))"
    using vk_complete_keeps [OF ms v assms(2)]
    by (simp add: vk_held_def legacy_complete_def split: prod.split) (metis fst_conv)
  show "vk_held skew c k h (fst (guard_job skew clk j s))"
    using vk_guard_keeps [OF ms v assms(2)]
    by (simp add: vk_held_def guard_job_def split: prod.split) (metis fst_conv)
  show "vk_held skew c k h (fst (primary_complete clk j s))"
    using v by (simp add: vk_held_def primary_complete_def split: prod.split)
  show "vk_held skew c k h (fst (adopt_job jsonb clk j s))"
    using v by (simp add: vk_held_def adopt_job_def split: prod.split)
qed

lemma holds_undisturbed:
  assumes "clk \<le> c" and "(k, h) \<noteq> (j_id j, j_token j)"
  shows "undisturbed jsonb skew clk (mg_holds skew c k h) j"
  using pg_held_undisturbed [OF assms, of jsonb skew] vk_held_undisturbed [OF assms, of jsonb skew]
  unfolding undisturbed_def mg_holds_def by blast

section \<open>What a claim returns\<close>

lemma other_job:
  "distinct (map j_id (xs @ j # ys)) \<Longrightarrow> k \<in> set xs \<union> set ys \<Longrightarrow> (j_id k, j_token k) \<noteq> (j_id j, j_token j)"
proof
  assume dist: "distinct (map j_id (xs @ j # ys))" and k: "k \<in> set xs \<union> set ys"
    and "(j_id k, j_token k) = (j_id j, j_token j)"
  then have "j_id j \<in> j_id ` (set xs \<union> set ys)" by (metis image_eqI prod.inject)
  then show False using dist by auto
qed

lemma adopt_all_result:
  assumes "adopt_all jsonb skew clk legacy js s claimed = (s', Some cl)"
  shows "\<exists>l. cl = claimed @ l \<and> set l \<subseteq> set js \<and> (distinct (map j_id (claimed @ js)) \<longrightarrow> distinct (map j_id cl))"
  using assms
proof (induction jsonb skew clk legacy js s claimed arbitrary: s' cl rule: adopt_all.induct)
  case (2 jsonb skew clk legacy j js s claimed)
  obtain s1 a where a: "adopt_job jsonb clk j s = (s1, a)" by fastforce
  obtain s2 b where c: "legacy_complete skew clk j s1 = (s2, b)" by fastforce
  consider "a = Some Busy" | "a = Some Adopted" | "a = Some AlreadyCompleted" "b"
    using "2.prems" a c by (cases a; cases "the a"; cases b) auto
  then show ?case
  proof cases
    case 1
    then show ?thesis using "2.IH"(1) [OF a [symmetric] 1 refl] "2.prems" a by fastforce
  next
    case 2
    then show ?thesis using "2.IH"(2) [OF a [symmetric] 2 refl] "2.prems" a by fastforce
  next
    case 3
    then show ?thesis using "2.IH"(3) [OF a [symmetric] 3(1) refl c [symmetric]] "2.prems" a c by fastforce
  qed
qed simp

lemma adopt_all_holds:
  assumes "adopt_all jsonb skew clk legacy js s claimed = (s', Some cl)" and "clk \<le> c" and "c < clk + scheduled_job_lease"
    and "rows_ok (pg_rows (m_pg s))" and "distinct (map j_id (claimed @ js))"
    and "\<forall>j \<in> set js. vk_held skew c (j_id j) (j_token j) s \<and> j_token j \<noteq> ''''"
    and "\<forall>j \<in> set claimed. mg_holds skew c (j_id j) (j_token j) s"
  shows "\<forall>j \<in> set cl. mg_holds skew c (j_id j) (j_token j) s'"
  using assms
proof (induction jsonb skew clk legacy js s claimed arbitrary: s' cl rule: adopt_all.induct)
  case (2 jsonb skew clk legacy j js s claimed)
  note le = "2.prems"(2) and dist = "2.prems"(5)
  obtain s1 a where a: "adopt_job jsonb clk j s = (s1, a)" by fastforce
  obtain s2 b where c: "legacy_complete skew clk j s1 = (s2, b)" by fastforce
  have ok1: "rows_ok (pg_rows (m_pg s1))"
    by (rule undisturbedD(3) [OF rows_ok_undisturbed "2.prems"(4) a])
  have js1: "\<forall>k \<in> set js. vk_held skew c (j_id k) (j_token k) s1 \<and> j_token k \<noteq> ''''"
    and cl1: "\<forall>k \<in> set claimed. mg_holds skew c (j_id k) (j_token k) s1"
  proof -
    show "\<forall>k \<in> set claimed. mg_holds skew c (j_id k) (j_token k) s1"
    proof
      fix k assume k: "k \<in> set claimed"
      have "(j_id k, j_token k) \<noteq> (j_id j, j_token j)" using other_job [OF dist] k by blast
      from undisturbedD(3) [OF holds_undisturbed [OF le this] _ a] show "mg_holds skew c (j_id k) (j_token k) s1"
        using "2.prems"(7) k by blast
    qed
    show "\<forall>k \<in> set js. vk_held skew c (j_id k) (j_token k) s1 \<and> j_token k \<noteq> ''''"
    proof
      fix k assume k: "k \<in> set js"
      have "(j_id k, j_token k) \<noteq> (j_id j, j_token j)" using other_job [OF dist] k by blast
      from undisturbedD(3) [OF vk_held_undisturbed [OF le this] _ a]
      show "vk_held skew c (j_id k) (j_token k) s1 \<and> j_token k \<noteq> ''''" using "2.prems"(6) k by simp
    qed
  qed
  have dist': "distinct (map j_id (claimed @ js))" using dist by auto
  consider "a = Some Busy" | "a = Some Adopted" | "a = Some AlreadyCompleted" "b"
    using "2.prems"(1) a c by (cases a; cases "the a"; cases b) auto
  then show ?case
  proof cases
    case 1
    let ?s = "legacy_release skew clk j s1"
    have "\<forall>k \<in> set js. vk_held skew c (j_id k) (j_token k) ?s \<and> j_token k \<noteq> ''''"
      using js1 other_job [OF dist] undisturbedD(2) [OF vk_held_undisturbed [OF le]] by blast
    moreover have "\<forall>k \<in> set claimed. mg_holds skew c (j_id k) (j_token k) ?s"
      using cl1 other_job [OF dist] undisturbedD(2) [OF holds_undisturbed [OF le]] by blast
    moreover have "rows_ok (pg_rows (m_pg ?s))"
      by (rule undisturbedD(2) [where P = "\<lambda>s. rows_ok (pg_rows (m_pg s))", OF rows_ok_undisturbed ok1])
    ultimately show ?thesis using "2.IH"(1) [OF a [symmetric] 1 refl] "2.prems"(1-3) dist' a 1 by simp
  next
    case 2
    have adopted: "adopt_claim jsonb clk j (m_pg s) = (m_pg s1, Some Adopted)" and vk: "m_vk s1 = m_vk s"
      using a 2 by (auto simp: adopt_job_def split: prod.splits)
    obtain q where "row (pg_rows (m_pg s1)) (j_id j) = Some q" "r_status q = Pending" "r_token q = j_token j"
        "r_lease q = Some (clk + scheduled_job_lease)"
      using adopt_claim_cases(3) [OF adopted "2.prems"(4) refl] by blast
    then have "mg_holds skew c (j_id j) (j_token j) s1"
      using "2.prems"(3,6) vk by (simp add: mg_holds_def pg_holder_Some lapsed_def vk_held_def)
    then have "\<forall>k \<in> set (claimed @ [j]). mg_holds skew c (j_id k) (j_token k) s1" using cl1 by simp
    then show ?thesis using "2.IH"(2) [OF a [symmetric] 2 refl] "2.prems"(1-3) dist js1 ok1 a 2 by simp
  next
    case 3
    have "\<forall>k \<in> set js. vk_held skew c (j_id k) (j_token k) s2 \<and> j_token k \<noteq> ''''"
      using js1 other_job [OF dist] undisturbedD(4) [OF vk_held_undisturbed [OF le] _ c] by blast
    moreover have "\<forall>k \<in> set claimed. mg_holds skew c (j_id k) (j_token k) s2"
      using cl1 other_job [OF dist] undisturbedD(4) [OF holds_undisturbed [OF le] _ c] by blast
    moreover have "rows_ok (pg_rows (m_pg s2))"
      by (rule undisturbedD(4) [OF rows_ok_undisturbed ok1 c])
    ultimately show ?thesis using "2.IH"(3) [OF a [symmetric] 3(1) refl c [symmetric]] "2.prems"(1-3) dist' a c 3 by simp
  qed
qed simp

lemma guard_all_result:
  assumes "guard_all skew clk primary js s claimed = (s', Some cl)"
  shows "\<exists>l. cl = claimed @ l \<and> set l \<subseteq> set js \<and> (distinct (map j_id (claimed @ js)) \<longrightarrow> distinct (map j_id cl))"
  using assms
proof (induction skew clk primary js s claimed arbitrary: s' cl rule: guard_all.induct)
  case (2 skew clk primary j js s claimed)
  obtain s1 g where g: "guard_job skew clk j s = (s1, g)" by fastforce
  obtain s2 b where c: "primary_complete clk j s1 = (s2, b)" by fastforce
  consider "g = Guarded" | "g = LegacyPending" | "g = LegacyCompleted" "b"
    using "2.prems" g c by (cases g; cases b) auto
  then show ?case
  proof cases
    case 1
    then show ?thesis using "2.IH"(1) [OF g [symmetric] 1] "2.prems" g by fastforce
  next
    case 2
    then show ?thesis using "2.IH"(2) [OF g [symmetric] 2] "2.prems" g by fastforce
  next
    case 3
    then show ?thesis using "2.IH"(3) [OF g [symmetric] 3(1) c [symmetric]] "2.prems" g c by fastforce
  qed
qed simp

lemma vk_guard_holds:
  assumes "vk_guard (millis (clk + skew)) i t v = (v', Guarded)" and "clk \<le> c" and "c < clk + scheduled_job_lease"
  shows "live_claim (millis (c + skew)) v' i = Some t"
  using assms(1) millis_lease [of "c + skew" "clk + skew"] assms(3)
  by (auto simp: vk_guard_def live_claim_def map_of_update split: option.splits if_splits)

lemma guard_all_holds:
  assumes "guard_all skew clk primary js s claimed = (s', Some cl)" and "clk \<le> c" and "c < clk + scheduled_job_lease"
    and "distinct (map j_id (claimed @ js))"
    and "\<forall>j \<in> set js. pg_holder c (m_pg s) (j_id j) = Some (j_token j)"
    and "\<forall>j \<in> set claimed. mg_holds skew c (j_id j) (j_token j) s"
  shows "\<forall>j \<in> set cl. mg_holds skew c (j_id j) (j_token j) s'"
  using assms
proof (induction skew clk primary js s claimed arbitrary: s' cl rule: guard_all.induct)
  case (2 skew clk primary j js s claimed)
  note le = "2.prems"(2) and dist = "2.prems"(4)
  obtain s1 g where g: "guard_job skew clk j s = (s1, g)" by fastforce
  obtain s2 b where c: "primary_complete clk j s1 = (s2, b)" by fastforce
  have pg1: "m_pg s1 = m_pg s" using g by (auto simp: guard_job_def split: prod.splits)
  have cl1: "\<forall>k \<in> set claimed. mg_holds skew c (j_id k) (j_token k) s1"
    using "2.prems"(6) other_job [OF dist] undisturbedD(6) [OF holds_undisturbed [OF le] _ g] by blast
  have js1: "\<forall>k \<in> set js. pg_holder c (m_pg s1) (j_id k) = Some (j_token k)" using "2.prems"(5) by (simp add: pg1)
  have dist': "distinct (map j_id (claimed @ js))" using dist by auto
  consider "g = Guarded" | "g = LegacyPending" | "g = LegacyCompleted" "b"
    using "2.prems"(1) g c by (cases g; cases b) auto
  then show ?case
  proof cases
    case 1
    have "vk_guard (millis (clk + skew)) (j_id j) (j_token j) (m_vk s) = (m_vk s1, Guarded)"
      using g 1 by (auto simp: guard_job_def split: prod.splits)
    from vk_guard_holds [OF this "2.prems"(2,3)] have "mg_holds skew c (j_id j) (j_token j) s1"
      using "2.prems"(5) by (simp add: mg_holds_def vk_held_def pg1)
    then have "\<forall>k \<in> set (claimed @ [j]). mg_holds skew c (j_id k) (j_token k) s1" using cl1 by simp
    then show ?thesis using "2.IH"(1) [OF g [symmetric] 1] "2.prems"(1-3) dist js1 g 1 by simp
  next
    case 2
    let ?s = "primary_release clk j s1"
    have "\<forall>k \<in> set js. pg_holder c (m_pg ?s) (j_id k) = Some (j_token k)"
      using js1 other_job [OF dist]
        undisturbedD(1) [where P = "\<lambda>s. pg_holder c (m_pg s) k = Some h" for k h, OF pg_held_undisturbed [OF le]] by blast
    moreover have "\<forall>k \<in> set claimed. mg_holds skew c (j_id k) (j_token k) ?s"
      using cl1 other_job [OF dist] undisturbedD(1) [OF holds_undisturbed [OF le]] by blast
    ultimately show ?thesis using "2.IH"(2) [OF g [symmetric] 2] "2.prems"(1-3) dist' g 2 by simp
  next
    case 3
    have "\<forall>k \<in> set js. pg_holder c (m_pg s2) (j_id k) = Some (j_token k)"
      using js1 other_job [OF dist]
        undisturbedD(5) [where P = "\<lambda>s. pg_holder c (m_pg s) k = Some h" for k h, OF pg_held_undisturbed [OF le] _ c] by blast
    moreover have "\<forall>k \<in> set claimed. mg_holds skew c (j_id k) (j_token k) s2"
      using cl1 other_job [OF dist] undisturbedD(5) [OF holds_undisturbed [OF le] _ c] by blast
    ultimately show ?thesis
      using "2.IH"(3) [OF g [symmetric] 3(1) c [symmetric]] "2.prems"(1-3) dist' g c 3 by simp
  qed
qed simp

text \<open>The stages of a claim, with the error paths that end it.\<close>

lemma mg_claim_stages:
  assumes "mg_claim locked jsonb skew clk now limit ow s = (s', r)" and "0 < limit"
    and "vk_claim (millis (clk + skew)) now limit ow (m_vk s) = (v, l)"
  shows "l = None \<Longrightarrow> s' = s\<lparr>m_vk := v\<rparr> \<and> r = None"
    and "l = Some legacy \<Longrightarrow> adopt_all jsonb skew clk legacy legacy (s\<lparr>m_vk := v\<rparr>) [] = (s1, None) \<Longrightarrow> s' = s1 \<and> r = None"
    and "l = Some legacy \<Longrightarrow> adopt_all jsonb skew clk legacy legacy (s\<lparr>m_vk := v\<rparr>) [] = (s1, Some cl1) \<Longrightarrow>
      pg_claim locked clk now limit ow (m_pg s1) = (pg, Some primary) \<Longrightarrow>
      guard_all skew clk primary primary (s1\<lparr>m_pg := pg\<rparr>) cl1 = (s2, None) \<Longrightarrow> s' = s2 \<and> r = None"
    and "l = Some legacy \<Longrightarrow> adopt_all jsonb skew clk legacy legacy (s\<lparr>m_vk := v\<rparr>) [] = (s1, Some cl1) \<Longrightarrow>
      pg_claim locked clk now limit ow (m_pg s1) = (pg, Some primary) \<Longrightarrow>
      guard_all skew clk primary primary (s1\<lparr>m_pg := pg\<rparr>) cl1 = (s2, Some cl2) \<Longrightarrow>
      r = Some (take (nat limit) (sort_key (\<lambda>j. (is_cron j, j_scheduled_for j)) cl2))
      \<and> s' = release_both skew clk (drop (nat limit) (sort_key (\<lambda>j. (is_cron j, j_scheduled_for j)) cl2)) s2"
  using assms by (auto simp: mg_claim_def Let_def release_both_def nat_le_iff not_le split: if_splits)

lemma mg_claim_obtain:
  assumes "mg_claim locked jsonb skew clk now limit ow s = (s', Some js)" and "0 < limit"
  obtains v legacy s1 cl1 pg primary s2 cl2 where
    "vk_claim (millis (clk + skew)) now limit ow (m_vk s) = (v, Some legacy)"
    "adopt_all jsonb skew clk legacy legacy (s\<lparr>m_vk := v\<rparr>) [] = (s1, Some cl1)"
    "pg_claim locked clk now limit ow (m_pg s1) = (pg, Some primary)"
    "guard_all skew clk primary primary (s1\<lparr>m_pg := pg\<rparr>) cl1 = (s2, Some cl2)"
    "js = take (nat limit) (sort_key (\<lambda>j. (is_cron j, j_scheduled_for j)) cl2)"
    "s' = release_both skew clk (drop (nat limit) (sort_key (\<lambda>j. (is_cron j, j_scheduled_for j)) cl2)) s2"
proof -
  obtain v l where v: "vk_claim (millis (clk + skew)) now limit ow (m_vk s) = (v, l)" by fastforce
  note st = mg_claim_stages [OF assms v]
  obtain legacy where l: "l = Some legacy" using st(1) by (cases l) auto
  obtain s1 r1 where a: "adopt_all jsonb skew clk legacy legacy (s\<lparr>m_vk := v\<rparr>) [] = (s1, r1)" by fastforce
  obtain cl1 where r1: "r1 = Some cl1" using a st(2) [OF l] by (cases r1) auto
  obtain pg primary where p: "pg_claim locked clk now limit ow (m_pg s1) = (pg, Some primary)" using pg_claim_some by blast
  obtain s2 r2 where g: "guard_all skew clk primary primary (s1\<lparr>m_pg := pg\<rparr>) cl1 = (s2, r2)" by fastforce
  obtain cl2 where r2: "r2 = Some cl2" using st(3) [OF l a [unfolded r1] p] g by (cases r2) auto
  from st(4) [OF l a [unfolded r1] p g [unfolded r2]] show ?thesis
    using that v l a r1 p g r2 by simp
qed

lemma mg_claim_undisturbed:
  assumes "P s"
    and vk: "\<And>v l. vk_claim (millis (clk + skew)) now limit ow (m_vk s) = (v, l) \<Longrightarrow> P (s\<lparr>m_vk := v\<rparr>)"
    and legacy: "\<And>v l. vk_claim (millis (clk + skew)) now limit ow (m_vk s) = (v, Some l) \<Longrightarrow>
      \<forall>j \<in> set l. undisturbed jsonb skew clk P j"
    and pg: "\<And>s1 pg l. P s1 \<Longrightarrow> pg_claim locked clk now limit ow (m_pg s1) = (pg, Some l) \<Longrightarrow>
      P (s1\<lparr>m_pg := pg\<rparr>) \<and> (\<forall>j \<in> set l. undisturbed jsonb skew clk P j)"
  shows "P (fst (mg_claim locked jsonb skew clk now limit ow s))"
proof (cases "0 < limit")
  case False
  then show ?thesis using assms(1) by (simp add: mg_claim_def)
next
  case True
  obtain s' r where eq: "mg_claim locked jsonb skew clk now limit ow s = (s', r)" by fastforce
  obtain v l where v: "vk_claim (millis (clk + skew)) now limit ow (m_vk s) = (v, l)" by fastforce
  note st = mg_claim_stages [OF eq True v]
  have Pv: "P (s\<lparr>m_vk := v\<rparr>)" by (rule vk [OF v])
  have "P s'"
  proof (cases l)
    case None
    then show ?thesis using st(1) Pv by simp
  next
    case (Some lg)
    have und: "\<forall>j \<in> set lg. undisturbed jsonb skew clk P j" by (rule legacy [OF v [unfolded Some]])
    obtain s1 r1 where a: "adopt_all jsonb skew clk lg lg (s\<lparr>m_vk := v\<rparr>) [] = (s1, r1)" by fastforce
    have P1: "P s1" by (rule adopt_all_undisturbed [where P = P, OF _ Pv a]) (use und in simp)
    show ?thesis
    proof (cases r1)
      case None
      then show ?thesis using st(2) [OF Some] a P1 by simp
    next
      case r1: (Some cl1)
      have a': "adopt_all jsonb skew clk lg lg (s\<lparr>m_vk := v\<rparr>) [] = (s1, Some cl1)" using a r1 by simp
      obtain p primary where p: "pg_claim locked clk now limit ow (m_pg s1) = (p, Some primary)" using pg_claim_some by blast
      have Pp: "P (s1\<lparr>m_pg := p\<rparr>)" and und': "\<forall>j \<in> set primary. undisturbed jsonb skew clk P j"
        using pg [OF P1 p] by blast+
      have und1: "\<forall>j \<in> set cl1. undisturbed jsonb skew clk P j" using adopt_all_result [OF a'] und by auto
      obtain s2 r2 where g: "guard_all skew clk primary primary (s1\<lparr>m_pg := p\<rparr>) cl1 = (s2, r2)" by fastforce
      have P2: "P s2" by (rule guard_all_undisturbed [where P = P, OF _ Pp g]) (use und1 und' in auto)
      show ?thesis
      proof (cases r2)
        case None
        then show ?thesis using st(3) [OF Some a' p] g P2 by simp
      next
        case r2: (Some cl2)
        have g': "guard_all skew clk primary primary (s1\<lparr>m_pg := p\<rparr>) cl1 = (s2, Some cl2)" using g r2 by simp
        obtain l2 where "cl2 = cl1 @ l2" "set l2 \<subseteq> set primary" using guard_all_result [OF g'] by blast
        then have "\<forall>j \<in> set cl2. undisturbed jsonb skew clk P j" using und1 und' by auto
        then have "\<forall>j \<in> set (drop (nat limit) (sort_key (\<lambda>j. (is_cron j, j_scheduled_for j)) cl2)).
            undisturbed jsonb skew clk P j" by (auto dest: in_set_dropD)
        from release_both_undisturbed [where P = P, OF this P2] show ?thesis
          using st(4) [OF Some a' p g'] by simp
      qed
    qed
  qed
  then show ?thesis by (simp add: eq)
qed

section \<open>The pair keeps the contract\<close>

definition mg_ok :: "migrating \<Rightarrow> bool" where "mg_ok s \<longleftrightarrow> rows_ok (pg_rows (m_pg s))"

definition mg_holder :: "int \<Rightarrow> int \<Rightarrow> migrating \<Rightarrow> string \<Rightarrow> string option" where
  "mg_holder skew c s i =
     (if live_claim (millis (c + skew)) (m_vk s) i = pg_holder c (m_pg s) i then pg_holder c (m_pg s) i else None)"

definition mg_finished :: "int \<Rightarrow> migrating \<Rightarrow> string \<Rightarrow> bool" where
  "mg_finished c s i \<longleftrightarrow> pg_finished c (m_pg s) i"

lemma mg_holder_Some: "mg_holder skew c s i = Some h \<longleftrightarrow> mg_holds skew c i h s"
  by (auto simp: mg_holder_def mg_holds_def vk_held_def)

lemma mg_claim_ok:
  assumes "mg_ok s"
  shows "mg_ok (fst (mg_claim locked jsonb skew clk now limit ow s))"
proof (rule mg_claim_undisturbed [where P = mg_ok])
  show "mg_ok s" by (rule assms)
  show "mg_ok (s\<lparr>m_vk := v\<rparr>)" for v using assms by (simp add: mg_ok_def)
  have u: "undisturbed jsonb skew clk mg_ok j" for j
    using rows_ok_undisturbed unfolding mg_ok_def [abs_def] .
  show "\<forall>j \<in> set l. undisturbed jsonb skew clk mg_ok j" for l using u by blast
  show "mg_ok (s1\<lparr>m_pg := pg\<rparr>) \<and> (\<forall>j \<in> set l. undisturbed jsonb skew clk mg_ok j)"
    if "mg_ok s1" "pg_claim locked clk now limit ow (m_pg s1) = (pg, Some l)" for s1 pg l
    using pg_claim_cases(1) [OF _ that(2)] that(1) u by (simp add: mg_ok_def)
qed

lemma mg_claim_finished:
  assumes "mg_ok s" and "mg_finished c s i" and "clk \<le> c" and "now \<le> clk"
  shows "mg_finished c (fst (mg_claim locked jsonb skew clk now limit ow s)) i"
proof -
  let ?P = "\<lambda>s. mg_ok s \<and> mg_finished c s i"
  have u: "undisturbed jsonb skew clk ?P j" for j
    using rows_ok_undisturbed [of jsonb skew clk j] finished_undisturbed [of jsonb skew clk c i j]
    unfolding undisturbed_def mg_ok_def mg_finished_def by blast
  have "?P (fst (mg_claim locked jsonb skew clk now limit ow s))"
  proof (rule mg_claim_undisturbed [where P = ?P])
    show "?P s" using assms by simp
    show "?P (s\<lparr>m_vk := v\<rparr>)" for v using assms by (simp add: mg_ok_def mg_finished_def)
    show "\<forall>j \<in> set l. undisturbed jsonb skew clk ?P j" for l using u by blast
    show "?P (s1\<lparr>m_pg := pg\<rparr>) \<and> (\<forall>j \<in> set l. undisturbed jsonb skew clk ?P j)"
      if "?P s1" "pg_claim locked clk now limit ow (m_pg s1) = (pg, Some l)" for s1 pg l
      using pg_claim_cases(1) [OF _ that(2)] pg_claim_finished [of "m_pg s1" c i clk now locked limit ow] that u assms(3,4)
      by (simp add: mg_ok_def mg_finished_def)
  qed
  then show ?thesis ..
qed

lemma mg_claim_keeps:
  assumes "mg_ok s" and "clk \<le> c" and "mg_holds skew c k h s"
  shows "mg_holds skew c k h (fst (mg_claim locked jsonb skew clk now limit ow s))"
proof -
  let ?P = "\<lambda>s. mg_ok s \<and> mg_holds skew c k h s"
  have u: "undisturbed jsonb skew clk ?P j" if "k \<noteq> j_id j" for j
    using rows_ok_undisturbed [of jsonb skew clk j] holds_undisturbed [OF assms(2), of k h j jsonb skew] that
    unfolding undisturbed_def mg_ok_def by blast
  have live: "live_claim (millis (clk + skew)) (m_vk s) k = Some h"
    using assms(2,3) live_claim_before [of "millis (c + skew)" "m_vk s" k h "millis (clk + skew)"] millis_mono
    by (simp add: mg_holds_def vk_held_def)
  have "?P (fst (mg_claim locked jsonb skew clk now limit ow s))"
  proof (rule mg_claim_undisturbed [where P = ?P])
    show "?P s" using assms by simp
    show "?P (s\<lparr>m_vk := v\<rparr>)" if "vk_claim (millis (clk + skew)) now limit ow (m_vk s) = (v, l)" for v l
      using live_claim_cong [OF vk_claim_frame(1) [OF that live]] assms
      by (simp add: mg_ok_def mg_holds_def vk_held_def)
    show "\<forall>j \<in> set l. undisturbed jsonb skew clk ?P j"
      if "vk_claim (millis (clk + skew)) now limit ow (m_vk s) = (v, Some l)" for v l
    proof
      fix j assume "j \<in> set l"
      then have "k \<noteq> j_id j" using vk_claim_jobs(2) [OF that] live by auto
      then show "undisturbed jsonb skew clk ?P j" by (rule u)
    qed
    show "?P (s1\<lparr>m_pg := pg\<rparr>) \<and> (\<forall>j \<in> set l. undisturbed jsonb skew clk ?P j)"
      if "?P s1" "pg_claim locked clk now limit ow (m_pg s1) = (pg, Some l)" for s1 pg l
    proof -
      have ok: "rows_ok (pg_rows (m_pg s1))" and held: "pg_holder c (m_pg s1) k = Some h"
        using that(1) by (simp_all add: mg_ok_def mg_holds_def)
      have "mg_ok (s1\<lparr>m_pg := pg\<rparr>)" using pg_claim_cases(1) [OF ok that(2)] by (simp add: mg_ok_def)
      moreover have "mg_holds skew c k h (s1\<lparr>m_pg := pg\<rparr>)"
        using pg_claim_keeps [OF ok assms(2) held, of locked now limit ow] that by (simp add: mg_holds_def vk_held_def)
      moreover have "k \<noteq> j_id j" if "j \<in> set l" for j
        using pg.claim_free [of "m_pg s1" locked jsonb clk now limit ow pg l j c] ok held that
          \<open>pg_claim locked clk now limit ow (m_pg s1) = (pg, Some l)\<close> assms(2)
        by (auto simp: postgres_store_def)
      ultimately show ?thesis using u by blast
    qed
  qed
  then show ?thesis ..
qed

lemma adopt_all_unfinished:
  assumes "adopt_all jsonb skew clk legacy js s claimed = (s', Some cl)" and "pg_finished c (m_pg s) i"
    and "rows_ok (pg_rows (m_pg s))" and "i \<notin> j_id ` set claimed"
  shows "i \<notin> j_id ` set cl"
  using assms
proof (induction jsonb skew clk legacy js s claimed arbitrary: s' cl rule: adopt_all.induct)
  case (2 jsonb skew clk legacy j js s claimed)
  obtain s1 a where a: "adopt_job jsonb clk j s = (s1, a)" by fastforce
  obtain s2 b where c: "legacy_complete skew clk j s1 = (s2, b)" by fastforce
  note fin = finished_undisturbed [of jsonb skew clk _ i]
  note ok = rows_ok_undisturbed [of jsonb skew clk]
  have s1: "pg_finished c (m_pg s1) i" "rows_ok (pg_rows (m_pg s1))"
    using undisturbedD(3) [OF fin "2.prems"(2) a] undisturbedD(3) [OF ok "2.prems"(3) a] by simp_all
  have s2: "pg_finished c (m_pg s2) i" "rows_ok (pg_rows (m_pg s2))"
    using undisturbedD(4) [OF fin s1(1) c] undisturbedD(4) [OF ok s1(2) c] by simp_all
  consider "a = Some Busy" | "a = Some Adopted" | "a = Some AlreadyCompleted" "b"
    using "2.prems"(1) a c by (cases a; cases "the a"; cases b) auto
  then show ?case
  proof cases
    case 1
    have m: "m_pg (legacy_release skew clk j s1) = m_pg s1" by (simp add: legacy_release_def)
    show ?thesis using "2.IH"(1) [OF a [symmetric] 1 refl] "2.prems"(1,4) a 1 s1 by (simp add: m)
  next
    case 2
    have adopted: "adopt_claim jsonb clk j (m_pg s) = (m_pg s1, Some Adopted)"
      using a 2 by (auto simp: adopt_job_def split: prod.splits)
    obtain q where "row (pg_rows (m_pg s)) i = Some q" "r_status q = Completed"
      using "2.prems"(2) by (auto simp: pg_finished_iff)
    then have "i \<noteq> j_id j" using adopt_claim_cases(4) [OF adopted "2.prems"(3) refl, of q] by auto
    then show ?thesis using "2.IH"(2) [OF a [symmetric] 2 refl] "2.prems"(1,4) a 2 s1 by simp
  next
    case 3
    then show ?thesis using "2.IH"(3) [OF a [symmetric] 3(1) refl c [symmetric]] "2.prems"(1,4) a c s2 by simp
  qed
qed simp

lemma mg_claim_jobs:
  assumes ok: "mg_ok s" and eq: "mg_claim locked jsonb skew clk now limit ow s = (s', Some js)" and lim: "0 < limit"
  shows "distinct (map j_id js)"
    and "j \<in> set js \<Longrightarrow> clk \<le> c \<Longrightarrow> mg_holder skew c s (j_id j) = None"
    and "j \<in> set js \<Longrightarrow> clk \<le> c \<Longrightarrow> c < clk + scheduled_job_lease \<Longrightarrow> mg_holds skew c (j_id j) (j_token j) s'"
    and "j \<in> set js \<Longrightarrow> mg_finished clk s i \<Longrightarrow> j_id j \<noteq> i"
proof -
  obtain v legacy s1 cl1 pg primary s2 cl2 where
    v: "vk_claim (millis (clk + skew)) now limit ow (m_vk s) = (v, Some legacy)" and
    a: "adopt_all jsonb skew clk legacy legacy (s\<lparr>m_vk := v\<rparr>) [] = (s1, Some cl1)" and
    p: "pg_claim locked clk now limit ow (m_pg s1) = (pg, Some primary)" and
    g: "guard_all skew clk primary primary (s1\<lparr>m_pg := pg\<rparr>) cl1 = (s2, Some cl2)" and
    js: "js = take (nat limit) (sort_key (\<lambda>j. (is_cron j, j_scheduled_for j)) cl2)" and
    s': "s' = release_both skew clk (drop (nat limit) (sort_key (\<lambda>j. (is_cron j, j_scheduled_for j)) cl2)) s2"
    using mg_claim_obtain [OF eq lim] by blast
  let ?sort = "sort_key (\<lambda>j. (is_cron j, j_scheduled_for j)) cl2"
  let ?v = "s\<lparr>m_vk := v\<rparr>"
  have okv: "rows_ok (pg_rows (m_pg ?v))" using ok by (simp add: mg_ok_def)
  have ok1: "rows_ok (pg_rows (m_pg s1))"
    by (rule adopt_all_undisturbed [where P = "\<lambda>s. rows_ok (pg_rows (m_pg s))", OF _ okv a]) (simp add: rows_ok_undisturbed)
  have p': "st_claim (postgres_store locked jsonb) clk now limit ow (m_pg s1) = (pg, Some primary)"
    using p by (simp add: postgres_store_def)
  have ldist: "distinct (map j_id legacy)" by (rule vk_claim_jobs(1) [OF v])
  obtain l1 where l1: "cl1 = l1" "set l1 \<subseteq> set legacy" "distinct (map j_id cl1)"
    using adopt_all_result [OF a] ldist by auto
  have h1: "\<forall>j \<in> set cl1. mg_holds skew c (j_id j) (j_token j) s1" if "clk \<le> c" "c < clk + scheduled_job_lease" for c
  proof (rule adopt_all_holds [OF a that okv])
    show "distinct (map j_id ([] @ legacy))" using ldist by simp
    show "\<forall>j \<in> set legacy. vk_held skew c (j_id j) (j_token j) ?v \<and> j_token j \<noteq> ''''"
      using vk_claim_jobs(2) [OF v] millis_lease [of "c + skew" "clk + skew"] that
      by (simp add: vk_held_def live_claim_def)
  qed simp
  have pdist: "distinct (map j_id primary)" by (rule pg.claim_distinct [OF ok1 p'])
  have disj: "j_id k \<noteq> j_id j" if "j \<in> set primary" "k \<in> set cl1" for j k
  proof -
    have "pg_holder clk (m_pg s1) (j_id j) = None" by (rule pg.claim_free [OF ok1 p' that(1)]) simp
    moreover have "pg_holder clk (m_pg s1) (j_id k) = Some (j_token k)"
      using h1 [of clk] that(2) by (simp add: mg_holds_def scheduled_job_lease_def)
    ultimately show ?thesis by auto
  qed
  then have dist2: "distinct (map j_id (cl1 @ primary))" using l1(3) pdist by fastforce
  obtain l2 where l2: "cl2 = cl1 @ l2" "set l2 \<subseteq> set primary" "distinct (map j_id cl2)"
    using guard_all_result [OF g] dist2 by blast
  have sorted: "set ?sort = set cl2" "distinct (map j_id ?sort)"
    using l2(3) distinct_map_take_sort [of j_id cl2 "length cl2" "\<lambda>j. (is_cron j, j_scheduled_for j)"] by simp_all
  have split: "distinct (map j_id (take (nat limit) ?sort @ drop (nat limit) ?sort))" using sorted by simp
  show "distinct (map j_id js)" unfolding js by (rule distinct_map_take_sort [OF l2(3)])
  have h2: "\<forall>j \<in> set cl2. mg_holds skew c (j_id j) (j_token j) s2" if "clk \<le> c" "c < clk + scheduled_job_lease" for c
  proof (rule guard_all_holds [OF g that dist2])
    show "\<forall>j \<in> set primary. pg_holder c (m_pg (s1\<lparr>m_pg := pg\<rparr>)) (j_id j) = Some (j_token j)"
      using pg.claim_holds [OF ok1 p' _ that] by simp
    show "\<forall>j \<in> set cl1. mg_holds skew c (j_id j) (j_token j) (s1\<lparr>m_pg := pg\<rparr>)"
    proof
      fix k assume "k \<in> set cl1"
      then have "mg_holds skew c (j_id k) (j_token k) s1" using h1 [OF that] by blast
      then show "mg_holds skew c (j_id k) (j_token k) (s1\<lparr>m_pg := pg\<rparr>)"
        using pg_claim_keeps [OF ok1 that(1), of "j_id k" "j_token k" locked now limit ow] p
        by (simp add: mg_holds_def vk_held_def)
    qed
  qed
  assume j: "j \<in> set js"
  have jcl: "j \<in> set cl2" using j sorted(1) by (auto simp: js dest: in_set_takeD)
  have origin: "j \<in> set cl1 \<or> j \<in> set primary" using jcl l2 by auto
  show "mg_holds skew c (j_id j) (j_token j) s'" if c: "clk \<le> c" "c < clk + scheduled_job_lease"
  proof -
    have "\<forall>k \<in> set (drop (nat limit) ?sort). undisturbed jsonb skew clk (mg_holds skew c (j_id j) (j_token j)) k"
    proof
      fix k assume "k \<in> set (drop (nat limit) ?sort)"
      moreover have "j \<in> set (take (nat limit) ?sort)" using j by (simp add: js)
      moreover have "j_id ` set (take (nat limit) ?sort) \<inter> j_id ` set (drop (nat limit) ?sort) = {}"
        using split unfolding map_append distinct_append by simp
      ultimately have "j_id j \<noteq> j_id k" by blast
      then show "undisturbed jsonb skew clk (mg_holds skew c (j_id j) (j_token j)) k"
        by (intro holds_undisturbed c(1)) simp
    qed
    from release_both_undisturbed [where P = "mg_holds skew c (j_id j) (j_token j)", OF this] show ?thesis
      using h2 [OF c] jcl by (simp add: s')
  qed
  show "mg_holder skew c s (j_id j) = None" if c: "clk \<le> c"
  proof (rule ccontr)
    assume "mg_holder skew c s (j_id j) \<noteq> None"
    then obtain h where h: "mg_holds skew c (j_id j) h s" using mg_holder_Some by blast
    have live: "live_claim (millis (clk + skew)) (m_vk s) (j_id j) = Some h"
      using h live_claim_before [of "millis (c + skew)" "m_vk s" "j_id j" h "millis (clk + skew)"] millis_mono c
      by (simp add: mg_holds_def vk_held_def)
    then have nl: "j_id k \<noteq> j_id j" if "k \<in> set legacy" for k using vk_claim_jobs(2) [OF v that] by auto
    then have prim: "j \<in> set primary" using origin l1 by auto
    have hv: "mg_holds skew c (j_id j) h ?v"
      using h live_claim_cong [OF vk_claim_frame(1) [OF v live]] by (simp add: mg_holds_def vk_held_def)
    have "\<forall>k \<in> set (legacy @ legacy @ []). undisturbed jsonb skew clk (mg_holds skew c (j_id j) h) k"
      using nl by (force intro!: holds_undisturbed c)
    from adopt_all_undisturbed [where P = "mg_holds skew c (j_id j) h", OF this hv a]
    have "pg_holder c (m_pg s1) (j_id j) = Some h" by (simp add: mg_holds_def)
    then show False using pg.claim_free [OF ok1 p' prim c] by simp
  qed
  show "j_id j \<noteq> i" if fin: "mg_finished clk s i"
  proof -
    have fv: "pg_finished clk (m_pg ?v) i" using fin by (simp add: mg_finished_def)
    have "i \<notin> j_id ` set cl1" using adopt_all_unfinished [OF a fv okv] by simp
    moreover have "pg_finished clk (m_pg s1) i"
      by (rule adopt_all_undisturbed [where P = "\<lambda>s. pg_finished clk (m_pg s) i", OF _ fv a]) (simp add: finished_undisturbed)
    ultimately show ?thesis using origin pg.claim_unfinished [OF ok1 _ p'] by blast
  qed
qed

interpretation mg: exclusive_store "migrating_store locked jsonb skew" mg_ok "mg_holder skew" mg_finished
    scheduled_job_lease completion_retention for locked jsonb skew
proof
  fix s s' :: migrating and clk c now limit i k t h ow j and js :: "scheduled_job list"
  let ?st = "migrating_store locked jsonb skew" and ?pg = "postgres_store locked jsonb"
  let ?job = "sample_job\<lparr>j_id := i, j_token := t\<rparr>"
  assume ok: "mg_ok s"
  then have pok: "rows_ok (pg_rows (m_pg s))" by (simp add: mg_ok_def)
  have ms: "clk \<le> c \<Longrightarrow> millis (clk + skew) \<le> millis (c + skew)" by (intro millis_mono) simp
  have lease: "c < clk + scheduled_job_lease \<Longrightarrow> c + skew < clk + skew + scheduled_job_lease" by simp
  have enq: "m_pg (fst (st_enqueue ?st clk j s)) = fst (st_enqueue ?pg clk j (m_pg s))"
    "m_vk (fst (st_enqueue ?st clk j s)) = m_vk s"
    by (simp_all add: migrating_store_def mg_enqueue_def postgres_store_def split: prod.split)
  have ren: "m_pg (fst (st_renew ?st clk i t s)) = fst (st_renew ?pg clk i t (m_pg s))"
    "m_vk (fst (st_renew ?st clk i t s)) = m_vk s
      \<or> m_vk (fst (st_renew ?st clk i t s)) = fst (vk_renew (millis (clk + skew)) i t (m_vk s))"
    by (auto simp: migrating_store_def mg_renew_def postgres_store_def split: prod.split option.split bool.split)
  have com: "m_vk (fst (st_complete ?st clk i t s)) = fst (vk_complete (millis (clk + skew)) i t (m_vk s))"
    "m_pg (fst (st_complete ?st clk i t s)) = m_pg s
      \<or> m_pg (fst (st_complete ?st clk i t s)) = fst (st_complete ?pg clk i t (m_pg s))"
    by (auto simp: migrating_store_def mg_complete_def postgres_store_def split: prod.split bool.split)
  have rel: "m_pg (fst (st_release ?st clk i t s)) = fst (st_release ?pg clk i t (m_pg s))"
    "m_vk (fst (st_release ?st clk i t s)) = vk_release (millis (clk + skew)) i t (m_vk s)"
    by (simp_all add: migrating_store_def mg_release_def postgres_store_def split: prod.split)
  show "mg_ok (fst (st_enqueue ?st clk j s))" using pg.enqueue_ok [OF pok] by (simp add: mg_ok_def enq)
  show "mg_ok (fst (st_claim ?st clk now limit ow s))" using mg_claim_ok [OF ok] by (simp add: migrating_store_def)
  show "mg_ok (fst (st_renew ?st clk i t s))" using pg.renew_ok [OF pok] by (simp add: mg_ok_def ren)
  show "mg_ok (fst (st_complete ?st clk i t s))" using pg.complete_ok [OF pok] pok com(2) by (auto simp: mg_ok_def)
  show "mg_ok (fst (st_release ?st clk i t s))" using pg.release_ok [OF pok] by (simp add: mg_ok_def rel)
  {
    assume "clk \<le> c" "mg_holder skew c s k = Some h"
    then show "mg_holder skew c (fst (st_enqueue ?st clk j s)) k = Some h"
      using pg.enqueue_holder [OF pok] by (simp add: mg_holder_Some mg_holds_def vk_held_def enq)
  }
  {
    assume "clk \<le> c" "mg_holder skew c s k = Some h"
    then show "mg_holder skew c (fst (st_claim ?st clk now limit ow s)) k = Some h"
      using mg_claim_keeps [OF ok] by (simp add: mg_holder_Some migrating_store_def)
  }
  {
    assume le: "clk \<le> c" and held: "mg_holder skew c s k = Some h" and ne: "(k, h) \<noteq> (i, t)"
    then have p: "pg_holder c (m_pg s) k = Some h" and v: "live_claim (millis (c + skew)) (m_vk s) k = Some h"
      by (simp_all add: mg_holder_Some mg_holds_def vk_held_def)
    show "mg_holder skew c (fst (st_renew ?st clk i t s)) k = Some h"
      using pg.renew_keeps [OF pok le p ne] vk_renew_keeps [OF ms [OF le] v ne] v ren
      by (auto simp: mg_holder_Some mg_holds_def vk_held_def)
    show "mg_holder skew c (fst (st_complete ?st clk i t s)) k = Some h"
      using pg.complete_keeps [OF pok le p ne] vk_complete_keeps [OF ms [OF le] v ne] p com
      by (auto simp: mg_holder_Some mg_holds_def vk_held_def)
    show "mg_holder skew c (fst (st_release ?st clk i t s)) k = Some h"
      using pg.release_keeps [OF pok le p ne] vk_release_keeps [OF ms [OF le] v ne]
      by (simp add: mg_holder_Some mg_holds_def vk_held_def rel)
  }
  {
    assume t: "t \<noteq> ''''" and renew: "st_renew ?st clk i t s = (s', Some True)" and c: "clk \<le> c" "c < clk + scheduled_job_lease"
    obtain pgs where p: "pg_renew clk i t (m_pg s) = (pgs, Some True)"
      and v: "vk_renew (millis (clk + skew)) i t (m_vk s) = (m_vk s', True)" and s': "m_pg s' = pgs"
      using renew by (auto simp: migrating_store_def mg_renew_def split: prod.splits option.splits bool.splits)
    have "pg_holder c pgs i = Some t"
      using pg.renew_holds [OF pok t _ c, of locked jsonb i pgs] p by (simp add: postgres_store_def)
    moreover have "live_claim (millis (c + skew)) (m_vk s') i = Some t"
    proof -
      have "m_vk s' = (m_vk s)\<lparr>claim_keys := AList.update i (t, millis (clk + skew) + lease_ms) (claim_keys (m_vk s))\<rparr>"
        using v by (auto simp: vk_renew_def split: if_splits)
      then show ?thesis using millis_lease [OF lease [OF c(2)]] by (simp add: live_claim_def map_of_update)
    qed
    ultimately show "mg_holder skew c s' i = Some t" by (simp add: mg_holder_Some mg_holds_def vk_held_def s')
  }
  {
    assume held: "mg_holder skew clk s i = Some t" and c: "clk \<le> c" "c < clk + completion_retention"
    then have p: "pg_holder clk (m_pg s) i = Some t" and v: "live_claim (millis (clk + skew)) (m_vk s) i = Some t"
      by (simp_all add: mg_holder_Some mg_holds_def vk_held_def)
    from pg.complete_holder [OF pok p c, of locked jsonb] show "snd (st_complete ?st clk i t s) \<and> mg_finished c (fst (st_complete ?st clk i t s)) i"
      using v by (auto simp: migrating_store_def mg_complete_def vk_complete_def mg_finished_def postgres_store_def split: prod.split)
  }
  {
    assume fin: "mg_finished c s i" and le: "clk \<le> c"
    then have f: "pg_finished c (m_pg s) i" by (simp add: mg_finished_def)
    show "mg_finished c (fst (st_enqueue ?st clk j s)) i"
      using pg.enqueue_finished [OF pok f le] by (simp add: mg_finished_def enq)
    show "mg_finished c (fst (st_claim ?st clk now limit ow s)) i" if "now \<le> clk"
      using mg_claim_finished [OF ok fin le that] by (simp add: migrating_store_def)
    show "mg_finished c (fst (st_renew ?st clk k t s)) i"
      using pg.renew_finished [OF pok f le, of locked jsonb k t]
      by (auto simp: mg_finished_def migrating_store_def mg_renew_def postgres_store_def split: prod.split option.split bool.split)
    show "mg_finished c (fst (st_release ?st clk k t s)) i"
      using pg.release_finished [OF pok f le, of locked jsonb k t]
      by (simp add: mg_finished_def migrating_store_def mg_release_def postgres_store_def split: prod.split) (metis fst_conv)
    show "mg_finished c (fst (st_complete ?st clk k t s)) i" if "c < clk + completion_retention"
      using pg.complete_finished [OF pok f le that, of locked jsonb k t] f
      by (auto simp: mg_finished_def migrating_store_def mg_complete_def postgres_store_def split: prod.split bool.split)
  }
  assume "st_claim ?st clk now limit ow s = (s', Some js)"
  then have eq: "mg_claim locked jsonb skew clk now limit ow s = (s', Some js)" by (simp add: migrating_store_def)
  show "distinct (map j_id js)"
    using mg_claim_jobs(1) [OF ok eq] eq by (cases "0 < limit") (auto simp: mg_claim_def)
  assume j: "j \<in> set js"
  have lim: "0 < limit" using j eq by (cases "0 < limit") (auto simp: mg_claim_def)
  show "mg_holder skew c s (j_id j) = None" if "clk \<le> c" by (rule mg_claim_jobs(2) [OF ok eq lim j that])
  show "mg_holder skew c s' (j_id j) = Some (j_token j)" if "clk \<le> c" "c < clk + scheduled_job_lease"
    using mg_claim_jobs(3) [OF ok eq lim j that] by (simp add: mg_holder_Some)
  show "j_id j \<noteq> i" if "mg_finished clk s i" by (rule mg_claim_jobs(4) [OF ok eq lim j that])
qed

section \<open>Properties\<close>

text \<open>
  C15: during a rolling upgrade a lease holds on both sides. In every history of calls, a runtime
  whose lease has not run out owns the table row and the old queue's claim key under the same
  token, and no claim hands the job out to anyone.
\<close>

theorem migrating_lease_exclusive:
  assumes "rows_ok (pg_rows (m_pg s))" and "sorted (map fst ops)" and "ops_ok ops" and "\<forall>c \<in> fst ` set ops. c \<le> c1"
    and "run = store_run (migrating_store locked jsonb skew) scheduled_job_lease ops (fresh_run s)"
    and "run_held run (i, t) = Some u" and "c1 < u"
  shows "pg_holder c1 (m_pg (run_store run)) i = Some t
    \<and> live_claim (millis (c1 + skew)) (m_vk (run_store run)) i = Some t
    \<and> (\<forall>now limit ow s' js. mg_claim locked jsonb skew c1 now limit ow (run_store run) = (s', Some js) \<longrightarrow>
         i \<notin> j_id ` set js)"
proof -
  have ok: "mg_ok s" using assms(1) by (simp add: mg_ok_def)
  have "mg.sound skew c1 run" unfolding assms(5) by (rule mg.run_sound [OF ok assms(2-4)])
  then have "mg_holder skew c1 (run_store run) i = Some t" unfolding mg.sound_def using assms(6,7) by blast
  moreover have "i \<notin> j_id ` set js" if "mg_claim locked jsonb skew c1 now limit ow (run_store run) = (s', Some js)"
    for now limit ow s' js
    using mg.held_not_claimed [OF ok assms(2-4), of locked jsonb skew i t u now limit ow s' js] that assms(5-7)
    by (simp add: migrating_store_def)
  ultimately show ?thesis by (auto simp: mg_holder_Some mg_holds_def vk_held_def)
qed

definition upgrade_start :: migrating where
  "upgrade_start = \<lparr>m_pg = \<lparr>pg_rows = [], next_prune = (\<lambda>_. zero_time)\<rparr>,
     m_vk = vk_enqueue 0 (sample_job\<lparr>j_id := ''old''\<rparr>) empty_valkey\<rparr>"

definition upgrade_ops :: "(int \<times> store_op) list" where
  "upgrade_ops = [(500, Enqueue sample_job), (5000000, Claim 5000000 4 ''x'')]"

definition upgrade_run :: "migrating store_run" where
  "upgrade_run = store_run (migrating_store (\<lambda>_ _. False) Some 7000000) scheduled_job_lease upgrade_ops
     (fresh_run upgrade_start)"

theorem migrating_lease_exclusive_witness:
  "pg_holder 6000000 (m_pg (run_store upgrade_run)) ''old'' = Some ''x:1''
   \<and> live_claim (millis (6000000 + 7000000)) (m_vk (run_store upgrade_run)) ''old'' = Some ''x:1''"
proof -
  have "?thesis \<and> (\<forall>now limit ow s' js.
      mg_claim (\<lambda>_ _. False) Some 7000000 6000000 now limit ow (run_store upgrade_run) = (s', Some js) \<longrightarrow>
        ''old'' \<notin> j_id ` set js)"
    unfolding conj_assoc
  proof (rule migrating_lease_exclusive [where ops = upgrade_ops and run = upgrade_run and s = upgrade_start and u = 300005000000])
  show "rows_ok (pg_rows (m_pg upgrade_start))" by (simp add: rows_ok_def upgrade_start_def)
  show "sorted (map fst upgrade_ops)" "ops_ok upgrade_ops" "\<forall>c \<in> fst ` set upgrade_ops. c \<le> 6000000"
    by (simp_all add: upgrade_ops_def ops_ok_def)
  show "run_held upgrade_run (''old'', ''x:1'') = Some 300005000000" by code_simp
  show "upgrade_run = store_run (migrating_store (\<lambda>_ _. False) Some 7000000) scheduled_job_lease upgrade_ops
      (fresh_run upgrade_start)" by (rule upgrade_run_def)
  qed simp
  then show ?thesis by (rule conjunct1)
qed

text \<open>The completion marker of the old queue, which no later step removes.\<close>

definition marked :: "int \<Rightarrow> string \<Rightarrow> migrating \<Rightarrow> bool" where
  "marked ms i s \<longleftrightarrow> live_seen ms (m_vk s) i \<and> map_of (payloads (m_vk s)) i = None"

lemma marked_undisturbed: "undisturbed jsonb skew clk (marked (millis (clk + skew)) i) j"
  unfolding undisturbed_def
  by (auto simp: marked_def primary_release_def legacy_release_def vk_release_def adopt_job_def legacy_complete_def
      primary_complete_def guard_job_def vk_guard_def vk_complete_def live_seen_def map_of_update map_of_delete
      remove_job_def dedupe_ttl_ms_def split: prod.splits option.splits if_splits)

lemma guard_all_marked:
  assumes "guard_all skew clk primary js s claimed = (s', Some cl)" and "marked (millis (clk + skew)) i s"
    and "i \<notin> j_id ` set claimed"
  shows "i \<notin> j_id ` set cl"
  using assms
proof (induction skew clk primary js s claimed arbitrary: s' cl rule: guard_all.induct)
  case (2 skew clk primary j js s claimed)
  obtain s1 g where g: "guard_job skew clk j s = (s1, g)" by fastforce
  obtain s2 b where c: "primary_complete clk j s1 = (s2, b)" by fastforce
  note und = marked_undisturbed [of undefined skew clk i j]
  have m1: "marked (millis (clk + skew)) i s1" by (rule undisturbedD(6) [OF und "2.prems"(2) g])
  have m2: "marked (millis (clk + skew)) i s2" by (rule undisturbedD(5) [OF und m1 c])
  consider "g = Guarded" | "g = LegacyPending" | "g = LegacyCompleted" "b"
    using "2.prems"(1) g c by (cases g; cases b) auto
  then show ?case
  proof cases
    case 1
    have "i \<noteq> j_id j"
      using g 1 "2.prems"(2) by (auto simp: guard_job_def vk_guard_def marked_def split: prod.splits)
    then show ?thesis using "2.IH"(1) [OF g [symmetric] 1] "2.prems" g 1 m1 by simp
  next
    case 2
    then show ?thesis using "2.IH"(2) [OF g [symmetric] 2] "2.prems" g undisturbedD(1) [OF und m1] by simp
  next
    case 3
    then show ?thesis using "2.IH"(3) [OF g [symmetric] 3(1) c [symmetric]] "2.prems" g c m2 by simp
  qed
qed simp



end
