(* ===== verification/Cron_Registry.thy ===== *)
theory Cron_Registry
  imports Gonvex_Prelude
begin

text \<open>
  \<open>pkg/gonvex/cron.go\<close>: the registration of crons by an application. A panic is the outcome
  \<open>Panic\<close>. The arguments of a function reach the code as a Go value: nothing, raw JSON text, or a
  value for which the JSON encoder returns a text or an error.
\<close>

section \<open>Specifications\<close>

record cron_spec =
  s_name :: string
  s_function :: string
  s_interval :: int
  s_expression :: string
  s_args :: string
  s_per_tenant :: bool

datatype go_args = NilArgs | RawArgs string | Value "string option"

definition encode_cron_args :: "go_args \<Rightarrow> ('e, string) outcome" where
  "encode_cron_args a = (case a of NilArgs \<Rightarrow> Ok '''' | RawArgs raw \<Rightarrow> Ok raw
     | Value (Some text) \<Rightarrow> Ok text | Value None \<Rightarrow> Panic)"

definition register_cron :: "cron_spec \<Rightarrow> cron_spec list \<Rightarrow> ('e, cron_spec list) outcome" where
  "register_cron spec crons =
     (let spec = spec\<lparr>s_name := trim_space (s_name spec), s_function := trim_space (s_function spec)\<rparr>
      in if s_name spec = '''' then Panic
         else if s_function spec = '''' then Panic
         else if s_interval spec \<le> 0 \<and> trim_space (s_expression spec) = '''' then Panic
         else if list_ex (\<lambda>existing. s_name existing = s_name spec) crons then Panic
         else Ok (crons @ [spec]))"

definition app_cron :: "string \<Rightarrow> int \<Rightarrow> string \<Rightarrow> go_args \<Rightarrow> cron_spec list \<Rightarrow> ('e, cron_spec list) outcome" where
  "app_cron name interval path args crons = bind_outcome (encode_cron_args args) (\<lambda>a.
     register_cron \<lparr>s_name = name, s_function = path, s_interval = interval, s_expression = '''', s_args = a,
       s_per_tenant = False\<rparr> crons)"

definition app_tenant_cron :: "string \<Rightarrow> int \<Rightarrow> string \<Rightarrow> go_args \<Rightarrow> cron_spec list \<Rightarrow> ('e, cron_spec list) outcome" where
  "app_tenant_cron name interval path args crons = bind_outcome (encode_cron_args args) (\<lambda>a.
     register_cron \<lparr>s_name = name, s_function = path, s_interval = interval, s_expression = '''', s_args = a,
       s_per_tenant = True\<rparr> crons)"

definition app_cron_expr :: "string \<Rightarrow> string \<Rightarrow> string \<Rightarrow> go_args \<Rightarrow> cron_spec list \<Rightarrow> ('e, cron_spec list) outcome" where
  "app_cron_expr name expression path args crons = bind_outcome (encode_cron_args args) (\<lambda>a.
     register_cron \<lparr>s_name = name, s_function = path, s_interval = 0, s_expression = expression, s_args = a,
       s_per_tenant = False\<rparr> crons)"

definition app_tenant_cron_expr :: "string \<Rightarrow> string \<Rightarrow> string \<Rightarrow> go_args \<Rightarrow> cron_spec list \<Rightarrow> ('e, cron_spec list) outcome" where
  "app_tenant_cron_expr name expression path args crons = bind_outcome (encode_cron_args args) (\<lambda>a.
     register_cron \<lparr>s_name = name, s_function = path, s_interval = 0, s_expression = expression, s_args = a,
       s_per_tenant = True\<rparr> crons)"

section \<open>Registered crons are well-formed\<close>

definition crons_ok :: "cron_spec list \<Rightarrow> bool" where
  "crons_ok crons \<longleftrightarrow> distinct (map s_name crons)
     \<and> (\<forall>s \<in> set crons. s_name s \<noteq> '''' \<and> trim_space (s_name s) = s_name s \<and> s_function s \<noteq> ''''
          \<and> (0 < s_interval s \<or> trim_space (s_expression s) \<noteq> ''''))"

lemma register_cron_ok:
  assumes "crons_ok crons" and "register_cron spec crons = Ok crons'"
  shows "crons_ok crons'" and "\<exists>s. crons' = crons @ [s] \<and> s_name s = trim_space (s_name spec)"
proof -
  have new: "trim_space (s_name spec) \<notin> s_name ` set crons"
    using assms(2) by (force simp: register_cron_def Let_def list_ex_iff split: if_splits)
  then show "crons_ok crons'"
    using assms by (auto simp: register_cron_def crons_ok_def Let_def simp del: list_ex_iff split: if_splits)
  show "\<exists>s. crons' = crons @ [s] \<and> s_name s = trim_space (s_name spec)"
    using assms(2) by (auto simp: register_cron_def Let_def split: if_splits)
qed

lemma register_cron_no_error: "register_cron spec crons \<noteq> Err e"
  by (simp add: register_cron_def Let_def)

end
