(* ===== verification/Scheduler.thy ===== *)
theory Scheduler
  imports Cron_Expr Cron_Registry Job_Store "HOL-Library.AList" "HOL-Library.Multiset"
    "HOL-Library.Product_Lexorder"
begin

text \<open>
  \<open>server/internal/server/scheduler.go\<close>: the executor of one runtime. A critical section of the
  scheduler's mutex is one function of its state; goroutines that the code starts are the jobs a
  function returns. Times are nanoseconds since 1970 (\<open>zero_time\<close> is Go's zero time), lags are
  microseconds, before the division by 1000. \<open>sha\<close> is SHA-256, \<open>fresh\<close> a random identifier. A Go
  map is an association list, and ranging over it a traversal of that list.
\<close>

section \<open>Formats of the standard library\<close>

definition pad_left :: "nat \<Rightarrow> string \<Rightarrow> string" where
  "pad_left n s = replicate (n - length s) (CHR ''0'') @ s"

definition trim_zeros :: "string \<Rightarrow> string" where
  "trim_zeros s = rev (dropWhile (\<lambda>c. c = CHR ''0'') (rev s))"

text \<open>\<open>t.UTC().Format(time.RFC3339Nano)\<close>.\<close>

definition rfc3339_nano :: "int \<Rightarrow> string" where
  "rfc3339_nano t =
     (let (y, m, d) = civil (t div day_ns);
          frac = trim_zeros (pad_left 9 (int_dec (t mod second_ns)))
      in pad_left 4 (int_dec y) @ ''-'' @ pad_left 2 (nat_dec m) @ ''-'' @ pad_left 2 (int_dec d) @ ''T''
         @ pad_left 2 (nat_dec (hour_of t)) @ '':'' @ pad_left 2 (nat_dec (minute_of t)) @ '':''
         @ pad_left 2 (int_dec (t div second_ns mod 60)) @ (if frac = '''' then '''' else ''.'' @ frac) @ ''Z'')"

text \<open>\<open>time.Duration.String\<close>; the micro sign is two bytes.\<close>

definition with_fraction :: "int \<Rightarrow> nat \<Rightarrow> string" where
  "with_fraction u prec =
     (let frac = trim_zeros (pad_left prec (int_dec (u mod 10 ^ prec)))
      in int_dec (u div 10 ^ prec) @ (if frac = '''' then '''' else ''.'' @ frac))"

definition duration_string :: "int \<Rightarrow> string" where
  "duration_string d =
     (let u = abs d; sign = (if d < 0 then ''-'' else '''') in
      if u = 0 then ''0s''
      else if u < 1000 then sign @ int_dec u @ ''ns''
      else if u < 1000000 then sign @ with_fraction u 3 @ [char_of (194 :: nat), char_of (181 :: nat)] @ ''s''
      else if u < second_ns then sign @ with_fraction u 6 @ ''ms''
      else
        let secs = u div second_ns; mins = secs div 60; hours = mins div 60;
            tail = with_fraction (secs mod 60 * second_ns + u mod second_ns) 9 @ ''s''
        in sign @ (if 0 < hours then int_dec hours @ ''h'' else '''')
             @ (if 0 < mins then int_dec (mins mod 60) @ ''m'' else '''') @ tail)"

definition hex_digit :: "nat \<Rightarrow> char" where
  "hex_digit n = (if n < 10 then char_of (48 + n) else char_of (87 + n))"

definition hex :: "string \<Rightarrow> string" where
  "hex s = concat (map (\<lambda>c. [hex_digit (of_char c div 16), hex_digit (of_char c mod 16)]) s)"

section \<open>Schedules\<close>

text \<open>The implementations of the interface \<open>cronSchedule\<close>.\<close>

datatype schedule = Interval int | Expr expr_schedule | Offset schedule int

fun schedule_next :: "schedule \<Rightarrow> int \<Rightarrow> int option" where
  "schedule_next (Interval i) after = interval_next i after"
| "schedule_next (Expr s) after = expr_next s after"
| "schedule_next (Offset base d) after =
     (case schedule_next base (after - d) of None \<Rightarrow> None | Some u \<Rightarrow> Some (u + d))"

definition next_time :: "schedule \<Rightarrow> int \<Rightarrow> int" where
  "next_time s after = (case schedule_next s after of None \<Rightarrow> zero_time | Some u \<Rightarrow> u)"

fun canonical_occurrence :: "schedule \<Rightarrow> int \<Rightarrow> int" where
  "canonical_occurrence (Offset base d) run_at = run_at - d"
| "canonical_occurrence s run_at = run_at"

definition max_stagger :: int where "max_stagger = 300000000000"

definition nul :: string where "nul = [char_of (0 :: nat)]"

definition seed_of :: "string \<Rightarrow> int" where
  "seed_of digest = fold (\<lambda>c seed. seed * 256 + int (of_char c)) (take 8 digest) 0"

definition stagger_window :: "cron_spec \<Rightarrow> int" where
  "stagger_window spec =
     go_div (if 0 < s_interval spec \<and> s_interval spec < max_stagger then s_interval spec else max_stagger) 1000000"

definition stagger :: "(string \<Rightarrow> string) \<Rightarrow> schedule \<Rightarrow> cron_spec \<Rightarrow> string \<Rightarrow> string \<Rightarrow> schedule" where
  "stagger sha base spec project tenant =
     (let window = stagger_window spec
      in if window \<le> 1 then base
         else Offset base (seed_of (sha (join_with nul [project, tenant, s_name spec])) mod window * 1000000))"

datatype schedule_error = BadExpression cron_error | NoSchedule string

definition schedule_for_spec :: "cron_spec \<Rightarrow> (schedule_error, schedule) outcome" where
  "schedule_for_spec spec =
     (if trim_space (s_expression spec) \<noteq> ''''
      then bind_outcome (map_err BadExpression (parse_cron_expr (s_expression spec))) (\<lambda>s. Ok (Expr s))
      else if 0 < s_interval spec then Ok (Interval (s_interval spec))
      else Err (NoSchedule (s_name spec)))"

section \<open>State\<close>

record cron_reg =
  g_project :: string
  g_tenant :: string
  g_spec :: cron_spec
  g_schedule :: schedule
  g_next :: int
  g_last :: int
  g_status :: string
  g_runs :: int
  g_failures :: int

definition reg_key :: "string \<Rightarrow> string \<Rightarrow> string \<Rightarrow> string" where
  "reg_key project tenant name = project @ nul @ tenant @ nul @ name"

record bucket =
  b_completed :: int
  b_failed :: int
  b_lag_us :: int
  b_samples :: int
  b_max_running :: int

record sched_run =
  n_time :: string
  n_project :: string
  n_function :: string
  n_cron :: string
  n_outcome :: string
  n_lag_us :: int
  n_duration_us :: int
  n_error :: string

record sched =
  c_jobs :: "scheduled_job list"
  c_crons :: "(string \<times> cron_reg) list"
  c_running :: int
  c_queued :: int
  c_id_seq :: int
  c_completed :: int
  c_failed :: int
  c_lag_us :: int
  c_buckets :: "(int \<times> bucket) list"
  c_recent :: "sched_run list"
  c_wake :: bool

definition max_concurrent :: int where "max_concurrent = 16"
definition recent_run_limit :: nat where "recent_run_limit = 30"
definition bucket_width :: int where "bucket_width = 30000000000"
definition bucket_count :: nat where "bucket_count = 24"

definition new_scheduler :: sched where
  "new_scheduler = \<lparr>c_jobs = [], c_crons = [], c_running = 0, c_queued = 0, c_id_seq = 0, c_completed = 0,
     c_failed = 0, c_lag_us = 0, c_buckets = [], c_recent = [], c_wake = False\<rparr>"

section \<open>Scheduling one-shot jobs\<close>

datatype sched_error = PathRequired | BadArgs | Persist

definition encode_scheduler_args :: "go_args \<Rightarrow> (sched_error, string) outcome" where
  "encode_scheduler_args a = (case a of NilArgs \<Rightarrow> Ok '''' | RawArgs raw \<Rightarrow> Ok raw
     | Value (Some text) \<Rightarrow> Ok text | Value None \<Rightarrow> Err BadArgs)"

text \<open>The job as \<open>enqueue\<close> completes it.\<close>

definition complete_job :: "string \<Rightarrow> scheduled_job \<Rightarrow> scheduled_job" where
  "complete_job fresh j =
     (let j = (if j_id j = '''' then j\<lparr>j_id := fresh\<rparr> else j)
      in if j_scheduled_for j = zero_time then j\<lparr>j_scheduled_for := j_run_at j\<rparr> else j)"

definition sched_enqueue :: "'s job_store option \<Rightarrow> int \<Rightarrow> string \<Rightarrow> scheduled_job \<Rightarrow> sched \<times> 's \<Rightarrow>
    (sched \<times> 's) \<times> (sched_error, string) outcome" where
  "sched_enqueue st clk fresh j ss =
     (let (sc, s) = ss; j = complete_job fresh j
      in case st of
           None \<Rightarrow> ((sc\<lparr>c_jobs := c_jobs sc @ [j], c_wake := True\<rparr>, s), Ok (j_id j))
         | Some store \<Rightarrow>
             (case st_enqueue store clk j s of
                (s, False) \<Rightarrow> ((sc, s), Err Persist)
              | (s, True) \<Rightarrow> ((sc\<lparr>c_wake := True\<rparr>, s), Ok (j_id j))))"

definition handle_run_at :: "'s job_store option \<Rightarrow> int \<Rightarrow> string \<Rightarrow> string \<Rightarrow> string \<Rightarrow> int \<Rightarrow> string \<Rightarrow> go_args \<Rightarrow>
    sched \<times> 's \<Rightarrow> (sched \<times> 's) \<times> (sched_error, string) outcome" where
  "handle_run_at st clk fresh project tenant at path args ss =
     (let path = trim_space path
      in if path = '''' then (ss, Err PathRequired)
         else case encode_scheduler_args args of
           Ok raw \<Rightarrow> sched_enqueue st clk fresh
             \<lparr>j_id = '''', j_token = '''', j_project = project, j_tenant = tenant, j_function = path, j_args = raw,
              j_run_at = at, j_scheduled_for = at, j_cron = ''''\<rparr> ss
         | Err e \<Rightarrow> (ss, Err e)
         | Panic \<Rightarrow> (ss, Panic))"

definition handle_run_after :: "'s job_store option \<Rightarrow> int \<Rightarrow> string \<Rightarrow> string \<Rightarrow> string \<Rightarrow> int \<Rightarrow> int \<Rightarrow> string \<Rightarrow> go_args \<Rightarrow>
    sched \<times> 's \<Rightarrow> (sched \<times> 's) \<times> (sched_error, string) outcome" where
  "handle_run_after st clk fresh project tenant now delay path args ss =
     handle_run_at st clk fresh project tenant (now + (if delay < 0 then 0 else delay)) path args ss"

section \<open>Cron registrations\<close>

fun clean_tenants :: "string list \<Rightarrow> string list \<Rightarrow> string list" where
  "clean_tenants [] kept = kept"
| "clean_tenants (t # ts) kept =
     (let t = trim_space t
      in if t = '''' \<or> t \<in> set kept then clean_tenants ts kept else clean_tenants ts (kept @ [t]))"

definition previous_reg :: "(string \<times> cron_reg) list \<Rightarrow> string \<Rightarrow> string \<Rightarrow> string \<Rightarrow> cron_reg option" where
  "previous_reg crons project tenant name =
     map_option snd (find (\<lambda>(k, r). g_project r = project \<and> g_tenant r @ nul @ s_name (g_spec r) = tenant @ nul @ name) crons)"

definition new_reg :: "(string \<times> cron_reg) list \<Rightarrow> string \<Rightarrow> string \<Rightarrow> cron_spec \<Rightarrow> schedule \<Rightarrow> int \<Rightarrow> cron_reg" where
  "new_reg old project tenant spec sched now =
     (let reg = \<lparr>g_project = project, g_tenant = tenant, g_spec = spec, g_schedule = sched,
                 g_next = next_time sched now, g_last = zero_time, g_status = '''', g_runs = 0, g_failures = 0\<rparr>
      in case previous_reg old project tenant (s_name spec) of
           None \<Rightarrow> reg
         | Some p \<Rightarrow> reg\<lparr>g_runs := g_runs p, g_failures := g_failures p, g_last := g_last p, g_status := g_status p\<rparr>)"

text \<open>One tenant of one specification, and one specification.\<close>

definition sync_tenant :: "(string \<Rightarrow> string) \<Rightarrow> (string \<times> cron_reg) list \<Rightarrow> string \<Rightarrow> int \<Rightarrow> cron_spec \<Rightarrow> schedule \<Rightarrow>
    string \<Rightarrow> (string \<times> cron_reg) list \<Rightarrow> (string \<times> cron_reg) list" where
  "sync_tenant sha old project now spec base tenant crons =
     (let sched = (if s_per_tenant spec then stagger sha base spec project tenant else base);
          reg = new_reg old project tenant spec sched now
      in if g_next reg = zero_time then crons
         else AList.update (reg_key project tenant (s_name spec)) reg crons)"

definition sync_spec :: "(string \<Rightarrow> string) \<Rightarrow> (string \<times> cron_reg) list \<Rightarrow> string \<Rightarrow> string list \<Rightarrow> int \<Rightarrow> cron_spec \<Rightarrow>
    (string \<times> cron_reg) list \<Rightarrow> (string \<times> cron_reg) list" where
  "sync_spec sha old project tenants now spec crons =
     (case schedule_for_spec spec of
        Ok base \<Rightarrow> fold (sync_tenant sha old project now spec base)
          (if s_per_tenant spec then tenants else ['''']) crons
      | _ \<Rightarrow> crons)"

text \<open>
  A specification whose expression panics the parser takes the runtime down; the model's
  \<open>sync_crons\<close> is used for specifications that do not (\<open>None\<close> is the panic).
\<close>

definition sync_crons :: "(string \<Rightarrow> string) \<Rightarrow> string \<Rightarrow> cron_spec list \<Rightarrow> string list \<Rightarrow> int \<Rightarrow> sched \<Rightarrow> sched option" where
  "sync_crons sha project specs tenants now sc =
     (if list_ex (\<lambda>spec. schedule_for_spec spec = Panic) specs then None
      else
        let old = c_crons sc;
            kept = filter (\<lambda>(k, r). g_project r \<noteq> project) old;
            clean = sort (clean_tenants tenants [])
        in Some (sc\<lparr>c_crons := fold (sync_spec sha old project clean now) specs kept, c_wake := True\<rparr>))"

section \<open>Metrics\<close>

definition bucket_key :: "int \<Rightarrow> int" where
  "bucket_key now = now div bucket_width * bucket_width div 1000000"

definition zero_bucket :: bucket where
  "zero_bucket = \<lparr>b_completed = 0, b_failed = 0, b_lag_us = 0, b_samples = 0, b_max_running = 0\<rparr>"

text \<open>\<open>bucketLocked\<close> followed by an update of the bucket it returns.\<close>

definition with_bucket :: "int \<Rightarrow> (bucket \<Rightarrow> bucket) \<Rightarrow> sched \<Rightarrow> sched" where
  "with_bucket now f sc =
     (let key = bucket_key now;
          b = (case map_of (c_buckets sc) key of None \<Rightarrow> zero_bucket | Some b \<Rightarrow> b);
          oldest = bucket_key (now - bucket_width * int bucket_count)
      in sc\<lparr>c_buckets := filter (\<lambda>(k, b). oldest \<le> k) (AList.update key (f b) (c_buckets sc))\<rparr>)"

definition observe_running :: "int \<Rightarrow> sched \<Rightarrow> sched" where
  "observe_running now sc =
     with_bucket now (\<lambda>b. if b_max_running b < c_running sc then b\<lparr>b_max_running := c_running sc\<rparr> else b) sc"

section \<open>Dispatching\<close>

definition cron_job :: "cron_reg \<Rightarrow> sched \<Rightarrow> sched \<times> scheduled_job" where
  "cron_job reg sc =
     (let seq = c_id_seq sc + 1
      in (sc\<lparr>c_id_seq := seq\<rparr>,
          \<lparr>j_id = ''cron_'' @ int_dec seq, j_token = '''', j_project = g_project reg, j_tenant = g_tenant reg,
           j_function = s_function (g_spec reg), j_args = s_args (g_spec reg), j_run_at = g_next reg,
           j_scheduled_for = canonical_occurrence (g_schedule reg) (g_next reg), j_cron = s_name (g_spec reg)\<rparr>))"

definition cron_due :: "int \<Rightarrow> cron_reg \<Rightarrow> bool" where
  "cron_due now reg \<longleftrightarrow> g_next reg \<noteq> zero_time \<and> g_next reg \<le> now"

text \<open>The crons due now: their jobs, and the registrations advanced past now.\<close>

fun fire_crons :: "int \<Rightarrow> (string \<times> cron_reg) list \<Rightarrow> sched \<Rightarrow> sched \<times> (string \<times> cron_reg) list \<times> scheduled_job list" where
  "fire_crons now [] sc = (sc, [], [])"
| "fire_crons now ((k, reg) # regs) sc =
     (if cron_due now reg then
        let (sc, j) = cron_job reg sc; (sc, regs', js) = fire_crons now regs sc
        in (sc, (k, reg\<lparr>g_next := next_time (g_schedule reg) now\<rparr>) # regs', j # js)
      else let (sc, regs', js) = fire_crons now regs sc in (sc, (k, reg) # regs', js))"

text \<open>Start what fits under the limit, leave the rest due.\<close>

fun admit :: "scheduled_job list \<Rightarrow> int \<Rightarrow> int \<times> scheduled_job list \<times> scheduled_job list" where
  "admit [] running = (running, [], [])"
| "admit (j # js) running =
     (if max_concurrent \<le> running then
        let (r, start, rest) = admit js running in (r, start, j # rest)
      else let (r, start, rest) = admit js (running + 1) in (r, j # start, rest))"

definition by_priority :: "scheduled_job \<Rightarrow> bool \<times> int" where
  "by_priority j = (is_cron j, j_run_at j)"

definition dispatch_memory :: "int \<Rightarrow> sched \<Rightarrow> sched \<times> scheduled_job list" where
  "dispatch_memory now sc =
     (let sc = observe_running now sc;
          due = filter (\<lambda>j. j_run_at j \<le> now) (c_jobs sc);
          remaining = filter (\<lambda>j. \<not> j_run_at j \<le> now) (c_jobs sc);
          (sc, regs, js) = fire_crons now (c_crons sc) sc;
          (running, start, rest) = admit (sort_key by_priority (due @ js)) (c_running sc)
      in (sc\<lparr>c_jobs := remaining @ rest, c_crons := regs, c_running := running, c_queued := int (length rest)\<rparr>, start))"

definition deterministic_id :: "(string \<Rightarrow> string) \<Rightarrow> scheduled_job \<Rightarrow> string" where
  "deterministic_id sha j =
     ''cron_'' @ hex (take 16 (sha (join_with nul [j_project j, j_tenant j, j_cron j, rfc3339_nano (j_scheduled_for j)])))"

text \<open>The jobs of the due crons with their deterministic ids; registrations are advanced later.\<close>

fun due_cron_jobs :: "(string \<Rightarrow> string) \<Rightarrow> int \<Rightarrow> cron_reg list \<Rightarrow> sched \<Rightarrow> sched \<times> scheduled_job list" where
  "due_cron_jobs sha now [] sc = (sc, [])"
| "due_cron_jobs sha now (reg # regs) sc =
     (if cron_due now reg then
        let (sc, j) = cron_job reg sc; (sc, js) = due_cron_jobs sha now regs sc
        in (sc, j\<lparr>j_id := deterministic_id sha j\<rparr> # js)
      else due_cron_jobs sha now regs sc)"

definition advance_persisted :: "scheduled_job \<Rightarrow> int \<Rightarrow> sched \<Rightarrow> sched" where
  "advance_persisted j now sc =
     (let key = reg_key (j_project j) (j_tenant j) (j_cron j)
      in case map_of (c_crons sc) key of
           None \<Rightarrow> sc
         | Some reg \<Rightarrow>
             if g_next reg \<noteq> j_run_at j then sc
             else sc\<lparr>c_crons := AList.update key (reg\<lparr>g_next := next_time (g_schedule reg) now\<rparr>) (c_crons sc)\<rparr>)"

fun persist_crons :: "'s job_store \<Rightarrow> int \<Rightarrow> int \<Rightarrow> scheduled_job list \<Rightarrow> sched \<times> 's \<Rightarrow> sched \<times> 's" where
  "persist_crons st clk now [] ss = ss"
| "persist_crons st clk now (j # js) (sc, s) =
     (case st_enqueue st clk j s of
        (s, False) \<Rightarrow> persist_crons st clk now js (sc, s)
      | (s, True) \<Rightarrow> persist_crons st clk now js (advance_persisted j now sc, s))"

definition dispatch_store :: "'s job_store \<Rightarrow> (string \<Rightarrow> string) \<Rightarrow> string \<Rightarrow> int \<Rightarrow> int \<Rightarrow> sched \<times> 's \<Rightarrow>
    (sched \<times> 's) \<times> scheduled_job list" where
  "dispatch_store st sha owner clk now ss =
     (let (sc, s) = ss;
          sc = observe_running now sc;
          available = max_concurrent - c_running sc;
          (sc, js) = due_cron_jobs sha now (map snd (c_crons sc)) sc;
          (sc, s) = persist_crons st clk now js (sc, s)
      in if available \<le> 0 then ((sc, s), [])
         else case st_claim st clk now available owner s of
           (s, None) \<Rightarrow> ((sc, s), [])
         | (s, Some claimed) \<Rightarrow>
             ((sc\<lparr>c_running := c_running sc + int (length claimed), c_queued := 0\<rparr>, s), claimed))"

section \<open>Execution\<close>

text \<open>
  What the executor returned for a job: its error, and whether the job's context was cancelled
  and the error is that of the context. \<open>clks\<close> are the store's clocks at the attempts.
\<close>

record exec_result =
  x_error :: "string option"
  x_interrupted :: bool

fun complete_attempts :: "'s job_store \<Rightarrow> int list \<Rightarrow> string \<Rightarrow> string \<Rightarrow> 's \<Rightarrow> 's \<times> bool" where
  "complete_attempts st [] i t s = (s, False)"
| "complete_attempts st (clk # clks) i t s =
     (case st_complete st clk i t s of (s, True) \<Rightarrow> (s, True) | (s, False) \<Rightarrow> complete_attempts st clks i t s)"

definition finish_in_store :: "'s job_store \<Rightarrow> int list \<Rightarrow> scheduled_job \<Rightarrow> exec_result \<Rightarrow> 's \<Rightarrow> 's \<times> string option" where
  "finish_in_store st clks j x s =
     (if x_interrupted x then (fst (st_release st (hd clks) (j_id j) (j_token j) s), x_error x)
      else case complete_attempts st (take 3 clks) (j_id j) (j_token j) s of
        (s, True) \<Rightarrow> (s, x_error x)
      | (s, False) \<Rightarrow> (s, Some (''complete scheduled job '' @ j_id j)))"

definition lag_of :: "int \<Rightarrow> scheduled_job \<Rightarrow> int" where
  "lag_of dispatched_at j = (if dispatched_at - j_run_at j < 0 then 0 else dispatched_at - j_run_at j)"

definition run_entry :: "scheduled_job \<Rightarrow> int \<Rightarrow> int \<Rightarrow> string option \<Rightarrow> int \<Rightarrow> sched_run" where
  "run_entry j lag duration err now =
     \<lparr>n_time = rfc3339_nano now, n_project = j_project j, n_function = j_function j, n_cron = j_cron j,
      n_outcome = (if err = None then ''ok'' else ''error''), n_lag_us = go_div lag 1000,
      n_duration_us = go_div duration 1000, n_error = (case err of None \<Rightarrow> '''' | Some e \<Rightarrow> e)\<rparr>"

definition finish :: "scheduled_job \<Rightarrow> int \<Rightarrow> int \<Rightarrow> string option \<Rightarrow> int \<Rightarrow> sched \<Rightarrow> sched" where
  "finish j lag duration err now sc =
     (let outcome = (if err = None then ''ok'' else ''error'');
          sc = (if 0 < c_running sc then sc\<lparr>c_running := c_running sc - 1\<rparr> else sc);
          lag_us = go_div lag 1000;
          sc = sc\<lparr>c_lag_us := lag_us\<rparr>;
          sc = with_bucket now (\<lambda>b. let b = b\<lparr>b_lag_us := b_lag_us b + lag_us, b_samples := b_samples b + 1\<rparr>
                 in if err = None then b\<lparr>b_completed := b_completed b + 1\<rparr> else b\<lparr>b_failed := b_failed b + 1\<rparr>) sc;
          sc = (if err = None then sc\<lparr>c_completed := c_completed sc + 1\<rparr> else sc\<lparr>c_failed := c_failed sc + 1\<rparr>);
          key = reg_key (j_project j) (j_tenant j) (j_cron j);
          sc = (if j_cron j = '''' then sc
                else case map_of (c_crons sc) key of
                  None \<Rightarrow> sc
                | Some reg \<Rightarrow>
                    (let reg = reg\<lparr>g_runs := g_runs reg + 1, g_last := now, g_status := outcome\<rparr>;
                         reg = (if err = None then reg else reg\<lparr>g_failures := g_failures reg + 1\<rparr>)
                     in sc\<lparr>c_crons := AList.update key reg (c_crons sc)\<rparr>));
          recent = c_recent sc @ [run_entry j lag duration err now]
      in sc\<lparr>c_recent := drop (length recent - recent_run_limit) recent\<rparr>)"

text \<open>
  The end of \<open>execute\<close>: without a store the executor's error is final, with one the job is
  released or completed first.
\<close>

definition execute_end :: "'s job_store option \<Rightarrow> int list \<Rightarrow> int \<Rightarrow> int \<Rightarrow> int \<Rightarrow> scheduled_job \<Rightarrow> exec_result \<Rightarrow>
    sched \<times> 's \<Rightarrow> sched \<times> 's" where
  "execute_end st clks dispatched_at started now j x ss =
     (let (sc, s) = ss;
          (s, err) = (case st of None \<Rightarrow> (s, x_error x) | Some store \<Rightarrow> finish_in_store store clks j x s)
      in (finish j (lag_of dispatched_at j) (now - started) err now sc, s))"

section \<open>The dashboard's view\<close>

record cron_view =
  v_name :: string
  v_project :: string
  v_tenant :: string
  v_function :: string
  v_schedule :: string
  v_next :: string
  v_last :: string
  v_status :: string
  v_runs :: int
  v_failures :: int

text \<open>The average lag of a point is kept as its total and its number of samples.\<close>

record point =
  p_time :: string
  p_completed :: int
  p_failed :: int
  p_lag :: "int \<times> int"
  p_max_running :: int

record sched_view =
  w_running :: int
  w_queued :: int
  w_scheduled :: nat
  w_completed :: int
  w_failed :: int
  w_lag_us :: int
  w_crons :: "cron_view list"
  w_recent :: "sched_run list"
  w_series :: "point list"

definition describe_schedule :: "cron_spec \<Rightarrow> string" where
  "describe_schedule spec =
     (if trim_space (s_expression spec) \<noteq> '''' then s_expression spec
      else ''every '' @ duration_string (s_interval spec))"

definition optional_time :: "int \<Rightarrow> string" where
  "optional_time t = (if t = zero_time then '''' else rfc3339_nano t)"

definition view_of_reg :: "cron_reg \<Rightarrow> cron_view" where
  "view_of_reg reg = \<lparr>v_name = s_name (g_spec reg), v_project = g_project reg, v_tenant = g_tenant reg,
     v_function = s_function (g_spec reg), v_schedule = describe_schedule (g_spec reg),
     v_next = optional_time (g_next reg), v_last = optional_time (g_last reg), v_status = g_status reg,
     v_runs = g_runs reg, v_failures = g_failures reg\<rparr>"

definition series :: "int \<Rightarrow> sched \<Rightarrow> point list" where
  "series now sc =
     (let start = now div bucket_width * bucket_width - bucket_width * (int bucket_count - 1)
      in map (\<lambda>i. let t = start + bucket_width * int i in
             case map_of (c_buckets sc) (t div 1000000) of
               None \<Rightarrow> \<lparr>p_time = rfc3339_nano t, p_completed = 0, p_failed = 0, p_lag = (0, 0), p_max_running = 0\<rparr>
             | Some b \<Rightarrow> \<lparr>p_time = rfc3339_nano t, p_completed = b_completed b, p_failed = b_failed b,
                 p_lag = (b_lag_us b, b_samples b), p_max_running = b_max_running b\<rparr>)
           [0..<bucket_count])"

text \<open>
  \<open>sort.Slice\<close> is not stable; crons that agree in name and tenant, and runs that agree in time,
  are listed here in the order of the map and of the log.
\<close>

definition sched_snapshot :: "int \<Rightarrow> sched \<Rightarrow> sched_view" where
  "sched_snapshot now sc =
     \<lparr>w_running = c_running sc, w_queued = c_queued sc, w_scheduled = length (c_jobs sc) + length (c_crons sc),
      w_completed = c_completed sc, w_failed = c_failed sc, w_lag_us = c_lag_us sc,
      w_crons = sort_key (\<lambda>v. (v_name v, v_tenant v)) (map (view_of_reg \<circ> snd) (c_crons sc)),
      w_recent = rev (sort_key n_time (rev (c_recent sc))),
      w_series = series now sc\<rparr>"

section \<open>In-memory dispatch: lemmas\<close>

lemma with_bucket_frame [simp]:
  "c_jobs (with_bucket now f sc) = c_jobs sc" "c_crons (with_bucket now f sc) = c_crons sc"
  "c_running (with_bucket now f sc) = c_running sc" "c_recent (with_bucket now f sc) = c_recent sc"
  "c_id_seq (with_bucket now f sc) = c_id_seq sc" "c_completed (with_bucket now f sc) = c_completed sc"
  "c_failed (with_bucket now f sc) = c_failed sc" "c_queued (with_bucket now f sc) = c_queued sc"
  by (simp_all add: with_bucket_def Let_def)

lemma observe_running_frame [simp]:
  "c_jobs (observe_running now sc) = c_jobs sc" "c_crons (observe_running now sc) = c_crons sc"
  "c_running (observe_running now sc) = c_running sc" "c_id_seq (observe_running now sc) = c_id_seq sc"
  by (simp_all add: observe_running_def)

lemma admit_spec:
  assumes "admit js running = (r, start, rest)" and "running \<le> max_concurrent"
  shows "js = start @ rest" and "r = running + int (length start)" and "r \<le> max_concurrent"
    and "rest \<noteq> [] \<Longrightarrow> r = max_concurrent"
proof -
  have "js = start @ rest \<and> r = running + int (length start) \<and> r \<le> max_concurrent
      \<and> (rest \<noteq> [] \<longrightarrow> r = max_concurrent) \<and> (max_concurrent \<le> running \<longrightarrow> start = [])"
    using assms
  proof (induction js arbitrary: running r start rest)
    case (Cons j js)
    show ?case
    proof (cases "max_concurrent \<le> running")
      case True
      obtain r' start' rest' where a: "admit js running = (r', start', rest')" by (metis prod_cases3)
      from Cons.IH [OF a Cons.prems(2)] show ?thesis using Cons.prems a True by auto
    next
      case False
      obtain r' start' rest' where a: "admit js (running + 1) = (r', start', rest')" by (metis prod_cases3)
      have "running + 1 \<le> max_concurrent" using False by simp
      from Cons.IH [OF a this] show ?thesis using Cons.prems a False by auto
    qed
  qed simp
  then show "js = start @ rest" and "r = running + int (length start)" and "r \<le> max_concurrent"
    and "rest \<noteq> [] \<Longrightarrow> r = max_concurrent" by blast+
qed

definition advanced :: "int \<Rightarrow> string \<times> cron_reg \<Rightarrow> string \<times> cron_reg" where
  "advanced now kr = (fst kr, if cron_due now (snd kr)
     then (snd kr)\<lparr>g_next := next_time (g_schedule (snd kr)) now\<rparr> else snd kr)"

definition occurrence_of_job :: "scheduled_job \<Rightarrow> string \<times> string \<times> string \<times> int \<times> int" where
  "occurrence_of_job j = (j_project j, j_tenant j, j_cron j, j_run_at j, j_scheduled_for j)"

definition occurrence_of_reg :: "cron_reg \<Rightarrow> string \<times> string \<times> string \<times> int \<times> int" where
  "occurrence_of_reg reg = (g_project reg, g_tenant reg, s_name (g_spec reg), g_next reg,
     canonical_occurrence (g_schedule reg) (g_next reg))"

lemma cron_job_spec:
  assumes "cron_job reg sc = (sc', j)"
  shows "sc' = sc\<lparr>c_id_seq := c_id_seq sc + 1\<rparr>" and "occurrence_of_job j = occurrence_of_reg reg" and "j_run_at j = g_next reg"
  using assms by (auto simp: cron_job_def Let_def occurrence_of_job_def occurrence_of_reg_def)

lemma fire_crons_spec:
  assumes "fire_crons now regs sc = (sc', regs', js)"
  shows "regs' = map (advanced now) regs
    \<and> map occurrence_of_job js = map occurrence_of_reg (filter (cron_due now) (map snd regs))
    \<and> (\<exists>n. sc' = sc\<lparr>c_id_seq := n\<rparr>) \<and> (\<forall>j \<in> set js. j_run_at j \<le> now)"
  using assms
proof (induction now regs sc arbitrary: sc' regs' js rule: fire_crons.induct)
  case (1 now sc)
  then show ?case by (auto intro: exI [of _ "c_id_seq sc"])
next
  case (2 now k reg regs sc)
  show ?case
  proof (cases "cron_due now reg")
    case True
    obtain sc1 j where j: "cron_job reg sc = (sc1, j)" by fastforce
    obtain sc2 regs2 js2 where f: "fire_crons now regs sc1 = (sc2, regs2, js2)" by (metis prod_cases3)
    have eqs: "regs' = (k, reg\<lparr>g_next := next_time (g_schedule reg) now\<rparr>) # regs2" "js = j # js2" "sc' = sc2"
      using 2(3) True j f by simp_all
    have le: "g_next reg \<le> now" using True by (simp add: cron_due_def)
    show ?thesis
      using "2.IH"(1) [OF True j [symmetric] refl f] cron_job_spec [OF j] le True
      by (simp add: eqs advanced_def)
  next
    case False
    obtain sc2 regs2 js2 where f: "fire_crons now regs sc = (sc2, regs2, js2)" by (metis prod_cases3)
    show ?thesis using "2.IH"(2) [OF False f] 2(3) False f by (simp add: advanced_def)
  qed
qed

section \<open>Properties\<close>

text \<open>
  C26: an in-memory dispatch loses and duplicates nothing and respects the concurrency limit. The
  jobs it starts and those it leaves are those that were queued and one per due cron; it starts
  nothing beyond the limit, leaves a due job only when the limit is reached, and starts the first
  ones in the order one-shots before crons, then by due time.
\<close>

theorem dispatch_memory_conserves:
  assumes "dispatch_memory now sc = (sc', start)" and "c_running sc \<le> max_concurrent"
  shows "\<exists>fired. mset (start @ c_jobs sc') = mset (c_jobs sc @ fired)
      \<and> map occurrence_of_job fired = map occurrence_of_reg (filter (cron_due now) (map snd (c_crons sc)))
      \<and> c_running sc' = c_running sc + int (length start) \<and> c_running sc' \<le> max_concurrent
      \<and> (\<forall>j \<in> set (c_jobs sc'). j_run_at j \<le> now \<longrightarrow>
           c_running sc' = max_concurrent \<and> (\<forall>k \<in> set start. by_priority k \<le> by_priority j))"
proof -
  let ?sc = "observe_running now sc"
  define due where "due = filter (\<lambda>j. j_run_at j \<le> now) (c_jobs sc)"
  define remaining where "remaining = filter (\<lambda>j. \<not> j_run_at j \<le> now) (c_jobs sc)"
  obtain sc1 regs fired where f: "fire_crons now (c_crons sc) ?sc = (sc1, regs, fired)" by (metis prod_cases3)
  note fire = fire_crons_spec [OF f]
  let ?sorted = "sort_key by_priority (due @ fired)"
  obtain r st rest where a: "admit ?sorted (c_running sc) = (r, st, rest)" by (metis prod_cases3)
  note adm = admit_spec [OF a assms(2)]
  have run: "c_running sc1 = c_running sc" using fire by auto
  have sc': "sc' = sc1\<lparr>c_jobs := remaining @ rest, c_crons := regs, c_running := r, c_queued := int (length rest)\<rparr>"
    and start: "start = st"
    using assms(1) f a run by (simp_all add: dispatch_memory_def Let_def due_def remaining_def)
  have "mset (st @ rest) = mset due + mset fired" unfolding adm(1) [symmetric] by simp
  moreover have "mset (c_jobs sc) = mset due + mset remaining" by (simp add: due_def remaining_def)
  ultimately have "mset (start @ c_jobs sc') = mset (c_jobs sc @ fired)" by (simp add: start sc')
  moreover have "c_running sc' = max_concurrent \<and> (\<forall>k \<in> set start. by_priority k \<le> by_priority j)"
    if "j \<in> set (c_jobs sc')" "j_run_at j \<le> now" for j
  proof -
    have j: "j \<in> set rest" using that by (auto simp: sc' remaining_def)
    have "sorted (map by_priority (st @ rest))" unfolding adm(1) [symmetric] by simp
    then have "\<forall>k \<in> set st. by_priority k \<le> by_priority j" using j by (auto simp: sorted_append)
    moreover have "rest \<noteq> []" using j by auto
    ultimately show ?thesis using adm(4) by (simp add: start sc')
  qed
  ultimately show ?thesis using fire adm(2,3) by (auto simp: sc' start)
qed

definition tick_reg :: cron_reg where
  "tick_reg = \<lparr>g_project = ''p'', g_tenant = '''', g_spec = \<lparr>s_name = ''tick'', s_function = ''f'', s_interval = 60000000000,
      s_expression = '''', s_args = '''', s_per_tenant = False\<rparr>,
     g_schedule = Interval 60000000000, g_next = 120000000000, g_last = zero_time, g_status = '''', g_runs = 0, g_failures = 0\<rparr>"

definition one_shot :: scheduled_job where
  "one_shot = \<lparr>j_id = ''job'', j_token = '''', j_project = ''p'', j_tenant = '''', j_function = ''g'', j_args = '''',
     j_run_at = 125000000000, j_scheduled_for = 125000000000, j_cron = ''''\<rparr>"

definition busy_sched :: sched where
  "busy_sched = new_scheduler\<lparr>c_jobs := [one_shot], c_crons := [(reg_key ''p'' '''' ''tick'', tick_reg)], c_running := 15\<rparr>"

theorem dispatch_memory_conserves_witness:
  "\<exists>fired. mset (snd (dispatch_memory 130000000000 busy_sched) @ c_jobs (fst (dispatch_memory 130000000000 busy_sched)))
      = mset (one_shot # fired) \<and> map occurrence_of_job fired = [(''p'', '''', ''tick'', 120000000000, 120000000000)]"
proof -
  have "c_running busy_sched \<le> max_concurrent" by (simp add: busy_sched_def max_concurrent_def)
  moreover have "map occurrence_of_reg (filter (cron_due 130000000000) (map snd (c_crons busy_sched)))
      = [(''p'', '''', ''tick'', 120000000000, 120000000000)]" by code_simp
  moreover have "c_jobs busy_sched = [one_shot]" by (simp add: busy_sched_def)
  ultimately show ?thesis
    using dispatch_memory_conserves [of 130000000000 busy_sched "fst (dispatch_memory 130000000000 busy_sched)"
        "snd (dispatch_memory 130000000000 busy_sched)"] by auto
qed

section \<open>Schedules move forward\<close>

text \<open>The instants at which an interval does not run past the 64-bit nanosecond count.\<close>

fun in_range :: "schedule \<Rightarrow> int \<Rightarrow> bool" where
  "in_range (Interval i) after = (0 < i \<and> 0 \<le> after \<and> after + i \<le> max_int64)"
| "in_range (Expr s) after = True"
| "in_range (Offset base d) after = in_range base (after - d)"

lemma schedule_next_after: "in_range s after \<Longrightarrow> schedule_next s after = Some u \<Longrightarrow> after < u"
proof (induction s after arbitrary: u rule: schedule_next.induct)
  case (1 i after)
  then show ?case using interval_next_after [of i after] by auto
next
  case (2 s after)
  then show ?case using expr_next_after [of s after u] by simp
next
  case (3 base d after)
  then show ?case by (auto split: option.splits)
qed

text \<open>
  an occurrence fires once. After a dispatch every registration stands where it stood or past
  \<open>now\<close>, so a second dispatch at the same instant fires no cron.
\<close>

theorem dispatch_memory_advances:
  assumes "dispatch_memory now sc = (sc', start)" and "\<forall>kr \<in> set (c_crons sc). in_range (g_schedule (snd kr)) now"
  shows "map fst (c_crons sc') = map fst (c_crons sc) \<and> (\<forall>kr \<in> set (c_crons sc'). \<not> cron_due now (snd kr))"
proof -
  obtain sc1 regs fired where f: "fire_crons now (c_crons sc) (observe_running now sc) = (sc1, regs, fired)"
    by (metis prod_cases3)
  have "c_crons sc' = regs"
    using assms(1) f by (auto simp: dispatch_memory_def Let_def split: prod.splits)
  moreover have "regs = map (advanced now) (c_crons sc)" using fire_crons_spec [OF f] by simp
  moreover have "\<not> cron_due now (snd (advanced now kr))" if "kr \<in> set (c_crons sc)" for kr
  proof -
    have "in_range (g_schedule (snd kr)) now" using assms(2) that by blast
    then show ?thesis
      using schedule_next_after [of "g_schedule (snd kr)" now]
      by (auto simp: advanced_def cron_due_def next_time_def split: option.splits)
  qed
  ultimately show ?thesis by (auto simp: advanced_def comp_def)
qed

theorem dispatch_memory_advances_witness:
  "list_all (\<lambda>kr. \<not> cron_due 130000000000 (snd kr)) (c_crons (fst (dispatch_memory 130000000000 busy_sched)))"
proof -
  have "\<forall>kr \<in> set (c_crons busy_sched). in_range (g_schedule (snd kr)) 130000000000"
    by (simp add: busy_sched_def tick_reg_def)
  then show ?thesis unfolding list_all_iff
    using dispatch_memory_advances [of 130000000000 busy_sched "fst (dispatch_memory 130000000000 busy_sched)"
        "snd (dispatch_memory 130000000000 busy_sched)"] by simp
qed

definition synced_sched :: "sched option" where
  "synced_sched = sync_crons (\<lambda>s. s) ''p'' [g_spec tick_reg] [] 120200000000
     (new_scheduler\<lparr>c_crons := [(reg_key ''p'' '''' ''tick'', tick_reg)]\<rparr>)"

text \<open>
  re-registering crons drops an occurrence that is due and not yet dispatched. The cron due
  at 120 s is dispatched at 120.5 s, but not when its project's crons are synchronised, unchanged,
  at 120.2 s: the fresh registration starts with the occurrence after that.
\<close>

theorem sync_drops_due_occurrence:
  "map j_run_at (snd (dispatch_memory 120500000000 (new_scheduler\<lparr>c_crons := [(reg_key ''p'' '''' ''tick'', tick_reg)]\<rparr>)))
     = [120000000000]
   \<and> map_option (\<lambda>sc. snd (dispatch_memory 120500000000 sc)) synced_sched = Some []
   \<and> map_option (\<lambda>sc. map (g_next \<circ> snd) (c_crons sc)) synced_sched = Some [180000000000]"
  by (intro conjI; code_simp)

section \<open>Registration of crons\<close>

text \<open>Every registration a synchronisation adds comes from a specification and a tenant.\<close>

definition from_spec :: "(string \<Rightarrow> string) \<Rightarrow> (string \<times> cron_reg) list \<Rightarrow> string \<Rightarrow> string list \<Rightarrow> int \<Rightarrow> cron_spec list \<Rightarrow>
    string \<times> cron_reg \<Rightarrow> bool" where
  "from_spec sha old project tenants now specs kr \<longleftrightarrow>
     (\<exists>spec base tenant. spec \<in> set specs \<and> schedule_for_spec spec = Ok base
        \<and> tenant \<in> set (if s_per_tenant spec then tenants else [''''])
        \<and> fst kr = reg_key project tenant (s_name spec) \<and> g_next (snd kr) \<noteq> zero_time
        \<and> snd kr = new_reg old project tenant spec
             (if s_per_tenant spec then stagger sha base spec project tenant else base) now)"

lemma set_AList_update: "set (AList.update k v m) \<subseteq> insert (k, v) (set m)"
  by (induction m) auto

lemma sync_tenant_from:
  assumes "schedule_for_spec spec = Ok base" and "spec \<in> set specs"
    and "tenant \<in> set (if s_per_tenant spec then tenants else [''''])"
  shows "set (sync_tenant sha old project now spec base tenant crons)
    \<subseteq> set crons \<union> {kr. from_spec sha old project tenants now specs kr}"
proof
  let ?sched = "if s_per_tenant spec then stagger sha base spec project tenant else base"
  let ?reg = "new_reg old project tenant spec ?sched now"
  let ?kr = "(reg_key project tenant (s_name spec), ?reg)"
  fix kr assume "kr \<in> set (sync_tenant sha old project now spec base tenant crons)"
  then have "kr \<in> set crons \<or> kr = ?kr \<and> g_next ?reg \<noteq> zero_time"
    using set_AList_update [of "reg_key project tenant (s_name spec)" ?reg crons]
    by (auto simp: sync_tenant_def Let_def split: if_splits)
  then show "kr \<in> set crons \<union> {kr. from_spec sha old project tenants now specs kr}"
    using assms unfolding from_spec_def by fastforce
qed

lemma fold_subset:
  assumes "\<And>x m. x \<in> set xs \<Longrightarrow> set (f x m) \<subseteq> set m \<union> S"
  shows "set (fold f xs m) \<subseteq> set m \<union> S"
  using assms by (induction xs arbitrary: m) (simp, fastforce)

lemma sync_spec_from:
  assumes "spec \<in> set specs"
  shows "set (sync_spec sha old project tenants now spec crons)
    \<subseteq> set crons \<union> {kr. from_spec sha old project tenants now specs kr}"
proof (cases "schedule_for_spec spec")
  case (Ok base)
  have "set (fold (sync_tenant sha old project now spec base) (if s_per_tenant spec then tenants else ['''']) crons)
      \<subseteq> set crons \<union> {kr. from_spec sha old project tenants now specs kr}"
    by (rule fold_subset) (rule sync_tenant_from [OF Ok assms])
  then show ?thesis by (simp only: sync_spec_def Ok outcome.case)
qed (simp_all add: sync_spec_def)

lemma new_reg_project: "g_project (new_reg old project tenant spec sched now) = project"
  by (simp add: new_reg_def Let_def split: option.split)


lemma reg_key_project:
  assumes "reg_key p t n = reg_key p' t' n'" and "char_of (0 :: nat) \<notin> set p" and "char_of (0 :: nat) \<notin> set p'"
  shows "p = p'"
proof -
  have "takeWhile (\<lambda>c. c \<noteq> char_of (0 :: nat)) (reg_key p t n) = p"
    if "char_of (0 :: nat) \<notin> set p" for p t n
    using that by (subst reg_key_def) (induction p; auto simp: nul_def)
  then show ?thesis using assms by metis
qed

lemma AList_update_other: "kr \<in> set m \<Longrightarrow> fst kr \<noteq> k \<Longrightarrow> kr \<in> set (AList.update k v m)"
  by (induction m) auto

lemma sync_tenant_keeps:
  assumes "\<And>tenant. fst kr \<noteq> reg_key project tenant (s_name spec)" and "kr \<in> set crons"
  shows "kr \<in> set (sync_tenant sha old project now spec base tenant crons)"
  using assms by (simp add: sync_tenant_def Let_def AList_update_other)

lemma fold_keeps: "(\<And>x m. x \<in> set xs \<Longrightarrow> kr \<in> set m \<Longrightarrow> kr \<in> set (f x m)) \<Longrightarrow> kr \<in> set m \<Longrightarrow> kr \<in> set (fold f xs m)"
  by (induction xs arbitrary: m) auto

lemma sync_spec_keeps:
  assumes "\<And>tenant name. fst kr \<noteq> reg_key project tenant name" and "kr \<in> set crons"
  shows "kr \<in> set (sync_spec sha old project tenants now spec crons)"
proof (cases "schedule_for_spec spec")
  case (Ok base)
  have "kr \<in> set (fold (sync_tenant sha old project now spec base) xs crons)" for xs
    using assms by (intro fold_keeps sync_tenant_keeps)
  then show ?thesis by (simp only: sync_spec_def Ok outcome.case)
qed (use assms in \<open>simp_all add: sync_spec_def\<close>)

text \<open>Registrations are filed under their own key, and no project's name holds a NUL.\<close>

definition crons_filed :: "(string \<times> cron_reg) list \<Rightarrow> bool" where
  "crons_filed crons \<longleftrightarrow> (\<forall>(k, r) \<in> set crons. k = reg_key (g_project r) (g_tenant r) (s_name (g_spec r))
     \<and> char_of (0 :: nat) \<notin> set (g_project r))"

text \<open>
  a synchronisation replaces exactly its project's crons. The registrations of the other
  projects are those before; each of the project's own comes from a declared cron and one of the
  given tenants (so crons that are no longer declared are gone), has its next run after now, and
  carries over the statistics of the registration of the same tenant and name.
\<close>

theorem sync_crons_replaces:
  assumes "sync_crons sha project specs tenants now sc = Some sc'" and "crons_filed (c_crons sc)"
    and "char_of (0 :: nat) \<notin> set project"
  shows "{kr \<in> set (c_crons sc'). g_project (snd kr) \<noteq> project} = {kr \<in> set (c_crons sc). g_project (snd kr) \<noteq> project}
    \<and> (\<forall>kr \<in> set (c_crons sc'). g_project (snd kr) = project \<longrightarrow>
         from_spec sha (c_crons sc) project (sort (clean_tenants tenants [])) now specs kr)"
proof -
  let ?kept = "filter (\<lambda>(k, r). g_project r \<noteq> project) (c_crons sc)" and ?ts = "sort (clean_tenants tenants [])"
  let ?new = "{kr. from_spec sha (c_crons sc) project ?ts now specs kr}"
  have sc': "c_crons sc' = fold (sync_spec sha (c_crons sc) project ?ts now) specs ?kept"
    using assms(1) by (auto simp: sync_crons_def Let_def split: if_splits)
  have sub: "set (c_crons sc') \<subseteq> set ?kept \<union> ?new"
    unfolding sc' by (rule fold_subset) (rule sync_spec_from)
  have own: "g_project (snd kr) = project" if "kr \<in> ?new" for kr
    using that new_reg_project by (auto simp: from_spec_def)
  have "kr \<in> set (c_crons sc')" if "kr \<in> set ?kept" for kr
  proof -
    have "fst kr \<noteq> reg_key project tenant name" for tenant name
      using assms(2,3) that reg_key_project [of "g_project (snd kr)" _ _ project]
      by (fastforce simp: crons_filed_def)
    then show ?thesis unfolding sc' using that by (intro fold_keeps sync_spec_keeps)
  qed
  then show ?thesis using sub own by force
qed

theorem sync_crons_replaces_witness:
  "\<exists>sc'. synced_sched = Some sc' \<and> (\<forall>kr \<in> set (c_crons sc'). g_project (snd kr) = ''p'' \<longrightarrow>
     from_spec (\<lambda>s. s) [(reg_key ''p'' '''' ''tick'', tick_reg)] ''p'' (sort (clean_tenants [] [])) 120200000000
       [g_spec tick_reg] kr)"
proof -
  have "synced_sched \<noteq> None" by code_simp
  then obtain sc' where s: "synced_sched = Some sc'" by auto
  then have "sync_crons (\<lambda>s. s) ''p'' [g_spec tick_reg] [] 120200000000
      (new_scheduler\<lparr>c_crons := [(reg_key ''p'' '''' ''tick'', tick_reg)]\<rparr>) = Some sc'"
    by (simp add: synced_sched_def)
  moreover have "crons_filed (c_crons (new_scheduler\<lparr>c_crons := [(reg_key ''p'' '''' ''tick'', tick_reg)]\<rparr>))"
    by (simp add: crons_filed_def tick_reg_def char_of_def)
  moreover have "char_of (0 :: nat) \<notin> set ''p''" by code_simp
  ultimately show ?thesis
    using s sync_crons_replaces [of "\<lambda>s. s" "''p''" "[g_spec tick_reg]" "[]" 120200000000
      "new_scheduler\<lparr>c_crons := [(reg_key ''p'' '''' ''tick'', tick_reg)]\<rparr>" sc']
    by (intro exI [of _ sc']) simp
qed

section \<open>Completion of a job\<close>

lemma finish_fields:
  "c_running (finish j lag d err now sc) = (if 0 < c_running sc then c_running sc - 1 else c_running sc)"
  "c_completed (finish j lag d err now sc) = c_completed sc + (if err = None then 1 else 0)"
  "c_failed (finish j lag d err now sc) = c_failed sc + (if err = None then 0 else 1)"
  "c_jobs (finish j lag d err now sc) = c_jobs sc"
  "c_recent (finish j lag d err now sc)
     = drop (Suc (length (c_recent sc)) - recent_run_limit) (c_recent sc @ [run_entry j lag d err now])"
  by (simp_all add: finish_def Let_def split: option.split)

text \<open>The registration that a job's end updates.\<close>

lemma finish_reg:
  "map_of (c_crons (finish j lag d err now sc)) k =
     (if j_cron j \<noteq> '''' \<and> k = reg_key (j_project j) (j_tenant j) (j_cron j)
      then map_option (\<lambda>reg. reg\<lparr>g_runs := g_runs reg + 1, g_last := now,
          g_status := (if err = None then ''ok'' else ''error''),
          g_failures := g_failures reg + (if err = None then 0 else 1)\<rparr>) (map_of (c_crons sc) k)
      else map_of (c_crons sc) k)"
  by (auto simp: finish_def Let_def update_conv' split: option.split)



section \<open>Staggered tenants\<close>

lemma seed_of_bound: "0 \<le> seed_of d \<and> seed_of d < 2 ^ 64"
proof -
  have "0 \<le> fold (\<lambda>c seed. seed * 256 + int (of_char c)) xs n \<and>
        fold (\<lambda>c seed. seed * 256 + int (of_char c)) xs n < (n + 1) * 256 ^ length xs" if "0 \<le> n" for xs n
    using that
  proof (induction xs arbitrary: n)
    case (Cons c xs)
    have "int (of_char c) < int 256" unfolding of_nat_less_iff by (rule nat_of_char_less_256)
    then have c: "int (of_char c) < 256" by (simp only: of_nat_numeral)
    have "0 \<le> n * 256 + int (of_char c)" using Cons.prems by simp
    note ih = Cons.IH [OF this]
    have "(n * 256 + int (of_char c) + 1) * 256 ^ length xs \<le> ((n + 1) * 256) * 256 ^ length xs"
    proof (rule mult_right_mono)
      show "n * 256 + int (of_char c) + 1 \<le> (n + 1) * 256" using c by (simp only: distrib_right mult_1)
    qed simp
    also have "\<dots> = (n + 1) * 256 ^ length (c # xs)" by (simp only: list.size power_Suc add_0_right add_Suc_right mult.assoc)
    finally show ?case using ih by (auto simp only: fold_simps simp_thms elim: less_le_trans)
  qed simp
  from this [of 0 "take 8 d"] have "0 \<le> seed_of d" "seed_of d < 256 ^ length (take 8 d)"
    by (simp_all add: seed_of_def)
  moreover have "(256 :: int) ^ length (take 8 d) \<le> 256 ^ 8" by (rule power_increasing) auto
  ultimately show ?thesis by (simp only: power_mult [symmetric]) simp
qed

text \<open>
  staggering spreads a cron's tenants and changes nothing else. The offset of a tenant is at
  least zero and below the window, so less than five minutes and less than the cron's interval;
  it depends only on the digest of project, tenant and name, so replicas agree; and a staggered
  occurrence is one of the base schedule's, delayed by the offset: its canonical time is the base
  schedule's next after the shifted instant.
\<close>

theorem stagger_sound:
  "\<exists>d. 0 \<le> d \<and> d < max_stagger \<and> (0 < s_interval spec \<longrightarrow> d < s_interval spec)
    \<and> (stagger sha base spec project tenant = base \<and> stagger_window spec \<le> 1
       \<or> stagger sha base spec project tenant = Offset base d)
    \<and> (\<forall>after run_at. stagger sha base spec project tenant = Offset base d \<longrightarrow>
         schedule_next (stagger sha base spec project tenant) after = Some run_at \<longrightarrow>
         schedule_next base (after - d) = Some (canonical_occurrence (stagger sha base spec project tenant) run_at)
         \<and> canonical_occurrence (stagger sha base spec project tenant) run_at = run_at - d)"
proof -
  let ?window = "stagger_window spec"
  let ?d = "seed_of (sha (join_with nul [project, tenant, s_name spec])) mod ?window * 1000000"
  show ?thesis
  proof (cases "?window \<le> 1")
    case True
    have "0 < max_stagger" by (simp add: max_stagger_def)
    then show ?thesis using True
      by (intro exI [of _ 0]) (auto simp: stagger_def Let_def)
  next
    case False
    define n where "n = (if 0 < s_interval spec \<and> s_interval spec < max_stagger then s_interval spec else max_stagger)"
    have n: "0 < n" "n \<le> max_stagger" "0 < s_interval spec \<longrightarrow> n \<le> s_interval spec"
      by (auto simp: n_def max_stagger_def)
    have w: "?window = n div 1000000" using n(1) by (simp add: stagger_window_def n_def [symmetric] go_div_def)
    have "0 \<le> ?d \<and> ?d < ?window * 1000000"
      using False pos_mod_bound [of ?window] pos_mod_sign [of ?window] by auto
    moreover have "?window * 1000000 \<le> n" unfolding w by presburger
    ultimately have "0 \<le> ?d" "?d < n" by linarith+
    then show ?thesis using n False
      by (intro exI [of _ ?d]) (auto simp: stagger_def Let_def split: option.splits)
  qed
qed

definition hourly_spec :: cron_spec where
  "hourly_spec = \<lparr>s_name = ''h'', s_function = ''f'', s_interval = 3600000000000, s_expression = '''', s_args = '''',
     s_per_tenant = True\<rparr>"

theorem stagger_sound_witness:
  "\<exists>d. 0 \<le> d \<and> d < 3600000000000 \<and> d < max_stagger
     \<and> stagger (\<lambda>s. s) (Interval 3600000000000) hourly_spec ''p'' ''t'' = Offset (Interval 3600000000000) d"
proof -
  have w: "\<not> stagger_window hourly_spec \<le> 1" "s_interval hourly_spec = 3600000000000"
    by (code_simp, simp add: hourly_spec_def)
  obtain d where "0 \<le> d" "d < max_stagger" "0 < s_interval hourly_spec \<longrightarrow> d < s_interval hourly_spec"
    "stagger (\<lambda>s. s) (Interval 3600000000000) hourly_spec ''p'' ''t'' = Interval 3600000000000 \<and> stagger_window hourly_spec \<le> 1
     \<or> stagger (\<lambda>s. s) (Interval 3600000000000) hourly_spec ''p'' ''t'' = Offset (Interval 3600000000000) d"
    using stagger_sound [of hourly_spec "\<lambda>s. s" "Interval 3600000000000" "''p''" "''t''"] by blast
  then show ?thesis using w by auto
qed

section \<open>The order of the recent runs\<close>

definition two_runs :: sched where
  "two_runs = finish one_shot 0 0 None 520000000 (finish one_shot 0 0 (Some ''boom'') 500000000 new_scheduler)"

lemma two_runs_recent:
  "c_recent two_runs = [run_entry one_shot 0 0 (Some ''boom'') 500000000, run_entry one_shot 0 0 None 520000000]"
  by (simp add: two_runs_def finish_fields(5) recent_run_limit_def new_scheduler_def)

lemma two_runs_view:
  "w_recent (sched_snapshot 1000000000 two_runs) = rev (sort_key n_time
     [run_entry one_shot 0 0 None 520000000, run_entry one_shot 0 0 (Some ''boom'') 500000000])"
  by (simp only: sched_snapshot_def sched_view.simps two_runs_recent rev.simps append.simps)

lemma civil_epoch: "civil 0 = (1970, 1, 1)" by code_simp

lemma some_digits:
  "digit_char 0 = CHR ''0''" "digit_char 1 = CHR ''1''" "digit_char 2 = CHR ''2''"
    "digit_char 5 = CHR ''5''" "digit_char 7 = CHR ''7''" "digit_char 9 = CHR ''9''"
  by (code_simp, code_simp, code_simp, code_simp, code_simp, code_simp)

lemma some_decs:
  "int_dec 500000000 = ''500000000''" "int_dec 520000000 = ''520000000''" "int_dec 1970 = ''1970''"
    "int_dec 0 = ''0''" "int_dec 1 = ''1''" "nat_dec 0 = ''0''" "nat_dec 1 = ''1''"
  by (simp_all add: int_dec_def nat_dec.simps some_digits some_digits(2) [unfolded One_nat_def])

lemma some_fractions:
  "trim_zeros (pad_left 9 ''500000000'') = ''5''" "trim_zeros (pad_left 9 ''520000000'') = ''52''"
    by code_simp+

lemma some_clocks:
  "hour_of 500000000 = 0" "minute_of 500000000 = 0" "hour_of 520000000 = 0" "minute_of 520000000 = 0"
    by code_simp+

lemma some_pads:
  "pad_left 4 ''1970'' = ''1970''" "pad_left 2 ''0'' = ''00''" "pad_left 2 ''1'' = ''01''" by code_simp+

lemma two_stamps: "rfc3339_nano 500000000 = ''1970-01-01T00:00:00.5Z''" "rfc3339_nano 520000000 = ''1970-01-01T00:00:00.52Z''"
  by (simp_all add: rfc3339_nano_def Let_def civil_epoch some_decs some_fractions some_clocks some_pads del: One_nat_def)
lemma two_entries:
  "run_entry one_shot 0 0 (Some ''boom'') 500000000 = \<lparr>n_time = ''1970-01-01T00:00:00.5Z'', n_project = ''p'', n_function = ''g'',
     n_cron = '''', n_outcome = ''error'', n_lag_us = 0, n_duration_us = 0, n_error = ''boom''\<rparr>"
  "run_entry one_shot 0 0 None 520000000 = \<lparr>n_time = ''1970-01-01T00:00:00.52Z'', n_project = ''p'', n_function = ''g'',
     n_cron = '''', n_outcome = ''ok'', n_lag_us = 0, n_duration_us = 0, n_error = ''''\<rparr>"
  by (simp_all add: run_entry_def one_shot_def two_stamps go_div_def)

text \<open>
  the dashboard's recent runs are not in the order of time. They are sorted by the text of
  their time stamp, and the format drops trailing zeros of the fraction: of two runs that ended at
  0.5 s and at 0.52 s the earlier one is listed first, as the latest.
\<close>

theorem recent_runs_misordered:
  "map (\<lambda>r. (n_time r, n_outcome r)) (c_recent two_runs)
     = [(''1970-01-01T00:00:00.5Z'', ''error''), (''1970-01-01T00:00:00.52Z'', ''ok'')]
   \<and> map n_outcome (w_recent (sched_snapshot 1000000000 two_runs)) = [''error'', ''ok'']"
  unfolding two_runs_view two_runs_recent two_entries by (intro conjI; code_simp)

end
