(* ===== verification/Mutation_Tx.thy ===== *)
theory Mutation_Tx
  imports Scheduler Json_Value
begin

text \<open>
  The transaction of a mutation (\<open>runMutationInTx\<close> in \<open>ws.go\<close>): the claim of its idempotency
  key, the replay of the committed result (\<open>mutation_idempotency.go\<close>) and the buffer that
  keeps scheduled jobs back until the commit (\<open>deferred_scheduler.go\<close>). PostgreSQL is modelled
  by what the code relies on: a transaction's row of the key table is seen by others only
  after its commit, a second insertion of the key waits for the first transaction, and a
  process that dies rolls its transactions back. What a handler does to the other tables is
  represented by the log of committed executions.
\<close>

section \<open>Deferred scheduling\<close>

record deferred_job =
  dj_at :: int
  dj_path :: string
  dj_args :: string

record deferred =
  df_seq :: nat
  df_jobs :: "deferred_job list"

definition new_deferred :: deferred where
  "new_deferred = \<lparr>df_seq = 0, df_jobs = []\<rparr>"

definition deferred_run_at :: "int \<Rightarrow> string \<Rightarrow> go_args \<Rightarrow> deferred \<Rightarrow> deferred \<times> (sched_error, string) outcome" where
  "deferred_run_at at path args d =
    (let path = trim_space path in
     if path = '''' then (d, Err PathRequired)
     else case encode_scheduler_args args of
       Ok raw \<Rightarrow> (let n = df_seq d + 1 in
         (\<lparr>df_seq = n, df_jobs = df_jobs d @ [\<lparr>dj_at = at, dj_path = path, dj_args = raw\<rparr>]\<rparr>, Ok (''deferred_job_'' @ nat_dec n)))
     | Err e \<Rightarrow> (d, Err e)
     | Panic \<Rightarrow> (d, Panic))"

definition deferred_run_after :: "int \<Rightarrow> int \<Rightarrow> string \<Rightarrow> go_args \<Rightarrow> deferred \<Rightarrow> deferred \<times> (sched_error, string) outcome" where
  "deferred_run_after now delay path args d = deferred_run_at (now + (if delay < 0 then 0 else delay)) path args d"

text \<open>Every job is handed to the base scheduler; the first error is kept.\<close>

fun flush_jobs :: "(deferred_job \<Rightarrow> 'b \<Rightarrow> 'b \<times> 'e option) \<Rightarrow> deferred_job list \<Rightarrow> 'b \<Rightarrow> 'b \<times> 'e option" where
  "flush_jobs run [] b = (b, None)"
| "flush_jobs run (j # js) b =
    (let (b1, e) = run j b; (b2, rest) = flush_jobs run js b1
     in (b2, case e of None \<Rightarrow> rest | Some x \<Rightarrow> Some x))"

definition deferred_flush :: "(deferred_job \<Rightarrow> 'b \<Rightarrow> 'b \<times> 'e option) \<Rightarrow> deferred \<Rightarrow> 'b \<Rightarrow> deferred \<times> 'b \<times> 'e option" where
  "deferred_flush run d b = (case flush_jobs run (df_jobs d) b of (b', e) \<Rightarrow> (d\<lparr>df_jobs := []\<rparr>, b', e))"

section \<open>Idempotency keys\<close>

record claim =
  cl_subject :: string
  cl_key :: string

record idem_row =
  ir_path :: string
  ir_result :: "string option"
  ir_created :: int

text \<open>A call with an empty key has no claim.\<close>

definition with_idempotency :: "string \<Rightarrow> string \<Rightarrow> claim option" where
  "with_idempotency key subject = (let k = trim_space key in if k = '''' then None else Some \<lparr>cl_subject = subject, cl_key = k\<rparr>)"

record committed_call =
  cc_call :: nat
  cc_claim :: "claim option"
  cc_path :: string
  cc_result :: json
  cc_jobs :: "deferred_job list"

text \<open>
  The database: the committed rows of the key table and the insertions of open
  transactions; \<open>md_log\<close> lists the committed executions and \<open>md_swept\<close> the keys that the
  sweep removed. \<open>md_queue\<close> is the scheduler with the call each job came from.
\<close>

record mutation_db =
  md_rows :: "(claim \<times> idem_row) list"
  md_open :: "(claim \<times> nat) list"
  md_log :: "committed_call list"
  md_swept :: "claim list"
  md_queue :: "(nat \<times> deferred_job) list"

definition empty_mutation_db :: mutation_db where
  "empty_mutation_db = \<lparr>md_rows = [], md_open = [], md_log = [], md_swept = [], md_queue = []\<rparr>"

text \<open>\<open>None\<close>: the insertion waits for the transaction that holds the key.\<close>

definition claim_key :: "claim \<Rightarrow> nat \<Rightarrow> mutation_db \<Rightarrow> (mutation_db \<times> bool) option" where
  "claim_key c i db =
    (if map_of (md_open db) c \<noteq> None then None
     else if map_of (md_rows db) c \<noteq> None then Some (db, False)
     else Some (db\<lparr>md_open := (c, i) # md_open db\<rparr>, True))"

definition rollback :: "nat \<Rightarrow> mutation_db \<Rightarrow> mutation_db" where
  "rollback i db = db\<lparr>md_open := filter (\<lambda>(_, j). j \<noteq> i) (md_open db)\<rparr>"

datatype replay_error = Missing_Row | Wrong_Path | Unreadable_Result

definition replay_result :: "(string \<Rightarrow> json option) \<Rightarrow> claim \<Rightarrow> string \<Rightarrow> mutation_db \<Rightarrow> replay_error + json" where
  "replay_result unmarshal c path db = (case map_of (md_rows db) c of
     None \<Rightarrow> Inl Missing_Row
   | Some r \<Rightarrow>
       if ir_path r \<noteq> path then Inl Wrong_Path
       else case ir_result r of
         None \<Rightarrow> Inr JNull
       | Some t \<Rightarrow> if t = '''' then Inr JNull
           else (case unmarshal t of None \<Rightarrow> Inl Unreadable_Result | Some v \<Rightarrow> Inr v))"

text \<open>In milliseconds: seven days and the hour between two sweeps.\<close>

definition idempotency_age :: int where "idempotency_age = 604800000"
definition sweep_interval :: int where "sweep_interval = 3600000"

definition sweep_keys :: "int \<Rightarrow> mutation_db \<Rightarrow> mutation_db" where
  "sweep_keys now db =
    (let old = (\<lambda>r. ir_created r < now - idempotency_age)
     in db\<lparr>md_rows := filter (\<lambda>(_, r). \<not> old r) (md_rows db),
           md_swept := map fst (filter (\<lambda>(_, r). old r) (md_rows db)) @ md_swept db\<rparr>)"

text \<open>The databases swept, with the time; the result says whether a sweep is started.\<close>

definition maybe_sweep :: "int \<Rightarrow> string \<Rightarrow> (string \<times> int) list \<Rightarrow> (string \<times> int) list \<times> bool" where
  "maybe_sweep now url swept =
    (case map_of swept url of
       Some t \<Rightarrow> if now - t < sweep_interval then (swept, False) else ((url, now) # swept, True)
     | None \<Rightarrow> ((url, now) # swept, True))"

section \<open>The transaction\<close>

record mutation_call =
  mc_claim :: "claim option"
  mc_path :: string

datatype mutation_outcome = Returned json | Replayed json | Refused

datatype tx_phase =
    Entered
  | Claimed
  | Ran json "deferred_job list"
  | Stored json "string option" "deferred_job list"
  | Flushing json "deferred_job list"
  | Replaying
  | Ended mutation_outcome

text \<open>
  What the database or the handler answers at a phase. \<open>Lost\<close> is a commit that took effect
  although the call to it returned an error; \<open>Took\<close> the jobs the scheduler accepted.
\<close>

datatype reply = Done_Ok | Failed | Lost | Handler json "deferred_job list" | Took "deferred_job \<Rightarrow> bool"

definition commit_call :: "nat \<Rightarrow> mutation_call \<Rightarrow> int \<Rightarrow> json \<Rightarrow> string option \<Rightarrow> deferred_job list \<Rightarrow> mutation_db \<Rightarrow> mutation_db" where
  "commit_call i mc now r text js db =
    (rollback i db)\<lparr>md_rows := (case mc_claim mc of None \<Rightarrow> md_rows db
       | Some c \<Rightarrow> (c, \<lparr>ir_path = mc_path mc, ir_result = text, ir_created = now\<rparr>) # md_rows db),
     md_log := \<lparr>cc_call = i, cc_claim = mc_claim mc, cc_path = mc_path mc, cc_result = r, cc_jobs = js\<rparr> # md_log db\<rparr>"

text \<open>\<open>None\<close>: no step, the call waits or the answer does not fit the phase.\<close>

fun advance :: "(json \<Rightarrow> string option) \<Rightarrow> (string \<Rightarrow> json option) \<Rightarrow> int \<Rightarrow> nat \<Rightarrow> mutation_call \<Rightarrow> tx_phase \<Rightarrow> reply \<Rightarrow>
    mutation_db \<Rightarrow> (tx_phase \<times> mutation_db) option" where
  "advance marshal unmarshal now i mc Entered Done_Ok db = (case mc_claim mc of
     None \<Rightarrow> Some (Claimed, db)
   | Some c \<Rightarrow> map_option (\<lambda>(db', new). (if new then Claimed else Replaying, db')) (claim_key c i db))"
| "advance marshal unmarshal now i mc Claimed (Handler r js) db = Some (Ran r js, db)"
| "advance marshal unmarshal now i mc (Ran r js) Done_Ok db =
     Some (Stored r (if mc_claim mc = None then None else marshal r) js, db)"
| "advance marshal unmarshal now i mc (Stored r text js) Done_Ok db = Some (Flushing r js, commit_call i mc now r text js db)"
| "advance marshal unmarshal now i mc (Stored r text js) Lost db = Some (Ended Refused, commit_call i mc now r text js db)"
| "advance marshal unmarshal now i mc (Flushing r js) (Took ok) db =
     Some (Ended (Returned r), db\<lparr>md_queue := md_queue db @ map (Pair i) (filter ok js)\<rparr>)"
| "advance marshal unmarshal now i mc Replaying Done_Ok db = (case mc_claim mc of
     None \<Rightarrow> None
   | Some c \<Rightarrow> (case replay_result unmarshal c (mc_path mc) db of
       Inl e \<Rightarrow> Some (Ended Refused, db)
     | Inr v \<Rightarrow> Some (Ended (Replayed v), db)))"
| "advance marshal unmarshal now i mc Entered Failed db = Some (Ended Refused, db)"
| "advance marshal unmarshal now i mc Claimed Failed db = Some (Ended Refused, rollback i db)"
| "advance marshal unmarshal now i mc (Ran r js) Failed db =
     (if mc_claim mc = None \<or> marshal r = None then None else Some (Ended Refused, rollback i db))"
| "advance marshal unmarshal now i mc (Stored r text js) Failed db = Some (Ended Refused, rollback i db)"
| "advance marshal unmarshal now i mc Replaying Failed db = Some (Ended Refused, db)"
| "advance marshal unmarshal now i mc _ _ db = None"

text \<open>A process that dies answers nobody; the database rolls its transactions back.\<close>

definition crashed :: "tx_phase \<Rightarrow> tx_phase" where
  "crashed p = (case p of Ended x \<Rightarrow> Ended x | Entered \<Rightarrow> Entered | _ \<Rightarrow> Ended Refused)"

inductive tx_step :: "(json \<Rightarrow> string option) \<Rightarrow> (string \<Rightarrow> json option) \<Rightarrow> (nat \<Rightarrow> mutation_call) \<Rightarrow>
    (nat \<Rightarrow> tx_phase) \<times> mutation_db \<Rightarrow> (nat \<Rightarrow> tx_phase) \<times> mutation_db \<Rightarrow> bool" for marshal unmarshal calls where
  call: "advance marshal unmarshal now i (calls i) (ph i) reply db = Some (p, db') \<Longrightarrow>
    tx_step marshal unmarshal calls (ph, db) (ph(i := p), db')"
| sweep: "tx_step marshal unmarshal calls (ph, db) (ph, sweep_keys now db)"
| crash: "tx_step marshal unmarshal calls (ph, db) (crashed \<circ> ph, db\<lparr>md_open := []\<rparr>)"

definition all_entered :: "(nat \<Rightarrow> tx_phase) \<times> mutation_db" where
  "all_entered = ((\<lambda>_. Entered), empty_mutation_db)"

section \<open>Steps of a call\<close>

definition inflight :: "tx_phase \<Rightarrow> bool" where
  "inflight p \<longleftrightarrow> (case p of Claimed \<Rightarrow> True | Ran r js \<Rightarrow> True | Stored r t js \<Rightarrow> True | _ \<Rightarrow> False)"

definition after_commit :: "tx_phase \<Rightarrow> bool" where
  "after_commit p \<longleftrightarrow> (case p of Flushing r js \<Rightarrow> True | Ended x \<Rightarrow> True | _ \<Rightarrow> False)"

lemma phase_simps [simp]:
  "inflight Claimed" "inflight (Ran r js)" "inflight (Stored r t js)"
  "\<not> inflight Entered" "\<not> inflight (Flushing r js)" "\<not> inflight Replaying" "\<not> inflight (Ended x)"
  "after_commit (Flushing r js)" "after_commit (Ended x)"
  "\<not> after_commit Entered" "\<not> after_commit Claimed" "\<not> after_commit (Ran r js)" "\<not> after_commit (Stored r t js)"
  "\<not> after_commit Replaying"
  by (simp_all add: inflight_def after_commit_def)

lemma advance_cases [consumes 1, case_names start claim duplicate handler store commit flush replay refuse rollback]:
  assumes "advance marshal unmarshal now i mc p0 reply db = Some (p, db')"
  obtains "p0 = Entered" "p = Claimed" "mc_claim mc = None" "db' = db"
  | c where "p0 = Entered" "p = Claimed" "mc_claim mc = Some c" "map_of (md_open db) c = None"
      "map_of (md_rows db) c = None" "db' = db\<lparr>md_open := (c, i) # md_open db\<rparr>"
  | c where "p0 = Entered" "p = Replaying" "mc_claim mc = Some c" "map_of (md_rows db) c \<noteq> None" "db' = db"
  | r js where "p0 = Claimed" "p = Ran r js" "db' = db"
  | r js where "p0 = Ran r js" "p = Stored r (if mc_claim mc = None then None else marshal r) js" "db' = db"
  | r t js where "p0 = Stored r t js" "p = Flushing r js \<or> p = Ended Refused" "db' = commit_call i mc now r t js db"
  | r js ok where "p0 = Flushing r js" "p = Ended (Returned r)" "db' = db\<lparr>md_queue := md_queue db @ map (Pair i) (filter ok js)\<rparr>"
  | c v where "p0 = Replaying" "p = Ended (Replayed v)" "mc_claim mc = Some c" "replay_result unmarshal c (mc_path mc) db = Inr v" "db' = db"
  | "p0 = Entered \<or> p0 = Replaying" "p = Ended Refused" "db' = db"
  | "inflight p0" "p = Ended Refused" "db' = rollback i db"
proof (cases p0)
  case Entered
  show ?thesis
  proof (cases "mc_claim mc")
    case None
    with Entered show ?thesis using assms that(1,9) by (cases reply) auto
  next
    case (Some c)
    have "reply = Done_Ok \<and> map_of (md_open db) c = None \<and>
          (map_of (md_rows db) c = None \<and> p = Claimed \<and> db' = db\<lparr>md_open := (c, i) # md_open db\<rparr> \<or>
           map_of (md_rows db) c \<noteq> None \<and> p = Replaying \<and> db' = db) \<or> reply = Failed \<and> p = Ended Refused \<and> db' = db"
      using assms Entered Some by (cases reply) (auto simp: claim_key_def split: if_splits)
    then show ?thesis using that(2)[OF Entered _ Some] that(3)[OF Entered _ Some] that(9) Entered by metis
  qed
next
  case Claimed
  then show ?thesis using assms that(4,10) by (cases reply) auto
next
  case (Ran r js)
  then show ?thesis using assms that(5)[of r js] that(10) by (cases reply) (auto split: if_splits)
next
  case (Stored r t js)
  then show ?thesis using assms that(6)[of r t js] that(10) by (cases reply) auto
next
  case (Flushing r js)
  then show ?thesis using assms that(7)[of r js] by (cases reply) auto
next
  case Replaying
  then have "p = Ended Refused \<and> db' = db \<or> (\<exists>c v. mc_claim mc = Some c \<and>
      replay_result unmarshal c (mc_path mc) db = Inr v \<and> p = Ended (Replayed v) \<and> db' = db)"
    using assms by (cases reply) (auto split: option.splits sum.splits)
  then show ?thesis using that(8)[OF Replaying] that(9) Replaying by metis
next
  case (Ended x)
  then show ?thesis using assms by (cases reply) auto
qed

section \<open>One execution per key\<close>

definition executions :: "mutation_db \<Rightarrow> claim \<Rightarrow> nat" where
  "executions db c = length (filter (\<lambda>e. cc_claim e = Some c) (md_log db))"

definition keys_ok :: "(nat \<Rightarrow> mutation_call) \<Rightarrow> (nat \<Rightarrow> tx_phase) \<times> mutation_db \<Rightarrow> bool" where
  "keys_ok calls x \<longleftrightarrow> (let (ph, db) = x in
     distinct (map fst (md_open db)) \<and> distinct (map fst (md_rows db)) \<and>
     (\<forall>c i. (c, i) \<in> set (md_open db) \<longleftrightarrow> mc_claim (calls i) = Some c \<and> inflight (ph i)) \<and>
     (\<forall>c i. (c, i) \<in> set (md_open db) \<longrightarrow> map_of (md_rows db) c = None) \<and>
     (\<forall>c. c \<notin> set (md_swept db) \<longrightarrow> executions db c = (if map_of (md_rows db) c = None then 0 else 1)))"

lemma keys_okI:
  assumes "distinct (map fst (md_open db))" "distinct (map fst (md_rows db))"
    and "\<And>c i. (c, i) \<in> set (md_open db) \<longleftrightarrow> mc_claim (calls i) = Some c \<and> inflight (ph i)"
    and "\<And>c i. (c, i) \<in> set (md_open db) \<Longrightarrow> map_of (md_rows db) c = None"
    and "\<And>c. c \<notin> set (md_swept db) \<Longrightarrow> executions db c = (if map_of (md_rows db) c = None then 0 else 1)"
  shows "keys_ok calls (ph, db)"
  unfolding keys_ok_def Let_def prod.case by (intro conjI allI impI) (fact assms | erule assms)+

lemma keys_okD:
  assumes "keys_ok calls (ph, db)"
  shows "distinct (map fst (md_open db))" "distinct (map fst (md_rows db))"
    and "(c, i) \<in> set (md_open db) \<longleftrightarrow> mc_claim (calls i) = Some c \<and> inflight (ph i)"
    and "(c, i) \<in> set (md_open db) \<Longrightarrow> map_of (md_rows db) c = None"
    and "c \<notin> set (md_swept db) \<Longrightarrow> executions db c = (if map_of (md_rows db) c = None then 0 else 1)"
proof -
  note k = assms[unfolded keys_ok_def Let_def prod.case]
  show "distinct (map fst (md_open db))" using k by (elim conjE)
  show "distinct (map fst (md_rows db))" using k by (elim conjE)
  show "(c, i) \<in> set (md_open db) \<longleftrightarrow> mc_claim (calls i) = Some c \<and> inflight (ph i)" using k by (elim conjE) (erule allE)+
  show "map_of (md_rows db) c = None" if "(c, i) \<in> set (md_open db)" using k that by (elim conjE) (erule allE, erule allE, erule mp)
  show "executions db c = (if map_of (md_rows db) c = None then 0 else 1)" if "c \<notin> set (md_swept db)"
    using k that by (elim conjE) (erule allE, erule mp)
qed

lemma open_unique: "distinct (map fst xs) \<Longrightarrow> (c, i) \<in> set xs \<Longrightarrow> (c, j) \<in> set xs \<Longrightarrow> i = j"
  by (meson eq_key_imp_eq_value)

lemma rollback_simps [simp]:
  "md_rows (rollback i db) = md_rows db" "md_swept (rollback i db) = md_swept db" "md_log (rollback i db) = md_log db"
  "md_queue (rollback i db) = md_queue db" "executions (rollback i db) c = executions db c"
  "(c, j) \<in> set (md_open (rollback i db)) \<longleftrightarrow> (c, j) \<in> set (md_open db) \<and> j \<noteq> i"
  by (auto simp: rollback_def executions_def)

lemma keys_ok_rollback:
  assumes ok: "keys_ok calls (ph, db)" and p: "\<not> inflight p"
  shows "keys_ok calls (ph(i := p), rollback i db)"
proof (rule keys_okI)
  show "distinct (map fst (md_open (rollback i db)))"
    using keys_okD(1)[OF ok] by (simp add: rollback_def distinct_map_filter')
  show "map_of (md_rows (rollback i db)) c = None" if "(c, j) \<in> set (md_open (rollback i db))" for c j
    using keys_okD(4)[OF ok, of c j] that by simp
qed (use keys_okD(2,3,5)[OF ok] p in \<open>simp_all\<close>)

lemma keys_ok_commit:
  assumes ok: "keys_ok calls (ph, db)" and p: "\<not> inflight p" "inflight (ph i)"
  shows "keys_ok calls (ph(i := p), commit_call i (calls i) now r t js db)"
proof -
  let ?db = "commit_call i (calls i) now r t js db" and ?rb = "rollback i db"
  have rb: "keys_ok calls (ph(i := p), ?rb)" by (rule keys_ok_rollback[OF ok p(1)])
  note rbD = keys_okD[OF rb]
  show ?thesis
  proof (cases "mc_claim (calls i)")
    case None
    then have "executions ?db c = executions ?rb c" "md_rows ?db = md_rows ?rb" "md_open ?db = md_open ?rb"
      "md_swept ?db = md_swept ?rb" for c
      by (simp_all add: commit_call_def executions_def)
    then show ?thesis using rbD by (intro keys_okI) simp_all
  next
    case (Some c)
    have op: "(c, i) \<in> set (md_open db)" using keys_okD(3)[OF ok] p(2) Some by simp
    have fresh: "map_of (md_rows db) c = None" by (rule keys_okD(4)[OF ok op])
    have notopen: "(c, j) \<notin> set (md_open ?rb)" for j
      using open_unique[OF keys_okD(1)[OF ok] op, of j] by auto
    have e: "executions ?db d = executions db d + (if d = c then 1 else 0)" "md_open ?db = md_open ?rb"
      "md_rows ?db = (c, \<lparr>ir_path = mc_path (calls i), ir_result = t, ir_created = now\<rparr>) # md_rows db"
      "md_swept ?db = md_swept db" for d
      using Some by (simp_all add: commit_call_def executions_def)
    show ?thesis
    proof (rule keys_okI)
      show "distinct (map fst (md_rows ?db))" using fresh keys_okD(2)[OF ok] by (simp add: e map_of_eq_None_iff)
      show "map_of (md_rows ?db) d = None" if "(d, j) \<in> set (md_open ?db)" for d j
      proof -
        have "(d, j) \<in> set (md_open ?rb)" using that by (simp only: e)
        then show ?thesis using rbD(4)[of d j] notopen[of j] by (auto simp: e)
      qed
      show "executions ?db d = (if map_of (md_rows ?db) d = None then 0 else 1)" if "d \<notin> set (md_swept ?db)" for d
        using that keys_okD(5)[OF ok, of d] fresh by (simp add: e)
    qed (use rbD(1,3) in \<open>simp_all only: e\<close>)
  qed
qed

lemma map_of_filter_rows:
  "distinct (map fst xs) \<Longrightarrow> map_of (filter (\<lambda>(k, v). P v) xs) k = (case map_of xs k of None \<Rightarrow> None | Some v \<Rightarrow> if P v then Some v else None)"
  by (induction xs) (auto simp: map_of_eq_None_iff split: option.splits)

lemma sweep_simps:
  "md_open (sweep_keys now db) = md_open db" "md_log (sweep_keys now db) = md_log db" "md_queue (sweep_keys now db) = md_queue db"
  "executions (sweep_keys now db) c = executions db c"
  by (simp_all add: sweep_keys_def Let_def executions_def)

lemma sweep_rows:
  assumes "distinct (map fst (md_rows db))"
  shows "map_of (md_rows (sweep_keys now db)) c = Some r \<Longrightarrow> map_of (md_rows db) c = Some r"
    and "c \<notin> set (md_swept (sweep_keys now db)) \<Longrightarrow> c \<notin> set (md_swept db) \<and> map_of (md_rows (sweep_keys now db)) c = map_of (md_rows db) c"
proof -
  show "map_of (md_rows (sweep_keys now db)) c = Some r \<Longrightarrow> map_of (md_rows db) c = Some r"
    using map_of_filter_rows[OF assms, of "\<lambda>r. \<not> ir_created r < now - idempotency_age" c]
    by (auto simp: sweep_keys_def Let_def split: option.splits if_splits)
  show "c \<notin> set (md_swept (sweep_keys now db)) \<Longrightarrow> c \<notin> set (md_swept db) \<and> map_of (md_rows (sweep_keys now db)) c = map_of (md_rows db) c"
    using map_of_filter_rows[OF assms, of "\<lambda>r. \<not> ir_created r < now - idempotency_age" c]
    by (force simp: sweep_keys_def Let_def split: option.splits if_splits dest: map_of_SomeD)
qed

lemma keys_ok_sweep:
  assumes ok: "keys_ok calls (ph, db)"
  shows "keys_ok calls (ph, sweep_keys now db)"
proof (rule keys_okI)
  note d = keys_okD(2)[OF ok]
  show "distinct (map fst (md_rows (sweep_keys now db)))"
    using d by (simp add: sweep_keys_def Let_def distinct_map_filter')
  show "map_of (md_rows (sweep_keys now db)) c = None" if "(c, i) \<in> set (md_open (sweep_keys now db))" for c i
    using sweep_rows(1)[OF d, of now c] keys_okD(4)[OF ok, of c i] that
    by (cases "map_of (md_rows (sweep_keys now db)) c") (simp_all add: sweep_simps)
  show "executions (sweep_keys now db) c = (if map_of (md_rows (sweep_keys now db)) c = None then 0 else 1)"
    if "c \<notin> set (md_swept (sweep_keys now db))" for c
    using sweep_rows(2)[OF d that] keys_okD(5)[OF ok, of c] by (simp add: sweep_simps)
qed (use keys_okD(1,3)[OF ok] in \<open>simp_all add: sweep_simps\<close>)

lemma crashed_phase: "\<not> inflight (crashed p)"
  by (cases p) (simp_all add: crashed_def)

lemma keys_ok_call:
  assumes ok: "keys_ok calls (ph, db)" and "advance marshal unmarshal now i (calls i) (ph i) reply db = Some (p, db')"
  shows "keys_ok calls (ph(i := p), db')"
  using assms(2)
proof (cases rule: advance_cases)
  case (claim c)
  have n: "(d, i) \<notin> set (md_open db)" for d
    using keys_okD(3)[OF ok, of d i] claim(1) by simp
  show ?thesis
  proof (rule keys_okI)
    show "(d, j) \<in> set (md_open db') \<longleftrightarrow> mc_claim (calls j) = Some d \<and> inflight ((ph(i := p)) j)" for d j
      using keys_okD(3)[OF ok, of d j] n[of d] claim by (cases "j = i") auto
    show "map_of (md_rows db') d = None" if "(d, j) \<in> set (md_open db')" for d j
      using that keys_okD(4)[OF ok, of d j] claim by auto
    show "executions db' d = (if map_of (md_rows db') d = None then 0 else 1)" if "d \<notin> set (md_swept db')" for d
      using that keys_okD(5)[OF ok, of d] claim by (simp add: executions_def)
  qed (use keys_okD(1,2)[OF ok] claim in \<open>simp_all add: map_of_eq_None_iff\<close>)
next
  case (commit r t js)
  then show ?thesis using keys_ok_commit[OF ok, of p i now r t js] by auto
next
  case rollback
  then show ?thesis using keys_ok_rollback[OF ok, of p i] by simp
next
  case start
  show ?thesis using keys_okD[OF ok] start by (intro keys_okI) auto
next
  case duplicate
  show ?thesis using keys_okD[OF ok] duplicate by (intro keys_okI) auto
next
  case handler
  show ?thesis using keys_okD[OF ok] handler by (intro keys_okI) auto
next
  case store
  show ?thesis using keys_okD[OF ok] store by (intro keys_okI) auto
next
  case flush
  show ?thesis using keys_okD[OF ok] flush by (intro keys_okI) (auto simp: executions_def)
next
  case replay
  show ?thesis using keys_okD[OF ok] replay by (intro keys_okI) auto
next
  case refuse
  show ?thesis using keys_okD[OF ok] refuse by (intro keys_okI) auto
qed

lemma keys_ok_step:
  assumes ok: "keys_ok calls x" and step: "tx_step marshal unmarshal calls x y"
  shows "keys_ok calls y"
  using step
proof cases
  case (call now i ph reply db p db')
  then show ?thesis using keys_ok_call[of calls ph db marshal unmarshal now i reply p db'] ok by simp
next
  case (sweep ph db now)
  then show ?thesis using keys_ok_sweep[of calls ph db now] ok by simp
next
  case (crash ph db)
  have okp: "keys_ok calls (ph, db)" using ok crash by simp
  show ?thesis unfolding crash
    by (rule keys_okI) (use keys_okD(2,5)[OF okp] in \<open>simp_all add: crashed_phase executions_def\<close>)
qed

lemma keys_ok_init: "keys_ok calls all_entered"
  by (simp add: keys_ok_def all_entered_def empty_mutation_db_def executions_def)

section \<open>Answers and jobs\<close>

text \<open>What is assumed of JSON: a value is read back as it was written, and no text is empty.\<close>

definition lossless :: "(json \<Rightarrow> string option) \<Rightarrow> (string \<Rightarrow> json option) \<Rightarrow> bool" where
  "lossless marshal unmarshal \<longleftrightarrow> (\<forall>v t. marshal v = Some t \<longrightarrow> t \<noteq> '''' \<and> unmarshal t = Some v)"

definition jobs_of :: "nat \<Rightarrow> mutation_db \<Rightarrow> deferred_job list" where
  "jobs_of i db = map snd (filter (\<lambda>(k, _). k = i) (md_queue db))"

definition committed_as :: "mutation_db \<Rightarrow> nat \<Rightarrow> json \<Rightarrow> deferred_job list \<Rightarrow> bool" where
  "committed_as db i r js \<longleftrightarrow> (\<exists>e \<in> set (md_log db). cc_call e = i \<and> cc_result e = r \<and> cc_jobs e = js)"

definition committed_for :: "(json \<Rightarrow> string option) \<Rightarrow> mutation_db \<Rightarrow> mutation_call \<Rightarrow> json \<Rightarrow> bool" where
  "committed_for marshal db mc r \<longleftrightarrow> (\<exists>e \<in> set (md_log db). \<exists>c. mc_claim mc = Some c \<and> cc_claim e = Some c \<and>
     cc_path e = mc_path mc \<and> (cc_result e = r \<or> marshal (cc_result e) = None \<and> r = JNull))"

definition row_backed :: "(json \<Rightarrow> string option) \<Rightarrow> mutation_db \<Rightarrow> bool" where
  "row_backed marshal db \<longleftrightarrow> (\<forall>c r. map_of (md_rows db) c = Some r \<longrightarrow> (\<exists>e \<in> set (md_log db).
     cc_claim e = Some c \<and> cc_path e = ir_path r \<and> ir_result r = marshal (cc_result e)))"

definition phase_ok :: "(json \<Rightarrow> string option) \<Rightarrow> mutation_call \<Rightarrow> nat \<Rightarrow> tx_phase \<Rightarrow> mutation_db \<Rightarrow> bool" where
  "phase_ok marshal mc i p db \<longleftrightarrow> (case p of
     Stored r t js \<Rightarrow> t = (if mc_claim mc = None then None else marshal r)
   | Flushing r js \<Rightarrow> committed_as db i r js
   | Ended (Returned r) \<Rightarrow> (\<exists>js. committed_as db i r js)
   | Ended (Replayed r) \<Rightarrow> committed_for marshal db mc r
   | _ \<Rightarrow> True)"

definition published_ok :: "nat \<Rightarrow> tx_phase \<Rightarrow> mutation_db \<Rightarrow> bool" where
  "published_ok i p db \<longleftrightarrow> jobs_of i db = [] \<or>
     (\<exists>r js P. p = Ended (Returned r) \<and> committed_as db i r js \<and> jobs_of i db = filter P js)"

definition answers_ok :: "(json \<Rightarrow> string option) \<Rightarrow> (nat \<Rightarrow> mutation_call) \<Rightarrow> (nat \<Rightarrow> tx_phase) \<times> mutation_db \<Rightarrow> bool" where
  "answers_ok marshal calls x \<longleftrightarrow> (let (ph, db) = x in
     row_backed marshal db \<and> distinct (map cc_call (md_log db)) \<and>
     (\<forall>e \<in> set (md_log db). after_commit (ph (cc_call e)) \<and> cc_claim e = mc_claim (calls (cc_call e)) \<and>
        cc_path e = mc_path (calls (cc_call e))) \<and>
     (\<forall>i. phase_ok marshal (calls i) i (ph i) db \<and> published_ok i (ph i) db))"

lemma answers_okI:
  assumes "row_backed marshal db" "distinct (map cc_call (md_log db))"
    and "\<And>e. e \<in> set (md_log db) \<Longrightarrow> after_commit (ph (cc_call e)) \<and> cc_claim e = mc_claim (calls (cc_call e)) \<and>
        cc_path e = mc_path (calls (cc_call e))"
    and "\<And>i. phase_ok marshal (calls i) i (ph i) db" "\<And>i. published_ok i (ph i) db"
  shows "answers_ok marshal calls (ph, db)"
  using assms by (simp add: answers_ok_def)

lemma answers_okD:
  assumes "answers_ok marshal calls (ph, db)"
  shows "row_backed marshal db" "distinct (map cc_call (md_log db))"
    and "e \<in> set (md_log db) \<Longrightarrow> after_commit (ph (cc_call e)) \<and> cc_claim e = mc_claim (calls (cc_call e)) \<and>
        cc_path e = mc_path (calls (cc_call e))"
    and "phase_ok marshal (calls i) i (ph i) db" "published_ok i (ph i) db"
  using assms by (simp_all add: answers_ok_def)

lemma committed_mono:
  assumes "set (md_log db) \<subseteq> set (md_log db')"
  shows "committed_as db i r js \<Longrightarrow> committed_as db' i r js"
    and "committed_for marshal db mc v \<Longrightarrow> committed_for marshal db' mc v"
    and "phase_ok marshal mc i p db \<Longrightarrow> phase_ok marshal mc i p db'"
proof -
  show a: "committed_as db i r js \<Longrightarrow> committed_as db' i r js" for i r js
    using assms by (auto simp: committed_as_def)
  show b: "committed_for marshal db mc v \<Longrightarrow> committed_for marshal db' mc v" for v
    using assms by (auto simp: committed_for_def)
  show "phase_ok marshal mc i p db \<Longrightarrow> phase_ok marshal mc i p db'"
    using a b by (auto simp: phase_ok_def split: tx_phase.splits mutation_outcome.splits)
qed

lemma published_mono:
  "set (md_log db) \<subseteq> set (md_log db') \<Longrightarrow> md_queue db' = md_queue db \<Longrightarrow> published_ok i p db \<Longrightarrow> published_ok i p db'"
  using committed_mono(1)[of db db'] unfolding published_ok_def jobs_of_def by metis

text \<open>A step of one call that commits and publishes nothing.\<close>

lemma quiet_step:
  assumes ok: "answers_ok marshal calls (ph, db)"
    and same: "md_log db' = md_log db" "md_queue db' = md_queue db" "md_rows db' = md_rows db"
    and p: "phase_ok marshal (calls i) i p db" "after_commit (ph i) \<Longrightarrow> after_commit p"
    and e: "(\<exists>x. ph i = Ended x) \<Longrightarrow> p = ph i"
  shows "answers_ok marshal calls (ph(i := p), db')"
proof (rule answers_okI)
  note D = answers_okD[OF ok]
  show "row_backed marshal db'" using D(1) by (simp add: row_backed_def same)
  show "distinct (map cc_call (md_log db'))" using D(2) by (simp add: same)
  show "after_commit ((ph(i := p)) (cc_call x)) \<and> cc_claim x = mc_claim (calls (cc_call x)) \<and> cc_path x = mc_path (calls (cc_call x))"
    if "x \<in> set (md_log db')" for x using D(3)[of x] that p(2) by (auto simp: same)
  show "phase_ok marshal (calls j) j ((ph(i := p)) j) db'" for j
    using committed_mono(3)[of db db' marshal "calls j" j "(ph(i := p)) j"] D(4)[of j] p(1) same by auto
  show "published_ok j ((ph(i := p)) j) db'" for j
  proof (cases "j = i")
    case True
    have "published_ok i p db" using D(5)[of i] e by (auto simp: published_ok_def)
    then show ?thesis using True published_mono[of db db' i p] same by simp
  next
    case False
    then show ?thesis using published_mono[of db db' j "ph j"] D(5)[of j] same by simp
  qed
qed

lemma commit_step:
  assumes ok: "answers_ok marshal calls (ph, db)" and st: "ph i = Stored r t js" and p: "p = Flushing r js \<or> p = Ended Refused"
    and new: "\<And>c. mc_claim (calls i) = Some c \<Longrightarrow> map_of (md_rows db) c = None"
  shows "answers_ok marshal calls (ph(i := p), commit_call i (calls i) now r t js db)"
proof -
  let ?db = "commit_call i (calls i) now r t js db"
  note D = answers_okD[OF ok]
  let ?e = "\<lparr>cc_call = i, cc_claim = mc_claim (calls i), cc_path = mc_path (calls i), cc_result = r, cc_jobs = js\<rparr>"
  have log: "md_log ?db = ?e # md_log db" "md_queue ?db = md_queue db"
    by (simp_all add: commit_call_def)
  then have sub: "set (md_log db) \<subseteq> set (md_log ?db)" by auto
  have t: "t = (if mc_claim (calls i) = None then None else marshal r)" using D(4)[of i] st by (simp add: phase_ok_def)
  have fresh: "i \<notin> cc_call ` set (md_log db)" 
  proof
    assume "i \<in> cc_call ` set (md_log db)"
    then obtain x where "x \<in> set (md_log db)" "cc_call x = i" by blast
    then show False using D(3)[of x] st by simp
  qed
  show ?thesis
  proof (rule answers_okI)
    show "row_backed marshal ?db"
    proof (cases "mc_claim (calls i)")
      case None
      then have "md_rows ?db = md_rows db" by (simp add: commit_call_def)
      then show ?thesis using D(1) sub unfolding row_backed_def by (metis subsetD)
    next
      case (Some c)
      then have rows: "md_rows ?db = (c, \<lparr>ir_path = mc_path (calls i), ir_result = t, ir_created = now\<rparr>) # md_rows db"
        by (simp add: commit_call_def)
      have "?e \<in> set (md_log ?db)" by (simp add: log)
      moreover have "cc_claim ?e = Some c" "t = marshal (cc_result ?e)" using t Some by simp_all
      ultimately have e: "?e \<in> set (md_log ?db)" "cc_claim ?e = Some c" "t = marshal (cc_result ?e)" by blast+
      show ?thesis unfolding row_backed_def
      proof (intro allI impI)
        fix d q assume q: "map_of (md_rows ?db) d = Some q"
        show "\<exists>x \<in> set (md_log ?db). cc_claim x = Some d \<and> cc_path x = ir_path q \<and> ir_result q = marshal (cc_result x)"
        proof (cases "d = c")
          case True
          then have "q = \<lparr>ir_path = mc_path (calls i), ir_result = t, ir_created = now\<rparr>" using q by (simp add: rows)
          then show ?thesis using True e by (intro bexI[of _ ?e]) simp_all
        next
          case False
          then have "map_of (md_rows db) d = Some q" using q by (simp add: rows)
          then show ?thesis using D(1) sub unfolding row_backed_def by (meson subsetD)
        qed
      qed
    qed
    show "distinct (map cc_call (md_log ?db))" using D(2) fresh by (simp add: log)
    show "after_commit ((ph(i := p)) (cc_call x)) \<and> cc_claim x = mc_claim (calls (cc_call x)) \<and> cc_path x = mc_path (calls (cc_call x))"
      if "x \<in> set (md_log ?db)" for x using D(3)[of x] that p by (auto simp: log)
    show "phase_ok marshal (calls j) j ((ph(i := p)) j) ?db" for j
    proof (cases "j = i")
      case True
      then show ?thesis using p by (auto simp: phase_ok_def committed_as_def log)
    next
      case False
      then show ?thesis using committed_mono(3)[OF sub] D(4)[of j] by simp
    qed
    show "published_ok j ((ph(i := p)) j) ?db" for j
    proof (cases "j = i")
      case True
      then show ?thesis using D(5)[of i] st by (simp add: published_ok_def jobs_of_def log)
    next
      case False
      then show ?thesis using published_mono[OF sub log(2)] D(5)[of j] by simp
    qed
  qed
qed

lemma flush_step:
  assumes ok: "answers_ok marshal calls (ph, db)" and fl: "ph i = Flushing r js"
  shows "answers_ok marshal calls (ph(i := Ended (Returned r)), db\<lparr>md_queue := md_queue db @ map (Pair i) (filter f js)\<rparr>)"
proof -
  let ?db = "db\<lparr>md_queue := md_queue db @ map (Pair i) (filter f js)\<rparr>"
  note D = answers_okD[OF ok]
  have sub: "set (md_log db) \<subseteq> set (md_log ?db)" by simp
  have c: "committed_as db i r js" using D(4)[of i] fl by (simp add: phase_ok_def)
  have none: "jobs_of i db = []" using D(5)[of i] fl by (simp add: published_ok_def)
  have jobs: "jobs_of j ?db = jobs_of j db @ (if j = i then filter f js else [])" for j
    by (simp add: jobs_of_def filter_map comp_def split_def)
  show ?thesis
  proof (rule answers_okI)
    show "row_backed marshal ?db" using D(1) by (simp add: row_backed_def)
    show "phase_ok marshal (calls j) j ((ph(i := Ended (Returned r))) j) ?db" for j
      using committed_mono(3)[OF sub] committed_mono(1)[OF sub c] D(4)[of j] by (auto simp: phase_ok_def)
    show "published_ok j ((ph(i := Ended (Returned r))) j) ?db" for j
      using D(5)[of j] none committed_mono(1)[OF sub c] committed_mono(1)[OF sub]
      by (auto simp: published_ok_def jobs committed_as_def)
  qed (use D(2,3) in auto)
qed

lemma replayed_committed:
  assumes "answers_ok marshal calls (ph, db)" "lossless marshal unmarshal" "mc_claim (calls i) = Some c"
    and "replay_result unmarshal c (mc_path (calls i)) db = Inr v"
  shows "committed_for marshal db (calls i) v"
proof -
  obtain r where r: "map_of (md_rows db) c = Some r" "ir_path r = mc_path (calls i)"
    using assms(4) by (auto simp: replay_result_def split: option.splits if_splits)
  obtain e where e: "e \<in> set (md_log db)" "cc_claim e = Some c" "cc_path e = ir_path r" "ir_result r = marshal (cc_result e)"
    using answers_okD(1)[OF assms(1)] r(1) by (auto simp: row_backed_def)
  have "cc_result e = v \<or> marshal (cc_result e) = None \<and> v = JNull"
    using assms(2,4) r e(4) by (auto simp: replay_result_def lossless_def split: option.splits if_splits)
  then show ?thesis using e r(2) assms(3) unfolding committed_for_def by auto
qed

lemma answers_ok_call:
  assumes ok: "answers_ok marshal calls (ph, db)" and k: "keys_ok calls (ph, db)" and l: "lossless marshal unmarshal"
    and a: "advance marshal unmarshal now i (calls i) (ph i) reply db = Some (p, db')"
  shows "answers_ok marshal calls (ph(i := p), db')"
  using a
proof (cases rule: advance_cases)
  case (commit r t js)
  have "map_of (md_rows db) c = None" if "mc_claim (calls i) = Some c" for c
    using keys_okD(3)[OF k, of c i] keys_okD(4)[OF k, of c i] that commit(1) by simp
  then show ?thesis using commit_step[OF ok commit(1,2)] commit(3) by blast
next
  case (flush r js f)
  then show ?thesis using flush_step[OF ok, of i r js f] by simp
next
  case (replay c v)
  have "committed_for marshal db (calls i) v" by (rule replayed_committed[OF ok l replay(3,4)])
  then show ?thesis using replay by (intro quiet_step[OF ok]) (simp_all add: phase_ok_def)
qed (rule quiet_step[OF ok]; auto simp: phase_ok_def)+

lemma answers_ok_step:
  assumes ok: "answers_ok marshal calls x" and k: "keys_ok calls x" and l: "lossless marshal unmarshal"
    and step: "tx_step marshal unmarshal calls x y"
  shows "answers_ok marshal calls y"
  using step
proof cases
  case (call now i ph reply db p db')
  then show ?thesis using answers_ok_call[of marshal calls ph db unmarshal now i reply p db'] ok k l by simp
next
  case (sweep ph db now)
  have okp: "answers_ok marshal calls (ph, db)" and kp: "keys_ok calls (ph, db)" using ok k sweep by simp_all
  note D = answers_okD[OF okp]
  have sub: "set (md_log db) \<subseteq> set (md_log (sweep_keys now db))" by (simp add: sweep_simps)
  show ?thesis unfolding sweep
  proof (rule answers_okI)
    show "row_backed marshal (sweep_keys now db)"
      using D(1) sweep_rows(1)[OF keys_okD(2)[OF kp], of now] by (simp add: row_backed_def sweep_simps)
    show "phase_ok marshal (calls i) i (ph i) (sweep_keys now db)" for i by (rule committed_mono(3)[OF sub D(4)])
    show "published_ok i (ph i) (sweep_keys now db)" for i by (rule published_mono[OF sub _ D(5)]) (simp add: sweep_simps)
  qed (use D(2,3) in \<open>auto simp: sweep_simps\<close>)
next
  case (crash ph db)
  have okp: "answers_ok marshal calls (ph, db)" using ok crash by simp
  note D = answers_okD[OF okp]
  let ?db = "db\<lparr>md_open := []\<rparr>"
  have sub: "set (md_log db) \<subseteq> set (md_log ?db)" by simp
  have ended: "p = Ended x \<Longrightarrow> crashed p = p" "after_commit p \<Longrightarrow> after_commit (crashed p)" for p x
    by (auto simp: crashed_def split: tx_phase.splits)
  show ?thesis unfolding crash
  proof (rule answers_okI)
    show "row_backed marshal ?db" using D(1) by (simp add: row_backed_def)
    show "phase_ok marshal (calls i) i ((crashed \<circ> ph) i) ?db" for i
    proof -
      have "phase_ok marshal (calls i) i (crashed (ph i)) db"
        using D(4)[of i] by (cases "ph i") (simp_all add: crashed_def phase_ok_def)
      then show ?thesis using committed_mono(3)[OF sub] by simp
    qed
    show "published_ok i ((crashed \<circ> ph) i) ?db" for i
    proof -
      have "published_ok i (crashed (ph i)) db" using D(5)[of i] ended(1)[of "ph i"] unfolding published_ok_def by metis
      then show ?thesis using published_mono[OF sub] by simp
    qed
  qed (use D(2,3) ended(2) in auto)
qed

lemma answers_ok_init: "answers_ok marshal calls all_entered"
  by (simp add: answers_ok_def all_entered_def empty_mutation_db_def row_backed_def phase_ok_def published_ok_def jobs_of_def)

interpretation transactions: step_invariant "\<lambda>x. x = all_entered"
    "\<lambda>x y. tx_step marshal unmarshal calls x y \<and> lossless marshal unmarshal"
    "\<lambda>x. keys_ok calls x \<and> answers_ok marshal calls x" for marshal unmarshal calls
  by unfold_locales (auto intro: keys_ok_init answers_ok_init keys_ok_step answers_ok_step)

interpretation keys: step_invariant "\<lambda>x. x = all_entered" "tx_step marshal unmarshal calls" "keys_ok calls" for marshal unmarshal calls
  by unfold_locales (auto intro: keys_ok_init keys_ok_step)

lemma reachable_tx_ok:
  assumes "(tx_step marshal unmarshal calls)\<^sup>*\<^sup>* all_entered x" "lossless marshal unmarshal"
  shows "keys_ok calls x" "answers_ok marshal calls x"
  using transactions.inv_reachable[of all_entered marshal unmarshal calls x] assms by simp_all

text \<open>
  C5: A key takes effect once. Whatever the calls with the same key, their order, failures,
  lost commits and crashes of the server, at most one execution of a key is committed while
  the key is kept, and it is kept exactly if one is.
\<close>

theorem mutation_effects_once:
  assumes "(tx_step marshal unmarshal calls)\<^sup>*\<^sup>* all_entered (ph, db)" and "c \<notin> set (md_swept db)"
  shows "executions db c \<le> 1 \<and> (executions db c = 1 \<longleftrightarrow> map_of (md_rows db) c \<noteq> None)"
proof -
  have "keys_ok calls (ph, db)" using keys.inv_reachable[OF _ assms(1)] by simp
  from keys_okD(5)[OF this assms(2)] show ?thesis by simp
qed



section \<open>A concrete history\<close>

text \<open>Two deliveries of one write; the commit of the first takes effect but its answer is lost.\<close>

definition sample_claim :: claim where
  "sample_claim = \<lparr>cl_subject = ''u'', cl_key = ''k''\<rparr>"

definition sample_calls :: "nat \<Rightarrow> mutation_call" where
  "sample_calls i = \<lparr>mc_claim = Some sample_claim, mc_path = ''tasks.create''\<rparr>"

definition sample_marshal :: "json \<Rightarrow> string option" where
  "sample_marshal v = (case v of JStr t \<Rightarrow> Some (CHR ''s'' # t) | _ \<Rightarrow> None)"

definition sample_unmarshal :: "string \<Rightarrow> json option" where
  "sample_unmarshal t = (if t \<noteq> '''' then Some (JStr (tl t)) else None)"

definition mail_job :: deferred_job where
  "mail_job = \<lparr>dj_at = 5, dj_path = ''mail.send'', dj_args = ''''\<rparr>"

definition lost_db :: mutation_db where
  "lost_db = \<lparr>md_rows = [(sample_claim, \<lparr>ir_path = ''tasks.create'', ir_result = Some ''sid'', ir_created = 0\<rparr>)], md_open = [],
     md_log = [\<lparr>cc_call = 0, cc_claim = Some sample_claim, cc_path = ''tasks.create'', cc_result = JStr ''id'', cc_jobs = [mail_job]\<rparr>],
     md_swept = [], md_queue = []\<rparr>"

definition lost_phases :: "nat \<Rightarrow> tx_phase" where
  "lost_phases = (\<lambda>_. Entered)(0 := Ended Refused, 1 := Ended (Replayed (JStr ''id'')))"

lemma sample_lossless: "lossless sample_marshal sample_unmarshal"
  by (auto simp: lossless_def sample_marshal_def sample_unmarshal_def split: json.splits)

text \<open>The calls advanced in a given order, with the answers they get.\<close>

fun run_calls :: "(json \<Rightarrow> string option) \<Rightarrow> (string \<Rightarrow> json option) \<Rightarrow> (nat \<Rightarrow> mutation_call) \<Rightarrow> (nat \<times> reply) list \<Rightarrow>
    (nat \<Rightarrow> tx_phase) \<times> mutation_db \<Rightarrow> ((nat \<Rightarrow> tx_phase) \<times> mutation_db) option" where
  "run_calls marshal unmarshal calls [] x = Some x"
| "run_calls marshal unmarshal calls ((i, reply) # rs) (ph, db) =
    (case advance marshal unmarshal 0 i (calls i) (ph i) reply db of
       None \<Rightarrow> None
     | Some (p, db') \<Rightarrow> run_calls marshal unmarshal calls rs (ph(i := p), db'))"

lemma run_calls_steps:
  "run_calls marshal unmarshal calls rs x = Some y \<Longrightarrow> (tx_step marshal unmarshal calls)\<^sup>*\<^sup>* x y"
proof (induction marshal unmarshal calls rs x rule: run_calls.induct)
  case (2 marshal unmarshal calls i reply rs ph db)
  from "2.prems" obtain p db' where a: "advance marshal unmarshal 0 i (calls i) (ph i) reply db = Some (p, db')"
    and r: "run_calls marshal unmarshal calls rs (ph(i := p), db') = Some y"
    by (auto split: option.splits)
  have "(tx_step marshal unmarshal calls)\<^sup>*\<^sup>* (ph(i := p), db') y" by (rule "2.IH"[OF a refl r])
  moreover have "tx_step marshal unmarshal calls (ph, db) (ph(i := p), db')" by (rule tx_step.call[where calls = calls and ph = ph and i = i, OF a])
  ultimately show ?case by (rule converse_rtranclp_into_rtranclp[rotated])
qed simp

lemma lost_reachable: "(tx_step sample_marshal sample_unmarshal sample_calls)\<^sup>*\<^sup>* all_entered (lost_phases, lost_db)"
proof (rule run_calls_steps)
  show "run_calls sample_marshal sample_unmarshal sample_calls
      [(0, Done_Ok), (0, Handler (JStr ''id'') [mail_job]), (0, Done_Ok), (0, Lost), (1, Done_Ok), (1, Done_Ok)] all_entered =
    Some (lost_phases, lost_db)"
    by (simp add: all_entered_def sample_calls_def claim_key_def sample_claim_def empty_mutation_db_def sample_marshal_def commit_call_def
        rollback_def lost_db_def replay_result_def sample_unmarshal_def lost_phases_def fun_upd_def fun_eq_iff)
qed

lemma mutation_effects_once_witness: "executions lost_db sample_claim \<le> 1 \<and> map_of (md_rows lost_db) sample_claim \<noteq> None"
  using mutation_effects_once[OF lost_reachable, of sample_claim] by (simp add: lost_db_def)



text \<open>
  The jobs of a committed mutation can be lost: after a commit whose answer is lost, or a
  crash before the flush, nobody publishes them, and the replay answers with success.
\<close>

lemma committed_jobs_lost:
  "\<exists>e \<in> set (md_log lost_db). cc_jobs e = [mail_job] \<and> md_queue lost_db = [] \<and> lost_phases 1 = Ended (Replayed (cc_result e))"
  by (simp add: lost_db_def lost_phases_def)

section \<open>Deferring changes nothing but the time\<close>

datatype schedule_request = Run_At int string go_args | Run_After int int string go_args

text \<open>
  A request of a handler, to the buffer and to the scheduler itself. The scheduler comes
  with its supply of job ids and the number taken; \<open>newScheduledJobID\<close> is called for every
  job that reaches the queue.
\<close>

fun defer_request :: "schedule_request \<Rightarrow> deferred \<Rightarrow> deferred \<times> (sched_error, string) outcome" where
  "defer_request (Run_At at path args) d = deferred_run_at at path args d"
| "defer_request (Run_After now delay path args) d = deferred_run_after now delay path args d"

definition base_run_at :: "'s job_store option \<Rightarrow> int \<Rightarrow> (nat \<Rightarrow> string) \<Rightarrow> string \<Rightarrow> string \<Rightarrow> int \<Rightarrow> string \<Rightarrow> go_args \<Rightarrow>
    nat \<times> sched \<times> 's \<Rightarrow> (nat \<times> sched \<times> 's) \<times> (sched_error, string) outcome" where
  "base_run_at st clk fresh project tenant at path args b =
    (let (n, ss) = b; (ss', r) = handle_run_at st clk (fresh n) project tenant at path args ss
     in ((if r = Err PathRequired \<or> r = Err BadArgs then n else n + 1, ss'), r))"

fun base_request :: "'s job_store option \<Rightarrow> int \<Rightarrow> (nat \<Rightarrow> string) \<Rightarrow> string \<Rightarrow> string \<Rightarrow> schedule_request \<Rightarrow>
    nat \<times> sched \<times> 's \<Rightarrow> (nat \<times> sched \<times> 's) \<times> (sched_error, string) outcome" where
  "base_request st clk fresh project tenant (Run_At at path args) b = base_run_at st clk fresh project tenant at path args b"
| "base_request st clk fresh project tenant (Run_After now delay path args) b =
     base_run_at st clk fresh project tenant (now + (if delay < 0 then 0 else delay)) path args b"

definition publish_job :: "'s job_store option \<Rightarrow> int \<Rightarrow> (nat \<Rightarrow> string) \<Rightarrow> string \<Rightarrow> string \<Rightarrow> deferred_job \<Rightarrow>
    nat \<times> sched \<times> 's \<Rightarrow> (nat \<times> sched \<times> 's) \<times> sched_error option" where
  "publish_job st clk fresh project tenant j b =
    (case base_run_at st clk fresh project tenant (dj_at j) (dj_path j) (RawArgs (dj_args j)) b of
       (b', Err e) \<Rightarrow> (b', Some e) | (b', _) \<Rightarrow> (b', None))"

definition defer_all :: "schedule_request list \<Rightarrow> deferred" where
  "defer_all qs = fold (\<lambda>q d. fst (defer_request q d)) qs new_deferred"

definition base_all :: "'s job_store option \<Rightarrow> int \<Rightarrow> (nat \<Rightarrow> string) \<Rightarrow> string \<Rightarrow> string \<Rightarrow> schedule_request list \<Rightarrow>
    nat \<times> sched \<times> 's \<Rightarrow> nat \<times> sched \<times> 's" where
  "base_all st clk fresh project tenant qs b = fold (\<lambda>q b. fst (base_request st clk fresh project tenant q b)) qs b"

lemma flush_jobs_fold: "fst (flush_jobs run js b) = fold (\<lambda>j b. fst (run j b)) js b"
  by (induction js arbitrary: b) (auto simp: split_def Let_def)

lemma flush_jobs_append: "fst (flush_jobs run (js @ ks) b) = fst (flush_jobs run ks (fst (flush_jobs run js b)))"
  by (simp add: flush_jobs_fold)

lemma fst_publish: "fst (publish_job st clk fresh project tenant j b) =
    fst (base_run_at st clk fresh project tenant (dj_at j) (dj_path j) (RawArgs (dj_args j)) b)"
  by (simp add: publish_job_def split: prod.splits outcome.splits)

text \<open>A deferred request adds the job that the scheduler would have been given, or nothing where it would refuse.\<close>

lemma deferred_job_same:
  "fst (flush_jobs (publish_job st clk fresh project tenant) (df_jobs (fst (deferred_run_at at path args d))) b) =
     fst (base_run_at st clk fresh project tenant at path args
       (fst (flush_jobs (publish_job st clk fresh project tenant) (df_jobs d) b)))"
proof (cases "trim_space path = ''''")
  case True
  then show ?thesis by (simp add: deferred_run_at_def base_run_at_def handle_run_at_def split_def Let_def)
next
  case False
  show ?thesis
  proof (cases "encode_scheduler_args args")
    case (Ok raw)
    then have "df_jobs (fst (deferred_run_at at path args d)) = df_jobs d @ [\<lparr>dj_at = at, dj_path = trim_space path, dj_args = raw\<rparr>]"
      using False by (simp add: deferred_run_at_def Let_def)
    moreover have "base_run_at st clk fresh project tenant at (trim_space path) (RawArgs raw) x =
        base_run_at st clk fresh project tenant at path args x" for x
      using Ok False by (simp add: base_run_at_def handle_run_at_def encode_scheduler_args_def Let_def split: go_args.splits)
    ultimately show ?thesis by (simp add: flush_jobs_append fst_publish split_def Let_def)
  next
    case (Err e)
    then have "e = BadArgs" by (auto simp: encode_scheduler_args_def split: go_args.splits option.splits)
    then show ?thesis using False Err by (simp add: deferred_run_at_def base_run_at_def handle_run_at_def split_def Let_def)
  next
    case Panic
    then show ?thesis by (auto simp: encode_scheduler_args_def split: go_args.splits option.splits)
  qed
qed

text \<open>
  C36: Deferring is transparent: after the flush the scheduler (with its store and the job ids
  it took) is in the state in which the requests of the handler, made to it directly and in
  the same order, would have left it, refused ones included, and the buffer is empty.
\<close>

theorem deferral_transparent:
  "fst (snd (deferred_flush (publish_job st clk fresh project tenant) (defer_all qs) b)) =
     base_all st clk fresh project tenant qs b \<and>
   df_jobs (fst (deferred_flush (publish_job st clk fresh project tenant) (defer_all qs) b)) = []"
proof -
  have step: "fst (flush_jobs (publish_job st clk fresh project tenant) (df_jobs (fst (defer_request q d))) b) =
      fst (base_request st clk fresh project tenant q (fst (flush_jobs (publish_job st clk fresh project tenant) (df_jobs d) b)))" for q d b
    by (cases q) (simp_all add: deferred_job_same deferred_run_after_def)
  have "fst (flush_jobs (publish_job st clk fresh project tenant) (df_jobs (fold (\<lambda>q d. fst (defer_request q d)) qs d)) b) =
      base_all st clk fresh project tenant qs (fst (flush_jobs (publish_job st clk fresh project tenant) (df_jobs d) b))" for d
    by (induction qs arbitrary: d) (simp_all add: base_all_def step)
  from this[of new_deferred] show ?thesis
    by (simp add: deferred_flush_def defer_all_def new_deferred_def split_def)
qed

text \<open>The id a handler gets for a deferred job is not the id of any job of the scheduler.\<close>

lemma deferred_id_unknown:
  "snd (deferred_run_at at path args d) = Ok name \<Longrightarrow> name \<noteq> ''job_'' @ suffix"
  by (auto simp: deferred_run_at_def Let_def split: if_splits outcome.splits)

end
