(* ===== verification/Supervisor.thy ===== *)
theory Supervisor
  imports Gonvex_Prelude "HOL-Library.AList"
begin

text \<open>
  The gateway that owns the runtime workers (\<open>supervisor.go\<close>): which worker a request is
  handed to, how a worker is replaced and drained, the signals that stop it, and the
  environment it starts in. Workers are numbered in the order they are started; processes,
  sockets and the proxy are the operating system and the standard library. Durations are
  in nanoseconds.
\<close>

section \<open>Configuration\<close>

record sup_config =
  sc_startup :: int
  sc_drain :: int
  sc_health :: int

definition with_defaults :: "sup_config \<Rightarrow> sup_config" where
  "with_defaults c = \<lparr>sc_startup = (if sc_startup c \<le> 0 then 300000000000 else sc_startup c),
     sc_drain = (if sc_drain c \<le> 0 then 20000000000 else sc_drain c),
     sc_health = (if sc_health c \<le> 0 then 250000000 else sc_health c)\<rparr>"

section \<open>Workers\<close>

text \<open>\<open>w_closed\<close> counts how often the channel \<open>drained\<close> was closed; a second time panics.\<close>

record worker =
  w_requests :: nat
  w_draining :: bool
  w_drained_set :: bool
  w_closed :: nat

definition new_worker :: worker where
  "new_worker = \<lparr>w_requests = 0, w_draining = False, w_drained_set = False, w_closed = 0\<rparr>"

definition close_drained :: "worker \<Rightarrow> worker" where
  "close_drained w = (if w_draining w \<and> w_requests w = 0 \<and> \<not> w_drained_set w
     then w\<lparr>w_closed := w_closed w + 1, w_drained_set := True\<rparr> else w)"

definition worker_acquire :: "worker \<Rightarrow> worker \<times> bool" where
  "worker_acquire w = (if w_draining w then (w, False) else (w\<lparr>w_requests := w_requests w + 1\<rparr>, True))"

definition worker_release :: "worker \<Rightarrow> worker" where
  "worker_release w = close_drained (if 0 < w_requests w then w\<lparr>w_requests := w_requests w - 1\<rparr> else w)"

definition begin_drain :: "worker \<Rightarrow> worker" where
  "begin_drain w = close_drained (w\<lparr>w_draining := True\<rparr>)"

section \<open>The gateway\<close>

record gateway =
  gw_active :: "nat option"
  gw_workers :: "nat \<Rightarrow> worker"
  gw_next :: nat
  gw_recycle :: bool

definition upd_worker :: "nat \<Rightarrow> (worker \<Rightarrow> worker) \<Rightarrow> gateway \<Rightarrow> gateway" where
  "upd_worker i f g = g\<lparr>gw_workers := (gw_workers g)(i := f (gw_workers g i))\<rparr>"

text \<open>Where a request stands in the loop of \<open>Handler\<close>.\<close>

datatype request_phase = Arrived | Loaded nat | Admitted nat | Serving nat | Answered | Unavailable

text \<open>One access to shared state by a request.\<close>

definition request_step :: "request_phase \<Rightarrow> gateway \<Rightarrow> request_phase \<times> gateway" where
  "request_step p g = (case p of
     Arrived \<Rightarrow> (case gw_active g of None \<Rightarrow> (Unavailable, g) | Some i \<Rightarrow> (Loaded i, g))
   | Loaded i \<Rightarrow> (case worker_acquire (gw_workers g i) of
       (w, True) \<Rightarrow> (Admitted i, upd_worker i (\<lambda>_. w) g)
     | (w, False) \<Rightarrow> (Arrived, g))
   | Admitted i \<Rightarrow> (if gw_active g = Some i then (Serving i, g) else (Arrived, upd_worker i worker_release g))
   | Serving i \<Rightarrow> (Answered, upd_worker i worker_release g)
   | Answered \<Rightarrow> (Answered, g)
   | Unavailable \<Rightarrow> (Unavailable, g))"

text \<open>A worker is started and becomes ready, or fails and is stopped.\<close>

definition start_worker :: "gateway \<Rightarrow> gateway \<times> nat" where
  "start_worker g = (g\<lparr>gw_workers := (gw_workers g)(gw_next g := new_worker), gw_next := gw_next g + 1\<rparr>, gw_next g)"

definition start_failed :: "gateway \<Rightarrow> gateway" where
  "start_failed g = (let (g', i) = start_worker g in upd_worker i begin_drain g')"

text \<open>The two parts of a replacement: the new worker is active before the old one drains.\<close>

definition activate :: "gateway \<Rightarrow> gateway \<times> nat option" where
  "activate g = (let (g', i) = start_worker g in (g'\<lparr>gw_active := Some i\<rparr>, gw_active g))"

definition retire :: "nat option \<Rightarrow> gateway \<Rightarrow> gateway" where
  "retire old g = (case old of None \<Rightarrow> g | Some i \<Rightarrow> if gw_active g = Some i then g else upd_worker i begin_drain g)"

definition worker_exited :: "nat \<Rightarrow> gateway \<Rightarrow> gateway \<times> bool" where
  "worker_exited i g = (if gw_active g = Some i then (g\<lparr>gw_active := None\<rparr>, True) else (g, False))"

definition shut_down :: "gateway \<Rightarrow> gateway" where
  "shut_down g = (let g' = g\<lparr>gw_active := None\<rparr> in
     case gw_active g of None \<Rightarrow> g' | Some i \<Rightarrow> upd_worker i begin_drain g')"

definition request_recycle :: "gateway \<Rightarrow> gateway" where
  "request_recycle g = g\<lparr>gw_recycle := True\<rparr>"

definition take_recycle :: "gateway \<Rightarrow> gateway" where
  "take_recycle g = g\<lparr>gw_recycle := False\<rparr>"

text \<open>When a response of a worker makes the gateway recycle it.\<close>

record proxied =
  px_method :: string
  px_path :: string
  px_dry_run :: string
  px_header :: string

definition recycles :: "proxied \<Rightarrow> bool" where
  "recycles r \<longleftrightarrow> px_method r = ''POST'' \<and> px_path r = ''/dev/sync'' \<and> px_dry_run r \<noteq> ''true'' \<and> px_header r = ''1''"

section \<open>Stopping a worker\<close>

datatype stop_signal = Terminate | Interrupt | Kill

text \<open>
  The signals of \<open>stopWorker\<close> with their times, counted from its call: \<open>drained\<close> and \<open>exited\<close>
  are the times at which the last request ends and the process exits, if they do. The halved
  duration is positive here, so Go's division and \<open>div\<close> agree.
\<close>

definition stop_grace :: "sup_config \<Rightarrow> int" where
  "stop_grace c = min 2000000000 (sc_drain c div 2)"

definition before :: "int option \<Rightarrow> int \<Rightarrow> int" where
  "before t limit = (case t of None \<Rightarrow> limit | Some x \<Rightarrow> min x limit)"

definition stop_worker :: "sup_config \<Rightarrow> int option \<Rightarrow> int option \<Rightarrow> (stop_signal \<times> int) list" where
  "stop_worker c drained exited =
    (let t1 = before drained (stop_grace c);
         t2 = max t1 (before drained (t1 + sc_drain c));
         t3 = t2 + sc_drain c
     in [(Terminate, t1), (Interrupt, t2)] @ (case exited of Some x \<Rightarrow> if x \<le> t3 then [] else [(Kill, t3)] | None \<Rightarrow> [(Kill, t3)]))"

section \<open>The environment of a worker\<close>

definition add_entry :: "string \<Rightarrow> (string \<times> string) list \<Rightarrow> (string \<times> string) list" where
  "add_entry entry vs = (case cut CHR ''='' entry of
     (name, Some value) \<Rightarrow> if name \<noteq> '''' then AList.update name value vs else vs
   | (name, None) \<Rightarrow> vs)"

definition worker_environment :: "string list \<Rightarrow> string list \<Rightarrow> string \<Rightarrow> string list" where
  "worker_environment base additions address =
    (let vs = fold add_entry (base @ additions) [];
         vs = AList.update ''GONVEX_WORKER_LISTENER_FD'' ''3''
           (AList.update ''GONVEX_RUNTIME_WORKER'' ''1'' (AList.update ''GONVEX_ADDR'' address vs))
     in map (\<lambda>(name, value). name @ ''='' @ value) vs)"

text \<open>The descriptor a worker inherits: none, a refusal, or a number.\<close>

definition inherited_fd :: "string \<Rightarrow> (unit, int option) outcome" where
  "inherited_fd raw = (let value = trim_space raw in
     if value = '''' then Ok None
     else case atoi value of None \<Rightarrow> Err () | Some fd \<Rightarrow> if fd < 3 then Err () else Ok (Some fd))"

section \<open>Steps\<close>

text \<open>
  Requests are numbered. The goroutine \<open>run\<close> waits, or is starting a replacement, or has activated one
  and is about to drain the old worker, or has returned; it is the only one that writes \<open>active\<close>.
  It gives up on a replacement only when the gateway is closed.
\<close>

datatype run_phase = Waiting | Replacing | Retiring "nat option" | Returned

record gw_state =
  gs_phase :: "nat \<Rightarrow> request_phase"
  gs_gateway :: gateway
  gs_run :: run_phase

definition first_gateway :: gw_state where
  "first_gateway = \<lparr>gs_phase = (\<lambda>_. Arrived), gs_gateway = \<lparr>gw_active = Some 0, gw_workers = (\<lambda>_. new_worker),
     gw_next = 1, gw_recycle = False\<rparr>, gs_run = Waiting\<rparr>"

inductive gateway_step :: "gw_state \<Rightarrow> gw_state \<Rightarrow> bool" where
  request: "request_step (gs_phase s r) (gs_gateway s) = (p, g) \<Longrightarrow>
    gateway_step s (s\<lparr>gs_phase := (gs_phase s)(r := p), gs_gateway := g\<rparr>)"
| start_failed: "gs_run s = Replacing \<Longrightarrow> gateway_step s (s\<lparr>gs_gateway := start_failed (gs_gateway s)\<rparr>)"
| activate: "gs_run s = Replacing \<Longrightarrow> activate (gs_gateway s) = (g, old) \<Longrightarrow>
    gateway_step s (s\<lparr>gs_gateway := g, gs_run := Retiring old\<rparr>)"
| retire: "gs_run s = Retiring old \<Longrightarrow>
    gateway_step s (s\<lparr>gs_gateway := retire old (gs_gateway s), gs_run := Waiting\<rparr>)"
| exited: "gs_run s = Waiting \<Longrightarrow> worker_exited i (gs_gateway s) = (g, replaced) \<Longrightarrow>
    gateway_step s (s\<lparr>gs_gateway := g, gs_run := (if replaced then Replacing else Waiting)\<rparr>)"
| closing: "gs_run s = Replacing \<Longrightarrow> gateway_step s (s\<lparr>gs_run := Waiting\<rparr>)"
| shut_down: "gs_run s = Waiting \<Longrightarrow>
    gateway_step s (s\<lparr>gs_gateway := shut_down (gs_gateway s), gs_run := Returned\<rparr>)"
| recycle: "gateway_step s (s\<lparr>gs_gateway := request_recycle (gs_gateway s)\<rparr>)"
| taken: "gs_run s = Waiting \<Longrightarrow> gw_recycle (gs_gateway s) \<Longrightarrow>
    gateway_step s (s\<lparr>gs_gateway := take_recycle (gs_gateway s), gs_run := Replacing\<rparr>)"

section \<open>The invariant\<close>

fun counted_at :: "nat \<Rightarrow> request_phase \<Rightarrow> bool" where
  "counted_at i (Admitted j) \<longleftrightarrow> i = j"
| "counted_at i (Serving j) \<longleftrightarrow> i = j"
| "counted_at i _ \<longleftrightarrow> False"

definition in_flight :: "nat \<Rightarrow> (nat \<Rightarrow> request_phase) \<Rightarrow> nat set" where
  "in_flight i ph = {r. counted_at i (ph r)}"

fun phase_known :: "nat \<Rightarrow> request_phase \<Rightarrow> bool" where
  "phase_known n (Loaded i) \<longleftrightarrow> i < n"
| "phase_known n (Admitted i) \<longleftrightarrow> i < n"
| "phase_known n (Serving i) \<longleftrightarrow> i < n"
| "phase_known n _ \<longleftrightarrow> True"

definition worker_ok :: "worker \<Rightarrow> bool" where
  "worker_ok w \<longleftrightarrow> w_drained_set w = (w_draining w \<and> w_requests w = 0) \<and> w_closed w = (if w_drained_set w then 1 else 0)"

lemma new_worker_ok [simp]: "worker_ok new_worker"
  by (simp add: worker_ok_def new_worker_def)

lemma worker_ok_operations:
  assumes "worker_ok w"
  shows "worker_ok (begin_drain w)" and "w_draining w \<longrightarrow> 0 < w_requests w \<Longrightarrow> worker_ok (worker_release w)"
    and "worker_ok (fst (worker_acquire w))"
  using assms by (auto simp: worker_ok_def begin_drain_def worker_release_def worker_acquire_def close_drained_def)

lemma worker_draining_operations [simp]:
  "w_draining (begin_drain w)" "w_draining (worker_release w) = w_draining w"
  "w_requests (begin_drain w) = w_requests w" "w_requests (worker_release w) = w_requests w - 1"
  by (auto simp: begin_drain_def worker_release_def close_drained_def)

text \<open>Requests are counted at the worker that took them, started workers are the numbered ones, and the active one is not draining.\<close>

definition counts_ok :: "gw_state \<Rightarrow> bool" where
  "counts_ok s \<longleftrightarrow> (\<forall>i. finite (in_flight i (gs_phase s)) \<and>
     w_requests (gw_workers (gs_gateway s) i) = card (in_flight i (gs_phase s)))"

definition known_ok :: "gw_state \<Rightarrow> bool" where
  "known_ok s \<longleftrightarrow> (\<forall>r. phase_known (gw_next (gs_gateway s)) (gs_phase s r)) \<and>
     (\<forall>i. gw_active (gs_gateway s) = Some i \<or> gs_run s = Retiring (Some i) \<longrightarrow> i < gw_next (gs_gateway s))"

definition active_ok :: "gw_state \<Rightarrow> bool" where
  "active_ok s \<longleftrightarrow> (\<forall>i. gw_active (gs_gateway s) = Some i \<longrightarrow> \<not> w_draining (gw_workers (gs_gateway s) i) \<and> gs_run s \<noteq> Retiring (Some i))"

definition gateway_ok :: "gw_state \<Rightarrow> bool" where
  "gateway_ok s \<longleftrightarrow> (\<forall>i. worker_ok (gw_workers (gs_gateway s) i)) \<and> counts_ok s \<and> known_ok s \<and> active_ok s"

lemma in_flight_update:
  "in_flight i (ph(r := p)) = (if counted_at i p then insert r (in_flight i ph) else in_flight i ph - {r})"
  by (auto simp: in_flight_def)

lemma in_flight_member [simp]: "r \<in> in_flight i ph \<longleftrightarrow> counted_at i (ph r)"
  by (simp add: in_flight_def)

lemma phase_known_mono: "phase_known n p \<Longrightarrow> n \<le> m \<Longrightarrow> phase_known m p"
  by (cases p) auto

lemma gateway_okI:
  assumes "\<And>i. worker_ok (gw_workers (gs_gateway s) i)"
    and "\<And>i. finite (in_flight i (gs_phase s))"
    and "\<And>i. w_requests (gw_workers (gs_gateway s) i) = card (in_flight i (gs_phase s))"
    and "\<And>r. phase_known (gw_next (gs_gateway s)) (gs_phase s r)"
    and "\<And>i. gw_active (gs_gateway s) = Some i \<or> gs_run s = Retiring (Some i) \<Longrightarrow> i < gw_next (gs_gateway s)"
    and "\<And>i. gw_active (gs_gateway s) = Some i \<Longrightarrow> \<not> w_draining (gw_workers (gs_gateway s) i) \<and> gs_run s \<noteq> Retiring (Some i)"
  shows "gateway_ok s"
  using assms by (simp add: gateway_ok_def counts_ok_def known_ok_def active_ok_def)

lemma gateway_okD:
  assumes "gateway_ok s"
  shows "worker_ok (gw_workers (gs_gateway s) i)" and "finite (in_flight i (gs_phase s))"
    and "w_requests (gw_workers (gs_gateway s) i) = card (in_flight i (gs_phase s))"
    and "phase_known (gw_next (gs_gateway s)) (gs_phase s r)"
    and "gw_active (gs_gateway s) = Some i \<or> gs_run s = Retiring (Some i) \<Longrightarrow> i < gw_next (gs_gateway s)"
    and "gw_active (gs_gateway s) = Some i \<Longrightarrow> \<not> w_draining (gw_workers (gs_gateway s) i)"
    and "gw_active (gs_gateway s) = Some i \<Longrightarrow> gs_run s \<noteq> Retiring (Some i)"
  using assms by (auto simp: gateway_ok_def counts_ok_def known_ok_def active_ok_def)

text \<open>A request step leaves the shared state alone, counts the request, or gives its count back.\<close>

lemma request_cases:
  assumes "request_step p g = (p', g')"
  obtains (same) "g' = g" "\<And>i. counted_at i p' = counted_at i p" "\<And>n. phase_known n p \<Longrightarrow> (\<And>i. gw_active g = Some i \<Longrightarrow> i < n) \<Longrightarrow> phase_known n p'"
  | (taken) i where "p = Loaded i" "p' = Admitted i" "\<not> w_draining (gw_workers g i)"
      "g' = upd_worker i (\<lambda>_. (gw_workers g i)\<lparr>w_requests := w_requests (gw_workers g i) + 1\<rparr>) g"
  | (returned) i where "counted_at i p" "p' = Arrived \<or> p' = Answered" "g' = upd_worker i worker_release g"
  using assms
  by (cases p) (auto simp: request_step_def worker_acquire_def split: option.splits if_splits prod.splits bool.splits)

lemma counted_once: "counted_at i p \<Longrightarrow> counted_at j p \<longleftrightarrow> i = j"
  by (cases p) auto

lemma counted_known: "counted_at i p \<Longrightarrow> phase_known n p \<Longrightarrow> i < n"
  by (cases p) auto

lemma upd_worker_fields [simp]:
  "gw_active (upd_worker i f g) = gw_active g" "gw_next (upd_worker i f g) = gw_next g"
  "gw_workers (upd_worker i f g) j = (if i = j then f (gw_workers g i) else gw_workers g j)"
  by (auto simp: upd_worker_def)

lemma request_preserves:
  assumes ok: "gateway_ok s" and step: "request_step (gs_phase s r) (gs_gateway s) = (p, g)"
  shows "gateway_ok (s\<lparr>gs_phase := (gs_phase s)(r := p), gs_gateway := g\<rparr>)"
  using step
proof (cases rule: request_cases)
  case same
  have "in_flight i ((gs_phase s)(r := p)) = in_flight i (gs_phase s)" for i
    using same(2) by (auto simp: in_flight_update)
  with same gateway_okD[OF ok] show ?thesis by (intro gateway_okI) auto
next
  case (taken j)
  have "\<not> counted_at i (gs_phase s r)" "j < gw_next (gs_gateway s)" for i
    using taken gateway_okD(4)[OF ok, of r] by auto
  with taken gateway_okD[OF ok] show ?thesis
    by (intro gateway_okI) (auto simp: in_flight_update worker_ok_def)
next
  case (returned j)
  have once: "\<And>i. counted_at i (gs_phase s r) \<longleftrightarrow> j = i" and plain: "\<And>i. \<not> counted_at i p" "\<And>n. phase_known n p"
    using returned counted_once by auto
  have "r \<in> in_flight j (gs_phase s)" using returned by simp
  then have "0 < card (in_flight j (gs_phase s))" using gateway_okD(2)[OF ok, of j] card_gt_0_iff by blast
  with returned once plain gateway_okD[OF ok] show ?thesis
    by (intro gateway_okI) (auto simp: in_flight_update intro!: worker_ok_operations)
qed

lemma in_flight_fresh: "gateway_ok s \<Longrightarrow> in_flight (gw_next (gs_gateway s)) (gs_phase s) = {}"
  using counted_known gateway_okD(4) by (fastforce simp: in_flight_def)

lemma gateway_ok_next:
  assumes "gateway_ok s"
  shows "gw_active (gs_gateway s) \<noteq> Some (gw_next (gs_gateway s))"
    and "gs_run s \<noteq> Retiring (Some (gw_next (gs_gateway s)))"
    and "phase_known (Suc (gw_next (gs_gateway s))) (gs_phase s r)"
  using gateway_okD(5)[OF assms] phase_known_mono[OF gateway_okD(4)[OF assms]] by auto

lemma start_failed_fields:
  "gw_active (start_failed g) = gw_active g" "gw_next (start_failed g) = gw_next g + 1"
  "gw_workers (start_failed g) = (gw_workers g)(gw_next g := begin_drain new_worker)"
  by (auto simp: start_failed_def start_worker_def upd_worker_def)

lemma new_worker_fields [simp]: "w_requests new_worker = 0" "\<not> w_draining new_worker"
  by (auto simp: new_worker_def)

lemma start_failed_preserves:
  assumes ok: "gateway_ok s"
  shows "gateway_ok (s\<lparr>gs_gateway := start_failed (gs_gateway s)\<rparr>)"
  using gateway_okD[OF ok] in_flight_fresh[OF ok] gateway_ok_next[OF ok]
  by (intro gateway_okI) (auto simp: start_failed_fields less_SucI intro!: worker_ok_operations)

lemma activate_preserves:
  assumes ok: "gateway_ok s" and step: "activate (gs_gateway s) = (g, old)"
  shows "gateway_ok (s\<lparr>gs_gateway := g, gs_run := Retiring old\<rparr>)"
proof -
  have g: "g = (gs_gateway s)\<lparr>gw_workers := (gw_workers (gs_gateway s))(gw_next (gs_gateway s) := new_worker),
      gw_next := gw_next (gs_gateway s) + 1, gw_active := Some (gw_next (gs_gateway s))\<rparr>"
    and old: "old = gw_active (gs_gateway s)"
    using step by (auto simp: activate_def start_worker_def)
  show ?thesis
    using gateway_okD[OF ok] in_flight_fresh[OF ok] gateway_ok_next[OF ok] unfolding g old
    by (intro gateway_okI) (auto simp: less_SucI)
qed

lemma drain_preserves:
  assumes ok: "gateway_ok s" and not_active: "a \<noteq> Some i" "a = gw_active (gs_gateway s) \<or> a = None"
    and run: "run = Waiting \<or> run = Returned"
  shows "gateway_ok (s\<lparr>gs_gateway := upd_worker i begin_drain ((gs_gateway s)\<lparr>gw_active := a\<rparr>), gs_run := run\<rparr>)"
  using gateway_okD[OF ok] not_active run by (intro gateway_okI) (auto intro!: worker_ok_operations)

lemma quiet_preserves:
  assumes ok: "gateway_ok s" and "a = gw_active (gs_gateway s) \<or> a = None" and "run = gs_run s \<or> run \<in> {Waiting, Replacing, Returned}"
  shows "gateway_ok (s\<lparr>gs_gateway := (gs_gateway s)\<lparr>gw_active := a, gw_recycle := b\<rparr>, gs_run := run\<rparr>)"
proof (intro gateway_okI)
  fix i
  assume "gw_active (gs_gateway (s\<lparr>gs_gateway := (gs_gateway s)\<lparr>gw_active := a, gw_recycle := b\<rparr>, gs_run := run\<rparr>)) = Some i"
  then have "gw_active (gs_gateway s) = Some i" "a = Some i" using assms(2) by auto
  with gateway_okD(6,7)[OF ok this(1)] assms(3)
  show "\<not> w_draining (gw_workers (gs_gateway (s\<lparr>gs_gateway := (gs_gateway s)\<lparr>gw_active := a, gw_recycle := b\<rparr>, gs_run := run\<rparr>)) i) \<and>
      gs_run (s\<lparr>gs_gateway := (gs_gateway s)\<lparr>gw_active := a, gw_recycle := b\<rparr>, gs_run := run\<rparr>) \<noteq> Retiring (Some i)"
    by auto
qed (use gateway_okD[OF ok] assms(2,3) in auto)

lemma gateway_step_preserves:
  assumes "gateway_step s s'" and ok: "gateway_ok s"
  shows "gateway_ok s'"
  using assms(1)
proof cases
  case (request r p g)
  then show ?thesis using request_preserves[OF ok] by simp
next
  case start_failed
  then show ?thesis using start_failed_preserves[OF ok] by simp
next
  case (activate g old)
  then show ?thesis using activate_preserves[OF ok] by simp
next
  case (retire old)
  have "gw_active (gs_gateway s) \<noteq> Some i" if "old = Some i" for i
    using gateway_okD(7)[OF ok, of i] retire that by auto
  with retire show ?thesis
    using drain_preserves[OF ok, of "gw_active (gs_gateway s)" _ Waiting]
      quiet_preserves[OF ok, of "gw_active (gs_gateway s)" Waiting "gw_recycle (gs_gateway s)"]
    by (cases old) (auto simp: retire_def)
next
  case (exited i g replaced)
  define a where "a = (if gw_active (gs_gateway s) = Some i then None else gw_active (gs_gateway s))"
  have "g = (gs_gateway s)\<lparr>gw_active := a, gw_recycle := gw_recycle (gs_gateway s)\<rparr>"
    and "a = gw_active (gs_gateway s) \<or> a = None"
    using exited(3) by (auto simp: worker_exited_def a_def split: if_splits)
  with exited(1) show ?thesis
    using quiet_preserves[OF ok, of a _ "gw_recycle (gs_gateway s)"] by simp
next
  case shut_down
  then show ?thesis
    using drain_preserves[OF ok, of None _ Returned] quiet_preserves[OF ok, of None Returned "gw_recycle (gs_gateway s)"]
    by (auto simp: shut_down_def Let_def split: option.split)
next
  case recycle
  then show ?thesis using quiet_preserves[OF ok, of "gw_active (gs_gateway s)" "gs_run s" True]
    by (simp add: request_recycle_def)
next
  case taken
  then show ?thesis using quiet_preserves[OF ok, of "gw_active (gs_gateway s)" Replacing False]
    by (simp add: take_recycle_def)
next
  case closing
  then show ?thesis using quiet_preserves[OF ok, of "gw_active (gs_gateway s)" Waiting "gw_recycle (gs_gateway s)"]
    by simp
qed

lemma first_gateway_ok: "gateway_ok first_gateway"
  by (intro gateway_okI) (auto simp: first_gateway_def in_flight_def)

interpretation gateway_run: step_invariant "(=) first_gateway" gateway_step gateway_ok
  by unfold_locales (use first_gateway_ok gateway_step_preserves in auto)

lemma gateway_reachable_ok: "gateway_step\<^sup>*\<^sup>* first_gateway s \<Longrightarrow> gateway_ok s"
  by (rule gateway_run.inv_reachable[OF refl])

section \<open>Properties\<close>

text \<open>C19: At any moment, under any interleaving of requests with worker starts, failed starts,
  replacements, exits, recycles and shutdown, the request count of a worker is exactly the number of
  requests that hold it; its \<open>drained\<close> channel has been closed once if it is draining and holds no
  request, and not at all otherwise (so closing it never panics, and it is closed before
  \<open>stopWorker\<close> signals a worker whose requests ended); and the active worker is not draining.\<close>

theorem drained_exactly_when_idle:
  assumes "gateway_step\<^sup>*\<^sup>* first_gateway s"
  shows "w_requests (gw_workers (gs_gateway s) i) = card (in_flight i (gs_phase s)) \<and>
    w_closed (gw_workers (gs_gateway s) i) =
      (if w_draining (gw_workers (gs_gateway s) i) \<and> in_flight i (gs_phase s) = {} then 1 else 0) \<and>
    (gw_active (gs_gateway s) = Some i \<longrightarrow> \<not> w_draining (gw_workers (gs_gateway s) i))"
proof -
  note ok = gateway_reachable_ok[OF assms]
  show ?thesis
    using gateway_okD(1,2,3,6)[OF ok, of i] by (simp add: worker_ok_def)
qed

text \<open>A request is served, a replacement is activated and the old worker drains: the request still holds it.\<close>

definition admitted_then_replaced :: gw_state where
  "admitted_then_replaced = \<lparr>gs_phase = (\<lambda>_. Arrived)(7 := Serving 0),
     gs_gateway = \<lparr>gw_active = Some 1, gw_workers = (\<lambda>_. new_worker)(0 := \<lparr>w_requests = 1, w_draining = True, w_drained_set = False, w_closed = 0\<rparr>),
       gw_next = 2, gw_recycle = False\<rparr>, gs_run = Waiting\<rparr>"

lemmas gateway_run_simps = first_gateway_def admitted_then_replaced_def request_step_def worker_acquire_def upd_worker_def
  activate_def start_worker_def retire_def begin_drain_def close_drained_def new_worker_def

lemma admitted_then_replaced_reachable: "gateway_step\<^sup>*\<^sup>* first_gateway admitted_then_replaced"
proof -
  let ?w = "\<lambda>n d. \<lparr>w_requests = n, w_draining = d, w_drained_set = False, w_closed = 0\<rparr>"
  let ?g = "\<lambda>a n k b. \<lparr>gw_active = Some a, gw_workers = (\<lambda>_. new_worker)(0 := ?w n False), gw_next = k, gw_recycle = b\<rparr>"
  let ?s = "\<lambda>p g r. \<lparr>gs_phase = (\<lambda>_. Arrived)(7 := p), gs_gateway = g, gs_run = r\<rparr>"
  have 1: "gateway_step first_gateway (?s (Loaded 0) (?g 0 0 1 False) Waiting)"
    using gateway_step.request[of first_gateway 7 "Loaded 0" "?g 0 0 1 False"] by (simp add: gateway_run_simps fun_upd_idem)
  have 2: "gateway_step (?s (Loaded 0) (?g 0 0 1 False) Waiting) (?s (Admitted 0) (?g 0 1 1 False) Waiting)"
    using gateway_step.request[of "?s (Loaded 0) (?g 0 0 1 False) Waiting" 7 "Admitted 0" "?g 0 1 1 False"]
    by (simp add: gateway_run_simps)
  have 3: "gateway_step (?s (Admitted 0) (?g 0 1 1 False) Waiting) (?s (Serving 0) (?g 0 1 1 False) Waiting)"
    using gateway_step.request[of "?s (Admitted 0) (?g 0 1 1 False) Waiting" 7 "Serving 0" "?g 0 1 1 False"]
    by (simp add: gateway_run_simps)
  have 4: "gateway_step (?s (Serving 0) (?g 0 1 1 False) Waiting) (?s (Serving 0) (?g 0 1 1 True) Waiting)"
    using gateway_step.recycle[of "?s (Serving 0) (?g 0 1 1 False) Waiting"] by (simp add: request_recycle_def)
  have 5: "gateway_step (?s (Serving 0) (?g 0 1 1 True) Waiting) (?s (Serving 0) (?g 0 1 1 False) Replacing)"
    using gateway_step.taken[of "?s (Serving 0) (?g 0 1 1 True) Waiting"] by (simp add: take_recycle_def)
  have 6: "gateway_step (?s (Serving 0) (?g 0 1 1 False) Replacing) (?s (Serving 0) (?g 1 1 2 False) (Retiring (Some 0)))"
    using gateway_step.activate[of "?s (Serving 0) (?g 0 1 1 False) Replacing" "?g 1 1 2 False" "Some 0"]
    by (simp add: gateway_run_simps fun_upd_twist fun_upd_idem)
  have 7: "gateway_step (?s (Serving 0) (?g 1 1 2 False) (Retiring (Some 0))) admitted_then_replaced"
    using gateway_step.retire[of "?s (Serving 0) (?g 1 1 2 False) (Retiring (Some 0))" "Some 0"]
    by (simp add: gateway_run_simps)
  note before = converse_rtranclp_into_rtranclp[of gateway_step]
  show ?thesis
    by (rule before[OF 1 before[OF 2 before[OF 3 before[OF 4 before[OF 5 before[OF 6 before[OF 7 rtranclp.rtrancl_refl]]]]]]])
qed

lemma admitted_then_replaced_in_flight: "in_flight 0 (gs_phase admitted_then_replaced) = {7}"
  by (auto simp: in_flight_def admitted_then_replaced_def)

theorem drained_exactly_when_idle_witness:
  "w_draining (gw_workers (gs_gateway admitted_then_replaced) 0) \<and>
   w_requests (gw_workers (gs_gateway admitted_then_replaced) 0) = 1 \<and>
   w_closed (gw_workers (gs_gateway admitted_then_replaced) 0) = 0"
  using drained_exactly_when_idle[OF admitted_then_replaced_reachable, of 0]
  by (simp add: admitted_then_replaced_in_flight) (simp add: admitted_then_replaced_def)

lemma draining_step:
  assumes step: "gateway_step t u" and i: "i < gw_next (gs_gateway t)" "w_draining (gw_workers (gs_gateway t) i)"
  shows "i < gw_next (gs_gateway u) \<and> w_draining (gw_workers (gs_gateway u) i) \<and>
    in_flight i (gs_phase u) \<subseteq> in_flight i (gs_phase t)"
  using step
proof cases
  case (request r p g)
  from request(2) show ?thesis
    by (cases rule: request_cases) (use request(1) i in \<open>auto simp: in_flight_update\<close>)
qed (use i in \<open>auto simp: start_failed_fields activate_def start_worker_def retire_def worker_exited_def shut_down_def
      request_recycle_def take_recycle_def Let_def split: option.splits if_splits\<close>)

text \<open>A draining worker never gets another request: whatever runs after a started worker began to
  drain, it stays draining and the requests that hold it are among those that held it then.\<close>

theorem drained_worker_gets_no_request:
  assumes "gateway_step\<^sup>*\<^sup>* first_gateway s" and "gateway_step\<^sup>*\<^sup>* s s'"
    and "i < gw_next (gs_gateway s)" and "w_draining (gw_workers (gs_gateway s) i)"
  shows "w_draining (gw_workers (gs_gateway s') i) \<and> in_flight i (gs_phase s') \<subseteq> in_flight i (gs_phase s)"
proof -
  let ?ok = "\<lambda>t. gateway_ok t \<and> i < gw_next (gs_gateway t) \<and> w_draining (gw_workers (gs_gateway t) i) \<and>
    in_flight i (gs_phase t) \<subseteq> in_flight i (gs_phase s)"
  have "?ok s'"
    using assms(2)
  proof (induction rule: rtranclp_induct)
    case base
    show ?case using assms(1,3,4) gateway_reachable_ok by auto
  next
    case (step t u)
    then show ?case using draining_step[of t u i] gateway_step_preserves by blast
  qed
  then show ?thesis by blast
qed

theorem drained_worker_gets_no_request_witness:
  "w_draining (gw_workers (gs_gateway (admitted_then_replaced\<lparr>gs_phase := (gs_phase admitted_then_replaced)(9 := Loaded 1)\<rparr>)) 0) \<and>
   in_flight 0 (gs_phase (admitted_then_replaced\<lparr>gs_phase := (gs_phase admitted_then_replaced)(9 := Loaded 1)\<rparr>))
     \<subseteq> in_flight 0 (gs_phase admitted_then_replaced)"
proof -
  have "gateway_step admitted_then_replaced (admitted_then_replaced\<lparr>gs_phase := (gs_phase admitted_then_replaced)(9 := Loaded 1)\<rparr>)"
    using gateway_step.request[of admitted_then_replaced 9 "Loaded 1" "gs_gateway admitted_then_replaced"]
    by (simp add: gateway_run_simps)
  then show ?thesis
    by (intro drained_worker_gets_no_request[OF admitted_then_replaced_reachable r_into_rtranclp])
      (simp_all add: admitted_then_replaced_def)
qed

text \<open>C37: While a worker is active no request loops or is refused: from any reachable state with an active
  worker, a request that arrives is served by it after three steps of its own, and then that worker
  counts it; with no active worker it is answered \<open>503\<close> at once.\<close>

theorem active_worker_serves:
  assumes "gateway_step\<^sup>*\<^sup>* first_gateway s" and "gs_phase s r = Arrived"
  shows "case gw_active (gs_gateway s) of
      Some i \<Rightarrow> (\<exists>s'. (gateway_step ^^ 3) s s' \<and> gs_phase s' r = Serving i \<and>
        w_requests (gw_workers (gs_gateway s') i) = w_requests (gw_workers (gs_gateway s) i) + 1)
    | None \<Rightarrow> gateway_step s (s\<lparr>gs_phase := (gs_phase s)(r := Unavailable)\<rparr>)"
proof (cases "gw_active (gs_gateway s)")
  case None
  then show ?thesis
    using gateway_step.request[of s r Unavailable "gs_gateway s"] assms(2) by (simp add: request_step_def)
next
  case (Some i)
  have idle: "\<not> w_draining (gw_workers (gs_gateway s) i)"
    using gateway_okD(6)[OF gateway_reachable_ok[OF assms(1)] Some] .
  let ?g = "upd_worker i (\<lambda>_. (gw_workers (gs_gateway s) i)\<lparr>w_requests := w_requests (gw_workers (gs_gateway s) i) + 1\<rparr>) (gs_gateway s)"
  let ?s = "\<lambda>p. s\<lparr>gs_phase := (gs_phase s)(r := p)\<rparr>" and ?t = "\<lambda>p. s\<lparr>gs_phase := (gs_phase s)(r := p), gs_gateway := ?g\<rparr>"
  have "gateway_step s (?s (Loaded i))"
    using gateway_step.request[of s r "Loaded i" "gs_gateway s"] assms(2) Some by (simp add: request_step_def)
  moreover have "gateway_step (?s (Loaded i)) (?t (Admitted i))"
    using gateway_step.request[of "?s (Loaded i)" r "Admitted i" ?g] idle by (simp add: request_step_def worker_acquire_def)
  moreover have "gateway_step (?t (Admitted i)) (?t (Serving i))"
    using gateway_step.request[of "?t (Admitted i)" r "Serving i" ?g] Some by (simp add: request_step_def)
  ultimately have "(gateway_step ^^ 3) s (?t (Serving i))"
    by (auto simp: numeral_3_eq_3 relcompp.simps)
  then show ?thesis unfolding Some option.case by (intro exI[of _ "?t (Serving i)"]) auto
qed

theorem active_worker_serves_witness:
  "\<exists>s'. (gateway_step ^^ 3) admitted_then_replaced s' \<and> gs_phase s' 9 = Serving 1 \<and>
     w_requests (gw_workers (gs_gateway s') 1) = 1"
  using active_worker_serves[OF admitted_then_replaced_reachable, of 9]
  by (simp add: admitted_then_replaced_def new_worker_def)

lemma drain_positive: "0 < sc_drain (with_defaults c)"
  by (simp add: with_defaults_def)

text \<open>C38: \<open>stopWorker\<close> with the defaults of \<open>Start\<close> applied: the signals go out in the order
  terminate, interrupt, kill; the first is not sent while requests are open, unless the grace (two
  seconds or half the drain timeout) is over; the interrupt follows within one drain timeout; the process is killed only if
  it has not exited one drain timeout after the interrupt; and all of it is over after two seconds and
  two drain timeouts, whatever the worker does.\<close>

theorem stop_worker_bounded:
  assumes "c = with_defaults c0" and "\<And>d. drained = Some d \<Longrightarrow> 0 \<le> d"
    and "sent = stop_worker c drained exited"
  shows "\<exists>t1 t2. sent = [(Terminate, t1), (Interrupt, t2)] @
      (if \<exists>x. exited = Some x \<and> x \<le> t2 + sc_drain c then [] else [(Kill, t2 + sc_drain c)]) \<and>
    0 \<le> t1 \<and> t1 \<le> t2 \<and> t2 \<le> t1 + sc_drain c \<and> t2 + sc_drain c \<le> 2000000000 + 2 * sc_drain c \<and>
    (if \<exists>d. drained = Some d \<and> d \<le> min 2000000000 (sc_drain c div 2) then drained = Some t1 \<and> t2 = t1
     else t1 = min 2000000000 (sc_drain c div 2) \<and> (drained = Some t2 \<or> t2 = t1 + sc_drain c))"
proof -
  define t1 where "t1 = before drained (stop_grace c)"
  define t2 where "t2 = max t1 (before drained (t1 + sc_drain c))"
  have d: "0 < sc_drain c" by (simp add: assms(1) drain_positive)
  have 0: "0 \<le> t1" "t1 \<le> 2000000000" "t1 \<le> t2" "t2 \<le> t1 + sc_drain c"
    using assms(2) d by (auto simp: t1_def t2_def before_def stop_grace_def split: option.splits)
  have 1: "sent = [(Terminate, t1), (Interrupt, t2)] @
      (if \<exists>x. exited = Some x \<and> x \<le> t2 + sc_drain c then [] else [(Kill, t2 + sc_drain c)])"
    by (auto simp: assms(3) stop_worker_def Let_def t1_def[symmetric] t2_def[symmetric] split: option.splits)
  have 2: "if \<exists>d. drained = Some d \<and> d \<le> min 2000000000 (sc_drain c div 2) then drained = Some t1 \<and> t2 = t1
     else t1 = min 2000000000 (sc_drain c div 2) \<and> (drained = Some t2 \<or> t2 = t1 + sc_drain c)"
    using d by (cases drained) (auto simp: t1_def t2_def before_def stop_grace_def)
  have 3: "t2 + sc_drain c \<le> 2000000000 + 2 * sc_drain c" using 0 by simp
  show ?thesis by (intro exI[of _ t1] exI[of _ t2] conjI) (fact 1, fact 0, fact 0, fact 0, fact 3, fact 2)
qed

text \<open>A worker that drains after five seconds and never exits: terminated after two, interrupted
  after five, killed after twenty-five.\<close>

theorem stop_worker_bounded_witness:
  "\<exists>t1 t2. stop_worker (with_defaults \<lparr>sc_startup = 0, sc_drain = 0, sc_health = 0\<rparr>) (Some 5000000000) None =
     [(Terminate, t1), (Interrupt, t2), (Kill, t2 + 20000000000)] \<and> t1 = 2000000000 \<and> t2 = 5000000000"
proof -
  let ?c = "with_defaults \<lparr>sc_startup = 0, sc_drain = 0, sc_health = 0\<rparr>"
  have c: "sc_drain ?c = 20000000000" by (simp add: with_defaults_def)
  from stop_worker_bounded[OF refl _ refl, of "Some 5000000000" "\<lparr>sc_startup = 0, sc_drain = 0, sc_health = 0\<rparr>" None]
  obtain t1 t2 where t: "stop_worker ?c (Some 5000000000) None = [(Terminate, t1), (Interrupt, t2), (Kill, t2 + 20000000000)]"
      "t1 = 2000000000" "t2 \<le> t1 + 20000000000" "5000000000 = t2 \<or> t2 = t1 + 20000000000"
    unfolding c by auto
  moreover have "t2 = 5000000000" using t(1) by (simp add: stop_worker_def c before_def stop_grace_def)
  ultimately show ?thesis by blast
qed

section \<open>The environment\<close>

text \<open>The reference: the last entry that sets the name.\<close>

definition setting_of :: "string list \<Rightarrow> string \<Rightarrow> string option" where
  "setting_of entries name = (if name = '''' then None else
     map_of (map (\<lambda>e. (fst (cut CHR ''='' e), the (snd (cut CHR ''='' e)))) (filter (\<lambda>e. CHR ''='' \<in> set e) (rev entries))) name)"

lemma cut_name: "cut c s = (a, b) \<Longrightarrow> c \<notin> set a"
  by (induction c s arbitrary: a b rule: cut.induct) (auto split: if_splits prod.splits)

lemma add_entry_lookup:
  assumes "name \<noteq> ''''"
  shows "map_of (add_entry e vs) name = (if CHR ''='' \<in> set e \<and> fst (cut CHR ''='' e) = name then snd (cut CHR ''='' e) else map_of vs name)"
  using assms cut_None_iff[of "CHR ''=''" e]
  by (auto simp: add_entry_def update_conv' split: prod.splits option.splits if_splits)

lemma add_entries_lookup:
  assumes "name \<noteq> ''''"
  shows "map_of (fold add_entry es vs) name = (case setting_of es name of Some v \<Rightarrow> Some v | None \<Rightarrow> map_of vs name)"
proof (induction es rule: rev_induct)
  case Nil
  show ?case by (simp add: setting_of_def)
next
  case (snoc e es)
  then show ?case
    using assms cut_None_iff[of "CHR ''=''" e]
    by (auto simp: add_entry_lookup setting_of_def split: option.splits)
qed

lemma add_entry_names:
  assumes "distinct (map fst vs)" and "fst ` set vs \<subseteq> {n. n \<noteq> '''' \<and> CHR ''='' \<notin> set n}"
  shows "distinct (map fst (add_entry e vs)) \<and> fst ` set (add_entry e vs) \<subseteq> {n. n \<noteq> '''' \<and> CHR ''='' \<notin> set n}"
proof (cases "cut CHR ''='' e")
  case (Pair name v)
  then show ?thesis
    using assms cut_name[of "CHR ''=''" e]
    by (cases v) (simp_all add: add_entry_def distinct_update dom_update)
qed

lemma add_entries_names:
  "distinct (map fst (fold add_entry es [])) \<and> fst ` set (fold add_entry es []) \<subseteq> {n. n \<noteq> '''' \<and> CHR ''='' \<notin> set n}"
proof (induction es rule: rev_induct)
  case (snoc e es)
  then show ?case by (simp add: add_entry_names)
qed simp

lemma setting_of_append:
  "setting_of (base @ additions) name = (case setting_of additions name of Some v \<Rightarrow> Some v | None \<Rightarrow> setting_of base name)"
  by (auto simp: setting_of_def map_add_def split: option.splits)

text \<open>A worker starts with every name set once, whatever the inherited and the configured
  environment repeat: its own address, the worker mark and the listener descriptor always win, then the
  last configured setting of a name, then the last inherited one; entries without a name or without
  \<open>=\<close> are dropped. (Go lists the map in no particular order; the statement does not depend on one.)\<close>

theorem worker_environment_settings:
  "distinct (map (\<lambda>e. fst (cut CHR ''='' e)) (worker_environment base additions address)) \<and>
   ((name, Some v) \<in> cut CHR ''='' ` set (worker_environment base additions address) \<longleftrightarrow>
     (if name = ''GONVEX_ADDR'' then Some address
      else if name = ''GONVEX_RUNTIME_WORKER'' then Some ''1''
      else if name = ''GONVEX_WORKER_LISTENER_FD'' then Some ''3''
      else case setting_of additions name of Some u \<Rightarrow> Some u | None \<Rightarrow> setting_of base name) = Some v)"
proof -
  define vs where "vs = AList.update ''GONVEX_WORKER_LISTENER_FD'' ''3''
    (AList.update ''GONVEX_RUNTIME_WORKER'' ''1'' (AList.update ''GONVEX_ADDR'' address (fold add_entry (base @ additions) [])))"
  have env: "worker_environment base additions address = map (\<lambda>(n, u). n @ ''='' @ u) vs"
    by (simp only: worker_environment_def vs_def Let_def)
  have names: "distinct (map fst vs)" "fst ` set vs \<subseteq> {n. n \<noteq> '''' \<and> CHR ''='' \<notin> set n}"
    using add_entries_names[of "base @ additions"] unfolding vs_def by (simp_all add: distinct_update dom_update)
  have cut: "cut CHR ''='' (n @ ''='' @ u) = (n, Some u)" if "(n, u) \<in> set vs" for n u
    using that names(2) by (force simp: cut_append)
  have 1: "map (\<lambda>e. fst (cut CHR ''='' e)) (map (\<lambda>(n, u). n @ ''='' @ u) vs) = map fst vs"
    using cut by (auto simp: cut_append)
  have 2: "cut CHR ''='' ` set (map (\<lambda>(n, u). n @ ''='' @ u) vs) = (\<lambda>(n, u). (n, Some u)) ` set vs"
    using cut by (force simp: cut_append)
  have 3: "map_of vs name = (if name = ''GONVEX_ADDR'' then Some address
      else if name = ''GONVEX_RUNTIME_WORKER'' then Some ''1''
      else if name = ''GONVEX_WORKER_LISTENER_FD'' then Some ''3''
      else map_of (fold add_entry (base @ additions) []) name)"
    unfolding vs_def by (simp add: update_conv')
  have 4: "map_of (fold add_entry (base @ additions) []) name = setting_of (base @ additions) name"
  proof (cases "name = ''''")
    case True
    then have "name \<notin> fst ` set (fold add_entry (base @ additions) [])"
      using add_entries_names[of "base @ additions"] by auto
    then show ?thesis using True by (metis map_of_eq_None_iff setting_of_def)
  next
    case False
    then show ?thesis using add_entries_lookup[OF False, of "base @ additions" "[]"] by (simp split: option.splits)
  qed
  have "(name, Some v) \<in> (\<lambda>(n, u). (n, Some u)) ` set vs \<longleftrightarrow> map_of vs name = Some v"
    using names(1) by (force simp: image_iff)
  then show ?thesis unfolding env 1 2 using names(1) 3 4 by (simp add: setting_of_append)
qed

text \<open>The descriptor the gateway announces is one the worker accepts.\<close>

lemma announced_descriptor: "inherited_fd ''3'' = Ok (Some 3)"
  by code_simp

end
