(* ===== verification/Query_Cache.thy ===== *)
theory Query_Cache
  imports Gonvex_Prelude
begin

text \<open>
  The cache of query results and of table rows in Valkey (\<open>cache.go\<close>) and its use:
  \<open>executeTenantQueryForCallerCached\<close> and \<open>queryCacheWriteDecision\<close> of \<open>ws.go\<close>, \<open>handleRows\<close>
  of \<open>server.go\<close>. Every table has a generation counter; the counters are part of the keys,
  so incrementing one makes the results that depend on its table unreachable. SHA-256
  (in hexadecimal, and its first half) is a parameter, as are the database and the queries.
\<close>

section \<open>Keys\<close>

definition cache_scope :: "string \<Rightarrow> string \<Rightarrow> string \<times> string" where
  "cache_scope project tenant =
    (let p = (if project = '''' then ''default'' else project)
     in (p, if tenant = '''' then p else tenant))"

definition query_cache_tables :: "string list \<Rightarrow> string list" where
  "query_cache_tables tables =
    sort (remdups (filter (\<lambda>t. t \<noteq> '''' \<and> t \<noteq> ''*'') (map trim_space tables)))"

text \<open>\<open>h12\<close> is \<open>cacheKeyPart\<close>, \<open>h\<close> the whole hash.\<close>

definition query_generation_key :: "(string \<Rightarrow> string) \<Rightarrow> string \<Rightarrow> string \<Rightarrow> string \<Rightarrow> string" where
  "query_generation_key h12 project tenant table = (case cache_scope project tenant of (p, t) \<Rightarrow>
     ''gonvex:queries:v2:generation:'' @ h12 p @ '':'' @ h12 t @ '':'' @ h12 table)"

definition rows_generation_key :: "(string \<Rightarrow> string) \<Rightarrow> string \<Rightarrow> string \<Rightarrow> string \<Rightarrow> string" where
  "rows_generation_key h12 project tenant table = (case cache_scope project tenant of (p, t) \<Rightarrow>
     ''gonvex:rows:v2:generation:'' @ h12 p @ '':'' @ h12 t @ '':'' @ h12 table)"

text \<open>The text of a counter: that of the number, or of Go's nil when there is none.\<close>

definition counter_text :: "nat option \<Rightarrow> string" where
  "counter_text c = (case c of None \<Rightarrow> ''<nil>'' | Some n \<Rightarrow> int_dec (int n))"

definition generation_text :: "string \<Rightarrow> (string \<Rightarrow> nat option) \<Rightarrow> string list \<Rightarrow> string" where
  "generation_text boot counters keys =
    join_with [CHR 0x00] ((''boot='' @ boot) # map (\<lambda>k. k @ ''='' @ counter_text (counters k)) keys)"

definition query_generation :: "(string \<Rightarrow> string) \<Rightarrow> string \<Rightarrow> (string \<Rightarrow> nat option) \<Rightarrow> string \<Rightarrow> string \<Rightarrow> string list \<Rightarrow> string" where
  "query_generation h12 boot counters project tenant tables =
    generation_text boot counters (map (query_generation_key h12 project tenant) (''*'' # query_cache_tables tables))"

definition rows_generation :: "(string \<Rightarrow> string) \<Rightarrow> string \<Rightarrow> (string \<Rightarrow> nat option) \<Rightarrow> string \<Rightarrow> string \<Rightarrow> string \<Rightarrow> string" where
  "rows_generation h12 boot counters project tenant table =
    generation_text boot counters (map (rows_generation_key h12 project tenant) [''*'', table])"

definition query_key :: "(string \<Rightarrow> string) \<Rightarrow> (string \<Rightarrow> string) \<Rightarrow> string \<Rightarrow> string \<Rightarrow> string \<Rightarrow> string \<Rightarrow> string \<Rightarrow> string \<Rightarrow> string" where
  "query_key h12 h project tenant generation scope path args = (case cache_scope project tenant of (p, t) \<Rightarrow>
     ''gonvex:queries:v2:'' @ h12 p @ '':'' @ h12 t @ '':'' @ h12 generation @ '':'' @
     h (join_with [CHR 0x00] [scope, path, args]))"

definition rows_key :: "(string \<Rightarrow> string) \<Rightarrow> (string \<Rightarrow> string) \<Rightarrow> string \<Rightarrow> string \<Rightarrow> string \<Rightarrow> string \<Rightarrow> string \<Rightarrow> string" where
  "rows_key h12 h generation project tenant table query = (case cache_scope project tenant of (p, t) \<Rightarrow>
     ''gonvex:rows:v2:'' @ p @ '':'' @ t @ '':'' @ table @ '':'' @ h12 generation @ '':'' @ h query)"

section \<open>Invalidation\<close>

definition incr :: "(string \<Rightarrow> nat option) \<Rightarrow> string \<Rightarrow> (string \<Rightarrow> nat option)" where
  "incr counters k = counters(k := Some (case counters k of None \<Rightarrow> 1 | Some n \<Rightarrow> n + 1))"

definition invalidated_tables :: "string list \<Rightarrow> string list" where
  "invalidated_tables tables = (case query_cache_tables tables of [] \<Rightarrow> [''*''] | ts \<Rightarrow> ts)"

definition invalidate_queries :: "(string \<Rightarrow> string) \<Rightarrow> string \<Rightarrow> string \<Rightarrow> string list \<Rightarrow> (string \<Rightarrow> nat option) \<Rightarrow> (string \<Rightarrow> nat option)" where
  "invalidate_queries h12 project tenant tables counters =
    fold (\<lambda>t c. incr c (query_generation_key h12 project tenant t)) (invalidated_tables tables) counters"

definition invalidate_rows :: "(string \<Rightarrow> string) \<Rightarrow> string \<Rightarrow> string \<Rightarrow> string \<Rightarrow> (string \<Rightarrow> nat option) \<Rightarrow> (string \<Rightarrow> nat option)" where
  "invalidate_rows h12 project tenant table counters =
    incr counters (rows_generation_key h12 project tenant (if trim_space table = '''' then ''*'' else table))"

section \<open>What is written\<close>

text \<open>The dynamic type of a result, as far as the decision looks at it.\<close>

datatype go_result = RNil | RList nat | RMap "(string \<times> go_result) list" | ROther

record write_choice =
  wc_store :: bool
  wc_ttl :: int

text \<open>In seconds; 0 stands for the configured time to live.\<close>

definition empty_result_ttl :: int where "empty_result_ttl = 15"

definition member :: "(string \<times> go_result) list \<Rightarrow> string \<Rightarrow> go_result" where
  "member m k = (case map_of m k of None \<Rightarrow> RNil | Some r \<Rightarrow> r)"

fun is_empty_list :: "go_result \<Rightarrow> bool" where
  "is_empty_list RNil \<longleftrightarrow> True"
| "is_empty_list (RList n) \<longleftrightarrow> n = 0"
| "is_empty_list _ \<longleftrightarrow> False"

fun is_empty_query_result :: "go_result \<Rightarrow> bool" where
  "is_empty_query_result RNil \<longleftrightarrow> True"
| "is_empty_query_result (RList n) \<longleftrightarrow> n = 0"
| "is_empty_query_result (RMap m) \<longleftrightarrow> (case map_of m ''page'' of Some page \<Rightarrow> is_empty_list page | None \<Rightarrow> False)"
| "is_empty_query_result ROther \<longleftrightarrow> False"

fun is_poisoned_reference_data :: "go_result \<Rightarrow> bool" where
  "is_poisoned_reference_data (RMap m) \<longleftrightarrow>
     is_empty_list (member m ''statuses'') \<and> is_empty_list (member m ''priorities'') \<and>
     list_ex (\<lambda>k. \<not> is_empty_list (member m k)) [''workspaces'', ''teams'', ''categories'', ''templates'', ''users'']"
| "is_poisoned_reference_data _ \<longleftrightarrow> False"

fun is_empty_reference_data :: "go_result \<Rightarrow> bool" where
  "is_empty_reference_data (RMap m) \<longleftrightarrow> is_empty_list (member m ''statuses'') \<and> is_empty_list (member m ''priorities'')"
| "is_empty_reference_data _ \<longleftrightarrow> True"

definition query_cache_write_decision :: "string \<Rightarrow> go_result \<Rightarrow> write_choice" where
  "query_cache_write_decision path r =
    (if path = ''bulk.allReferenceData'' then
       if is_poisoned_reference_data r then \<lparr>wc_store = False, wc_ttl = 0\<rparr>
       else if is_empty_reference_data r then \<lparr>wc_store = True, wc_ttl = empty_result_ttl\<rparr>
       else \<lparr>wc_store = True, wc_ttl = 0\<rparr>
     else if r = RNil then \<lparr>wc_store = False, wc_ttl = 0\<rparr>
     else if is_empty_query_result r then \<lparr>wc_store = True, wc_ttl = empty_result_ttl\<rparr>
     else \<lparr>wc_store = True, wc_ttl = 0\<rparr>)"

definition effective_ttl :: "int \<Rightarrow> int \<Rightarrow> int" where
  "effective_ttl configured ttl = (if ttl \<le> 0 then configured else ttl)"

section \<open>A cached execution\<close>

record cached_query =
  qq_project :: string
  qq_tenant :: string
  qq_scope :: string
  qq_path :: string
  qq_args :: string
  qq_tables :: "string list"
  qq_ephemeral :: bool
  qq_reason :: string

definition generation_of :: "(string \<Rightarrow> string) \<Rightarrow> string \<Rightarrow> (string \<Rightarrow> nat option) \<Rightarrow> cached_query \<Rightarrow> string" where
  "generation_of h12 boot counters q = query_generation h12 boot counters (qq_project q) (qq_tenant q) (qq_tables q)"

definition cache_key_of :: "(string \<Rightarrow> string) \<Rightarrow> (string \<Rightarrow> string) \<Rightarrow> cached_query \<Rightarrow> string \<Rightarrow> string" where
  "cache_key_of h12 h q generation = query_key h12 h (qq_project q) (qq_tenant q) generation (qq_scope q) (qq_path q) (qq_args q)"

text \<open>What an answer depends on beside the database; the scope stands for the caller and the code.\<close>

type_synonym identity = "(string \<times> string) \<times> string \<times> string \<times> string"

definition identity_of :: "cached_query \<Rightarrow> identity" where
  "identity_of q = (cache_scope (qq_project q) (qq_tenant q), qq_scope q, qq_path q, qq_args q)"

text \<open>
  A table of a tenant's database and its version, the number of commits that wrote it; a
  query reads each table at some version. \<open>marks\<close> remembers the versions at the moment a
  counter got its value. The \<open>need\<close> of an execution are the versions at which its tables
  had last been invalidated when it read the generation; it is not part of the program.
\<close>

type_synonym place = "string \<times> string \<times> string"
type_synonym versions = "place \<Rightarrow> nat"

definition place_of :: "cached_query \<Rightarrow> string \<Rightarrow> place" where
  "place_of q table = (case cache_scope (qq_project q) (qq_tenant q) of (p, t) \<Rightarrow> (p, t, table))"

record cache_state =
  cs_db :: versions
  cs_counters :: "string \<Rightarrow> nat option"
  cs_entries :: "string \<Rightarrow> string option"
  cs_marks :: "string \<Rightarrow> nat option \<Rightarrow> versions"

definition marked :: "(string \<Rightarrow> string) \<Rightarrow> (string \<Rightarrow> nat option \<Rightarrow> versions) \<Rightarrow> (string \<Rightarrow> nat option) \<Rightarrow> cached_query \<Rightarrow> string \<Rightarrow> nat" where
  "marked h12 marks counters q table =
    (let at = (\<lambda>k. marks k (counters k) (place_of q table))
     in max (at (query_generation_key h12 (qq_project q) (qq_tenant q) ''*''))
            (at (query_generation_key h12 (qq_project q) (qq_tenant q) table)))"

text \<open>The phases of \<open>executeTenantQueryForCallerCached\<close>; the option is \<open>cacheKey\<close> with its generation.\<close>

datatype exec_phase =
    Exec_Start
  | Keyed string "string \<Rightarrow> nat"
  | Running "string option" "string \<Rightarrow> nat" versions
  | Ran "string option" "string \<Rightarrow> nat" versions
  | Storing string "string \<Rightarrow> nat" versions
  | Answered string "string \<Rightarrow> nat"
  | Exec_Failed

text \<open>What Valkey or the database replies; \<open>Unreadable\<close> is an entry that does not decode, or a result that does not encode.\<close>

datatype cache_reply = Valkey_Ok | Valkey_Failed | Unreadable | Rows_At versions | Query_Error

definition uses_cache :: "bool \<Rightarrow> cached_query \<Rightarrow> bool" where
  "uses_cache enabled q \<longleftrightarrow> trim_space (qq_scope q) \<noteq> '''' \<and> enabled \<and> \<not> qq_ephemeral q"

fun replied :: "cache_reply \<Rightarrow> bool" where
  "replied Valkey_Ok \<longleftrightarrow> True"
| "replied _ \<longleftrightarrow> False"

lemma replied_iff [simp]: "replied reply \<longleftrightarrow> reply = Valkey_Ok"
  by (cases reply) auto

fun exec_step :: "(string \<Rightarrow> string) \<Rightarrow> (string \<Rightarrow> string) \<Rightarrow> string \<Rightarrow> bool \<Rightarrow> (identity \<Rightarrow> versions \<Rightarrow> string) \<Rightarrow>
    (string \<Rightarrow> go_result) \<Rightarrow> cached_query \<Rightarrow> exec_phase \<Rightarrow> cache_reply \<Rightarrow> cache_state \<Rightarrow> (exec_phase \<times> cache_state) option" where
  "exec_step h12 h boot enabled answer shape q Exec_Start reply s =
    (let need = marked h12 (cs_marks s) (cs_counters s) q
     in if uses_cache enabled q \<and> replied reply then Some (Keyed (generation_of h12 boot (cs_counters s) q) need, s)
        else Some (Running None need (cs_db s), s))"
| "exec_step h12 h boot enabled answer shape q (Keyed generation need) reply s =
    (if qq_reason q = ''invalidate'' then Some (Running (Some generation) need (cs_db s), s)
     else case cs_entries s (cache_key_of h12 h q generation) of
       Some payload \<Rightarrow> if replied reply then Some (Answered payload need, s) else Some (Running (Some generation) need (cs_db s), s)
     | None \<Rightarrow> Some (Running (Some generation) need (cs_db s), s))"
| "exec_step h12 h boot enabled answer shape q (Running generation need low) (Rows_At versions) s = Some (Ran generation need versions, s)"
| "exec_step h12 h boot enabled answer shape q (Running generation need low) Query_Error s = Some (Exec_Failed, s)"
| "exec_step h12 h boot enabled answer shape q (Ran generation need versions) reply s =
    (case generation of
       None \<Rightarrow> Some (Answered (answer (identity_of q) versions) need, s)
     | Some g \<Rightarrow>
        if qq_reason q \<noteq> ''invalidate'' \<and> replied reply \<and> generation_of h12 boot (cs_counters s) q = g \<and>
           wc_store (query_cache_write_decision (qq_path q) (shape (answer (identity_of q) versions)))
        then Some (Storing g need versions, s) else Some (Answered (answer (identity_of q) versions) need, s))"
| "exec_step h12 h boot enabled answer shape q (Storing g need versions) reply s =
    Some (Answered (answer (identity_of q) versions) need,
      if replied reply then s\<lparr>cs_entries := (cs_entries s)(cache_key_of h12 h q g := Some (answer (identity_of q) versions))\<rparr> else s)"
| "exec_step h12 h boot enabled answer shape q _ _ s = None"

text \<open>An invalidation increments the counters one by one, each with its mark.\<close>

definition mark_incr :: "string \<Rightarrow> cache_state \<Rightarrow> cache_state" where
  "mark_incr k s = (let c = incr (cs_counters s) k in
     s\<lparr>cs_counters := c, cs_marks := (cs_marks s)(k := (cs_marks s k)(c k := cs_db s))\<rparr>)"

definition invalidate :: "(string \<Rightarrow> string) \<Rightarrow> string \<Rightarrow> string \<Rightarrow> string list \<Rightarrow> cache_state \<Rightarrow> cache_state" where
  "invalidate h12 project tenant tables s =
    fold (\<lambda>t. mark_incr (query_generation_key h12 project tenant t)) (invalidated_tables tables) s"

lemma invalidate_counters: "cs_counters (invalidate h12 project tenant tables s) = invalidate_queries h12 project tenant tables (cs_counters s)"
proof -
  have "cs_counters (fold (\<lambda>t. mark_incr (query_generation_key h12 project tenant t)) ts s) =
      fold (\<lambda>t c. incr c (query_generation_key h12 project tenant t)) ts (cs_counters s)" for ts
    by (induction ts arbitrary: s) (simp_all add: mark_incr_def Let_def)
  then show ?thesis by (simp add: invalidate_def invalidate_queries_def)
qed

text \<open>
  \<open>foreign\<close>: another process, which has its own boot epoch, or the cache of rows writes an entry.
  The pipeline of an invalidation may fail after some of its commands.
\<close>

inductive cache_step :: "(string \<Rightarrow> string) \<Rightarrow> (string \<Rightarrow> string) \<Rightarrow> string \<Rightarrow> bool \<Rightarrow> (identity \<Rightarrow> versions \<Rightarrow> string) \<Rightarrow>
    (string \<Rightarrow> go_result) \<Rightarrow> (nat \<Rightarrow> cached_query) \<Rightarrow> (nat \<Rightarrow> exec_phase) \<times> cache_state \<Rightarrow> (nat \<Rightarrow> exec_phase) \<times> cache_state \<Rightarrow> bool"
  for h12 h boot enabled answer shape queries where
  execution: "exec_step h12 h boot enabled answer shape (queries i) (ph i) reply s = Some (p, s') \<Longrightarrow>
    (\<And>g need low v. ph i = Running g need low \<Longrightarrow> reply = Rows_At v \<Longrightarrow> low \<le> v \<and> v \<le> cs_db s) \<Longrightarrow>
    cache_step h12 h boot enabled answer shape queries (ph, s) (ph(i := p), s')"
| commit: "cache_step h12 h boot enabled answer shape queries (ph, s) (ph, s\<lparr>cs_db := (cs_db s)(l := cs_db s l + 1)\<rparr>)"
| increment: "cache_step h12 h boot enabled answer shape queries (ph, s) (ph, mark_incr (query_generation_key h12 project tenant table) s)"
| expiry: "cache_step h12 h boot enabled answer shape queries (ph, s) (ph, s\<lparr>cs_entries := (cs_entries s)(k := None)\<rparr>)"
| foreign: "(\<And>q c. k \<noteq> cache_key_of h12 h q (generation_of h12 boot c q)) \<Longrightarrow>
    cache_step h12 h boot enabled answer shape queries (ph, s) (ph, s\<lparr>cs_entries := (cs_entries s)(k := Some v)\<rparr>)"

text \<open>A process that has just started: any entries of others, any counters.\<close>

definition cache_start :: "(string \<Rightarrow> string) \<Rightarrow> (string \<Rightarrow> string) \<Rightarrow> string \<Rightarrow> (nat \<Rightarrow> exec_phase) \<times> cache_state \<Rightarrow> bool" where
  "cache_start h12 h boot x \<longleftrightarrow> (case x of (ph, s) \<Rightarrow> ph = (\<lambda>_. Exec_Start) \<and> (\<forall>k c. cs_marks s k c = (\<lambda>_. 0)) \<and>
     (\<forall>q c. cs_entries s (cache_key_of h12 h q (generation_of h12 boot c q)) = None))"

section \<open>Keys determine what they were made of\<close>

definition hex_hash :: "(string \<Rightarrow> string) \<Rightarrow> bool" where
  "hex_hash h \<longleftrightarrow> inj h \<and> (\<forall>s. set (h s) \<subseteq> set ''0123456789abcdef'')"

definition plain_query :: "cached_query \<Rightarrow> bool" where
  "plain_query q \<longleftrightarrow> CHR 0x00 \<notin> set (qq_scope q) \<and> CHR 0x00 \<notin> set (qq_path q)"

lemma hex_hash_chars: "hex_hash h \<Longrightarrow> c \<notin> set ''0123456789abcdef'' \<Longrightarrow> c \<notin> set (h s)"
  unfolding hex_hash_def by blast

lemma hex_hash_inj: "hex_hash h \<Longrightarrow> h a = h b \<longleftrightarrow> a = b"
  by (auto simp: hex_hash_def inj_eq)

lemma sep_inj: "(c::char) \<notin> set a \<Longrightarrow> c \<notin> set a' \<Longrightarrow> a @ c # b = a' @ c # b' \<longleftrightarrow> a = a' \<and> b = b'"
proof (rule iffI)
  assume a: "c \<notin> set a" "c \<notin> set a'" and "a @ c # b = a' @ c # b'"
  then have "cut c (a @ c # b) = cut c (a' @ c # b')" by (simp only:)
  then show "a = a' \<and> b = b'" unfolding cut_append[OF a(1)] cut_append[OF a(2)] by simp
qed simp

lemma counter_text_no_nul: "CHR 0x00 \<notin> set (counter_text c)"
  using nat_dec_digits[of "CHR 0x00"] by (auto simp: counter_text_def int_dec_def digit_value_def split: option.splits)

lemma counter_text_inj: "counter_text a = counter_text b \<longleftrightarrow> a = b"
proof -
  have "nat_dec n \<noteq> ''<nil>''" for n
    using nat_dec_digits[of "CHR ''<''" n] by (auto simp: digit_value_def)
  then show ?thesis
    using nat_dec_inj by (auto simp: counter_text_def int_dec_def split: option.splits) metis+
qed

lemma generation_key_chars:
  assumes "hex_hash h12"
  shows "CHR ''='' \<notin> set (query_generation_key h12 p t tab)" and "CHR 0x00 \<notin> set (query_generation_key h12 p t tab)"
  using hex_hash_chars[OF assms] by (auto simp: query_generation_key_def split: prod.splits)

lemma generation_key_inj:
  assumes "hex_hash h12"
  shows "query_generation_key h12 p t tab = query_generation_key h12 p t tab' \<longleftrightarrow> tab = tab'"
  using hex_hash_inj[OF assms] by (auto simp: query_generation_key_def split: prod.splits)

lemma generation_parts:
  assumes "hex_hash h12" and "CHR 0x00 \<notin> set boot" and "generation_of h12 boot c q = generation_of h12 boot c' q'"
  defines "keys \<equiv> \<lambda>q. map (query_generation_key h12 (qq_project q) (qq_tenant q)) (''*'' # query_cache_tables (qq_tables q))"
  shows "map (\<lambda>k. k @ ''='' @ counter_text (c k)) (keys q) = map (\<lambda>k. k @ ''='' @ counter_text (c' k)) (keys q')"
proof -
  let ?parts = "\<lambda>c q. (''boot='' @ boot) # map (\<lambda>k. k @ ''='' @ counter_text (c k)) (keys q)"
  have no_nul: "CHR 0x00 \<notin> set s" if "s \<in> set (?parts c q)" for s c q
    using that assms(2) generation_key_chars(2)[OF assms(1)] counter_text_no_nul by (auto simp: keys_def)
  have split: "split_on (CHR 0x00) (join_with [CHR 0x00] (?parts c q)) = ?parts c q" for c q
    using no_nul[of _ c q] by (intro split_on_join) blast+
  have gen: "generation_of h12 boot c q = join_with [CHR 0x00] (?parts c q)" for c q
    by (simp only: generation_of_def query_generation_def generation_text_def keys_def)
  have "?parts c q = ?parts c' q'"
    using split[of c q] split[of c' q'] assms(3) unfolding gen by metis
  then show ?thesis by simp
qed

lemma generation_counters:
  assumes "hex_hash h12" and "CHR 0x00 \<notin> set boot" and "generation_of h12 boot c q = generation_of h12 boot c' q"
    and "t \<in> set (''*'' # query_cache_tables (qq_tables q))"
  shows "c (query_generation_key h12 (qq_project q) (qq_tenant q) t) = c' (query_generation_key h12 (qq_project q) (qq_tenant q) t)"
  using generation_parts[OF assms(1-3)] assms(4) by (auto simp: counter_text_inj)

lemma generation_tables:
  assumes "hex_hash h12" and "CHR 0x00 \<notin> set boot" and "generation_of h12 boot c q = generation_of h12 boot c' q'"
    and same: "cache_scope (qq_project q) (qq_tenant q) = cache_scope (qq_project q') (qq_tenant q')"
  shows "query_cache_tables (qq_tables q) = query_cache_tables (qq_tables q')"
proof -
  let ?key = "query_generation_key h12 (qq_project q) (qq_tenant q)"
  have key: "query_generation_key h12 (qq_project q') (qq_tenant q') = ?key"
    using same by (auto simp: query_generation_key_def)
  have cut: "fst (cut CHR ''='' (?key t @ ''='' @ x)) = ?key t" for t x
    using generation_key_chars(1)[OF assms(1)] by (simp add: cut_append)
  have "map (\<lambda>p. fst (cut CHR ''='' p)) (map (\<lambda>k. k @ ''='' @ counter_text (c k)) (map ?key (query_cache_tables (qq_tables q)))) =
      map (\<lambda>p. fst (cut CHR ''='' p)) (map (\<lambda>k. k @ ''='' @ counter_text (c' k)) (map ?key (query_cache_tables (qq_tables q'))))"
    using generation_parts[OF assms(1-3)] unfolding key by simp
  then have "map ?key (query_cache_tables (qq_tables q)) = map ?key (query_cache_tables (qq_tables q'))"
    using cut by (simp add: comp_def)
  then show ?thesis using generation_key_inj[OF assms(1)] by (metis inj_map_eq_map injI)
qed

lemma key_determines:
  assumes "hex_hash h12" and "hex_hash h" and "plain_query q" and "plain_query q'"
    and "cache_key_of h12 h q g = cache_key_of h12 h q' g'"
  shows "identity_of q = identity_of q' \<and> g = g'"
proof -
  obtain p t p' t' where pt: "cache_scope (qq_project q) (qq_tenant q) = (p, t)" "cache_scope (qq_project q') (qq_tenant q') = (p', t')"
    by (meson surj_pair)
  have colon: "CHR '':'' \<notin> set (h12 s)" for s by (rule hex_hash_chars[OF assms(1)]) simp
  have "h12 p = h12 p' \<and> h12 t = h12 t' \<and> h12 g = h12 g' \<and>
      h (qq_scope q @ CHR 0x00 # qq_path q @ CHR 0x00 # qq_args q) = h (qq_scope q' @ CHR 0x00 # qq_path q' @ CHR 0x00 # qq_args q')"
    using assms(5) colon by (simp add: cache_key_of_def query_key_def pt sep_inj)
  then show ?thesis
    using assms(3,4) by (simp add: hex_hash_inj[OF assms(1)] hex_hash_inj[OF assms(2)] identity_of_def pt plain_query_def sep_inj)
qed

section \<open>The invariant\<close>

abbreviation tables_of :: "cached_query \<Rightarrow> string set" where
  "tables_of q \<equiv> set (query_cache_tables (qq_tables q))"

definition grown :: "(string \<Rightarrow> nat option) \<Rightarrow> (string \<Rightarrow> nat option) \<Rightarrow> bool" where
  "grown c d \<longleftrightarrow> (\<forall>k n. c k = Some n \<longrightarrow> (\<exists>m. d k = Some m \<and> n \<le> m))"

text \<open>The generation was the current one once, and \<open>need\<close> are the marks of that moment.\<close>

definition generation_known :: "(string \<Rightarrow> string) \<Rightarrow> string \<Rightarrow> cache_state \<Rightarrow> cached_query \<Rightarrow> string \<Rightarrow> (string \<Rightarrow> nat) \<Rightarrow> bool" where
  "generation_known h12 boot s q g need \<longleftrightarrow> (\<exists>c. grown c (cs_counters s) \<and> g = generation_of h12 boot c q \<and>
     (\<forall>t\<in>tables_of q. need t = marked h12 (cs_marks s) c q t))"

definition new_enough :: "cached_query \<Rightarrow> (string \<Rightarrow> nat) \<Rightarrow> versions \<Rightarrow> cache_state \<Rightarrow> bool" where
  "new_enough q need v s \<longleftrightarrow> v \<le> cs_db s \<and> (\<forall>t\<in>tables_of q. need t \<le> v (place_of q t))"

fun phase_ok :: "(string \<Rightarrow> string) \<Rightarrow> string \<Rightarrow> (identity \<Rightarrow> versions \<Rightarrow> string) \<Rightarrow> cache_state \<Rightarrow> cached_query \<Rightarrow> exec_phase \<Rightarrow> bool" where
  "phase_ok h12 boot answer s q (Keyed g need) \<longleftrightarrow> generation_known h12 boot s q g need"
| "phase_ok h12 boot answer s q (Running g need low) \<longleftrightarrow> (g \<noteq> None \<longrightarrow> generation_known h12 boot s q (the g) need) \<and> new_enough q need low s"
| "phase_ok h12 boot answer s q (Ran g need v) \<longleftrightarrow> (g \<noteq> None \<longrightarrow> generation_known h12 boot s q (the g) need) \<and> new_enough q need v s"
| "phase_ok h12 boot answer s q (Storing g need v) \<longleftrightarrow> generation_known h12 boot s q g need \<and> new_enough q need v s"
| "phase_ok h12 boot answer s q (Answered payload need) \<longleftrightarrow> (\<exists>v. payload = answer (identity_of q) v \<and> new_enough q need v s)"
| "phase_ok h12 boot answer s q _ \<longleftrightarrow> True"

definition entry_ok :: "(string \<Rightarrow> string) \<Rightarrow> (string \<Rightarrow> string) \<Rightarrow> string \<Rightarrow> (identity \<Rightarrow> versions \<Rightarrow> string) \<Rightarrow> cache_state \<Rightarrow> string \<Rightarrow> string \<Rightarrow> bool" where
  "entry_ok h12 h boot answer s k payload \<longleftrightarrow> (\<forall>q c. plain_query q \<and> k = cache_key_of h12 h q (generation_of h12 boot c q) \<longrightarrow>
     (\<exists>v need. payload = answer (identity_of q) v \<and> new_enough q need v s \<and> generation_known h12 boot s q (generation_of h12 boot c q) need))"

definition cache_ok :: "(string \<Rightarrow> string) \<Rightarrow> (string \<Rightarrow> string) \<Rightarrow> string \<Rightarrow> (identity \<Rightarrow> versions \<Rightarrow> string) \<Rightarrow> (nat \<Rightarrow> cached_query) \<Rightarrow>
    (nat \<Rightarrow> exec_phase) \<times> cache_state \<Rightarrow> bool" where
  "cache_ok h12 h boot answer queries x \<longleftrightarrow> (case x of (ph, s) \<Rightarrow>
     (\<forall>i. phase_ok h12 boot answer s (queries i) (ph i)) \<and> (\<forall>k payload. cs_entries s k = Some payload \<longrightarrow> entry_ok h12 h boot answer s k payload) \<and>
     (\<forall>k c. cs_marks s k c \<le> cs_db s))"

text \<open>What a step may do to counters, marks and the database without harming what was established.\<close>

definition later :: "cache_state \<Rightarrow> cache_state \<Rightarrow> bool" where
  "later s s' \<longleftrightarrow> cs_db s \<le> cs_db s' \<and> grown (cs_counters s) (cs_counters s') \<and>
     (\<forall>c k. grown c (cs_counters s) \<longrightarrow> cs_marks s' k (c k) = cs_marks s k (c k))"

lemma grown_refl [simp]: "grown c c"
  by (simp add: grown_def)

lemma grown_trans: "grown a b \<Longrightarrow> grown b c \<Longrightarrow> grown a c"
  unfolding grown_def by (meson order_trans)

lemma later_known: "later s s' \<Longrightarrow> generation_known h12 boot s q g need \<Longrightarrow> generation_known h12 boot s' q g need"
proof -
  assume l: "later s s'" and "generation_known h12 boot s q g need"
  then obtain c where c: "grown c (cs_counters s)" "g = generation_of h12 boot c q" "\<forall>t\<in>tables_of q. need t = marked h12 (cs_marks s) c q t"
    unfolding generation_known_def by blast
  moreover have "marked h12 (cs_marks s') c q = marked h12 (cs_marks s) c q"
    using l c(1) by (intro ext) (simp add: marked_def later_def)
  moreover have "grown c (cs_counters s')" using l c(1) by (auto simp: later_def intro: grown_trans)
  ultimately show ?thesis unfolding generation_known_def by auto
qed

lemma later_enough: "later s s' \<Longrightarrow> new_enough q need v s \<Longrightarrow> new_enough q need v s'"
  unfolding new_enough_def later_def by (meson order_trans)

lemma later_phase: "later s s' \<Longrightarrow> phase_ok h12 boot answer s q p \<Longrightarrow> phase_ok h12 boot answer s' q p"
  by (cases p) (use later_known later_enough in \<open>simp; blast\<close>)+

lemma later_entry: "later s s' \<Longrightarrow> entry_ok h12 h boot answer s k payload \<Longrightarrow> entry_ok h12 h boot answer s' k payload"
proof -
  assume l: "later s s'" and e: "entry_ok h12 h boot answer s k payload"
  show ?thesis
    unfolding entry_ok_def
  proof (intro allI impI)
    fix q c
    assume "plain_query q \<and> k = cache_key_of h12 h q (generation_of h12 boot c q)"
    with e obtain v need where "payload = answer (identity_of q) v" "new_enough q need v s"
      "generation_known h12 boot s q (generation_of h12 boot c q) need"
      unfolding entry_ok_def by blast
    then show "\<exists>v need. payload = answer (identity_of q) v \<and> new_enough q need v s' \<and>
        generation_known h12 boot s' q (generation_of h12 boot c q) need"
      using later_known[OF l] later_enough[OF l] by blast
  qed
qed

lemma later_same: "cs_db s' = cs_db s \<Longrightarrow> cs_counters s' = cs_counters s \<Longrightarrow> cs_marks s' = cs_marks s \<Longrightarrow> later s s'"
  by (simp add: later_def)

lemma later_commit: "later s (s\<lparr>cs_db := (cs_db s)(l := cs_db s l + 1)\<rparr>)"
  by (auto simp: later_def le_fun_def)

lemma later_incr: "later s (mark_incr k s)"
proof -
  have "grown (cs_counters s) (incr (cs_counters s) k)"
    by (auto simp: grown_def incr_def)
  moreover have "c k \<noteq> incr (cs_counters s) k k" if "grown c (cs_counters s)" for c
    using that by (cases "c k") (force simp: grown_def incr_def split: option.splits)+
  ultimately show ?thesis by (auto simp: later_def mark_incr_def Let_def)
qed

lemma marks_incr: "\<forall>k c. cs_marks s k c \<le> cs_db s \<Longrightarrow> \<forall>k c. cs_marks (mark_incr j s) k c \<le> cs_db (mark_incr j s)"
  by (simp add: mark_incr_def Let_def)

lemma marked_known: "generation_known h12 boot s q (generation_of h12 boot (cs_counters s) q) (marked h12 (cs_marks s) (cs_counters s) q)"
  unfolding generation_known_def using grown_refl by blast

lemma marked_enough:
  assumes "\<forall>k c. cs_marks s k c \<le> cs_db s"
  shows "new_enough q (marked h12 (cs_marks s) (cs_counters s) q) (cs_db s) s"
proof -
  have "cs_marks s k c (place_of q t) \<le> cs_db s (place_of q t)" for k c t using assms by (meson le_funD)
  then show ?thesis by (simp add: new_enough_def marked_def Let_def)
qed

lemma known_enough:
  assumes "\<forall>k c. cs_marks s k c \<le> cs_db s" and "generation_known h12 boot s q g need"
  shows "new_enough q need (cs_db s) s"
proof -
  have "cs_marks s k c (place_of q t) \<le> cs_db s (place_of q t)" for k c t using assms(1) by (meson le_funD)
  then show ?thesis using assms(2) by (auto simp: new_enough_def generation_known_def marked_def Let_def)
qed

lemma known_unique:
  assumes "hex_hash h12" and "CHR 0x00 \<notin> set boot"
    and "generation_known h12 boot s q g need" and "generation_known h12 boot s q g need'" and "t \<in> tables_of q"
  shows "need t = need' t"
proof -
  obtain c c' where c: "g = generation_of h12 boot c q" "need t = marked h12 (cs_marks s) c q t"
    "g = generation_of h12 boot c' q" "need' t = marked h12 (cs_marks s) c' q t"
    using assms(3-5) unfolding generation_known_def by blast
  have "generation_of h12 boot c q = generation_of h12 boot c' q" using c by simp
  from generation_counters[OF assms(1,2) this] show ?thesis using c assms(5) by (simp add: marked_def)
qed

text \<open>Two queries with the same identity and tables are the same for the cache.\<close>

lemma same_query:
  assumes "identity_of q = identity_of q'" and "query_cache_tables (qq_tables q) = query_cache_tables (qq_tables q')"
  shows "generation_of h12 boot c q = generation_of h12 boot c q'" and "marked h12 m c q t = marked h12 m c q' t"
    and "place_of q t = place_of q' t"
proof -
  have scope: "cache_scope (qq_project q) (qq_tenant q) = cache_scope (qq_project q') (qq_tenant q')"
    using assms(1) by (simp add: identity_of_def)
  have key: "query_generation_key h12 (qq_project q) (qq_tenant q) = query_generation_key h12 (qq_project q') (qq_tenant q')" for h12
    by (rule ext) (simp only: query_generation_key_def scope)
  show "generation_of h12 boot c q = generation_of h12 boot c q'"
    by (simp only: generation_of_def query_generation_def key assms(2))
  show "place_of q t = place_of q' t" by (simp only: place_of_def scope)
  then show "marked h12 m c q t = marked h12 m c q' t" by (simp only: marked_def key)
qed

lemma stored_entry_ok:
  assumes "hex_hash h12" and "hex_hash h" and "CHR 0x00 \<notin> set boot" and "plain_query q0"
    and known: "generation_known h12 boot s q0 g need" and enough: "new_enough q0 need v s"
  shows "entry_ok h12 h boot answer s (cache_key_of h12 h q0 g) (answer (identity_of q0) v)"
  unfolding entry_ok_def
proof (intro allI impI)
  fix q c
  assume a: "plain_query q \<and> cache_key_of h12 h q0 g = cache_key_of h12 h q (generation_of h12 boot c q)"
  then have same: "identity_of q0 = identity_of q" "g = generation_of h12 boot c q"
    using key_determines[OF assms(1,2,4)] by blast+
  obtain c0 where "g = generation_of h12 boot c0 q0" using known by (auto simp: generation_known_def)
  with same have gen: "generation_of h12 boot c0 q0 = generation_of h12 boot c q" by simp
  have "cache_scope (qq_project q0) (qq_tenant q0) = cache_scope (qq_project q) (qq_tenant q)"
    using same(1) by (simp add: identity_of_def)
  note tables = generation_tables[OF assms(1,3) gen this]
  note q = same_query[OF same(1) tables]
  have "generation_known h12 boot s q g need" "new_enough q need v s"
    using known enough unfolding generation_known_def new_enough_def by (simp_all add: q tables)
  then show "\<exists>v' need. answer (identity_of q0) v = answer (identity_of q) v' \<and> new_enough q need v' s \<and>
      generation_known h12 boot s q (generation_of h12 boot c q) need"
    using same by auto
qed

lemma hit_enough:
  assumes "hex_hash h12" and "CHR 0x00 \<notin> set boot" and "plain_query q"
    and "generation_known h12 boot s q g need" and "entry_ok h12 h boot answer s (cache_key_of h12 h q g) payload"
  shows "\<exists>v. payload = answer (identity_of q) v \<and> new_enough q need v s"
proof -
  obtain c where "g = generation_of h12 boot c q" using assms(4) by (auto simp: generation_known_def)
  with assms(3,5) obtain v need' where v: "payload = answer (identity_of q) v" "new_enough q need' v s" "generation_known h12 boot s q g need'"
    unfolding entry_ok_def by blast
  then have "new_enough q need v s"
    using known_unique[OF assms(1,2,4) v(3)] by (simp add: new_enough_def)
  then show ?thesis using v(1) by blast
qed

lemma cache_okI:
  assumes "\<And>i. phase_ok h12 boot answer s (queries i) (ph i)"
    and "\<And>k payload. cs_entries s k = Some payload \<Longrightarrow> entry_ok h12 h boot answer s k payload"
    and "\<And>k c. cs_marks s k c \<le> cs_db s"
  shows "cache_ok h12 h boot answer queries (ph, s)"
  using assms by (simp add: cache_ok_def)

lemma cache_okD:
  assumes "cache_ok h12 h boot answer queries (ph, s)"
  shows "phase_ok h12 boot answer s (queries i) (ph i)"
    and "cs_entries s k = Some payload \<Longrightarrow> entry_ok h12 h boot answer s k payload" and "\<forall>k c. cs_marks s k c \<le> cs_db s"
  using assms by (simp_all add: cache_ok_def)

lemma exec_phase_ok:
  assumes "hex_hash h12" and "CHR 0x00 \<notin> set boot" and "plain_query q"
    and "exec_step h12 h boot enabled answer shape q p0 reply s = Some (p, s')"
    and reads: "\<And>g need low v. p0 = Running g need low \<Longrightarrow> reply = Rows_At v \<Longrightarrow> low \<le> v \<and> v \<le> cs_db s"
    and ok: "phase_ok h12 boot answer s q p0" and marks: "\<forall>k c. cs_marks s k c \<le> cs_db s"
    and entries: "\<And>k payload. cs_entries s k = Some payload \<Longrightarrow> entry_ok h12 h boot answer s k payload"
  shows "phase_ok h12 boot answer s q p"
proof (cases p0)
  case Exec_Start
  then show ?thesis
    using assms(4) marked_known marked_enough[OF marks] by (auto simp: Let_def split: if_splits)
next
  case (Keyed g need)
  show ?thesis
  proof (cases "\<exists>payload. p = Answered payload need \<and> cs_entries s (cache_key_of h12 h q g) = Some payload")
    case True
    with Keyed ok show ?thesis using hit_enough[OF assms(1-3) _ entries] by auto
  next
    case False
    with Keyed assms(4) have "p = Running (Some g) need (cs_db s)" by (auto split: if_splits option.splits)
    with Keyed ok show ?thesis using known_enough[OF marks] by simp
  qed
next
  case (Running g need low)
  have "new_enough q need v s" if "new_enough q need low s" "low \<le> v" "v \<le> cs_db s" for v
  proof -
    have "low (place_of q t) \<le> v (place_of q t)" for t using that(2) by (rule le_funD)
    with that show ?thesis unfolding new_enough_def by (meson order_trans)
  qed
  with Running assms(4) ok reads[OF Running] show ?thesis by (cases reply) auto
next
  case (Ran g need v)
  with assms(4) ok show ?thesis by (auto split: option.splits if_splits)
next
  case (Storing g need v)
  with assms(4) ok show ?thesis by auto
qed (use assms(4) in auto)

lemma exec_state:
  assumes "exec_step h12 h boot enabled answer shape q p0 reply s = Some (p, s')"
  shows "s' = s \<or> (\<exists>g need v. p0 = Storing g need v \<and>
    s' = s\<lparr>cs_entries := (cs_entries s)(cache_key_of h12 h q g := Some (answer (identity_of q) v))\<rparr>)"
  using assms by (cases p0; cases reply) (auto simp: Let_def split: if_splits option.splits)

lemma exec_ok:
  assumes "hex_hash h12" and "hex_hash h" and "CHR 0x00 \<notin> set boot" and "\<And>i. plain_query (queries i)"
    and ok: "cache_ok h12 h boot answer queries (ph, s)"
    and step: "exec_step h12 h boot enabled answer shape (queries i) (ph i) reply s = Some (p, s')"
    and reads: "\<And>g need low v. ph i = Running g need low \<Longrightarrow> reply = Rows_At v \<Longrightarrow> low \<le> v \<and> v \<le> cs_db s"
  shows "cache_ok h12 h boot answer queries (ph(i := p), s')"
proof -
  note ok = cache_okD[OF ok]
  have p: "phase_ok h12 boot answer s (queries i) p"
    by (rule exec_phase_ok[OF assms(1,3,4) step reads ok(1,3,2)])
  from exec_state[OF step] have l: "later s s'" by (auto intro: later_same)
  from exec_state[OF step] have "cs_marks s' = cs_marks s" "cs_db s' = cs_db s" by auto
  moreover have "entry_ok h12 h boot answer s k payload" if "cs_entries s' k = Some payload" for k payload
    using exec_state[OF step] stored_entry_ok[OF assms(1-3,4)] ok(1)[of i] ok(2) that by (auto split: if_splits)
  ultimately show ?thesis
    using ok(3) later_phase[OF l] later_entry[OF l] ok(1) p by (intro cache_okI) auto
qed

text \<open>A step that only moves the shared state on.\<close>

lemma later_ok:
  assumes ok: "cache_ok h12 h boot answer queries (ph, s)" and l: "later s s'" and "\<forall>k c. cs_marks s' k c \<le> cs_db s'"
    and "\<And>k payload. cs_entries s' k = Some payload \<Longrightarrow> cs_entries s k = Some payload \<or> entry_ok h12 h boot answer s' k payload"
  shows "cache_ok h12 h boot answer queries (ph, s')"
  using later_phase[OF l cache_okD(1)[OF ok]] later_entry[OF l cache_okD(2)[OF ok]] assms(3,4) by (intro cache_okI) blast+

definition cache_hypotheses :: "(string \<Rightarrow> string) \<Rightarrow> (string \<Rightarrow> string) \<Rightarrow> string \<Rightarrow> (nat \<Rightarrow> cached_query) \<Rightarrow> bool" where
  "cache_hypotheses h12 h boot queries \<longleftrightarrow> hex_hash h12 \<and> hex_hash h \<and> CHR 0x00 \<notin> set boot \<and> (\<forall>i. plain_query (queries i))"

interpretation query_cache: step_invariant "\<lambda>x. cache_hypotheses h12 h boot queries \<and> cache_start h12 h boot x"
  "cache_step h12 h boot enabled answer shape queries" "\<lambda>x. cache_hypotheses h12 h boot queries \<and> cache_ok h12 h boot answer queries x"
  for h12 h boot enabled answer shape queries
proof
  fix x
  assume a: "cache_hypotheses h12 h boot queries \<and> cache_start h12 h boot x"
  obtain ph s where x: "x = (ph, s)" by (cases x)
  have "cache_ok h12 h boot answer queries (ph, s)"
    using a unfolding x cache_start_def by (intro cache_okI) (auto simp: entry_ok_def le_fun_def)
  with a x show "cache_hypotheses h12 h boot queries \<and> cache_ok h12 h boot answer queries x" by simp
next
  fix x x'
  assume a: "cache_hypotheses h12 h boot queries \<and> cache_ok h12 h boot answer queries x"
    and step: "cache_step h12 h boot enabled answer shape queries x x'"
  note hyp = a[THEN conjunct1, unfolded cache_hypotheses_def]
  have "cache_ok h12 h boot answer queries x'"
    using step
  proof cases
    case (execution i ph reply s p s')
    then show ?thesis using exec_ok[of h12 h boot queries answer ph s enabled shape i reply p s'] a hyp by simp
  next
    case (commit ph s l)
    have "\<forall>k c. cs_marks s k c \<le> cs_db (s\<lparr>cs_db := (cs_db s)(l := cs_db s l + 1)\<rparr>)"
      using cache_okD(3)[of h12 h boot answer queries ph s] a commit later_commit[of s l] by (auto simp: later_def intro: order_trans)
    with commit a show ?thesis using later_ok[OF _ later_commit[of s l]] by simp
  next
    case (increment ph s p t table)
    with a have ok: "cache_ok h12 h boot answer queries (ph, s)" by simp
    have "cs_entries (mark_incr k s) = cs_entries s" for k by (simp add: mark_incr_def Let_def)
    then have "cache_ok h12 h boot answer queries (ph, mark_incr (query_generation_key h12 p t table) s)"
      using later_ok[OF ok later_incr marks_incr[OF cache_okD(3)[OF ok]]] by metis
    with increment show ?thesis by (simp only:)
  next
    case (expiry ph s k)
    with a have ok: "cache_ok h12 h boot answer queries (ph, s)" by simp
    have "cache_ok h12 h boot answer queries (ph, s\<lparr>cs_entries := (cs_entries s)(k := None)\<rparr>)"
      by (rule later_ok[OF ok later_same]) (use cache_okD(3)[OF ok] in \<open>simp_all split: if_splits\<close>)
    with expiry show ?thesis by (simp only:)
  next
    case (foreign k ph s v)
    with a have ok: "cache_ok h12 h boot answer queries (ph, s)" by simp
    have "entry_ok h12 h boot answer s' k v" for s' using foreign(3) by (simp add: entry_ok_def)
    then have "cache_ok h12 h boot answer queries (ph, s\<lparr>cs_entries := (cs_entries s)(k := Some v)\<rparr>)"
      by (intro later_ok[OF ok later_same]) (use cache_okD(3)[OF ok] in \<open>simp_all split: if_splits\<close>)
    with foreign(1,2) show ?thesis by (simp only:)
  qed
  with a show "cache_hypotheses h12 h boot queries \<and> cache_ok h12 h boot answer queries x'" by simp
qed

section \<open>Properties\<close>


text \<open>A hash without collisions: the hexadecimal digits of the bytes.\<close>

definition hex_digit :: "nat \<Rightarrow> char" where
  "hex_digit n = ''0123456789abcdef'' ! (n mod 16)"

definition hex_text :: "string \<Rightarrow> string" where
  "hex_text s = concat (map (\<lambda>c. [hex_digit (of_char c div 16), hex_digit (of_char c)]) s)"

lemma hex_digit_in: "hex_digit n \<in> set ''0123456789abcdef''"
  unfolding hex_digit_def by (intro nth_mem) simp

lemma hex_digit_inj: "hex_digit m = hex_digit n \<Longrightarrow> m mod 16 = n mod 16"
proof -
  have "distinct ''0123456789abcdef''" by simp
  moreover assume "hex_digit m = hex_digit n"
  ultimately show ?thesis unfolding hex_digit_def by (subst (asm) nth_eq_iff_index_eq) simp_all
qed

lemma two_digits:
  assumes "(m::nat) < 256" and "n < 256" and "(m div 16) mod 16 = (n div 16) mod 16" and "m mod 16 = n mod 16"
  shows "m = n"
proof -
  have "m div 16 < 16" "n div 16 < 16" using assms(1,2) by simp_all
  then have "m div 16 = n div 16" using assms(3) by simp
  then show ?thesis using assms(4) by (metis div_mult_mod_eq)
qed

lemma hex_text_hash: "hex_hash hex_text"
proof -
  have "hex_text a = hex_text b \<Longrightarrow> a = b" for a b
  proof (induction a arbitrary: b)
    case Nil
    then show ?case by (cases b) (simp_all add: hex_text_def)
  next
    case (Cons c a)
    then obtain d b' where b: "b = d # b'" by (cases b) (auto simp: hex_text_def)
    with Cons.prems have d: "hex_digit (of_char c div 16) = hex_digit (of_char d div 16)" "hex_digit (of_char c) = hex_digit (of_char d)" and "hex_text a = hex_text b'"
      by (simp_all add: hex_text_def)
    have "(of_char c :: nat) < 256" "(of_char d :: nat) < 256" by simp_all
    moreover have "(of_char c div 16) mod 16 = (of_char d div 16 :: nat) mod 16" "of_char c mod 16 = (of_char d mod 16 :: nat)"
      using d[THEN hex_digit_inj] by simp_all
    ultimately have "(of_char c :: nat) = of_char d" by (rule two_digits)
    then show ?case using b Cons.IH[OF \<open>hex_text a = hex_text b'\<close>] by simp
  qed
  moreover have "set (hex_text s) \<subseteq> set ''0123456789abcdef''" for s
    unfolding hex_text_def using hex_digit_in by auto
  ultimately show ?thesis by (auto simp: hex_hash_def inj_def)
qed

section \<open>Runs\<close>

text \<open>\<open>Read_Now\<close> is a query that reads the present database; a reply that does not fit changes nothing.\<close>

datatype cache_event = Exec nat cache_reply | Read_Now nat | Commit place | Invalidate string string string

fun event_step :: "(string \<Rightarrow> string) \<Rightarrow> (string \<Rightarrow> string) \<Rightarrow> string \<Rightarrow> bool \<Rightarrow> (identity \<Rightarrow> versions \<Rightarrow> string) \<Rightarrow> (string \<Rightarrow> go_result) \<Rightarrow>
    (nat \<Rightarrow> cached_query) \<Rightarrow> cache_event \<Rightarrow> (nat \<Rightarrow> exec_phase) \<times> cache_state \<Rightarrow> (nat \<Rightarrow> exec_phase) \<times> cache_state" where
  "event_step h12 h boot enabled answer shape queries (Exec i reply) (ph, s) =
     (case reply of Rows_At v \<Rightarrow> (ph, s) | _ \<Rightarrow>
       (case exec_step h12 h boot enabled answer shape (queries i) (ph i) reply s of None \<Rightarrow> (ph, s) | Some (p, s') \<Rightarrow> (ph(i := p), s')))"
| "event_step h12 h boot enabled answer shape queries (Read_Now i) (ph, s) =
     (case exec_step h12 h boot enabled answer shape (queries i) (ph i) (Rows_At (cs_db s)) s of
        None \<Rightarrow> (ph, s) | Some (p, s') \<Rightarrow> (ph(i := p), s'))"
| "event_step h12 h boot enabled answer shape queries (Commit l) (ph, s) = (ph, s\<lparr>cs_db := (cs_db s)(l := cs_db s l + 1)\<rparr>)"
| "event_step h12 h boot enabled answer shape queries (Invalidate p t table) (ph, s) = (ph, mark_incr (query_generation_key h12 p t table) s)"

definition run_cache :: "(string \<Rightarrow> string) \<Rightarrow> (string \<Rightarrow> string) \<Rightarrow> string \<Rightarrow> bool \<Rightarrow> (identity \<Rightarrow> versions \<Rightarrow> string) \<Rightarrow> (string \<Rightarrow> go_result) \<Rightarrow>
    (nat \<Rightarrow> cached_query) \<Rightarrow> cache_event list \<Rightarrow> (nat \<Rightarrow> exec_phase) \<times> cache_state \<Rightarrow> (nat \<Rightarrow> exec_phase) \<times> cache_state" where
  "run_cache h12 h boot enabled answer shape queries = fold (event_step h12 h boot enabled answer shape queries)"

lemma event_reaches:
  assumes "cache_ok h12 h boot answer queries (ph, s)"
  shows "event_step h12 h boot enabled answer shape queries e (ph, s) = (ph, s) \<or>
    cache_step h12 h boot enabled answer shape queries (ph, s) (event_step h12 h boot enabled answer shape queries e (ph, s))"
proof (cases e)
  case (Exec i reply)
  have "cache_step h12 h boot enabled answer shape queries (ph, s) (ph(i := p), s')"
    if "exec_step h12 h boot enabled answer shape (queries i) (ph i) reply s = Some (p, s')" "\<forall>v. reply \<noteq> Rows_At v" for p s'
    using that by (intro cache_step.execution) auto
  then show ?thesis using Exec by (cases reply) (auto split: option.split)
next
  case (Read_Now i)
  have "low \<le> cs_db s" if "ph i = Running g need low" for g need low
    using cache_okD(1)[OF assms, of i] that by (simp add: new_enough_def)
  then have "cache_step h12 h boot enabled answer shape queries (ph, s) (ph(i := p), s')"
    if "exec_step h12 h boot enabled answer shape (queries i) (ph i) (Rows_At (cs_db s)) s = Some (p, s')" for p s'
    using that by (intro cache_step.execution) auto
  then show ?thesis using Read_Now by (auto split: option.split)
next
  case (Commit l)
  then show ?thesis using cache_step.commit[of h12 h boot enabled answer shape queries ph s l] by simp
next
  case (Invalidate p t table)
  then show ?thesis using cache_step.increment[of h12 h boot enabled answer shape queries ph s p t table] by simp
qed

lemma run_cache_reachable:
  assumes "cache_hypotheses h12 h boot queries" and "cache_start h12 h boot x0"
  shows "(cache_step h12 h boot enabled answer shape queries)\<^sup>*\<^sup>* x0 (run_cache h12 h boot enabled answer shape queries es x0)"
proof (induction es rule: rev_induct)
  case Nil
  show ?case by (simp add: run_cache_def)
next
  case (snoc e es)
  obtain ph s where x: "run_cache h12 h boot enabled answer shape queries es x0 = (ph, s)" by fastforce
  have "cache_ok h12 h boot answer queries (ph, s)"
    using query_cache.inv_reachable[OF _ snoc[unfolded x]] assms by blast
  from event_reaches[OF this, of enabled shape e] snoc show ?case
    unfolding run_cache_def fold_append comp_apply fold.simps id_apply x[unfolded run_cache_def]
    by (metis rtranclp.rtrancl_into_rtrancl)
qed

text \<open>Two executions of one query; the database counts its commits.\<close>

definition tasks_query :: cached_query where
  "tasks_query = \<lparr>qq_project = ''p'', qq_tenant = ''t'', qq_scope = ''u'', qq_path = ''tasks.list'', qq_args = ''{}'', qq_tables = [''tasks''],
     qq_ephemeral = False, qq_reason = ''initial''\<rparr>"

definition commits_seen :: "identity \<Rightarrow> versions \<Rightarrow> string" where
  "commits_seen x v = int_dec (int (v (''p'', ''t'', ''tasks'')))"

definition idle_cache :: "(nat \<Rightarrow> exec_phase) \<times> cache_state" where
  "idle_cache = ((\<lambda>_. Exec_Start), \<lparr>cs_db = (\<lambda>_. 0), cs_counters = (\<lambda>_. None), cs_entries = (\<lambda>_. None), cs_marks = (\<lambda>_ _ _. 0)\<rparr>)"

definition run_tasks :: "cache_event list \<Rightarrow> (nat \<Rightarrow> exec_phase) \<times> cache_state \<Rightarrow> (nat \<Rightarrow> exec_phase) \<times> cache_state" where
  "run_tasks = run_cache hex_text hex_text ''1-1'' True commits_seen (\<lambda>_. ROther) (\<lambda>_. tasks_query)"

lemma idle_cache_start: "cache_start hex_text hex_text ''1-1'' idle_cache"
  by (simp add: cache_start_def idle_cache_def)

text \<open>A commit and its invalidation, an execution that stores its result, and one that is answered from the cache.\<close>

definition stored_then_hit :: "cache_event list" where
  "stored_then_hit = [Commit (''p'', ''t'', ''tasks''), Invalidate ''p'' ''t'' ''tasks'', Exec 0 Valkey_Ok, Exec 0 Valkey_Ok, Read_Now 0,
     Exec 0 Valkey_Ok, Exec 0 Valkey_Ok, Exec 1 Valkey_Ok, Exec 1 Valkey_Ok]"

lemma tasks_query_fields [simp]:
  "uses_cache True tasks_query" "qq_reason tasks_query = ''initial''" "qq_project tasks_query = ''p''" "qq_tenant tasks_query = ''t''"
  "wc_store (query_cache_write_decision (qq_path tasks_query) ROther)" "place_of tasks_query ''tasks'' = (''p'', ''t'', ''tasks'')"
  by code_simp+

lemma commit_texts [simp]: "int_dec 0 = ''0''" "int_dec 1 = ''1''"
  by code_simp+

lemmas tasks_run_simps = run_tasks_def run_cache_def idle_cache_def mark_incr_def incr_def marked_def Let_def

lemma stored_then_hit_run:
  "case fst (run_tasks stored_then_hit idle_cache) 1 of Answered payload need \<Rightarrow> payload = ''1'' \<and> need ''tasks'' = 1 | _ \<Rightarrow> False"
  by (simp add: stored_then_hit_def tasks_run_simps commits_seen_def)


section \<open>Clearing the cache\<close>

text \<open>
  \<open>clearProject\<close>, for a project name without the characters of a pattern. It deletes the results and
  then the counters, so a generation that was read before can become the current one again.
\<close>

definition delete_prefix :: "string \<Rightarrow> (string \<Rightarrow> 'a option) \<Rightarrow> (string \<Rightarrow> 'a option)" where
  "delete_prefix prefix m = (\<lambda>k. if has_prefix prefix k then None else m k)"

definition clear_project :: "(string \<Rightarrow> string) \<Rightarrow> string \<Rightarrow> cache_state \<Rightarrow> cache_state" where
  "clear_project h12 project s = (let p = fst (cache_scope project '''') in
     s\<lparr>cs_entries := delete_prefix (''gonvex:queries:v2:'' @ h12 p @ '':'') (delete_prefix (''gonvex:rows:v2:'' @ p @ '':'') (cs_entries s)),
       cs_counters := delete_prefix (''gonvex:queries:v2:generation:'' @ h12 p @ '':'')
         (delete_prefix (''gonvex:rows:v2:generation:'' @ h12 p @ '':'') (cs_counters s))\<rparr>)"

lemma cleared_counter: "cs_counters (clear_project h12 ''p'' s) (query_generation_key h12 ''p'' t table) = None"
proof -
  have "has_prefix (''gonvex:queries:v2:generation:'' @ h12 ''p'' @ '':'') (query_generation_key h12 ''p'' t table)"
    by (simp add: has_prefix_def query_generation_key_def cache_scope_def strip_prefix_Some Let_def)
  then show ?thesis by (simp add: clear_project_def cache_scope_def Let_def delete_prefix_def)
qed

text \<open>
  An execution reads the database; a commit and its invalidation follow, then somebody clears
  the cache. The counter is gone as it was before the invalidation, the execution takes its
  generation for the current one and stores its result: every later execution is answered with the
  state before the commit.
\<close>

definition read_before_commit :: "cache_event list" where
  "read_before_commit = [Exec 0 Valkey_Ok, Exec 0 Valkey_Ok, Read_Now 0, Commit (''p'', ''t'', ''tasks''), Invalidate ''p'' ''t'' ''tasks'']"

definition store_then_hit :: "cache_event list" where
  "store_then_hit = [Exec 0 Valkey_Ok, Exec 0 Valkey_Ok, Exec 1 Valkey_Ok, Exec 1 Valkey_Ok]"

definition cleared_run :: "(nat \<Rightarrow> exec_phase) \<times> cache_state" where
  "cleared_run = (case run_tasks read_before_commit idle_cache of (ph, s) \<Rightarrow> run_tasks store_then_hit (ph, clear_project hex_text ''p'' s))"

lemma cleared_generation: "generation_of hex_text ''1-1'' (cs_counters (clear_project hex_text ''p'' s)) tasks_query =
    generation_of hex_text ''1-1'' (\<lambda>_. None) tasks_query"
proof -
  have tables: "query_cache_tables (qq_tables tasks_query) = [''tasks'']" by code_simp
  show ?thesis by (simp only: generation_of_def query_generation_def generation_text_def tables list.map tasks_query_fields cleared_counter)
qed

theorem cleared_cache_serves_old_result:
  "(case fst cleared_run 1 of Answered payload need \<Rightarrow> payload = ''0'' | _ \<Rightarrow> False) \<and> cs_db (snd cleared_run) (''p'', ''t'', ''tasks'') = 1"
proof -
  obtain ph s where before: "run_tasks read_before_commit idle_cache = (ph, s)" by fastforce
  let ?g = "generation_of hex_text ''1-1'' (\<lambda>_. None) tasks_query"
  have ph: "\<exists>need v. ph 0 = Ran (Some ?g) need v \<and> v (''p'', ''t'', ''tasks'') = 0" "ph 1 = Exec_Start"
    and db: "cs_db s (''p'', ''t'', ''tasks'') = 1"
    using before by (auto simp: read_before_commit_def tasks_run_simps)
  have same_db: "cs_db (clear_project hex_text ''p'' s) = cs_db s" by (simp add: clear_project_def Let_def)
  from ph(1) obtain need v where ran: "ph 0 = Ran (Some ?g) need v" "v (''p'', ''t'', ''tasks'') = 0" by blast
  show ?thesis
    unfolding cleared_run_def before prod.case
    by (simp add: store_then_hit_def run_tasks_def run_cache_def cleared_generation commits_seen_def same_db ran ph(2)[unfolded One_nat_def] db Let_def)
qed

section \<open>The cache of rows\<close>

definition rows_lookup :: "(string \<Rightarrow> string) \<Rightarrow> (string \<Rightarrow> string) \<Rightarrow> string \<Rightarrow> string \<Rightarrow> string \<Rightarrow> string \<Rightarrow> string \<Rightarrow>
    (string \<Rightarrow> nat option) \<Rightarrow> (string \<Rightarrow> string option) \<Rightarrow> string option" where
  "rows_lookup h12 h boot project tenant table query counters entries =
    entries (rows_key h12 h (rows_generation h12 boot counters project tenant table) project tenant table query)"

text \<open>\<open>handleRows\<close> asks for the key again when it stores.\<close>

definition rows_store :: "(string \<Rightarrow> string) \<Rightarrow> (string \<Rightarrow> string) \<Rightarrow> string \<Rightarrow> string \<Rightarrow> string \<Rightarrow> string \<Rightarrow> string \<Rightarrow>
    (string \<Rightarrow> nat option) \<Rightarrow> string \<Rightarrow> (string \<Rightarrow> string option) \<Rightarrow> (string \<Rightarrow> string option)" where
  "rows_store h12 h boot project tenant table query counters payload entries =
    entries(rows_key h12 h (rows_generation h12 boot counters project tenant table) project tenant table query := Some payload)"

text \<open>
  A request that read its rows before a commit stores them under the generation that the
  commit's invalidation made current, whatever the hashes and whatever was cached: the next request is
  served the rows from before the commit. (\<open>read\<close> is the text of the rows at a database.)
\<close>

theorem old_rows_under_new_generation:
  assumes "rows_lookup h12 h boot p t table query counters entries = None"
  shows "let payload = read before;
      counters' = invalidate_rows h12 p t table counters;
      entries' = rows_store h12 h boot p t table query counters' payload entries
    in rows_lookup h12 h boot p t table query counters' entries' = Some (read before)"
  by (simp add: rows_lookup_def rows_store_def Let_def)

end
