(* ===== verification/Sql_Migration.thy ===== *)
theory Sql_Migration
  imports Gonvex_Prelude "HOL-Library.Char_ord" "HOL-Library.List_Lexorder" "HOL-Library.Multiset"
begin

text \<open>
  \<open>server/internal/sqlmigration/migration.go\<close>: parsing, splitting and applying the SQL migrations
  of a bundle. \<open>sha\<close> is the hexadecimal SHA-256. A database is its \<open>gonvex_migrations\<close> table and
  the rest, on which \<open>exec\<close> runs an SQL text: \<open>None\<close> is an error, which leaves it as it was (a text
  sent in one call is one implicit transaction). \<open>ledger m\<close> says that the insertion of the record
  of \<open>m\<close>, or the commit, goes through. The calls run under an advisory lock, one at a time.
\<close>

section \<open>Parsing\<close>

datatype scope = TenantScope | LandlordScope

record migration =
  mi_name :: string
  mi_checksum :: string
  mi_scope :: scope
  mi_no_tx :: bool
  mi_sql :: string

text \<open>The regular expression \<open>[0-9]{4}_[A-Za-z0-9][A-Za-z0-9_-]*\.sql\<close>, for a whole name.\<close>

definition in_char_range :: "char \<Rightarrow> char \<Rightarrow> char \<Rightarrow> bool" where
  "in_char_range lo hi c \<longleftrightarrow> (of_char lo :: nat) \<le> of_char c \<and> (of_char c :: nat) \<le> of_char hi"

definition digit :: "char \<Rightarrow> bool" where "digit c \<longleftrightarrow> in_char_range (CHR ''0'') (CHR ''9'') c"

definition alnum :: "char \<Rightarrow> bool" where
  "alnum c \<longleftrightarrow> digit c \<or> in_char_range (CHR ''a'') (CHR ''z'') c \<or> in_char_range (CHR ''A'') (CHR ''Z'') c"

definition migration_name :: "string \<Rightarrow> bool" where
  "migration_name s \<longleftrightarrow>
     (let middle = take (length s - 9) (drop 5 s)
      in 10 \<le> length s \<and> list_all digit (take 4 s) \<and> s ! 4 = CHR ''_'' \<and> alnum (hd middle)
         \<and> list_all (\<lambda>c. alnum c \<or> c = CHR ''_'' \<or> c = CHR ''-'') (tl middle) \<and> drop (length s - 4) s = ''.sql'')"

datatype parse_error = BadName string | BadScope string string | NoScope string

fun directive_lines :: "string list \<Rightarrow> scope \<times> bool \<times> bool \<Rightarrow> (string, scope \<times> bool \<times> bool) outcome" where
  "directive_lines [] st = Ok st"
| "directive_lines (line # ls) (sc, explicit, no_tx) =
     (let line = trim_space line
      in if line = '''' then directive_lines ls (sc, explicit, no_tx)
         else case strip_prefix ''--'' line of
           None \<Rightarrow> Ok (sc, explicit, no_tx)
         | Some rest \<Rightarrow>
             let directive = trim_space rest
             in case strip_prefix ''gonvex:scope'' directive of
                  Some v \<Rightarrow>
                    (let value = trim_space v
                     in if value = ''tenant'' then directive_lines ls (TenantScope, True, no_tx)
                        else if value = ''landlord'' then directive_lines ls (LandlordScope, True, no_tx)
                        else Err value)
                | None \<Rightarrow> directive_lines ls (sc, explicit, no_tx \<or> directive = ''gonvex:no-transaction''))"

definition directives :: "string \<Rightarrow> (string, scope \<times> bool \<times> bool) outcome" where
  "directives contents = directive_lines (split_on (CHR 0x0A) contents) (TenantScope, False, False)"

text \<open>One file of the bundle.\<close>

definition parse_file :: "(string \<Rightarrow> string) \<Rightarrow> string \<times> string \<Rightarrow> (parse_error, migration) outcome" where
  "parse_file sha f =
     (let (name, contents) = f
      in if \<not> migration_name name then Err (BadName name)
         else case directives contents of
           Err v \<Rightarrow> Err (BadScope name v)
         | Panic \<Rightarrow> Panic
         | Ok (sc, explicit, no_tx) \<Rightarrow>
             if \<not> explicit then Err (NoScope name)
             else Ok \<lparr>mi_name = name, mi_checksum = sha contents, mi_scope = sc, mi_no_tx = no_tx, mi_sql = contents\<rparr>)"

fun parse_files :: "(string \<Rightarrow> string) \<Rightarrow> (string \<times> string) list \<Rightarrow> (parse_error, migration list) outcome" where
  "parse_files sha [] = Ok []"
| "parse_files sha (f # fs) =
     bind_outcome (parse_file sha f) (\<lambda>m. bind_outcome (parse_files sha fs) (\<lambda>ms. Ok (m # ms)))"

definition parse_migrations :: "(string \<Rightarrow> string) \<Rightarrow> (string \<times> string) list \<Rightarrow> (parse_error, migration list) outcome" where
  "parse_migrations sha files = bind_outcome (parse_files sha files) (\<lambda>ms. Ok (sort_key mi_name ms))"

definition filter_scope :: "migration list \<Rightarrow> scope \<Rightarrow> migration list" where
  "filter_scope ms sc = filter (\<lambda>m. mi_scope m = sc) ms"

section \<open>Splitting a text into statements\<close>

text \<open>
  The flags of the loop exclude one another: they are the lexer's mode. \<open>cur\<close> is the text since
  the start of the statement. A \<open>$\<close> opens a quote when the text up to the next \<open>$\<close> is a tag.
\<close>

datatype mode = Code | LineComment | BlockComment nat | Dollar string | Quoted char

definition tag_char :: "char \<Rightarrow> bool" where "tag_char c \<longleftrightarrow> c = CHR ''_'' \<or> alnum c"

definition dollar_tag :: "string \<Rightarrow> string option" where
  "dollar_tag s =
     (case cut (CHR ''$'') s of
        (t, Some rest) \<Rightarrow> if list_all tag_char t then Some (CHR ''$'' # t @ ''$'') else None
      | (t, None) \<Rightarrow> None)"

text \<open>The mode after the next characters of a non-empty text, and how many these are.\<close>

fun lex_step :: "mode \<Rightarrow> string \<Rightarrow> mode \<times> nat" where
  "lex_step LineComment s = (if hd s = CHR 0x0A then Code else LineComment, 1)"
| "lex_step (BlockComment n) s =
     (if has_prefix ''/*'' s then (BlockComment (n + 1), 2)
      else if has_prefix ''*/'' s then (if n \<le> 1 then Code else BlockComment (n - 1), 2)
      else (BlockComment n, 1))"
| "lex_step (Dollar tag) s = (if has_prefix tag s then (Code, length tag) else (Dollar tag, 1))"
| "lex_step (Quoted q) s =
     (if hd s = q then if has_prefix [q] (tl s) then (Quoted q, 2) else (Code, 1) else (Quoted q, 1))"
| "lex_step Code s =
     (if has_prefix ''--'' s then (LineComment, 2)
      else if has_prefix ''/*'' s then (BlockComment 1, 2)
      else if hd s = CHR 0x27 \<or> hd s = CHR 0x22 then (Quoted (hd s), 1)
      else if hd s = CHR ''$'' then
        (case dollar_tag (tl s) of Some tag \<Rightarrow> (Dollar tag, length tag) | None \<Rightarrow> (Code, 1))
      else (Code, 1))"

text \<open>The statements of the text, not trimmed; \<open>None\<close> for an unterminated quote or comment.\<close>

function scan :: "mode \<Rightarrow> string \<Rightarrow> string \<Rightarrow> string list option" where
  "scan m cur s =
     (if s = [] then (if m = Code \<or> m = LineComment then Some [cur] else None)
      else
        let (m', n) = lex_step m s; piece = cur @ take (max 1 n) s
        in if m = Code \<and> hd s = CHR '';''
           then map_option (\<lambda>rest. piece # rest) (scan m' [] (drop (max 1 n) s))
           else scan m' piece (drop (max 1 n) s))"
  by pat_completeness auto
termination by (relation "measure (\<lambda>(m, cur, s). length s)") auto

declare scan.simps [simp del]

definition split_statements :: "string \<Rightarrow> string list option" where
  "split_statements source =
     map_option (\<lambda>segs. filter (\<lambda>s. s \<noteq> '''') (map trim_space segs)) (scan Code [] source)"

section \<open>Applying\<close>

record 'd db =
  ledger_rows :: "(string \<times> string) list option"
  data :: 'd

record apply_result =
  applied :: "string list"
  pending :: "string list"

datatype apply_error = Mismatch string string string | Failed string

definition record_migration :: "migration \<Rightarrow> 'd db \<Rightarrow> 'd db" where
  "record_migration m d = d\<lparr>ledger_rows := Some (case ledger_rows d of None \<Rightarrow> [(mi_name m, mi_checksum m)]
     | Some rows \<Rightarrow> rows @ [(mi_name m, mi_checksum m)])\<rparr>"

definition apply_tx :: "(string \<Rightarrow> 'd \<Rightarrow> 'd option) \<Rightarrow> (migration \<Rightarrow> bool) \<Rightarrow> migration \<Rightarrow> 'd db \<Rightarrow> 'd db \<times> bool" where
  "apply_tx exec ledger m d =
     (case exec (mi_sql m) (data d) of
        None \<Rightarrow> (d, False)
      | Some u \<Rightarrow> if ledger m then (record_migration m (d\<lparr>data := u\<rparr>), True) else (d, False))"

fun exec_statements :: "(string \<Rightarrow> 'd \<Rightarrow> 'd option) \<Rightarrow> string list \<Rightarrow> 'd \<Rightarrow> 'd \<times> bool" where
  "exec_statements exec [] u = (u, True)"
| "exec_statements exec (s # ss) u =
     (case exec s u of None \<Rightarrow> (u, False) | Some u \<Rightarrow> exec_statements exec ss u)"

definition apply_no_tx :: "(string \<Rightarrow> 'd \<Rightarrow> 'd option) \<Rightarrow> (migration \<Rightarrow> bool) \<Rightarrow> migration \<Rightarrow> 'd db \<Rightarrow> 'd db \<times> bool" where
  "apply_no_tx exec ledger m d =
     (case split_statements (mi_sql m) of
        None \<Rightarrow> (d, False)
      | Some ss \<Rightarrow>
          (case exec_statements exec ss (data d) of
             (u, False) \<Rightarrow> (d\<lparr>data := u\<rparr>, False)
           | (u, True) \<Rightarrow> if ledger m then (record_migration m (d\<lparr>data := u\<rparr>), True) else (d\<lparr>data := u\<rparr>, False)))"

definition apply_one :: "(string \<Rightarrow> 'd \<Rightarrow> 'd option) \<Rightarrow> (migration \<Rightarrow> bool) \<Rightarrow> migration \<Rightarrow> 'd db \<Rightarrow> 'd db \<times> bool" where
  "apply_one exec ledger m d = (if mi_no_tx m then apply_no_tx exec ledger m d else apply_tx exec ledger m d)"

definition recorded :: "'d db \<Rightarrow> string \<Rightarrow> string option" where
  "recorded d name = (case ledger_rows d of None \<Rightarrow> None | Some rows \<Rightarrow> map_of rows name)"

text \<open>The loop over the migrations.\<close>

fun apply_loop :: "(string \<Rightarrow> 'd \<Rightarrow> 'd option) \<Rightarrow> (migration \<Rightarrow> bool) \<Rightarrow> bool \<Rightarrow> migration list \<Rightarrow> 'd db \<Rightarrow> apply_result \<Rightarrow>
    'd db \<times> apply_result \<times> apply_error option" where
  "apply_loop exec ledger dry [] d r = (d, r, None)"
| "apply_loop exec ledger dry (m # ms) d r =
     (case recorded d (mi_name m) of
        Some c \<Rightarrow>
          if c \<noteq> mi_checksum m then (d, r, Some (Mismatch (mi_name m) c (mi_checksum m)))
          else apply_loop exec ledger dry ms d r
      | None \<Rightarrow>
          let r = r\<lparr>pending := pending r @ [mi_name m]\<rparr>
          in if dry then apply_loop exec ledger dry ms d r
             else case apply_one exec ledger m d of
               (d, False) \<Rightarrow> (d, r, Some (Failed (mi_name m)))
             | (d, True) \<Rightarrow> apply_loop exec ledger dry ms d (r\<lparr>applied := applied r @ [mi_name m]\<rparr>))"

definition apply_migrations :: "(string \<Rightarrow> 'd \<Rightarrow> 'd option) \<Rightarrow> (migration \<Rightarrow> bool) \<Rightarrow> migration list \<Rightarrow> bool \<Rightarrow> 'd db \<Rightarrow>
    'd db \<times> apply_result \<times> apply_error option" where
  "apply_migrations exec ledger ms dry d =
     (let none = \<lparr>applied = [], pending = []\<rparr>
      in if ms = [] then (d, none, None)
         else if dry \<and> ledger_rows d = None then (d, none\<lparr>pending := map mi_name ms\<rparr>, None)
         else apply_loop exec ledger dry ms
           (if ledger_rows d = None then d\<lparr>ledger_rows := Some []\<rparr> else d) none)"

section \<open>The lexer on well-formed texts\<close>

text \<open>
  The lexical elements of an SQL text: a character that starts no other element, a quoted string
  or identifier, a line comment, a block comment without nested ones, a dollar-quoted string.
\<close>

datatype token = Chr char | Str char string | LineC string | BlockC string | DollarStr string string

definition double_quotes :: "char \<Rightarrow> string \<Rightarrow> string" where
  "double_quotes q body = concat (map (\<lambda>c. if c = q then [q, q] else [c]) body)"

fun render :: "token \<Rightarrow> string" where
  "render (Chr c) = [c]"
| "render (Str q body) = q # double_quotes q body @ [q]"
| "render (LineC body) = ''--'' @ body @ [CHR 0x0A]"
| "render (BlockC body) = ''/*'' @ body @ ''*/''"
| "render (DollarStr t body) = (CHR ''$'' # t @ ''$'') @ body @ (CHR ''$'' # t @ ''$'')"

fun plain_comment :: "string \<Rightarrow> bool" where
  "plain_comment (x # y # s) = (\<not> (x = CHR ''/'' \<and> y = CHR ''*'') \<and> \<not> (x = CHR ''*'' \<and> y = CHR ''/'')
     \<and> plain_comment (y # s))"
| "plain_comment _ = True"

definition tag_free :: "string \<Rightarrow> string \<Rightarrow> bool" where
  "tag_free tag body \<longleftrightarrow> list_all (\<lambda>k. \<not> has_prefix tag (drop k (body @ tag))) [0..<length body]"

text \<open>The element is well-formed and stays one before the text \<open>rest\<close>.\<close>

fun token_ok :: "token \<Rightarrow> string \<Rightarrow> bool" where
  "token_ok (Chr c) rest = (c \<notin> set '';$'' \<and> c \<noteq> CHR 0x27 \<and> c \<noteq> CHR 0x22
     \<and> \<not> (c = CHR ''-'' \<and> has_prefix ''-'' rest) \<and> \<not> (c = CHR ''/'' \<and> has_prefix ''*'' rest))"
| "token_ok (Str q body) rest = ((q = CHR 0x27 \<or> q = CHR 0x22) \<and> \<not> has_prefix [q] rest)"
| "token_ok (LineC body) rest = (CHR 0x0A \<notin> set body)"
| "token_ok (BlockC body) rest = plain_comment (body @ ''*'')"
| "token_ok (DollarStr t body) rest = (list_all tag_char t \<and> tag_free (CHR ''$'' # t @ ''$'') body)"

fun tokens_ok :: "token list \<Rightarrow> string \<Rightarrow> bool" where
  "tokens_ok [] rest = True"
| "tokens_ok (t # ts) rest = (token_ok t (concat (map render ts) @ rest) \<and> tokens_ok ts rest)"

lemma has_prefix_take: "has_prefix p s \<longleftrightarrow> take (length p) s = p"
  unfolding has_prefix_def by (induction p s rule: strip_prefix.induct) auto

lemma scan_step:
  assumes "lex_step m s = (m', n)" and "s \<noteq> []" and "0 < n" and "\<not> (m = Code \<and> hd s = CHR '';'')"
  shows "scan m cur s = scan m' (cur @ take n s) (drop n s)"
proof -
  have "max 1 n = n" using assms(3) by simp
  then show ?thesis using assms by (subst scan.simps) (simp only: Let_def prod.case if_False simp_thms)
qed

lemma not_tag_dollar: "\<not> tag_char (CHR ''$'')" by code_simp

lemma scan_line:
  "CHR 0x0A \<notin> set b \<Longrightarrow> scan LineComment cur (b @ CHR 0x0A # rest) = scan Code (cur @ b @ [CHR 0x0A]) rest"
proof (induction b arbitrary: cur)
  case (Cons c b)
  then show ?case by (subst scan_step [where n = 1 and m' = LineComment]) auto
qed (subst scan_step [where n = 1 and m' = Code], auto)

lemma scan_quoted:
  assumes "\<not> has_prefix [q] rest"
  shows "scan (Quoted q) cur (double_quotes q b @ q # rest) = scan Code (cur @ double_quotes q b @ [q]) rest"
proof (induction b arbitrary: cur)
  case Nil
  show ?case using assms by (subst scan_step [where n = 1 and m' = Code]) (auto simp: double_quotes_def)
next
  case (Cons c b)
  show ?case
  proof (cases "c = q")
    case True
    then show ?thesis using Cons
      by (subst scan_step [where n = 2 and m' = "Quoted q"]) (auto simp: double_quotes_def has_prefix_take)
  next
    case False
    then show ?thesis using Cons
      by (subst scan_step [where n = 1 and m' = "Quoted q"]) (auto simp: double_quotes_def)
  qed
qed

lemma scan_block:
  "plain_comment (b @ ''*'') \<Longrightarrow> scan (BlockComment 1) cur (b @ ''*/'' @ rest) = scan Code (cur @ b @ ''*/'') rest"
proof (induction b arbitrary: cur)
  case Nil
  show ?case by (subst scan_step [where n = 2 and m' = Code]) (auto simp: has_prefix_take)
next
  case (Cons c b)
  obtain d r where d: "b @ ''*'' = d # r" by (cases b) auto
  then have full: "(c # b) @ ''*/'' @ rest = c # d # (r @ ''/'' @ rest)" by (cases b) auto
  have "\<not> (c = CHR ''/'' \<and> d = CHR ''*'')" "\<not> (c = CHR ''*'' \<and> d = CHR ''/'')" "plain_comment (b @ ''*'')"
    using Cons.prems d by auto
  then have "lex_step (BlockComment 1) ((c # b) @ ''*/'' @ rest) = (BlockComment 1, 1)"
    unfolding full by (simp add: has_prefix_take)
  then have "scan (BlockComment 1) cur ((c # b) @ ''*/'' @ rest) = scan (BlockComment 1) (cur @ [c]) (b @ ''*/'' @ rest)"
    by (subst scan_step) auto
  then show ?case using Cons.IH [OF \<open>plain_comment (b @ ''*'')\<close>] by simp
qed

lemma tag_free_Cons: "tag_free tag (c # b) \<longleftrightarrow> \<not> has_prefix tag (c # b @ tag) \<and> tag_free tag b"
proof -
  have "[0..<Suc n] = 0 # map Suc [0..<n]" for n
    by (simp add: upt_conv_Cons map_Suc_upt del: upt_Suc)
  then have "list_all P [0..<Suc n] \<longleftrightarrow> P 0 \<and> list_all (\<lambda>k. P (Suc k)) [0..<n]" for P n
    by (simp only: list.pred_inject list.pred_map comp_def)
  from this [of "\<lambda>k. \<not> has_prefix tag (drop k ((c # b) @ tag))" "length b"]
  show ?thesis unfolding tag_free_def by simp
qed

lemma scan_dollar:
  assumes "tag \<noteq> []"
  shows "tag_free tag b \<Longrightarrow> scan (Dollar tag) cur (b @ tag @ rest) = scan Code (cur @ b @ tag) rest"
proof (induction b arbitrary: cur)
  case Nil
  show ?case using assms by (subst scan_step [where n = "length tag" and m' = Code]) (auto simp: has_prefix_take)
next
  case (Cons c b)
  have "\<not> has_prefix tag (c # b @ tag)" and free: "tag_free tag b" using Cons.prems by (auto simp: tag_free_Cons)
  then have "\<not> has_prefix tag ((c # b) @ tag @ rest)" by (simp add: has_prefix_take take_Cons' split: if_splits)
  then have "scan (Dollar tag) cur ((c # b) @ tag @ rest) = scan (Dollar tag) (cur @ [c]) (b @ tag @ rest)"
    by (subst scan_step [where n = 1 and m' = "Dollar tag"]) auto
  then show ?case using Cons.IH [OF free] by simp
qed

lemma scan_token: "token_ok t rest \<Longrightarrow> scan Code cur (render t @ rest) = scan Code (cur @ render t) rest"
proof (cases t)
  case (Chr c)
  assume "token_ok t rest"
  then have "lex_step Code (c # rest) = (Code, 1)" "c \<noteq> CHR '';''"
    unfolding Chr by (auto simp: has_prefix_take take_Cons' split: if_splits)
  then show ?thesis unfolding Chr by (subst scan_step [where n = 1 and m' = Code]) auto
next
  case (Str q b)
  assume "token_ok t rest"
  then show ?thesis unfolding Str using scan_quoted [of q rest "cur @ [q]" b]
    by (subst scan_step [where n = 1 and m' = "Quoted q"]) (auto simp: has_prefix_take)
next
  case (LineC b)
  assume "token_ok t rest"
  then show ?thesis unfolding LineC using scan_line [of b "cur @ ''--''" rest]
    by (subst scan_step [where n = 2 and m' = LineComment]) (auto simp: has_prefix_take)
next
  case (BlockC b)
  assume "token_ok t rest"
  then show ?thesis unfolding BlockC using scan_block [of b "cur @ ''/*''" rest]
    by (subst scan_step [where n = 2 and m' = "BlockComment 1"]) (auto simp: has_prefix_take)
next
  case (DollarStr tg b)
  assume ok: "token_ok t rest"
  let ?tag = "CHR ''$'' # tg @ ''$''"
  have "CHR ''$'' \<notin> set tg" using ok not_tag_dollar unfolding DollarStr by (auto simp: list_all_iff)
  then have "dollar_tag (tg @ CHR ''$'' # b @ ?tag @ rest) = Some ?tag"
    using ok unfolding DollarStr by (simp add: dollar_tag_def cut_append)
  then have "lex_step Code (?tag @ b @ ?tag @ rest) = (Dollar ?tag, length ?tag)"
    by (simp add: has_prefix_take)
  then have "scan Code cur (?tag @ b @ ?tag @ rest) = scan (Dollar ?tag) (cur @ ?tag) (b @ ?tag @ rest)"
    by (subst scan_step [where n = "length ?tag" and m' = "Dollar ?tag"]) auto
  moreover have "scan (Dollar ?tag) (cur @ ?tag) (b @ ?tag @ rest) = scan Code ((cur @ ?tag) @ b @ ?tag) rest"
    by (rule scan_dollar) (use ok in \<open>simp_all add: DollarStr\<close>)
  ultimately show ?thesis unfolding DollarStr by simp
qed

lemma scan_tokens:
  "tokens_ok ts rest \<Longrightarrow> scan Code cur (concat (map render ts) @ rest) = scan Code (cur @ concat (map render ts)) rest"
  by (induction ts arbitrary: cur) (simp_all add: scan_token)

lemma scan_semicolon: "scan Code cur (CHR '';'' # rest) = map_option (\<lambda>r. (cur @ '';'') # r) (scan Code [] rest)"
  by (subst scan.simps) (simp add: has_prefix_take)

lemma scan_end: "scan Code cur [] = Some [cur]"
  by (subst scan.simps) simp

definition statement_text :: "token list \<Rightarrow> string" where
  "statement_text ts = concat (map render ts) @ '';''"

lemma scan_statements:
  assumes "list_all (\<lambda>ts. tokens_ok ts '';'') stmts" and "tokens_ok trail ''''"
  shows "scan Code [] (concat (map statement_text stmts) @ concat (map render trail))
    = Some (map statement_text stmts @ [concat (map render trail)])"
  using assms(1)
proof (induction stmts)
  case Nil
  show ?case using scan_tokens [OF assms(2), of "[]"] by (simp add: scan_end)
next
  case (Cons ts stmts)
  have semi: "tokens_ok ts (CHR '';'' # r)" if "tokens_ok ts '';''" for r
    using that
  proof (induction ts)
    case (Cons t ts)
    have "token_ok t (s @ CHR '';'' # r)" if "token_ok t (s @ '';'')" for s
      using that by (cases t; cases s) (auto simp: has_prefix_take)
    then show ?case using Cons by simp
  qed simp
  then show ?case using Cons scan_tokens [of ts _ "[]"]
    by (simp add: statement_text_def scan_semicolon)
qed

section \<open>Properties of the splitter\<close>


definition body_tokens :: "token list" where
  "body_tokens = map Chr ''DO '' @ [DollarStr ''x'' ''PERFORM 1; -- ' $y$ ''] @ map Chr '' -'' @ [BlockC ''; * / '', Str (CHR 0x27) [CHR '';'', CHR 0x27]]"


lemma scan_concat: "scan m cur s = Some segs \<Longrightarrow> concat segs = cur @ s \<and> segs \<noteq> []"
proof (induction m cur s arbitrary: segs rule: scan.induct)
  case (1 m cur s)
  show ?case
  proof (cases "s = []")
    case True
    then show ?thesis using "1.prems" by (subst (asm) scan.simps) (auto split: if_splits)
  next
    case False
    obtain m' n where l: "lex_step m s = (m', n)" by fastforce
    let ?piece = "cur @ take (max 1 n) s" and ?rest = "drop (max 1 n) s"
    show ?thesis
    proof (cases "m = Code \<and> hd s = CHR '';''")
      case True
      then obtain r where r: "scan m' [] ?rest = Some r" "segs = ?piece # r"
        using "1.prems" False l by (subst (asm) scan.simps) auto
      have "concat r = ?rest" using "1.IH"(1) [OF False l [symmetric] refl refl True r(1)] by simp
      then show ?thesis using r(2) by simp
    next
      case nsemi: False
      then have "scan m' ?piece ?rest = Some segs"
        using "1.prems" False l by (subst (asm) scan.simps) (auto split: if_splits)
      then have "concat segs = ?piece @ ?rest \<and> segs \<noteq> []"
        using "1.IH"(2) [OF False l [symmetric] refl refl nsemi] by simp
      then show ?thesis by simp
    qed
  qed
qed

text \<open>
  no text is lost or added by splitting: the statements are the non-empty trimmed pieces of
  the text, in order.
\<close>

theorem split_lossless:
  assumes "split_statements source = Some ss"
  shows "\<exists>segs. concat segs = source \<and> ss = filter (\<lambda>s. s \<noteq> '''') (map trim_space segs)"
  using assms scan_concat [of Code "[]" source] by (auto simp: split_statements_def)

theorem split_lossless_witness:
  "\<exists>segs. concat segs = ''SELECT 1; SELECT 2'' \<and> [''SELECT 1;'', ''SELECT 2''] = filter (\<lambda>s. s \<noteq> '''') (map trim_space segs)"
  by (rule split_lossless) code_simp

text \<open>
  a PostgreSQL escape string is misread. In \<open>E'\\';'\<close> the backslash escapes the quote, so the
  text is one statement; the splitter ends the string there, takes the semicolon of the string for
  the end of the statement, and refuses the text as unterminated.
\<close>

theorem escape_string_refused:
  "split_statements (''SELECT E'' @ [CHR 0x27, CHR 0x5C, CHR 0x27, CHR '';'', CHR 0x27] @ '';'') = None"
  by code_simp

section \<open>Properties of the parser\<close>

lemma parse_files_Ok:
  "parse_files sha fs = Ok ms \<longleftrightarrow> (\<forall>f \<in> set fs. \<exists>m. parse_file sha f = Ok m) \<and> ms = map (the_ok \<circ> parse_file sha) fs"
proof (induction fs arbitrary: ms)
  case (Cons f fs)
  then show ?case by (cases "parse_file sha f") (auto simp: bind_outcome_Ok)
qed auto

lemma parse_file_fields:
  assumes "parse_file sha f = Ok m"
  shows "mi_name m = fst f \<and> mi_checksum m = sha (snd f) \<and> mi_sql m = snd f \<and> migration_name (fst f)"
  using assms by (auto simp: parse_file_def split: prod.splits if_splits outcome.splits)

text \<open>
  C29: the order in which a bundle's files are visited does not matter. A successful parse has the
  same result for every order: one migration per file, in strictly ascending order of the names,
  each with the checksum and the text of its file.
\<close>

theorem parse_order_independent:
  assumes "parse_migrations sha files = Ok ms" and "distinct (map fst files)" and "mset files' = mset files"
  shows "parse_migrations sha files' = Ok ms \<and> sorted_wrt (<) (map mi_name ms)
    \<and> {(mi_name m, mi_sql m) |m. m \<in> set ms} = set files \<and> (\<forall>m \<in> set ms. mi_checksum m = sha (mi_sql m))"
proof -
  let ?p = "the_ok \<circ> parse_file sha"
  have ok: "\<forall>f \<in> set files. \<exists>m. parse_file sha f = Ok m" and ms: "ms = sort_key mi_name (map ?p files)"
    using assms(1) by (auto simp: parse_migrations_def bind_outcome_Ok parse_files_Ok)
  have fields: "mi_name (?p f) = fst f \<and> mi_checksum (?p f) = sha (snd f) \<and> mi_sql (?p f) = snd f" if "f \<in> set files" for f
    using ok that parse_file_fields by fastforce
  then have names: "map mi_name (map ?p files) = map fst files" by simp
  have same: "set files' = set files" using assms(3) by (metis set_mset_mset)
  have dist: "distinct (map mi_name ms)"
    using assms(2) unfolding ms names [symmetric] by (metis distinct_map distinct_sort set_sort)
  have "mset (map ?p files') = mset ms" unfolding ms mset_sort mset_map assms(3) by (rule refl)
  then have "sort_key mi_name (map ?p files') = ms"
    using dist by (intro sort_key_inj_key_eq) (auto simp: ms distinct_map same)
  then have "parse_migrations sha files' = Ok ms"
    using ok same by (auto simp: parse_migrations_def bind_outcome_Ok parse_files_Ok)
  moreover have "sorted_wrt (<) (map mi_name ms)"
    using dist by (simp add: strict_sorted_iff) (simp add: ms)
  moreover have "{(mi_name m, mi_sql m) |m. m \<in> set ms} = set files"
    using fields by (auto simp: ms image_iff) (metis prod.collapse)
  ultimately show ?thesis using fields by (auto simp: ms)
qed

theorem parse_order_independent_witness:
  "\<exists>ms. parse_migrations (\<lambda>s. s) [(''0001_a.sql'', ''-- gonvex:scope tenant''), (''0002_b.sql'', ''-- gonvex:scope landlord'')] = Ok ms
     \<and> sorted_wrt (<) (map mi_name ms)"
proof -
  let ?fs = "[(''0002_b.sql'', ''-- gonvex:scope landlord''), (''0001_a.sql'', ''-- gonvex:scope tenant'')]"
  have "is_ok (parse_migrations (\<lambda>s. s) ?fs :: (parse_error, migration list) outcome)" by code_simp
  then obtain ms where ms: "parse_migrations (\<lambda>s. s) ?fs = Ok ms" by (metis is_ok_obtain)
  have "distinct (map fst ?fs)" by simp
  from parse_order_independent [OF ms this, of "rev ?fs"] show ?thesis by auto
qed

section \<open>Properties of the application\<close>

abbreviation fresh_in :: "'d db \<Rightarrow> migration \<Rightarrow> bool" where
  "fresh_in d m \<equiv> recorded d (mi_name m) = None"

fun run_texts :: "(string \<Rightarrow> 'd \<Rightarrow> 'd option) \<Rightarrow> string list \<Rightarrow> 'd \<Rightarrow> 'd option" where
  "run_texts exec [] u = Some u"
| "run_texts exec (t # ts) u = (case exec t u of None \<Rightarrow> None | Some u \<Rightarrow> run_texts exec ts u)"

definition row_of :: "migration \<Rightarrow> string \<times> string" where "row_of m = (mi_name m, mi_checksum m)"

lemma apply_one_True:
  assumes "apply_one exec ledger m d = (d', True)" and "ledger_rows d = Some rows"
  shows "ledger_rows d' = Some (rows @ [row_of m])" and "\<not> mi_no_tx m \<Longrightarrow> exec (mi_sql m) (data d) = Some (data d')"
  using assms
  by (auto simp: apply_one_def apply_tx_def apply_no_tx_def record_migration_def row_of_def
      split: if_splits option.splits prod.splits bool.splits)

lemma apply_one_False:
  assumes "apply_one exec ledger m d = (d', False)"
  shows "ledger_rows d' = ledger_rows d" and "\<not> mi_no_tx m \<Longrightarrow> d' = d"
  using assms
  by (auto simp: apply_one_def apply_tx_def apply_no_tx_def split: if_splits option.splits prod.splits bool.splits)

lemma recorded_snoc:
  "ledger_rows d = Some rows \<Longrightarrow> ledger_rows d' = Some (rows @ [row_of m]) \<Longrightarrow> recorded d' n =
     (if n = mi_name m \<and> recorded d n = None then Some (mi_checksum m) else recorded d n)"
  by (auto simp: recorded_def row_of_def map_add_def split: option.splits)

text \<open>Where the loop stops (after \<open>k\<close> migrations) and why, and what it has done by then.\<close>

definition stop_reason :: "'d db \<Rightarrow> migration \<Rightarrow> apply_error" where
  "stop_reason d m = (case recorded d (mi_name m) of None \<Rightarrow> Failed (mi_name m)
     | Some c \<Rightarrow> Mismatch (mi_name m) c (mi_checksum m))"

definition stopped :: "migration list \<Rightarrow> 'd db \<Rightarrow> nat \<Rightarrow> apply_error option \<Rightarrow> bool" where
  "stopped ms d k e \<longleftrightarrow> k \<le> length ms \<and> (e = None \<longleftrightarrow> k = length ms)
     \<and> list_all (\<lambda>m. recorded d (mi_name m) \<in> {None, Some (mi_checksum m)}) (take k ms)
     \<and> (k < length ms \<longrightarrow> e = Some (stop_reason d (ms ! k))
        \<and> recorded d (mi_name (ms ! k)) \<noteq> Some (mi_checksum (ms ! k)))"

lemma stopped_0: "recorded d (mi_name m) \<noteq> Some (mi_checksum m) \<Longrightarrow>
    e = Some (stop_reason d m) \<Longrightarrow> stopped (m # ms) d 0 e"
  by (simp add: stopped_def)

lemma stopped_Suc:
  assumes "stopped ms d' k e" and "recorded d (mi_name m) \<in> {None, Some (mi_checksum m)}"
    and "\<And>x. x \<in> set ms \<Longrightarrow> recorded d' (mi_name x) = recorded d (mi_name x)"
  shows "stopped (m # ms) d (Suc k) e"
proof -
  have "list_all (\<lambda>m. recorded d (mi_name m) \<in> {None, Some (mi_checksum m)}) (take k ms)"
    unfolding list_all_iff
  proof
    fix x assume x: "x \<in> set (take k ms)"
    then have "recorded d' (mi_name x) \<in> {None, Some (mi_checksum x)}"
      using assms(1) unfolding stopped_def list_all_iff by blast
    then show "recorded d (mi_name x) \<in> {None, Some (mi_checksum x)}"
      using assms(3) [OF in_set_takeD [OF x]] by simp
  qed
  moreover have "recorded d' (mi_name (ms ! k)) = recorded d (mi_name (ms ! k))" if "k < length ms"
    by (rule assms(3)) (simp add: that)
  ultimately show ?thesis using assms(1,2) by (auto simp: stopped_def stop_reason_def)
qed

lemma apply_loop_spec:
  assumes "apply_loop exec ledger False ms d r = (d', r', e)" and "ledger_rows d = Some rows"
    and "distinct (map mi_name ms)"
  shows "\<exists>k. stopped ms d k e
    \<and> ledger_rows d' = Some (rows @ map row_of (filter (fresh_in d) (take k ms)))
    \<and> applied r' = applied r @ map mi_name (filter (fresh_in d) (take k ms))
    \<and> (list_all (\<lambda>m. \<not> mi_no_tx m) ms \<longrightarrow>
         run_texts exec (map mi_sql (filter (fresh_in d) (take k ms))) (data d) = Some (data d'))"
  using assms
proof (induction ms arbitrary: d r rows)
  case Nil
  then show ?case by (auto simp: stopped_def)
next
  case (Cons m ms)
  have dist: "distinct (map mi_name ms)" and other: "\<And>x. x \<in> set ms \<Longrightarrow> mi_name x \<noteq> mi_name m"
    using Cons.prems(3) by (simp, metis distinct.simps(2) image_eqI list.simps(9) list.set_map)
  show ?case
  proof (cases "recorded d (mi_name m)")
    case (Some c)
    show ?thesis
    proof (cases "c = mi_checksum m")
      case True
      have "apply_loop exec ledger False ms d r = (d', r', e)" using Cons.prems(1) Some True by simp
      from Cons.IH [OF this Cons.prems(2) dist] obtain k where k: "stopped ms d k e"
        "ledger_rows d' = Some (rows @ map row_of (filter (fresh_in d) (take k ms)))"
        "applied r' = applied r @ map mi_name (filter (fresh_in d) (take k ms))"
        "list_all (\<lambda>m. \<not> mi_no_tx m) ms \<longrightarrow>
           run_texts exec (map mi_sql (filter (fresh_in d) (take k ms))) (data d) = Some (data d')" by blast
      have "stopped (m # ms) d (Suc k) e" by (rule stopped_Suc [OF k(1)]) (simp_all add: Some True)
      then show ?thesis using k Some by (intro exI [of _ "Suc k"]) simp
    next
      case False
      then show ?thesis using Cons.prems Some
        by (intro exI [of _ 0]) (auto intro!: stopped_0 simp: stop_reason_def)
    qed
  next
    case None
    obtain d1 b where one: "apply_one exec ledger m d = (d1, b)" by fastforce
    show ?thesis
    proof (cases b)
      case False
      then have "d' = d1" "applied r' = applied r" "e = Some (Failed (mi_name m))"
        using Cons.prems(1) None one by auto
      moreover have "stopped (m # ms) d 0 (Some (Failed (mi_name m)))" by (rule stopped_0) (simp_all add: None stop_reason_def)
      ultimately show ?thesis
        using apply_one_False one Cons.prems(2) False by (intro exI [of _ 0]) fastforce
    next
      case True
      let ?r = "r\<lparr>pending := pending r @ [mi_name m], applied := applied r @ [mi_name m]\<rparr>"
      have loop: "apply_loop exec ledger False ms d1 ?r = (d', r', e)" using Cons.prems(1) None one True by simp
      have one': "apply_one exec ledger m d = (d1, True)" using one True by simp
      note rows1 = apply_one_True(1) [OF one' Cons.prems(2)]
      have rec: "recorded d1 (mi_name x) = recorded d (mi_name x)" if "x \<in> set ms" for x
        using recorded_snoc [OF Cons.prems(2) rows1] other [OF that] by simp
      have fresh: "filter (fresh_in d1) (take k ms) = filter (fresh_in d) (take k ms)" for k
        by (rule filter_cong) (auto simp: rec dest: in_set_takeD)
      from Cons.IH [OF loop rows1 dist] obtain k where k: "stopped ms d1 k e"
        "ledger_rows d' = Some ((rows @ [row_of m]) @ map row_of (filter (fresh_in d) (take k ms)))"
        "applied r' = applied ?r @ map mi_name (filter (fresh_in d) (take k ms))"
        "list_all (\<lambda>m. \<not> mi_no_tx m) ms \<longrightarrow>
           run_texts exec (map mi_sql (filter (fresh_in d) (take k ms))) (data d1) = Some (data d')"
        unfolding fresh by blast
      have "stopped (m # ms) d (Suc k) e" by (rule stopped_Suc [OF k(1)]) (simp_all add: None rec)
      then show ?thesis using k None apply_one_True(2) [OF one' Cons.prems(2)]
        by (intro exI [of _ "Suc k"]) simp
    qed
  qed
qed

lemma recorded_init: "recorded (d\<lparr>ledger_rows := Some []\<rparr>) n = None"
  by (simp add: recorded_def)

text \<open>The table with which the loop starts.\<close>

definition old_rows :: "'d db \<Rightarrow> (string \<times> string) list" where
  "old_rows d = (case ledger_rows d of None \<Rightarrow> [] | Some rows \<Rightarrow> rows)"

text \<open>
  C30: what an application does, whichever way it ends. It walks the migrations in order and stops
  at the first that is recorded with another checksum or fails; up to there it has recorded, once
  each and in order, exactly the migrations that were not recorded, and reports them as applied;
  rows that were there stay. If no migration opts out of transactions, the database is exactly the
  result of running the texts of these migrations: the one that failed has left nothing behind.
\<close>

theorem apply_migrations_progress:
  assumes "apply_migrations exec ledger ms False d = (d', r, e)" and "distinct (map mi_name ms)" and "ms \<noteq> []"
  shows "\<exists>k. stopped ms d k e
    \<and> ledger_rows d' = Some (old_rows d @ map row_of (filter (fresh_in d) (take k ms)))
    \<and> applied r = map mi_name (filter (fresh_in d) (take k ms))
    \<and> (list_all (\<lambda>m. \<not> mi_no_tx m) ms \<longrightarrow>
         run_texts exec (map mi_sql (filter (fresh_in d) (take k ms))) (data d) = Some (data d'))"
proof -
  let ?d = "if ledger_rows d = None then d\<lparr>ledger_rows := Some []\<rparr> else d"
  have rec: "recorded ?d n = recorded d n" for n by (simp add: recorded_def)
  have rows: "ledger_rows ?d = Some (old_rows d)" by (auto simp: old_rows_def split: option.splits)
  have "apply_loop exec ledger False ms ?d \<lparr>applied = [], pending = []\<rparr> = (d', r, e)"
    using assms(1,3) by (simp add: apply_migrations_def Let_def)
  from apply_loop_spec [OF this rows assms(2)] show ?thesis
    unfolding stopped_def stop_reason_def rec by (simp add: if_distrib [of data] cong: if_cong)
qed

definition add_text :: "string \<Rightarrow> string list \<Rightarrow> string list option" where
  "add_text t u = (if t = ''bad'' then None else Some (u @ [t]))"

definition mig :: "string \<Rightarrow> string \<Rightarrow> migration" where
  "mig n t = \<lparr>mi_name = n, mi_checksum = t, mi_scope = TenantScope, mi_no_tx = False, mi_sql = t\<rparr>"

definition sample_migrations :: "migration list" where
  "sample_migrations = [mig ''0001_a.sql'' ''A'', mig ''0002_b.sql'' ''B'', mig ''0003_c.sql'' ''bad'', mig ''0004_d.sql'' ''D'']"

definition sample_db :: "string list db" where
  "sample_db = \<lparr>ledger_rows = Some [(''0001_a.sql'', ''A'')], data = []\<rparr>"

theorem apply_migrations_progress_witness:
  "\<exists>k. stopped sample_migrations sample_db k (Some (Failed ''0003_c.sql''))
     \<and> map mi_name (filter (fresh_in sample_db) (take k sample_migrations)) = [''0002_b.sql'']"
proof -
  have run: "apply_migrations add_text (\<lambda>_. True) sample_migrations False sample_db
      = (\<lparr>ledger_rows = Some [(''0001_a.sql'', ''A''), (''0002_b.sql'', ''B'')], data = [''B'']\<rparr>,
         \<lparr>applied = [''0002_b.sql''], pending = [''0002_b.sql'', ''0003_c.sql'']\<rparr>, Some (Failed ''0003_c.sql''))"
    by (simp add: sample_migrations_def sample_db_def mig_def apply_migrations_def recorded_def apply_one_def
        apply_tx_def add_text_def record_migration_def)
  have "distinct (map mi_name sample_migrations)" "sample_migrations \<noteq> []"
    by (simp_all add: sample_migrations_def mig_def)
  from apply_migrations_progress [OF run this] show ?thesis by auto
qed

lemma loop_all_recorded:
  "list_all (\<lambda>m. recorded d (mi_name m) = Some (mi_checksum m)) ms \<Longrightarrow> apply_loop exec ledger dry ms d r = (d, r, None)"
  by (induction ms) auto

text \<open>
  applying is idempotent. After a run without error every migration is recorded with its
  checksum, and a second run, dry or not, does nothing: it applies nothing, reports nothing as
  pending, and leaves the database as it is.
\<close>

theorem apply_migrations_idempotent:
  assumes "apply_migrations exec ledger ms False d = (d', r, None)" and "distinct (map mi_name ms)" and "ms \<noteq> []"
  shows "list_all (\<lambda>m. recorded d' (mi_name m) = Some (mi_checksum m)) ms
    \<and> apply_migrations exec ledger ms dry d' = (d', \<lparr>applied = [], pending = []\<rparr>, None)"
proof -
  let ?d = "if ledger_rows d = None then d\<lparr>ledger_rows := Some []\<rparr> else d"
  have rec: "recorded ?d n = recorded d n" for n by (simp add: recorded_def)
  have rows: "ledger_rows ?d = Some (old_rows d)" by (auto simp: old_rows_def split: option.splits)
  have "apply_loop exec ledger False ms ?d \<lparr>applied = [], pending = []\<rparr> = (d', r, None)"
    using assms(1,3) by (simp add: apply_migrations_def Let_def)
  from apply_loop_spec [OF this rows assms(2)] obtain k where k: "stopped ms ?d k None"
    "ledger_rows d' = Some (old_rows d @ map row_of (filter (fresh_in ?d) (take k ms)))" by blast
  have all: "take k ms = ms" using k(1) by (simp add: stopped_def)
  have known: "recorded d (mi_name m) \<in> {None, Some (mi_checksum m)}" if "m \<in> set ms" for m
    using k(1) that unfolding stopped_def rec all list_all_iff by blast
  have old: "map_of (old_rows d) n = recorded d n" for n by (simp add: old_rows_def recorded_def split: option.split)
  have new: "map_of (map row_of (filter P ms)) (mi_name m) = (if P m then Some (mi_checksum m) else None)"
    if "m \<in> set ms" for m P
  proof -
    have "distinct (map fst (map row_of (filter P ms)))"
      using distinct_map_filter' [OF assms(2), of P] by (simp add: row_of_def comp_def)
    moreover have "(mi_name m, c) \<in> set (map row_of (filter P ms)) \<longleftrightarrow> P m \<and> c = mi_checksum m" for c
      using that assms(2) by (auto simp: row_of_def distinct_map dest: inj_onD)
    ultimately show ?thesis by (metis (no_types, lifting) map_of_eq_Some_iff not_None_eq)
  qed
  have recs: "list_all (\<lambda>m. recorded d' (mi_name m) = Some (mi_checksum m)) ms"
    unfolding list_all_iff
  proof
    fix m assume m: "m \<in> set ms"
    show "recorded d' (mi_name m) = Some (mi_checksum m)"
      using known [OF m] new [OF m, of "fresh_in d"]
      by (auto simp: recorded_def [of d'] k(2) all rec map_add_def old split: option.split)
  qed
  moreover have "apply_migrations exec ledger ms dry d' = (d', \<lparr>applied = [], pending = []\<rparr>, None)"
    using loop_all_recorded [OF recs] k(2) by (simp add: apply_migrations_def Let_def)
  ultimately show ?thesis by blast
qed

theorem apply_migrations_idempotent_witness:
  "\<exists>d'. apply_migrations add_text (\<lambda>_. True) [mig ''0001_a.sql'' ''A'', mig ''0002_b.sql'' ''B''] True d'
     = (d', \<lparr>applied = [], pending = []\<rparr>, None) \<and> data d' = [''B'']"
proof -
  have run: "apply_migrations add_text (\<lambda>_. True) [mig ''0001_a.sql'' ''A'', mig ''0002_b.sql'' ''B''] False sample_db
      = (\<lparr>ledger_rows = Some [(''0001_a.sql'', ''A''), (''0002_b.sql'', ''B'')], data = [''B'']\<rparr>,
         \<lparr>applied = [''0002_b.sql''], pending = [''0002_b.sql'']\<rparr>, None)"
    by (simp add: sample_db_def mig_def apply_migrations_def recorded_def apply_one_def
        apply_tx_def add_text_def record_migration_def)
  from apply_migrations_idempotent [OF run, of True] show ?thesis by (auto simp: mig_def)
qed

lemma dry_loop:
  assumes "apply_loop exec ledger True ms d r = (d', r', e)"
  shows "d' = d \<and> applied r' = applied r
     \<and> (\<exists>k \<le> length ms. pending r' = pending r @ map mi_name (filter (fresh_in d) (take k ms)) \<and> (e = None \<longrightarrow> k = length ms))"
  using assms
proof (induction ms arbitrary: r)
  case (Cons m ms)
  show ?case
  proof (cases "recorded d (mi_name m) \<in> {None, Some (mi_checksum m)}")
    case True
    define r1 where "r1 = (if fresh_in d m then r\<lparr>pending := pending r @ [mi_name m]\<rparr> else r)"
    have "apply_loop exec ledger True ms d r1 = (d', r', e)" using Cons.prems True by (auto simp: r1_def Let_def)
    from Cons.IH [OF this] obtain k where k: "d' = d" "applied r' = applied r1" "k \<le> length ms"
      "pending r' = pending r1 @ map mi_name (filter (fresh_in d) (take k ms))" "e = None \<longrightarrow> k = length ms" by blast
    then show ?thesis by (intro conjI exI [of _ "Suc k"]) (auto simp: r1_def)
  next
    case False
    then show ?thesis using Cons.prems by (intro conjI exI [of _ 0]) (auto split: option.splits if_splits)
  qed
qed auto

text \<open>
  a dry run changes nothing. It leaves the data and the recorded migrations as they are (not
  even the table is created), applies nothing, and, when no checksum disagrees, reports as pending
  exactly the migrations that are not recorded, in order.
\<close>

theorem dry_run_changes_nothing:
  assumes "apply_migrations exec ledger ms True d = (d', r, e)"
  shows "d' = d \<and> applied r = [] \<and> (e = None \<longrightarrow> pending r = map mi_name (filter (fresh_in d) ms))"
proof (cases "ms = [] \<or> ledger_rows d = None")
  case True
  have "filter (fresh_in d) ms = ms" if "ledger_rows d = None" using that by (simp add: recorded_def)
  then show ?thesis using assms True by (auto simp: apply_migrations_def Let_def split: if_splits)
next
  case False
  then obtain rows where "ms \<noteq> []" "ledger_rows d = Some rows" by auto
  then have "apply_loop exec ledger True ms d \<lparr>applied = [], pending = []\<rparr> = (d', r, e)"
    using assms by (simp add: apply_migrations_def Let_def)
  from dry_loop [OF this] show ?thesis by auto
qed

theorem dry_run_changes_nothing_witness:
  "\<exists>r. apply_migrations add_text (\<lambda>_. True) sample_migrations True sample_db = (sample_db, r, None)
     \<and> pending r = [''0002_b.sql'', ''0003_c.sql'', ''0004_d.sql'']"
proof -
  have run: "apply_migrations add_text (\<lambda>_. True) sample_migrations True sample_db
      = (sample_db, \<lparr>applied = [], pending = [''0002_b.sql'', ''0003_c.sql'', ''0004_d.sql'']\<rparr>, None)"
    by (simp add: sample_migrations_def sample_db_def mig_def apply_migrations_def recorded_def)
  from dry_run_changes_nothing [OF run] run show ?thesis by simp
qed

end
