(* ===== verification/Tenant_Targets.thy ===== *)
theory Tenant_Targets
  imports Sql_Migration
begin

text \<open>
  Which tenant databases a deploy reaches, and the roll-out over them: \<open>migrations.go\<close> and
  \<open>tenants.go\<close> (lines 25-135, 1117-1141, 1222-1280). The databases are a map from URL to state;
  the workers of a roll-out run the targets in some order, and their errors are texts. Lower case
  is that of ASCII letters.
\<close>

section \<open>Targets\<close>

record tenant_target =
  t_relationship :: string
  t_id :: string
  t_project :: string
  t_name :: string
  t_database :: string
  t_status :: string
  t_description :: string
  t_provisioned :: bool
  t_runtime_created :: bool
  t_url :: string
  t_db_name :: string
  t_domain :: string
  t_registered :: bool

definition lower_char :: "char \<Rightarrow> char" where
  "lower_char c = (if in_char_range (CHR ''A'') (CHR ''Z'') c then char_of (of_char c + 32 :: nat) else c)"

definition to_lower :: "string \<Rightarrow> string" where "to_lower = map lower_char"

definition normalize_alias :: "string \<Rightarrow> string" where
  "normalize_alias v = to_lower (filter (\<lambda>c. c \<noteq> CHR ''-'' \<and> c \<noteq> CHR ''_'' \<and> c \<noteq> CHR '' '') (trim_space v))"

definition target_key :: "tenant_target \<Rightarrow> string" where
  "target_key t =
     (let k = normalize_alias (t_database t);
          k = (if k = '''' then normalize_alias (t_db_name t) else k);
          k = (if k = '''' then normalize_alias (t_id t) else k)
      in t_project t @ '':'' @ k)"

definition target_priority :: "tenant_target \<Rightarrow> int" where
  "target_priority t =
     (if t_registered t then 4
      else if t_description t = ''Persisted tenant from landlord database.'' then 3
      else if t_description t = ''Discovered local tenant database.'' then 2
      else if t_project t \<noteq> '''' then 1 else 0)"

text \<open>The map from keys to positions of the result is the position of the target with that key.\<close>

fun dedupe :: "tenant_target list \<Rightarrow> tenant_target list \<Rightarrow> tenant_target list" where
  "dedupe [] result = result"
| "dedupe (t # ts) result =
     (if target_key t \<in> set (map target_key result)
      then dedupe ts (update_where (\<lambda>r. target_key r = target_key t \<and> target_priority r < target_priority t) (\<lambda>r. t) result)
      else dedupe ts (result @ [t]))"

definition dedupe_targets :: "tenant_target list \<Rightarrow> tenant_target list" where
  "dedupe_targets ts = dedupe ts []"

fun distinct_urls :: "tenant_target list \<Rightarrow> string list \<Rightarrow> tenant_target list" where
  "distinct_urls [] seen = []"
| "distinct_urls (t # ts) seen =
     (if t_url t = '''' \<or> t_url t \<in> set seen then distinct_urls ts seen
      else t # distinct_urls ts (t_url t # seen))"

definition schema_tenant_targets :: "tenant_target list \<Rightarrow> tenant_target list" where
  "schema_tenant_targets ts = distinct_urls (dedupe_targets ts) []"

text \<open>The targets of the SQL migrations and of the schema; \<open>registered\<close> is the map of tenants.\<close>

definition tenant_targets_for_project :: "tenant_target list \<Rightarrow> string \<Rightarrow> tenant_target list" where
  "tenant_targets_for_project registered project =
     sort_key t_id (schema_tenant_targets (filter (\<lambda>t. t_project t = project) registered))"

definition tenant_schema_targets :: "string \<Rightarrow> tenant_target list \<Rightarrow> string \<Rightarrow> tenant_target list \<times> bool" where
  "tenant_schema_targets project_url registered project =
     (let ts = filter (\<lambda>t. t_project t = project \<and> t_url t \<noteq> '''') registered
      in if ts \<noteq> [] then (ts, False)
         else if trim_space project_url = '''' then ([], False)
         else ([\<lparr>t_relationship = '''', t_id = project, t_project = project, t_name = '''', t_database = '''', t_status = '''',
                 t_description = '''', t_provisioned = False, t_runtime_created = False, t_url = trim_space project_url,
                 t_db_name = '''', t_domain = '''', t_registered = False\<rparr>], True))"

fun matching_from :: "string \<Rightarrow> string \<Rightarrow> string \<Rightarrow> string \<Rightarrow> tenant_target list \<Rightarrow> tenant_target option \<Rightarrow> tenant_target option" where
  "matching_from project doc alias domain [] fallback = fallback"
| "matching_from project doc alias domain (t # ts) fallback =
     (if t_project t \<noteq> project \<or> \<not> t_registered t then matching_from project doc alias domain ts fallback
      else if doc \<noteq> '''' \<and> t_id t = doc then Some t
      else if alias \<noteq> '''' \<and> normalize_alias (t_database t) = normalize_alias alias
        then matching_from project doc alias domain ts (Some t)
      else if fallback = None \<and> domain \<noteq> '''' \<and> to_lower (trim_space (t_domain t)) = to_lower domain
        then matching_from project doc alias domain ts (Some t)
      else matching_from project doc alias domain ts fallback)"

definition matching_registered_tenant :: "tenant_target list \<Rightarrow> string \<Rightarrow> string \<Rightarrow> string \<Rightarrow> string \<Rightarrow> tenant_target option" where
  "matching_registered_tenant tenants project doc alias domain =
     matching_from project (trim_space doc) (trim_space alias) (trim_space domain) tenants None"

section \<open>The roll-out\<close>

fun contains :: "string \<Rightarrow> string \<Rightarrow> bool" where
  "contains p [] = (p = [])"
| "contains p (c # s) = (has_prefix p (c # s) \<or> contains p s)"

definition missing_database_error :: "string \<Rightarrow> bool" where
  "missing_database_error msg \<longleftrightarrow> contains ''database'' (to_lower msg) \<and> contains ''does not exist'' (to_lower msg)"

text \<open>
  One target: its result and error, and the databases after it. \<open>apply\<close> is the function that the
  code takes as an argument, on the state of one database.
\<close>

type_synonym 'r tenant_outcome = "'r \<times> string option"

fun run_workers :: "('d \<Rightarrow> 'd \<times> 'r tenant_outcome) \<Rightarrow> string list \<Rightarrow> (string \<Rightarrow> 'd) \<Rightarrow>
    (string \<Rightarrow> 'd) \<times> (string \<Rightarrow> 'r tenant_outcome option)" where
  "run_workers apply [] dbs = (dbs, \<lambda>_. None)"
| "run_workers apply (u # us) dbs =
     (let (d, out) = apply (dbs u); (dbs, outs) = run_workers apply us (dbs(u := d))
      in (dbs, if outs u = None then outs(u \<mapsto> out) else outs))"

definition tag_names :: "tenant_target \<Rightarrow> string list \<Rightarrow> string list" where
  "tag_names t names = map (\<lambda>n. t_id t @ '': '' @ n) names"

text \<open>\<open>applyTenantSQLMigrations\<close>: all failures are collected; \<open>fail\<close> is the text of a failure.\<close>

fun collect_migrations :: "(tenant_target \<Rightarrow> string \<Rightarrow> string) \<Rightarrow> tenant_target list \<Rightarrow>
    (string \<Rightarrow> apply_result tenant_outcome option) \<Rightarrow> apply_result \<times> string list \<Rightarrow> apply_result \<times> string list" where
  "collect_migrations fail [] outs acc = acc"
| "collect_migrations fail (t # ts) outs (r, fs) =
     (case outs (t_url t) of
        None \<Rightarrow> collect_migrations fail ts outs (r, fs)
      | Some (res, Some msg) \<Rightarrow>
          if missing_database_error msg then collect_migrations fail ts outs (r, fs)
          else collect_migrations fail ts outs (r, fs @ [fail t msg])
      | Some (res, None) \<Rightarrow>
          collect_migrations fail ts outs
            (\<lparr>applied = applied r @ tag_names t (applied res), pending = pending r @ tag_names t (pending res)\<rparr>, fs))"

definition rollout_migrations :: "('d \<Rightarrow> 'd \<times> apply_result tenant_outcome) \<Rightarrow> (tenant_target \<Rightarrow> string \<Rightarrow> string) \<Rightarrow>
    migration list \<Rightarrow> tenant_target list \<Rightarrow> string list \<Rightarrow> (string \<Rightarrow> 'd) \<Rightarrow>
    (string \<Rightarrow> 'd) \<times> apply_result \<times> string list" where
  "rollout_migrations apply fail ms tenants order dbs =
     (if ms = [] \<or> tenants = [] then (dbs, \<lparr>applied = [], pending = []\<rparr>, [])
      else let (dbs, outs) = run_workers apply order dbs
           in (dbs, collect_migrations fail tenants outs (\<lparr>applied = [], pending = []\<rparr>, [])))"

text \<open>\<open>applyTenantSchemas\<close>: the first failure, in the order of the targets, ends the report.\<close>

record schema_result =
  sr_applied :: "string list"
  sr_warnings :: "string list"

fun collect_schemas :: "(tenant_target \<Rightarrow> string \<Rightarrow> string) \<Rightarrow> tenant_target list \<Rightarrow>
    (string \<Rightarrow> schema_result tenant_outcome option) \<Rightarrow> schema_result \<Rightarrow> schema_result \<times> string option" where
  "collect_schemas fail [] outs r = (r, None)"
| "collect_schemas fail (t # ts) outs r =
     (case outs (t_url t) of
        None \<Rightarrow> collect_schemas fail ts outs r
      | Some (res, Some msg) \<Rightarrow>
          if missing_database_error msg
          then collect_schemas fail ts outs (r\<lparr>sr_warnings := sr_warnings r @ [t_id t @ '': skipped missing tenant database'']\<rparr>)
          else (r, Some (fail t msg))
      | Some (res, None) \<Rightarrow>
          collect_schemas fail ts outs
            \<lparr>sr_applied = sr_applied r @ tag_names t (sr_applied res), sr_warnings = sr_warnings r @ tag_names t (sr_warnings res)\<rparr>)"

definition rollout_schemas :: "('d \<Rightarrow> 'd \<times> schema_result tenant_outcome) \<Rightarrow> (tenant_target \<Rightarrow> string \<Rightarrow> string) \<Rightarrow>
    tenant_target list \<Rightarrow> string list \<Rightarrow> (string \<Rightarrow> 'd) \<Rightarrow> (string \<Rightarrow> 'd) \<times> schema_result \<times> string option" where
  "rollout_schemas apply fail tenants order dbs =
     (let targets = schema_tenant_targets tenants
      in if targets = [] then (dbs, \<lparr>sr_applied = [], sr_warnings = []\<rparr>, None)
         else let (dbs, outs) = run_workers apply order dbs
              in (dbs, collect_schemas fail targets outs \<lparr>sr_applied = [], sr_warnings = []\<rparr>))"

text \<open>The error of \<open>Apply\<close> as a text; \<open>cause\<close> is what the database said about a migration.\<close>

definition apply_error_text :: "(string \<Rightarrow> string) \<Rightarrow> apply_error \<Rightarrow> string" where
  "apply_error_text cause e =
     (case e of
        Failed n \<Rightarrow> ''apply migration '' @ n @ '': '' @ cause n
      | Mismatch n rec bundle \<Rightarrow> ''migration '' @ n @ '' checksum mismatch: database has '' @ rec @ '', bundle has '' @ bundle)"

definition apply_to_database :: "(string \<Rightarrow> 'd \<Rightarrow> 'd option) \<Rightarrow> (migration \<Rightarrow> bool) \<Rightarrow> (string \<Rightarrow> string) \<Rightarrow> migration list \<Rightarrow> bool \<Rightarrow>
    'd db \<Rightarrow> 'd db \<times> apply_result tenant_outcome" where
  "apply_to_database exec ledger cause ms dry d =
     (let (d, r, e) = apply_migrations exec ledger ms dry d in (d, r, map_option (apply_error_text cause) e))"

section \<open>Lemmas\<close>

lemma dedupe_spec:
  assumes "distinct (map target_key result)"
  shows "distinct (map target_key (dedupe ts result))"
    and "set (dedupe ts result) \<subseteq> set result \<union> set ts"
    and "t \<in> set result \<union> set ts \<Longrightarrow> \<exists>r \<in> set (dedupe ts result). target_key r = target_key t \<and> target_priority t \<le> target_priority r"
proof -
  have "distinct (map target_key (dedupe ts result)) \<and> set (dedupe ts result) \<subseteq> set result \<union> set ts
     \<and> (\<forall>t \<in> set result \<union> set ts. \<exists>r \<in> set (dedupe ts result). target_key r = target_key t \<and> target_priority t \<le> target_priority r)"
    using assms
  proof (induction ts arbitrary: result)
    case Nil
    then show ?case by auto
  next
    case (Cons t ts)
    show ?case
    proof (cases "target_key t \<in> set (map target_key result)")
      case True
      let ?r = "update_where (\<lambda>r. target_key r = target_key t \<and> target_priority r < target_priority t) (\<lambda>r. t) result"
      have keys: "map target_key ?r = map target_key result" by (rule map_update_where) simp
      have sub: "set ?r \<subseteq> insert t (set result)" by (auto simp: set_update_where)
      have up: "\<exists>r \<in> set ?r. target_key r = target_key x \<and> target_priority x \<le> target_priority r"
        if "x \<in> insert t (set result)" for x
      proof -
        have t: "target_key t \<in> target_key ` set result" using True by simp
        have "\<exists>y. y \<in> set result \<and> target_key y = target_key x \<and> (x = t \<or> y = x)"
        proof (cases "x = t")
          case True
          show ?thesis using t unfolding True by (metis imageE)
        next
          case False
          then show ?thesis using that by blast
        qed
        then obtain y where y: "y \<in> set result" "target_key y = target_key x" "x = t \<or> y = x" by blast
        show ?thesis
        proof (cases "target_key y = target_key t \<and> target_priority y < target_priority t")
          case True
          then have "t \<in> set ?r" using y(1) by (auto simp: set_update_where)
          then show ?thesis using True y by force
        next
          case False
          then have "y \<in> set ?r" using y(1) by (auto simp: set_update_where)
          then show ?thesis using False y by force
        qed
      qed
      have "distinct (map target_key ?r)" unfolding keys by (rule Cons.prems)
      note ih = Cons.IH [OF this]
      have eq: "dedupe (t # ts) result = dedupe ts ?r" using True by simp
      show ?thesis unfolding eq
      proof (intro conjI ballI)
        show "distinct (map target_key (dedupe ts ?r))" using ih by blast
        show "set (dedupe ts ?r) \<subseteq> set result \<union> set (t # ts)" using ih sub by auto
        fix x assume "x \<in> set result \<union> set (t # ts)"
        then consider "x \<in> set ts" | "x \<in> insert t (set result)" by auto
        then show "\<exists>r \<in> set (dedupe ts ?r). target_key r = target_key x \<and> target_priority x \<le> target_priority r"
        proof cases
          case 2
          then obtain y where "y \<in> set ?r" "target_key y = target_key x" "target_priority x \<le> target_priority y"
            using up by blast
          moreover from this obtain z where "z \<in> set (dedupe ts ?r)" "target_key z = target_key y"
            "target_priority y \<le> target_priority z" using ih by blast
          ultimately show ?thesis by (intro bexI [of _ z]) simp_all
        qed (use ih in blast)
      qed
    next
      case False
      then have eq: "dedupe (t # ts) result = dedupe ts (result @ [t])" by simp
      have dist: "distinct (map target_key (result @ [t]))" using False Cons.prems by simp
      have all: "set (result @ [t]) \<union> set ts = set result \<union> set (t # ts)" by auto
      show ?thesis unfolding eq by (rule Cons.IH [OF dist, unfolded all])
    qed
  qed
  then show "distinct (map target_key (dedupe ts result))" "set (dedupe ts result) \<subseteq> set result \<union> set ts"
    "t \<in> set result \<union> set ts \<Longrightarrow> \<exists>r \<in> set (dedupe ts result). target_key r = target_key t \<and> target_priority t \<le> target_priority r"
    by blast+
qed

lemma distinct_urls_spec:
  "distinct (map t_url (distinct_urls ts seen))"
  "set (distinct_urls ts seen) = set (distinct_urls ts seen) \<inter> set ts"
  "t_url ` set (distinct_urls ts seen) = t_url ` set ts - set seen - {''''}"
proof -
  have "distinct (map t_url (distinct_urls ts seen)) \<and> set (distinct_urls ts seen) \<subseteq> set ts
     \<and> t_url ` set (distinct_urls ts seen) = t_url ` set ts - set seen - {''''}"
    by (induction ts seen rule: distinct_urls.induct) auto
  then show "distinct (map t_url (distinct_urls ts seen))"
    "set (distinct_urls ts seen) = set (distinct_urls ts seen) \<inter> set ts"
    "t_url ` set (distinct_urls ts seen) = t_url ` set ts - set seen - {''''}" by blast+
qed

lemma run_workers_spec:
  assumes "distinct us" and "run_workers apply us dbs = (dbs', outs)"
  shows "dbs' u = (if u \<in> set us then fst (apply (dbs u)) else dbs u)"
    and "outs u = (if u \<in> set us then Some (snd (apply (dbs u))) else None)"
proof -
  have "dbs' u = (if u \<in> set us then fst (apply (dbs u)) else dbs u)
      \<and> outs u = (if u \<in> set us then Some (snd (apply (dbs u))) else None)"
    using assms
  proof (induction us arbitrary: dbs dbs' outs)
    case (Cons v us)
    obtain d out where a: "apply (dbs v) = (d, out)" by (meson surj_pair)
    obtain dbs1 outs1 where r: "run_workers apply us (dbs(v := d)) = (dbs1, outs1)" by fastforce
    have ih: "dbs1 u = (if u \<in> set us then fst (apply ((dbs(v := d)) u)) else (dbs(v := d)) u)"
      "outs1 u = (if u \<in> set us then Some (snd (apply ((dbs(v := d)) u))) else None)"
      using Cons.IH [OF _ r] Cons.prems(1) by auto
    have eq: "dbs' = dbs1" "outs = (if outs1 v = None then outs1(v \<mapsto> out) else outs1)"
      using Cons.prems(2) a r by auto
    show ?case
    proof (cases "u = v")
      case True
      then show ?thesis using ih eq a Cons.prems(1) by auto
    next
      case False
      then show ?thesis using ih eq by auto
    qed
  qed simp
  then show "dbs' u = (if u \<in> set us then fst (apply (dbs u)) else dbs u)"
    "outs u = (if u \<in> set us then Some (snd (apply (dbs u))) else None)" by blast+
qed

lemma run_workers_perm:
  assumes "distinct us" and "mset us' = mset us"
  shows "run_workers apply us' dbs = run_workers apply us dbs"
proof -
  obtain d1 o1 where 1: "run_workers apply us dbs = (d1, o1)" by fastforce
  obtain d2 o2 where 2: "run_workers apply us' dbs = (d2, o2)" by fastforce
  have dist: "distinct us'" and same: "set us' = set us"
    using assms by (metis mset_eq_imp_distinct_iff, metis mset_eq_setD)
  have "d2 u = d1 u" "o2 u = o1 u" for u
    using run_workers_spec [OF assms(1) 1, of u] run_workers_spec [OF dist 2, of u] same by auto
  then show ?thesis unfolding 1 2 by auto
qed

section \<open>Properties\<close>

text \<open>
  the targets of a roll-out. No database is visited twice, neither by URL nor by alias; every
  target is one of the tenants; and a tenant with a database is left out only in favour of one
  under the same alias of at least its priority, or of one with the same URL.
\<close>

theorem schema_tenant_targets_cover:
  assumes "t \<in> set ts" and "t_url t \<noteq> ''''"
  shows "distinct (map t_url (schema_tenant_targets ts)) \<and> '''' \<notin> t_url ` set (schema_tenant_targets ts)
    \<and> inj_on target_key (set (schema_tenant_targets ts)) \<and> set (schema_tenant_targets ts) \<subseteq> set ts
    \<and> (\<exists>r \<in> set ts. target_key r = target_key t \<and> target_priority t \<le> target_priority r
         \<and> (t_url r = '''' \<or> t_url r \<in> t_url ` set (schema_tenant_targets ts)))"
proof -
  let ?d = "dedupe_targets ts"
  have d: "distinct (map target_key ?d)" "set ?d \<subseteq> set ts"
    "\<And>x. x \<in> set ts \<Longrightarrow> \<exists>r \<in> set ?d. target_key r = target_key x \<and> target_priority x \<le> target_priority r"
    using dedupe_spec [where result = "[]" and ts = ts] by (auto simp: dedupe_targets_def)
  obtain r where r: "r \<in> set ?d" "target_key r = target_key t" "target_priority t \<le> target_priority r"
    using d(3) [OF assms(1)] by blast
  have sub: "set (schema_tenant_targets ts) \<subseteq> set ?d"
    using distinct_urls_spec(2) [of ?d "[]"] unfolding schema_tenant_targets_def by blast
  have urls: "t_url ` set (schema_tenant_targets ts) = t_url ` set ?d - {''''}"
    using distinct_urls_spec(3) [of ?d "[]"] by (simp add: schema_tenant_targets_def)
  have "distinct (map t_url (schema_tenant_targets ts))"
    unfolding schema_tenant_targets_def by (rule distinct_urls_spec(1))
  moreover have "inj_on target_key (set (schema_tenant_targets ts))"
    using d(1) sub by (simp add: distinct_map) (metis inj_on_subset)
  ultimately show ?thesis using r d(2) sub urls by blast
qed

definition tenant :: "string \<Rightarrow> string \<Rightarrow> string \<Rightarrow> bool \<Rightarrow> tenant_target" where
  "tenant i alias url reg = \<lparr>t_relationship = '''', t_id = i, t_project = ''p'', t_name = i, t_database = alias, t_status = '''',
     t_description = '''', t_provisioned = True, t_runtime_created = False, t_url = url, t_db_name = '''', t_domain = '''',
     t_registered = reg\<rparr>"

theorem schema_tenant_targets_cover_witness:
  "inj_on target_key (set (schema_tenant_targets [tenant ''a'' ''x-1'' ''u1'' False, tenant ''b'' ''X_1'' ''u2'' True, tenant ''c'' ''y'' ''u2'' True]))"
  using schema_tenant_targets_cover
    [of "tenant ''a'' ''x-1'' ''u1'' False" "[tenant ''a'' ''x-1'' ''u1'' False, tenant ''b'' ''X_1'' ''u2'' True, tenant ''c'' ''y'' ''u2'' True]"]
  by (simp add: tenant_def)

text \<open>
  C31: the roll-out does not depend on its schedule. The workers may take the targets in any order:
  the databases, the report and the failures are those of the targets' own order, and a database
  that is not a target is left alone.
\<close>

theorem rollout_order_independent:
  assumes "distinct (map t_url tenants)" and "mset order = mset (map t_url tenants)"
  shows "rollout_migrations apply fail ms tenants order dbs = rollout_migrations apply fail ms tenants (map t_url tenants) dbs
    \<and> (\<forall>u. u \<notin> t_url ` set tenants \<longrightarrow> fst (rollout_migrations apply fail ms tenants order dbs) u = dbs u)"
proof -
  obtain d outs where r: "run_workers apply (map t_url tenants) dbs = (d, outs)" by fastforce
  have perm: "run_workers apply order dbs = (d, outs)" by (rule trans [OF run_workers_perm [OF assms] r])
  have "d u = dbs u" if "u \<notin> t_url ` set tenants" for u
    using run_workers_spec(1) [OF assms(1) r, of u] that by simp
  then show ?thesis by (simp add: rollout_migrations_def perm r)
qed

definition sample_apply :: "string list db \<Rightarrow> string list db \<times> apply_result tenant_outcome" where
  "sample_apply = apply_to_database add_text (\<lambda>_. True) (\<lambda>_. ''boom'') [mig ''0001_a.sql'' ''A''] False"

definition two_tenants :: "tenant_target list" where
  "two_tenants = [tenant ''a'' ''x'' ''u1'' True, tenant ''b'' ''y'' ''u2'' True]"

theorem rollout_order_independent_witness:
  "rollout_migrations sample_apply (\<lambda>t m. m) [mig ''0001_a.sql'' ''A''] two_tenants [''u2'', ''u1''] (\<lambda>_. sample_db)
   = rollout_migrations sample_apply (\<lambda>t m. m) [mig ''0001_a.sql'' ''A''] two_tenants (map t_url two_tenants) (\<lambda>_. sample_db)"
proof -
  have "distinct (map t_url two_tenants)" "mset [''u2'', ''u1''] = mset (map t_url two_tenants)"
    by (simp_all add: two_tenants_def tenant_def add_mset_commute)
  then show ?thesis by (rule conjunct1 [OF rollout_order_independent])
qed

text \<open>
  the SQL migrations do not reach exactly the databases of the schema apply. The schema apply
  drops tenants without a database before it removes duplicates, the migrations after it; so a
  registered tenant without a database hides the configured one of the same alias, whose database
  gets the tables and not the migrations. A project without tenant databases gets its schema in the
  project's own database, and no tenant migration.
\<close>

theorem migration_targets_differ:
  "map t_url (schema_tenant_targets (fst (tenant_schema_targets '''' [tenant ''new'' ''acme'' '''' True, tenant ''old'' ''acme'' ''u1'' False] ''p''))) = [''u1'']
   \<and> map t_url (tenant_targets_for_project [tenant ''new'' ''acme'' '''' True, tenant ''old'' ''acme'' ''u1'' False] ''p'') = []
   \<and> map t_url (schema_tenant_targets (fst (tenant_schema_targets ''u0'' [] ''p''))) = [''u0'']
   \<and> tenant_targets_for_project [] ''p'' = []"
  by (intro conjI; code_simp)

definition fails_on_relation :: "string \<Rightarrow> string list db \<Rightarrow> string list db \<times> apply_result tenant_outcome" where
  "fails_on_relation name = apply_to_database add_text (\<lambda>_. True)
     (\<lambda>_. ''ERROR: relation users does not exist (SQLSTATE 42P01)'') [mig name ''bad''] False"

text \<open>
  a failed migration can pass for a missing database. An error that contains the words
  ``database'' and ``does not exist'' makes the roll-out skip the tenant. The name of the migration
  is part of the error, so a migration called \<open>0002_database_stats.sql\<close> that fails on a missing
  relation is skipped without a failure, and its tenant stays behind; the same error under another
  name is a failure.
\<close>

theorem failed_migration_skipped:
  "snd (rollout_migrations (fails_on_relation ''0002_database_stats.sql'') (\<lambda>t m. m) [mig ''0002_database_stats.sql'' ''bad'']
     [tenant ''a'' ''x'' ''u1'' True] [''u1''] (\<lambda>_. sample_db)) = (\<lparr>applied = [], pending = []\<rparr>, [])
   \<and> length (snd (snd (rollout_migrations (fails_on_relation ''0002_stats.sql'') (\<lambda>t m. m) [mig ''0002_stats.sql'' ''bad'']
     [tenant ''a'' ''x'' ''u1'' True] [''u1''] (\<lambda>_. sample_db)))) = 1"
  by (intro conjI; code_simp)

end
