(* ===== verification/Keyed_Patch.thy ===== *)
theory Keyed_Patch
  imports Json_Value "HOL-Library.AList"
begin

text \<open>
  Keyed query patches (\<open>subscriptions.go\<close>, functions \<open>keyedResultPatch\<close> to \<open>rowID\<close>): the
  difference between the previous and the next result of a subscription that the server
  sends instead of the whole result, and the reader of these messages in the TypeScript
  client (\<open>applyKeyedPatch\<close> and its callers in \<open>packages/client/src/index.ts\<close>).
  Go's map iteration orders do not show: the lists built from a map are sorted by row id,
  and a map of collections is compared as a map.
\<close>

section \<open>The server: rows and their ids\<close>

fun usable_id :: "json option \<Rightarrow> string" where
  "usable_id None = ''''"
| "usable_id (Some JNull) = ''''"
| "usable_id (Some v) = (let s = trim_space (go_sprint v) in if s = ''<nil>'' then '''' else s)"

definition row_id :: "json \<Rightarrow> string" where
  "row_id row =
    (let a = usable_id (field row ''_id'') in if a \<noteq> '''' then a else usable_id (field row ''id''))"

fun raw_rows :: "json \<Rightarrow> json list option" where
  "raw_rows (JArr rows) = Some rows"
| "raw_rows JNull = Some []"
| "raw_rows (JObj ms) = (case field (JObj ms) ''page'' of
     Some (JArr rows) \<Rightarrow> Some rows
   | Some JNull \<Rightarrow> Some []
   | _ \<Rightarrow> None)"
| "raw_rows _ = None"

fun index_rows :: "string list \<Rightarrow> json list \<Rightarrow> (string \<times> json) list option" where
  "index_rows seen [] = Some []"
| "index_rows seen (r # rs) = (let i = row_id r in
     if i = '''' \<or> i \<in> set seen then None
     else map_option ((#) (i, r)) (index_rows (i # seen) rs))"

definition keyed_rows :: "json \<Rightarrow> (string \<times> json) list option" where
  "keyed_rows payload = Option.bind (raw_rows payload) (index_rows [])"

section \<open>The server: the difference of two keyed collections\<close>

record coll_patch =
  p_inserted :: "json list"
  p_updated :: "json list"
  p_deleted :: "string list"
  p_order :: "string list"
  p_prepend :: "string list"
  p_append :: "string list"

definition compact_order_delta ::
  "string list \<Rightarrow> string list \<Rightarrow> string list \<Rightarrow> json list \<Rightarrow> (string list \<times> string list) option" where
  "compact_order_delta old_order new_order deleted inserted =
    (let base = filter (\<lambda>i. i \<notin> set deleted) old_order;
         fresh = remdups (map row_id inserted);
         n = length new_order - length base in
     if length new_order < length base \<or> n \<noteq> length fresh then None
     else if drop n new_order = base then
       (if set (take n new_order) \<subseteq> set fresh then Some (take n new_order, []) else None)
     else if take (length base) new_order = base then
       (if set (drop (length base) new_order) \<subseteq> set fresh then Some ([], drop (length base) new_order) else None)
     else None)"

definition inserted_rows :: "(string \<times> json) list \<Rightarrow> (string \<times> json) list \<Rightarrow> json list" where
  "inserted_rows old new = map snd (sort_key fst (filter (\<lambda>(i, r). map_of old i = None) new))"

definition updated_rows :: "(string \<times> json) list \<Rightarrow> (string \<times> json) list \<Rightarrow> json list" where
  "updated_rows old new = map snd (sort_key fst
    (filter (\<lambda>(i, r). case map_of old i of None \<Rightarrow> False | Some q \<Rightarrow> q \<noteq> r) new))"

definition deleted_ids :: "(string \<times> json) list \<Rightarrow> (string \<times> json) list \<Rightarrow> string list" where
  "deleted_ids old new = sort (filter (\<lambda>i. map_of new i = None) (map fst old))"

text \<open>\<open>None\<close>: the collections are the same.\<close>

definition rows_diff :: "(string \<times> json) list \<Rightarrow> (string \<times> json) list \<Rightarrow> coll_patch option" where
  "rows_diff old new =
    (let ins = inserted_rows old new; upd = updated_rows old new; del = deleted_ids old new;
         oo = map fst old; no = map fst new in
     if ins = [] \<and> upd = [] \<and> del = [] \<and> oo = no then None
     else Some (let p = \<lparr>p_inserted = ins, p_updated = upd, p_deleted = del,
                         p_order = [], p_prepend = [], p_append = []\<rparr> in
       if oo = no then p
       else (case compact_order_delta oo no del ins of
               Some (pre, app) \<Rightarrow> p\<lparr>p_prepend := pre, p_append := app\<rparr>
             | None \<Rightarrow> p\<lparr>p_order := no\<rparr>)))"

text \<open>\<open>keyedCollectionDiff\<close>: \<open>None\<close> when one side is not keyed, \<open>Some None\<close> when unchanged.\<close>

definition keyed_collection_diff :: "json \<Rightarrow> json \<Rightarrow> coll_patch option option" where
  "keyed_collection_diff previous next_value =
    (case keyed_rows previous of None \<Rightarrow> None | Some old \<Rightarrow>
     (case keyed_rows next_value of None \<Rightarrow> None | Some new \<Rightarrow> Some (rows_diff old new)))"

section \<open>The server: the patch message\<close>

datatype patch_message =
    Rows_Patch coll_patch
  | Page_Patch "(string \<times> json) list" coll_patch
  | Object_Patch "(string \<times> coll_patch) list"

fun object_diff :: "(string \<times> json) list \<Rightarrow> (string \<times> json) list \<Rightarrow> (string \<times> coll_patch) list option" where
  "object_diff old [] = Some []"
| "object_diff old ((k, v) # ms) = (case map_of old k of
     None \<Rightarrow> None
   | Some u \<Rightarrow> (case keyed_collection_diff u v of
       None \<Rightarrow> if u = v then object_diff old ms else None
     | Some None \<Rightarrow> object_diff old ms
     | Some (Some p) \<Rightarrow> map_option ((#) (k, p)) (object_diff old ms)))"

definition keyed_object_result_patch :: "json \<Rightarrow> (string \<times> json) list \<Rightarrow> patch_message option" where
  "keyed_object_result_patch previous next_ms =
    (case members_of previous of
       None \<Rightarrow> None
     | Some old \<Rightarrow> if length old \<noteq> length next_ms then None
         else (case object_diff old next_ms of
                 Some (c # cs) \<Rightarrow> Some (Object_Patch (c # cs))
               | _ \<Rightarrow> None))"

definition rows_patch :: "(coll_patch \<Rightarrow> patch_message) \<Rightarrow> json \<Rightarrow> json \<Rightarrow> patch_message option" where
  "rows_patch kind previous next_value =
    (case keyed_collection_diff previous next_value of
       Some (Some p) \<Rightarrow> Some (kind p) | _ \<Rightarrow> None)"

definition keyed_result_patch :: "json \<Rightarrow> json \<Rightarrow> patch_message option" where
  "keyed_result_patch previous next_value =
    (case members_of next_value of
       None \<Rightarrow> rows_patch Rows_Patch previous next_value
     | Some env \<Rightarrow>
         if map_of env ''page'' \<noteq> None
         then rows_patch (Page_Patch (filter (\<lambda>(k, v). k \<noteq> ''page'') env)) previous next_value
         else (case keyed_object_result_patch previous env of
                 Some m \<Rightarrow> Some m
               | None \<Rightarrow> rows_patch Rows_Patch previous next_value))"

definition coll_uses_delta :: "coll_patch \<Rightarrow> bool" where
  "coll_uses_delta p \<longleftrightarrow> p_prepend p \<noteq> [] \<or> p_append p \<noteq> []"

fun message_uses_order_delta :: "patch_message \<Rightarrow> bool" where
  "message_uses_order_delta (Rows_Patch p) = coll_uses_delta p"
| "message_uses_order_delta (Page_Patch _ p) = coll_uses_delta p"
| "message_uses_order_delta (Object_Patch cs) = list_ex (\<lambda>(k, p). coll_uses_delta p) cs"

section \<open>The client\<close>

text \<open>
  \<open>Map\<close> keeps insertion order: \<open>set\<close> on a present key keeps its place, a new key goes last
  (\<open>AList.update\<close>), \<open>delete\<close> is \<open>AList.delete\<close>. A list left out by \<open>omitempty\<close> is the
  empty list here; the client tests \<open>patch.order\<close> for presence.
\<close>

definition js_row_key :: "json \<Rightarrow> string" where
  "js_row_key row =
    (case (case field row ''_id'' of None \<Rightarrow> field row ''id'' | Some JNull \<Rightarrow> field row ''id'' | c \<Rightarrow> c) of
       Some (JStr s) \<Rightarrow> s
     | Some (JNum neg ds dp) \<Rightarrow> js_num neg ds dp
     | _ \<Rightarrow> '''')"

fun js_index :: "(string \<times> json) list \<Rightarrow> json list \<Rightarrow> (string \<times> json) list option" where
  "js_index acc [] = Some acc"
| "js_index acc (r # rs) = (let i = js_row_key r in
     if i = '''' \<or> i \<in> fst ` set acc then None else js_index (acc @ [(i, r)]) rs)"

fun js_set_rows :: "(string \<times> json) list \<Rightarrow> json list \<Rightarrow> (string \<times> json) list option" where
  "js_set_rows m [] = Some m"
| "js_set_rows m (r # rs) = (let i = js_row_key r in
     if i = '''' then None else js_set_rows (AList.update i r m) rs)"

fun pick_rows :: "(string \<times> json) list \<Rightarrow> string list \<Rightarrow> json list option" where
  "pick_rows m [] = Some []"
| "pick_rows m (i # is) = (case map_of m i of None \<Rightarrow> None | Some r \<Rightarrow> map_option ((#) r) (pick_rows m is))"

definition arrange :: "(string \<times> json) list \<Rightarrow> coll_patch \<Rightarrow> json list option" where
  "arrange m p =
    (if p_order p \<noteq> [] then
       (if length (p_order p) \<noteq> length m \<or> \<not> distinct (p_order p) then None else pick_rows m (p_order p))
     else if p_prepend p \<noteq> [] \<or> p_append p \<noteq> [] then
       (let moved = p_prepend p @ p_append p in
        if \<not> distinct moved then None
        else case pick_rows m (p_prepend p) of None \<Rightarrow> None | Some pre \<Rightarrow>
          (case pick_rows m (p_append p) of None \<Rightarrow> None | Some suf \<Rightarrow>
            (let out = pre @ map snd (filter (\<lambda>(i, r). i \<notin> set moved) m) @ suf in
             if length out = length m then Some out else None)))
     else Some (map snd m))"

definition apply_keyed_patch :: "json list \<Rightarrow> coll_patch \<Rightarrow> json list option" where
  "apply_keyed_patch previous p =
    (case js_index [] previous of None \<Rightarrow> None | Some m \<Rightarrow>
     (case js_set_rows (fold AList.delete (p_deleted p) m) (p_inserted p @ p_updated p) of
        None \<Rightarrow> None
      | Some m' \<Rightarrow> arrange m' p))"

text \<open>Object spread \<open>{...a, ...b}\<close>.\<close>

definition spread :: "(string \<times> json) list \<Rightarrow> (string \<times> json) list \<Rightarrow> (string \<times> json) list" where
  "spread a b = fold (\<lambda>(k, v). AList.update k v) b a"

fun apply_collections :: "(string \<times> json) list \<Rightarrow> (string \<times> coll_patch) list \<Rightarrow> (string \<times> json) list option" where
  "apply_collections ms [] = Some ms"
| "apply_collections ms ((k, p) # ps) = (case map_of ms k of
     Some (JArr rows) \<Rightarrow> (case apply_keyed_patch rows p of
        None \<Rightarrow> None | Some rows' \<Rightarrow> apply_collections (AList.update k (JArr rows') ms) ps)
   | _ \<Rightarrow> None)"

text \<open>
  The result after a patch whose base revision is the client's; \<open>None\<close> asks the server for
  a full snapshot. The client's view of an object is its canonical member list.
\<close>

fun client_apply :: "json \<Rightarrow> patch_message \<Rightarrow> json option" where
  "client_apply (JArr rows) (Rows_Patch p) = map_option JArr (apply_keyed_patch rows p)"
| "client_apply (JObj ms) (Page_Patch meta p) = (case field (JObj ms) ''page'' of
     Some (JArr rows) \<Rightarrow> map_option (\<lambda>page. JObj (spread (spread (canon ms) meta) [(''page'', JArr page)]))
                           (apply_keyed_patch rows p)
   | _ \<Rightarrow> None)"
| "client_apply (JObj ms) (Object_Patch cs) = map_option JObj (apply_collections (canon ms) cs)"
| "client_apply _ _ = None"

section \<open>Rows whose id the two sides read alike\<close>

fun plain_id :: "json \<Rightarrow> bool" where
  "plain_id (JStr s) = (s \<noteq> '''' \<and> s \<noteq> ''<nil>'' \<and> trim_space s = s)"
| "plain_id (JNum neg ds dp) = (ds \<noteq> [] \<and> list_all (\<lambda>c. digit_value c \<noteq> None) ds \<and> - 4 < dp \<and> dp \<le> 6)"
| "plain_id _ = False"

fun plain_opt :: "json option \<Rightarrow> bool" where
  "plain_opt None = False"
| "plain_opt (Some v) = plain_id v"

definition plain_row :: "json \<Rightarrow> bool" where
  "plain_row row \<longleftrightarrow> plain_opt
    (case field row ''_id'' of None \<Rightarrow> field row ''id'' | Some JNull \<Rightarrow> field row ''id'' | c \<Rightarrow> c)"

definition num_char :: "char \<Rightarrow> bool" where
  "num_char c \<longleftrightarrow> digit_value c \<noteq> None \<or> c = CHR ''-'' \<or> c = CHR ''.''"

lemma num_char_space: "num_char c \<Longrightarrow> \<not> ascii_space c \<and> \<not> space2 a c \<and> \<not> space2 c a"
  "num_char c \<Longrightarrow> \<not> space3 a b c \<and> \<not> space3 c a b"
  by (auto simp: num_char_def ascii_space_def space2_def space3_def digit_value_def Let_def)

lemma num_char_no_space:
  assumes "list_all num_char s"
  shows "space_len s = 0" "rspace_len s = 0"
  using assms by (cases s rule: space_len.cases, simp_all add: num_char_space)
    (use assms in \<open>cases s rule: rspace_len.cases, simp_all add: num_char_space\<close>)

lemma trim_plain: "list_all num_char s \<Longrightarrow> trim_space s = s"
  unfolding trim_space_def using num_char_no_space[of s] num_char_no_space[of "rev s"]
  by (simp add: trim_left_id trim_rev_id)

lemma go_num_chars:
  assumes "list_all num_char ds" "- 4 < dp" "dp \<le> 6"
  shows "list_all num_char (go_num neg ds dp)"
proof -
  have c: "num_char (CHR ''0'')" "num_char (CHR ''.'')" "num_char (CHR ''-'')"
    by (simp_all add: num_char_def digit_value_def Let_def)
  have z: "list_all num_char (zeros k)" for k
    by (simp add: zeros_def list_all_iff c)
  have "list_all num_char (take k ds)" "list_all num_char (drop k ds)" for k
    using assms(1) by (auto simp: list_all_iff dest: in_set_takeD in_set_dropD)
  then have "list_all num_char (go_fix_form ds dp)"
    by (simp add: go_fix_form_def c z)
  then show ?thesis using assms(2,3) by (simp add: go_num_def c)
qed

lemma go_num_nonempty: "go_num neg ds dp \<noteq> []"
  by (auto simp: go_num_def go_fix_form_def go_exp_form_def)

lemma usable_plain:
  assumes "plain_id v"
  shows "usable_id (Some v) = go_sprint v \<and> go_sprint v \<noteq> '''' \<and>
    (case v of JStr s \<Rightarrow> s | JNum neg ds dp \<Rightarrow> js_num neg ds dp | _ \<Rightarrow> '''') = go_sprint v"
proof (cases v)
  case (JNum neg ds dp)
  have n: "list_all num_char (go_num neg ds dp)"
    using assms JNum by (intro go_num_chars) (auto simp: num_char_def list_all_iff)
  then have "go_num neg ds dp \<noteq> ''<nil>''"
    by (auto simp: num_char_def digit_value_def)
  with trim_plain[OF n] have "trim_space (go_num neg ds dp) = go_num neg ds dp" "go_num neg ds dp \<noteq> ''<nil>''"
    by blast+
  then show ?thesis using JNum assms go_num_nonempty[of neg ds dp] by (simp add: num_text_agrees)
qed (use assms in \<open>auto simp: Let_def\<close>)

lemma plain_row_key: "plain_row r \<Longrightarrow> js_row_key r = row_id r \<and> row_id r \<noteq> ''''"
proof -
  assume p: "plain_row r"
  show ?thesis
  proof (cases "field r ''_id'' = None \<or> field r ''_id'' = Some JNull")
    case True
    then obtain v where v: "field r ''id'' = Some v" "plain_id v"
      using p by (cases "field r ''id''") (auto simp: plain_row_def)
    show ?thesis using True usable_plain[OF v(2)] v
      by (cases v) (auto simp: js_row_key_def row_id_def Let_def)
  next
    case False
    then obtain v where v: "field r ''_id'' = Some v" "v \<noteq> JNull" by auto
    then have pv: "plain_id v" using p by (cases v) (auto simp: plain_row_def)
    show ?thesis using usable_plain[OF pv] v
      by (cases v) (auto simp: js_row_key_def row_id_def Let_def)
  qed
qed

section \<open>Keyed collections\<close>

definition keyed :: "(string \<times> json) list \<Rightarrow> bool" where
  "keyed xs \<longleftrightarrow> distinct (map fst xs) \<and> (\<forall>(i, r) \<in> set xs. row_id r = i \<and> i \<noteq> '''')"

definition with_ids :: "json list \<Rightarrow> (string \<times> json) list" where
  "with_ids rs = map (\<lambda>r. (row_id r, r)) rs"

lemma with_ids_Cons [simp]: "with_ids (r # rs) = (row_id r, r) # with_ids rs"
  and with_ids_Nil [simp]: "with_ids [] = []"
  by (simp_all add: with_ids_def)

lemma index_rows_spec:
  "index_rows seen rs = Some xs \<Longrightarrow>
    xs = with_ids rs \<and> keyed xs \<and> fst ` set xs \<inter> set seen = {}"
proof (induction seen rs arbitrary: xs rule: index_rows.induct)
  case (2 seen r rs)
  then obtain ys where "row_id r \<noteq> ''''" "row_id r \<notin> set seen"
      "index_rows (row_id r # seen) rs = Some ys" "xs = (row_id r, r) # ys"
    by (auto simp: Let_def split: if_splits)
  then show ?case using "2.IH"[OF refl] by (auto simp: keyed_def)
qed (auto simp: keyed_def)

lemma keyed_rows_spec: "keyed_rows (JArr rs) = Some xs \<Longrightarrow> xs = with_ids rs \<and> keyed xs"
  using index_rows_spec by (auto simp: keyed_rows_def)

lemma with_ids_fst: "map fst (with_ids rs) = map row_id rs" "map snd (with_ids rs) = rs"
  by (simp_all add: with_ids_def comp_def)

lemma js_index_plain:
  "list_all plain_row rs \<Longrightarrow> distinct (map fst acc @ map row_id rs) \<Longrightarrow>
    js_index acc rs = Some (acc @ with_ids rs)"
proof (induction acc rs rule: js_index.induct)
  case (2 acc r rs)
  then show ?case by (auto simp: plain_row_key with_ids_def Let_def)
qed (simp add: with_ids_def)

lemma js_set_rows_plain:
  "list_all plain_row rs \<Longrightarrow> js_set_rows m rs = Some (fold (\<lambda>(i, r). AList.update i r) (with_ids rs) m)"
  by (induction m rs rule: js_set_rows.induct) (auto simp: plain_row_key with_ids_def Let_def)

lemma fold_delete: "fold AList.delete ks m = filter (\<lambda>(i, r). i \<notin> set ks) m"
  by (induction ks arbitrary: m) (auto simp: AList.delete_eq filter_filter intro!: filter_cong)

lemma map_of_filter: "map_of (filter (\<lambda>(i, r). P i) m) i = (if P i then map_of m i else None)"
  by (induction m) auto

lemma map_of_fold_update:
  "map_of (fold (\<lambda>(i, r). AList.update i r) xs m) = map_of m ++ map_of (rev xs)"
  by (induction xs arbitrary: m) (auto simp: update_conv' map_add_def fun_eq_iff split: option.splits)

lemma fold_update_keys:
  "distinct (map fst xs) \<Longrightarrow>
    map fst (fold (\<lambda>(i, r). AList.update i r) xs m) = map fst m @ filter (\<lambda>i. i \<notin> fst ` set m) (map fst xs)"
proof (induction xs arbitrary: m)
  case (Cons x xs)
  obtain i r where x: "x = (i, r)" by (cases x)
  show ?case
  proof (cases "i \<in> fst ` set m")
    case True
    then have "map fst (AList.update i r m) = map fst m" by (simp add: update_keys)
    moreover from this have "fst ` set (AList.update i r m) = fst ` set m" by (metis set_map)
    ultimately show ?thesis using Cons x True by simp
  next
    case False
    then have u: "map fst (AList.update i r m) = map fst m @ [i]" by (simp add: update_keys)
    then have "fst ` set (AList.update i r m) = insert i (fst ` set m)"
      by (metis set_map set_append list.set(1,2) Un_insert_right Un_empty_right insert_is_Un Un_commute)
    then show ?thesis using Cons x False u by (auto intro!: filter_cong)
  qed
qed simp

lemma pick_rows_all:
  "(\<And>i. i \<in> set is \<Longrightarrow> map_of m i \<noteq> None) \<Longrightarrow> pick_rows m is = Some (map (the \<circ> map_of m) is)"
proof (induction "is")
  case (Cons a as)
  from Cons.prems[of a] obtain y where "map_of m a = Some y" by auto
  with Cons show ?case by simp
qed simp

lemma map_snd_lookup:
  assumes "distinct (map fst m)"
  shows "map snd m = map (the \<circ> map_of m) (map fst m)"
  using assms by (auto simp: comp_def)

section \<open>A patch leads from the previous rows to the next ones\<close>

lemma map_of_rev_keys: "distinct (map fst xs) \<Longrightarrow> map_of (rev xs) = map_of xs"
  by (subst map_of_inject_set) (simp_all add: rev_map[symmetric])

lemma distinct_fst_sort: "distinct (map fst (sort_key fst xs)) = distinct (map fst xs)"
  by (simp add: distinct_map)

lemma with_ids_snd: "(\<And>i r. (i, r) \<in> set xs \<Longrightarrow> row_id r = i) \<Longrightarrow> with_ids (map snd xs) = xs"
  by (auto simp: with_ids_def intro!: map_idI)

abbreviation same_row :: "(string \<times> json) list \<Rightarrow> string \<Rightarrow> json \<Rightarrow> bool" where
  "same_row old i r \<equiv> map_of old i = Some r"

definition changed_rows :: "(string \<times> json) list \<Rightarrow> (string \<times> json) list \<Rightarrow> (string \<times> json) list" where
  "changed_rows old new = sort_key fst (filter (\<lambda>(i, r). map_of old i = None) new) @
     sort_key fst (filter (\<lambda>(i, r). case map_of old i of None \<Rightarrow> False | Some q \<Rightarrow> q \<noteq> r) new)"

lemma changed_rows_with_ids:
  assumes "keyed new"
  shows "with_ids (inserted_rows old new @ updated_rows old new) = changed_rows old new"
proof -
  have "with_ids (inserted_rows old new) = sort_key fst (filter (\<lambda>(i, r). map_of old i = None) new)"
    unfolding inserted_rows_def using assms by (intro with_ids_snd) (auto simp: keyed_def)
  moreover have "with_ids (updated_rows old new) = sort_key fst
      (filter (\<lambda>(i, r). case map_of old i of None \<Rightarrow> False | Some q \<Rightarrow> q \<noteq> r) new)"
    unfolding updated_rows_def using assms by (intro with_ids_snd) (auto simp: keyed_def)
  ultimately show ?thesis by (simp add: changed_rows_def with_ids_def)
qed

lemma set_changed_rows: "set (changed_rows old new) = {(i, r) \<in> set new. map_of old i \<noteq> Some r}"
  by (auto simp: changed_rows_def split: option.splits)

lemma distinct_changed_rows:
  assumes "keyed new"
  shows "distinct (map fst (changed_rows old new))"
proof -
  have "distinct (map fst new)" using assms by (simp add: keyed_def)
  then have "distinct (map fst (filter P new))" for P by (rule distinct_map_filter')
  then show ?thesis by (auto simp: changed_rows_def distinct_fst_sort split: option.splits)
qed

lemma changed_rows_lookup:
  assumes "keyed new"
  shows "map_of (changed_rows old new) i =
    (case map_of new i of None \<Rightarrow> None | Some r \<Rightarrow> if map_of old i = Some r then None else Some r)"
proof -
  have d: "distinct (map fst new)" using assms by (simp add: keyed_def)
  have m: "map_of (changed_rows old new) i = Some r \<longleftrightarrow> map_of new i = Some r \<and> map_of old i \<noteq> Some r" for r
    by (simp add: map_of_eq_Some_iff distinct_changed_rows[OF assms] d set_changed_rows)
  show ?thesis
  proof (cases "map_of new i")
    case None
    then have "map_of (changed_rows old new) i = None" using m by (metis option.exhaust option.distinct(1))
    then show ?thesis using None by simp
  next
    case (Some r)
    show ?thesis
    proof (cases "map_of old i = Some r")
      case True
      then have "map_of (changed_rows old new) i = None"
        using m Some by (metis option.exhaust option.inject)
      then show ?thesis using Some True by simp
    next
      case False
      then have "map_of (changed_rows old new) i = Some r" using m Some by blast
      then show ?thesis using Some False by simp
    qed
  qed
qed

definition patched :: "(string \<times> json) list \<Rightarrow> (string \<times> json) list \<Rightarrow> (string \<times> json) list" where
  "patched old new = fold (\<lambda>(i, r). AList.update i r) (changed_rows old new)
     (fold AList.delete (deleted_ids old new) old)"

lemma patched_lookup:
  assumes "keyed new"
  shows "map_of (patched old new) = map_of new"
proof
  fix i
  have c: "map_of (rev (changed_rows old new)) = map_of (changed_rows old new)"
    by (rule map_of_rev_keys) (rule distinct_changed_rows[OF assms])
  have "i \<in> set (deleted_ids old new) \<longleftrightarrow> map_of old i \<noteq> None \<and> map_of new i = None"
    by (auto simp: deleted_ids_def map_of_eq_None_iff)
  then show "map_of (patched old new) i = map_of new i"
    by (auto simp: patched_def map_of_fold_update c map_add_def changed_rows_lookup[OF assms]
        fold_delete map_of_filter split: option.splits)
qed

lemma patched_keys:
  assumes "keyed new"
  shows "map fst (patched old new) =
    filter (\<lambda>i. i \<notin> set (deleted_ids old new)) (map fst old) @ map row_id (inserted_rows old new)"
proof -
  let ?m = "fold AList.delete (deleted_ids old new) old"
  have k: "fst ` set ?m = {i. map_of old i \<noteq> None \<and> map_of new i \<noteq> None}"
    by (auto simp: fold_delete deleted_ids_def map_of_eq_None_iff image_iff) force+
  have ins: "map row_id (inserted_rows old new) = map fst (sort_key fst (filter (\<lambda>(i, r). map_of old i = None) new))"
    using assms by (auto simp: inserted_rows_def keyed_def)
  have n: "map_of new i \<noteq> None" if "(i, r) \<in> set new" for i r
    using that by (simp add: map_of_eq_None_iff image_iff) force
  have f: "filter (\<lambda>i. i \<notin> fst ` set ?m) (map fst (changed_rows old new)) =
      map fst (sort_key fst (filter (\<lambda>(i, r). map_of old i = None) new))"
    unfolding changed_rows_def k
    by (auto simp: filter_map filter_id_conv filter_empty_conv comp_def dest!: n split: option.splits)
  have o: "map fst ?m = filter (\<lambda>i. i \<notin> set (deleted_ids old new)) (map fst old)"
    by (auto simp: fold_delete filter_map comp_def split_def)
  show ?thesis unfolding patched_def
    by (simp only: fold_update_keys[OF distinct_changed_rows[OF assms]] f o ins)
qed

lemma rows_in_order:
  assumes "map_of m = map_of new" "distinct (map fst new)"
  shows "pick_rows m (map fst new) = Some (map snd new)"
proof -
  have "map_of m i \<noteq> None" if "i \<in> set (map fst new)" for i
    using that assms(1) by (auto simp: map_of_eq_None_iff)
  then have "pick_rows m (map fst new) = Some (map (the \<circ> map_of m) (map fst new))"
    by (rule pick_rows_all)
  then show ?thesis using assms(1) map_snd_lookup[OF assms(2)] by simp
qed

lemma arrange_order:
  assumes m: "map_of m = map_of new" "distinct (map fst m)" and new: "distinct (map fst new)"
    and p: "p_order p = map fst new" "p_order p \<noteq> []"
  shows "arrange m p = Some (map snd new)"
proof -
  have "set (map fst m) = set (map fst new)"
    using arg_cong[OF m(1), of dom] by (simp add: dom_map_of_conv_image_fst)
  then have "length m = length new" by (metis distinct_card m(2) new length_map)
  then show ?thesis using p new rows_in_order[OF m(1) new] by (simp add: arrange_def)
qed

lemma arrange_delta:
  assumes m: "map_of m = map_of new" "map fst m = base @ fresh" "distinct (map fst m)"
    and new: "distinct (map fst new)" "map fst new = p_prepend p @ base @ p_append p"
    and p: "p_order p = []" "set (p_prepend p @ p_append p) = set fresh"
  shows "arrange m p = Some (map snd new)"
proof -
  let ?look = "map (the \<circ> map_of m)"
  have snd_new: "map snd new = ?look (map fst new)" using map_snd_lookup[OF new(1)] m(1) by simp
  have picks: "pick_rows m ks = Some (?look ks)" if "set ks \<subseteq> set (map fst new)" for ks
  proof (rule pick_rows_all)
    fix i assume "i \<in> set ks"
    then have "i \<in> fst ` set new" using that by auto
    then show "map_of m i \<noteq> None" using m(1) by (simp add: map_of_eq_None_iff)
  qed
  show ?thesis
  proof (cases "p_prepend p = [] \<and> p_append p = []")
    case True
    then have "map fst m = map fst new" using m(2) new(2) p(2) by simp
    then show ?thesis using True p(1) snd_new map_snd_lookup[OF m(3)] by (simp add: arrange_def)
  next
    case False
    have dis: "set base \<inter> set (p_prepend p @ p_append p) = {}" "distinct (p_prepend p @ p_append p)"
      using new(1) unfolding new(2) by auto
    have keys: "filter (\<lambda>i. i \<notin> set (p_prepend p @ p_append p)) (map fst m) = base"
      using dis(1) p(2) unfolding m(2) by (auto simp: filter_id_conv filter_empty_conv)
    have "map snd (filter (\<lambda>(i, r). i \<notin> set (p_prepend p @ p_append p)) m) =
        ?look (map fst (filter (\<lambda>(i, r). i \<notin> set (p_prepend p @ p_append p)) m))"
      using m(3) by (auto simp: comp_def)
    also have "map fst (filter (\<lambda>(i, r). i \<notin> set (p_prepend p @ p_append p)) m) = base"
      using keys by (simp add: filter_map comp_def split_def)
    finally have mid: "map snd (filter (\<lambda>(i, r). i \<notin> set (p_prepend p @ p_append p)) m) = ?look base" .
    have "length m = length base + length fresh" using m(2) by (metis length_map length_append)
    moreover have "length fresh = length (p_prepend p @ p_append p)"
      using m(2,3) dis(2) p(2) by (metis distinct_append distinct_card)
    moreover have "set (p_prepend p) \<subseteq> set (map fst new)" "set (p_append p) \<subseteq> set (map fst new)"
      unfolding new(2) by auto
    note this[THEN picks]
    ultimately show ?thesis
      using False p(1) dis(2) mid snd_new unfolding new(2) by (simp add: arrange_def Let_def)
  qed
qed

lemma compact_delta_sound:
  assumes "compact_order_delta oo no del ins = Some (pre, app)" "distinct no"
  defines "base \<equiv> filter (\<lambda>i. i \<notin> set del) oo"
  shows "no = pre @ base @ app \<and> set (pre @ app) = set (map row_id ins)"
proof -
  let ?f = "remdups (map row_id ins)" and ?n = "length no - length base"
  have le: "length base \<le> length no" and n: "?n = length ?f"
    using assms(1) by (auto simp: compact_order_delta_def base_def Let_def split: if_splits)
  have full: "set ks = set ?f" if "set ks \<subseteq> set ?f" "length ks = ?n" "distinct ks" for ks
    using that n card_subset_eq[of "set ?f" "set ks"] by (simp add: distinct_card length_remdups_card_conv)
  consider "drop ?n no = base" "set (take ?n no) \<subseteq> set ?f" "pre = take ?n no" "app = []"
    | "take (length base) no = base" "set (drop (length base) no) \<subseteq> set ?f" "pre = []" "app = drop (length base) no"
    using assms(1) by (auto simp: compact_order_delta_def base_def Let_def split: if_splits)
  then show ?thesis
  proof cases
    case 1
    have "set (take ?n no) = set ?f" using 1 le assms(2) by (intro full) auto
    then show ?thesis using 1 append_take_drop_id[of ?n no] by simp
  next
    case 2
    have "set (drop (length base) no) = set ?f" using 2 le assms(2) by (intro full) auto
    then show ?thesis using 2 append_take_drop_id[of "length base" no] by simp
  qed
qed

lemma compact_delta_empty:
  assumes "ins = []" "filter (\<lambda>i. i \<notin> set del) oo = []"
  shows "compact_order_delta oo [] del ins \<noteq> None"
  using assms by (simp add: compact_order_delta_def)

lemma rows_diff_arranged:
  assumes old: "keyed old" and new: "keyed new" and d: "rows_diff old new = Some p"
  shows "arrange (patched old new) p = Some (map snd new)"
proof -
  let ?ins = "inserted_rows old new" and ?del = "deleted_ids old new"
  let ?oo = "map fst old" and ?no = "map fst new"
  let ?base = "filter (\<lambda>i. i \<notin> set ?del) ?oo"
  note lookup = patched_lookup[OF new, of old] and keys = patched_keys[OF new, of old]
  have dn: "distinct ?no" using new by (simp add: keyed_def)
  have dm: "distinct (map fst (patched old new))"
  proof -
    have "map row_id ?ins = map fst (sort_key fst (filter (\<lambda>(i, r). map_of old i = None) new))"
      using new by (auto simp: inserted_rows_def keyed_def)
    moreover have "fst ` set (filter (\<lambda>(i, r). map_of old i = None) new) \<inter> set ?oo = {}"
      by (auto simp: map_of_eq_None_iff rev_image_eqI)
    ultimately have "distinct (map row_id ?ins)" "set (map row_id ?ins) \<inter> set ?oo = {}"
      using dn by (simp_all add: distinct_fst_sort distinct_map_filter')
    then show ?thesis using old by (auto simp: keys keyed_def)
  qed
  show ?thesis
  proof (cases "?oo = ?no")
    case True
    then have same: "fst ` set old = fst ` set new" by (metis list.set_map)
    have "?del = []" by (simp add: deleted_ids_def filter_empty_conv map_of_eq_None_iff same)
    moreover have "filter (\<lambda>(i, r). map_of old i = None) new = []"
      by (auto simp: filter_empty_conv map_of_eq_None_iff same rev_image_eqI)
    then have "?ins = []" unfolding inserted_rows_def by simp
    moreover from this have "p_order p = []" "p_prepend p = []" "p_append p = []"
      using d True by (auto simp: rows_diff_def Let_def split: if_splits)
    ultimately show ?thesis
      using arrange_delta[OF lookup keys dm dn, of p] True by simp
  next
    case False
    then have p: "p_order p = (case compact_order_delta ?oo ?no ?del ?ins of None \<Rightarrow> ?no | Some _ \<Rightarrow> [])"
      "\<And>pre app. compact_order_delta ?oo ?no ?del ?ins = Some (pre, app) \<Longrightarrow> p_prepend p = pre \<and> p_append p = app"
      using d by (auto simp: rows_diff_def Let_def split: if_splits option.splits)
    show ?thesis
    proof (cases "compact_order_delta ?oo ?no ?del ?ins")
      case None
      have "?no \<noteq> []"
      proof
        assume "?no = []"
        then have "?ins = []" "?base = []"
          by (auto simp: inserted_rows_def deleted_ids_def filter_empty_conv)
        then show False using None \<open>?no = []\<close> compact_delta_empty by simp
      qed
      then show ?thesis using p(1) None arrange_order[OF lookup dm dn] by simp
    next
      case (Some pa)
      obtain pre app where pa: "pa = (pre, app)" by (cases pa)
      have c: "?no = pre @ ?base @ app \<and> set (pre @ app) = set (map row_id ?ins)"
        using compact_delta_sound[OF _ dn] Some pa by blast
      have "p_prepend p = pre" "p_append p = app" "p_order p = []" using p Some pa by auto
      then show ?thesis using arrange_delta[OF lookup keys dm dn, of p] c by simp
    qed
  qed
qed

lemma collection_roundtrip:
  assumes d: "keyed_collection_diff (JArr rs) (JArr qs) = Some (Some p)"
    and plain: "list_all plain_row rs" "list_all plain_row qs"
  shows "apply_keyed_patch rs p = Some qs"
proof -
  obtain old new where on: "keyed_rows (JArr rs) = Some old" "keyed_rows (JArr qs) = Some new"
      and diff: "rows_diff old new = Some p"
    using d by (auto simp: keyed_collection_diff_def split: option.splits)
  note old = keyed_rows_spec[OF on(1)] and new = keyed_rows_spec[OF on(2)]
  have p: "p_inserted p = inserted_rows old new" "p_updated p = updated_rows old new" "p_deleted p = deleted_ids old new"
    using diff by (auto simp: rows_diff_def Let_def split: if_splits option.splits)
  have "distinct (map row_id rs)" using old by (metis keyed_def with_ids_fst(1))
  then have "js_index [] rs = Some old" using js_index_plain[of rs "[]"] plain(1) old by simp
  moreover have "set (inserted_rows old new @ updated_rows old new) \<subseteq> set qs"
    using new with_ids_fst(2)[of qs] by (auto simp: inserted_rows_def updated_rows_def) (metis image_eqI list.set_map snd_conv)+
  then have "list_all plain_row (inserted_rows old new @ updated_rows old new)"
    using plain(2) by (auto simp: list_all_iff)
  ultimately have "apply_keyed_patch rs p = arrange (patched old new) p"
    using changed_rows_with_ids[OF conjunct2[OF new], of old]
    by (simp only: apply_keyed_patch_def p option.case js_set_rows_plain patched_def)
  also have "\<dots> = Some (map snd new)" using rows_diff_arranged old new diff by blast
  finally show ?thesis using new by (simp add: with_ids_fst)
qed

section \<open>The messages\<close>

text \<open>Objects with the same members, in any order.\<close>

definition same_object :: "json \<Rightarrow> json \<Rightarrow> bool" where
  "same_object a b \<longleftrightarrow> (\<forall>k. field a k = field b k)"

text \<open>Every collection of the object is an array of rows whose ids both sides read alike.\<close>

fun plain_field :: "json \<Rightarrow> bool" where
  "plain_field (JArr rs) = list_all plain_row rs"
| "plain_field v = (keyed_rows v = None)"

definition plain_fields :: "json \<Rightarrow> bool" where
  "plain_fields v = (case v of JObj ms \<Rightarrow> list_all (\<lambda>(k, u). plain_field u) ms | _ \<Rightarrow> False)"

lemma rows_patch_Some: "rows_patch kind prev nxt = Some m \<longleftrightarrow>
    (\<exists>p. keyed_collection_diff prev nxt = Some (Some p) \<and> m = kind p)"
  by (auto simp: rows_patch_def split: option.splits)

text \<open>
  The contract of a difference and its application: between good values the difference, when
  there is one, leads exactly to the next value. A receiver that gets the difference, or the
  whole value where there is none, follows a sequence of values without error.
\<close>

locale patch_codec =
  fixes good :: "'v \<Rightarrow> bool" and diff :: "'v \<Rightarrow> 'v \<Rightarrow> 'm option" and patch :: "'v \<Rightarrow> 'm \<Rightarrow> 'v option"
  assumes exact: "good old \<Longrightarrow> good new \<Longrightarrow> diff old new = Some m \<Longrightarrow> patch old m = Some new"
begin

lemma exact_or_full:
  "good old \<Longrightarrow> good new \<Longrightarrow> (case diff old new of Some m \<Rightarrow> patch old m | None \<Rightarrow> Some new) = Some new"
  by (auto simp: exact split: option.splits)

lemma follows:
  "list_all good (v # vs) \<Longrightarrow>
    foldl (\<lambda>cur new. Option.bind cur (\<lambda>c. case diff c new of Some m \<Rightarrow> patch c m | None \<Rightarrow> Some new)) (Some v) vs =
    Some (last (v # vs))"
  by (induction vs arbitrary: v) (auto simp: exact_or_full)

end

fun plain_array :: "json \<Rightarrow> bool" where
  "plain_array (JArr rs) = list_all plain_row rs"
| "plain_array _ = False"

interpretation rows: patch_codec plain_array keyed_result_patch client_apply
proof
  fix old new m
  assume "plain_array old" "plain_array new" and d: "keyed_result_patch old new = Some m"
  then obtain rs qs where "old = JArr rs" "new = JArr qs" "list_all plain_row rs" "list_all plain_row qs"
    by (cases old; cases new) auto
  then show "client_apply old m = Some new"
    using d collection_roundtrip by (auto simp: keyed_result_patch_def rows_patch_Some)
qed

definition row_of :: "string \<Rightarrow> string \<Rightarrow> json" where
  "row_of i title = JObj [(''id'', JStr i), (''title'', JStr title)]"

definition old_rows :: "json list" where "old_rows = [row_of ''a'' ''x'', row_of ''b'' ''y'', row_of ''c'' ''z'']"
definition new_rows :: "json list" where "new_rows = [row_of ''d'' ''v'', row_of ''a'' ''w'', row_of ''c'' ''z'']"



lemma map_of_spread: "distinct (map fst b) \<Longrightarrow> map_of (spread a b) = map_of a ++ map_of b"
  by (simp add: spread_def map_of_fold_update map_of_rev_keys)

lemma spread_distinct: "distinct (map fst a) \<Longrightarrow> distinct (map fst (spread a b))"
  unfolding spread_def
proof (induction b arbitrary: a)
  case (Cons kv b)
  then show ?case using distinct_update[of a] by (cases kv) simp
qed simp

lemma field_JObj: "distinct (map fst ms) \<Longrightarrow> field (JObj ms) k = map_of ms k"
  by (simp add: field_def map_of_rev_keys)

lemma field_canon: "map_of (canon ms) k = field (JObj ms) k"
  by (simp add: field_def map_of_canon)

text \<open>
  a page patch is exact: when no member of the previous envelope is missing from the
  next one, the patched envelope has exactly the members of the next result.
\<close>

theorem page_message_roundtrip:
  assumes m: "keyed_result_patch (JObj ms) (JObj ns) = Some m"
    and pages: "field (JObj ms) ''page'' = Some (JArr rs)" "field (JObj ns) ''page'' = Some (JArr qs)"
    and plain: "list_all plain_row rs" "list_all plain_row qs"
    and kept: "fst ` set ms \<subseteq> fst ` set ns"
  shows "\<exists>r. client_apply (JObj ms) m = Some r \<and> same_object r (JObj ns)"
proof -
  obtain p where d: "keyed_collection_diff (JObj ms) (JObj ns) = Some (Some p)"
    and mp: "m = Page_Patch (filter (\<lambda>(k, v). k \<noteq> ''page'') (canon ns)) p"
    using m pages(2) by (auto simp: keyed_result_patch_def rows_patch_Some field_canon)
  define meta where "meta = filter (\<lambda>(k, v). k \<noteq> ''page'') (canon ns)"
  have "keyed_rows (JObj ms) = keyed_rows (JArr rs)" "keyed_rows (JObj ns) = keyed_rows (JArr qs)"
    by (simp_all add: keyed_rows_def pages)
  then have "keyed_collection_diff (JArr rs) (JArr qs) = Some (Some p)"
    using d unfolding keyed_collection_diff_def by (simp only:)
  note page = collection_roundtrip[OF this plain]
  let ?r = "spread (spread (canon ms) meta) [(''page'', JArr qs)]"
  have dm: "distinct (map fst meta)" unfolding meta_def by (rule distinct_map_filter') simp
  have "field (JObj ?r) k = field (JObj ns) k" for k
  proof (cases "k = ''page''")
    case True
    then show ?thesis
      using dm pages(2) by (simp add: field_JObj spread_distinct map_of_spread)
  next
    case False
    have "map_of meta k = field (JObj ns) k"
      using False unfolding meta_def by (simp add: map_of_filter field_canon)
    moreover have "field (JObj ms) k = None" if "field (JObj ns) k = None"
      using that kept by (auto simp: field_def map_of_eq_None_iff)
    ultimately show ?thesis using False dm
      by (auto simp: field_JObj spread_distinct map_of_spread map_add_def field_canon split: option.splits)
  qed
  then show ?thesis using page pages(1) mp unfolding meta_def by (auto simp: same_object_def)
qed

definition page_of :: "string \<Rightarrow> json list \<Rightarrow> (string \<times> json) list" where
  "page_of cursor rows = [(''page'', JArr rows), (''cursor'', JStr cursor)]"

lemma page_message_roundtrip_witness:
  "\<exists>m r. keyed_result_patch (JObj (page_of ''p'' old_rows)) (JObj (page_of ''q'' new_rows)) = Some m \<and>
       client_apply (JObj (page_of ''p'' old_rows)) m = Some r \<and> same_object r (JObj (page_of ''q'' new_rows))"
proof -
  let ?ms = "page_of ''p'' old_rows" and ?ns = "page_of ''q'' new_rows"
  have "keyed_result_patch (JObj ?ms) (JObj ?ns) \<noteq> None" by code_simp
  then obtain m where m: "keyed_result_patch (JObj ?ms) (JObj ?ns) = Some m" by auto
  have "field (JObj ?ms) ''page'' = Some (JArr old_rows)" "field (JObj ?ns) ''page'' = Some (JArr new_rows)"
    "fst ` set ?ms \<subseteq> fst ` set ?ns"
    by (simp_all add: field_def page_of_def)
  moreover have "list_all plain_row old_rows" "list_all plain_row new_rows" by code_simp+
  ultimately show ?thesis using m page_message_roundtrip[OF m] by blast
qed

lemma plain_diff:
  assumes "keyed_collection_diff u v = Some d" "plain_field u" "plain_field v"
  shows "(\<exists>rs qs. u = JArr rs \<and> v = JArr qs \<and> list_all plain_row rs \<and> list_all plain_row qs)"
  using assms by (cases u; cases v) (auto simp: keyed_collection_diff_def split: option.splits)

lemma unchanged_diff:
  assumes "keyed_collection_diff (JArr rs) (JArr qs) = Some None"
  shows "rs = qs"
proof -
  obtain old new where on: "keyed_rows (JArr rs) = Some old" "keyed_rows (JArr qs) = Some new"
      and diff: "rows_diff old new = None"
    using assms by (auto simp: keyed_collection_diff_def split: option.splits)
  note old = keyed_rows_spec[OF on(1)] and new = keyed_rows_spec[OF on(2)]
  from diff have same: "map fst old = map fst new" and none: "changed_rows old new = []"
    by (auto simp: rows_diff_def Let_def changed_rows_def inserted_rows_def updated_rows_def split: if_splits)
  have "patched old new = old"
  proof -
    have "deleted_ids old new = []" using diff by (auto simp: rows_diff_def Let_def split: if_splits)
    then show ?thesis by (simp add: patched_def none)
  qed
  then have lookup: "map_of old = map_of new" using patched_lookup new by metis
  have "map snd old = map (the \<circ> map_of old) (map fst old)" "map snd new = map (the \<circ> map_of new) (map fst new)"
    using old new unfolding keyed_def by (blast intro: map_snd_lookup)+
  then have "map snd old = map snd new" unfolding lookup same by simp
  then show ?thesis using old new by (simp add: with_ids_fst)
qed

lemma object_apply:
  assumes "object_diff old ns = Some cs" "distinct (map fst ns)" "distinct (map fst ms)"
    and "\<And>k. k \<in> fst ` set ns \<Longrightarrow> map_of ms k = map_of old k"
    and "\<And>k v. map_of old k = Some v \<Longrightarrow> plain_field v" "\<And>k v. (k, v) \<in> set ns \<Longrightarrow> plain_field v"
  shows "\<exists>ms'. apply_collections ms cs = Some ms' \<and> distinct (map fst ms') \<and> map_of ms' = map_of ms ++ map_of ns"
  using assms(1-4,6)
proof (induction ns arbitrary: cs ms)
  case (Cons kv ns)
  obtain k v where kv: "kv = (k, v)" by (cases kv)
  obtain u where u: "map_of old k = Some u"
    using Cons.prems(1) kv by (auto split: option.splits)
  have ms_k: "map_of ms k = Some u" using Cons.prems(4)[of k] kv u by simp
  have k: "map_of ns k = None" using Cons.prems(2) kv by (simp add: map_of_eq_None_iff)
  have pu: "plain_field u" "plain_field v" using assms(5)[OF u] Cons.prems(5) kv by auto
  have keep: "map_of ms ++ map_of (kv # ns) = map_of ms ++ map_of ns" if "u = v"
    using ms_k k that kv by (auto simp: map_add_def fun_eq_iff split: option.splits)
  show ?case
  proof (cases "u = v \<and> object_diff old ns = Some cs")
    case True
    have "\<exists>ms'. apply_collections ms cs = Some ms' \<and> distinct (map fst ms') \<and> map_of ms' = map_of ms ++ map_of ns"
      by (rule Cons.IH) (use True Cons.prems kv in auto)
    then show ?thesis unfolding keep[OF conjunct1[OF True]] .
  next
    case False
    have "keyed_collection_diff u v \<noteq> Some None"
    proof
      assume n: "keyed_collection_diff u v = Some None"
      then have "u = v" using plain_diff[OF n pu] unchanged_diff by blast
      then show False using False n Cons.prems(1) kv u by simp
    qed
    then obtain p cs' where p: "keyed_collection_diff u v = Some (Some p)" "object_diff old ns = Some cs'"
        "cs = (k, p) # cs'"
      using False Cons.prems(1) kv u by (auto split: option.splits if_splits)
    obtain rs qs where rq: "u = JArr rs" "v = JArr qs" "list_all plain_row rs" "list_all plain_row qs"
      using plain_diff[OF p(1) pu] by blast
    let ?ms = "AList.update k v ms"
    have ap: "apply_keyed_patch rs p = Some qs" using collection_roundtrip p(1) rq by simp
    have "\<exists>ms'. apply_collections ?ms cs' = Some ms' \<and> distinct (map fst ms') \<and> map_of ms' = map_of ?ms ++ map_of ns"
      using Cons.prems kv p(2) k
      by (intro Cons.IH) (auto simp: distinct_update update_conv' map_of_eq_None_iff)
    moreover have "map_of ?ms ++ map_of ns = map_of ms ++ map_of (kv # ns)"
      using k kv by (auto simp: update_conv' map_add_def fun_eq_iff split: option.splits)
    moreover have "apply_collections ms cs = apply_collections ?ms cs'" using ap ms_k rq p(3) by simp
    ultimately show ?thesis by (simp only:)
  qed
qed simp

lemma object_diff_dom:
  "object_diff old ns = Some cs \<Longrightarrow> fst ` set ns \<subseteq> fst ` set old"
proof (induction ns arbitrary: cs)
  case (Cons kv ns)
  obtain k v where kv: "kv = (k, v)" by (cases kv)
  obtain u cs' where "map_of old k = Some u" "object_diff old ns = Some cs'"
    using Cons.prems kv by (auto split: option.splits if_splits)
  then show ?case using Cons.IH kv by (auto dest!: map_of_SomeD intro: rev_image_eqI)
qed simp

text \<open>
  an object patch is exact: for results whose keyed members are arrays, the patched
  object has exactly the members of the next result.
\<close>

theorem object_message_roundtrip:
  assumes m: "keyed_result_patch (JObj ms) (JObj ns) = Some m"
    and nopage: "field (JObj ns) ''page'' = None"
    and plain: "plain_fields (JObj ms)" "plain_fields (JObj ns)"
  shows "\<exists>r. client_apply (JObj ms) m = Some r \<and> same_object r (JObj ns)"
proof -
  have "keyed_rows (JObj ns) = None" using nopage by (simp add: keyed_rows_def)
  then obtain cs where cs: "object_diff (canon ms) (canon ns) = Some cs" "m = Object_Patch cs"
      and len: "length (canon ms) = length (canon ns)"
    using m nopage by (auto simp: keyed_result_patch_def field_canon keyed_object_result_patch_def
        rows_patch_def keyed_collection_diff_def split: option.splits list.splits if_splits)
  have pf: "plain_field v" if "map_of (canon xs) k = Some v" "plain_fields (JObj xs)" for xs k v
    using that by (auto simp: map_of_canon plain_fields_def list_all_iff dest!: map_of_SomeD)
  have pn: "plain_field v" if "(k, v) \<in> set (canon ns)" for k v
    using pf[OF _ plain(2)] that by (simp add: map_of_eq_Some_iff)
  obtain ms' where ms': "apply_collections (canon ms) cs = Some ms'" "distinct (map fst ms')"
      "map_of ms' = map_of (canon ms) ++ map_of (canon ns)"
    using object_apply[OF cs(1) distinct_canon distinct_canon refl] pf[OF _ plain(1)] pn by blast
  have sub: "fst ` set (canon ns) \<subseteq> fst ` set (canon ms)" by (rule object_diff_dom[OF cs(1)])
  have "card (fst ` set (canon ms)) = card (fst ` set (canon ns))"
    using len distinct_card[OF distinct_canon] by (metis length_map list.set_map)
  with sub have dom: "fst ` set (canon ns) = fst ` set (canon ms)" by (simp add: card_subset_eq)
  have "map_of ms' k = map_of (canon ns) k" for k
  proof (cases "map_of (canon ns) k")
    case None
    then have "map_of (canon ms) k = None" by (simp add: map_of_eq_None_iff dom)
    then show ?thesis using None ms'(3) by (simp add: map_add_def)
  qed (simp add: ms'(3) map_add_def)
  then have "same_object (JObj ms') (JObj ns)"
    using ms'(2) by (simp add: same_object_def field_JObj field_canon)
  then show ?thesis using ms'(1) cs(2) by simp
qed

definition board_of :: "json list \<Rightarrow> json list \<Rightarrow> (string \<times> json) list" where
  "board_of tasks tags = [(''tasks'', JArr tasks), (''tags'', JArr tags), (''name'', JStr ''board'')]"

lemma object_message_roundtrip_witness:
  "\<exists>m r. keyed_result_patch (JObj (board_of old_rows old_rows)) (JObj (board_of new_rows old_rows)) = Some m \<and>
       client_apply (JObj (board_of old_rows old_rows)) m = Some r \<and>
       same_object r (JObj (board_of new_rows old_rows))"
proof -
  let ?ms = "board_of old_rows old_rows" and ?ns = "board_of new_rows old_rows"
  have "keyed_result_patch (JObj ?ms) (JObj ?ns) \<noteq> None" by code_simp
  then obtain m where m: "keyed_result_patch (JObj ?ms) (JObj ?ns) = Some m" by auto
  have "field (JObj ?ns) ''page'' = None" by (simp add: field_def board_of_def)
  moreover have "plain_fields (JObj ?ms)" "plain_fields (JObj ?ns)" by code_simp+
  ultimately show ?thesis using m object_message_roundtrip[OF m] by blast
qed

section \<open>Where the two sides disagree\<close>

text \<open>
  A numeric id of a million or more is \<open>1e+06\<close> for the server and \<open>1000000\<close> for the client:
  a deletion names a row the client does not have, and the deleted row stays.
\<close>

definition numbered :: "string \<Rightarrow> int \<Rightarrow> json" where
  "numbered ds dp = JObj [(''id'', JNum False ds dp)]"

text \<open>The client's result after the server's patch.\<close>

definition after_patch :: "json \<Rightarrow> json \<Rightarrow> json option" where
  "after_patch prev nxt = Option.bind (keyed_result_patch prev nxt) (client_apply prev)"

lemma large_id_never_deleted:
  "after_patch (JArr [numbered ''1'' 7, numbered ''7'' 1]) (JArr [numbered ''7'' 1]) =
     Some (JArr [numbered ''1'' 7, numbered ''7'' 1])"
  by code_simp

text \<open>
  A member that is itself a page is compared by its rows only: its other members are lost
  when a sibling collection changed.
\<close>

definition nested :: "string \<Rightarrow> json list \<Rightarrow> (string \<times> json) list" where
  "nested cursor tags = [(''tasks'', JObj (page_of cursor old_rows)), (''tags'', JArr tags)]"

lemma nested_page_members_lost:
  "map_option (\<lambda>r. (field r ''tasks'', field r ''tags''))
      (after_patch (JObj (nested ''p'' old_rows)) (JObj (nested ''q'' new_rows))) =
    Some (Some (JObj (page_of ''p'' old_rows)), Some (JArr new_rows))"
  by code_simp

text \<open>A member the next page result no longer has stays in the client's result.\<close>

lemma dropped_page_member_stays:
  "map_option (\<lambda>r. field r ''cursor'')
      (after_patch (JObj (page_of ''p'' old_rows)) (JObj [(''page'', JArr new_rows)])) = Some (Some (JStr ''p''))"
  by code_simp

end
