(* ===== verification/Result_Delivery.thy ===== *)
theory Result_Delivery
  imports Keyed_Patch
begin

text \<open>
  The delivery of a group's result (\<open>completeResult\<close>, \<open>broadcastTo\<close>, \<open>sendFullTo\<close> in
  \<open>subscriptions.go\<close>, the cache revisions of \<open>query_cache.go\<close>, \<open>queryResultSemantics\<close>) and
  the client's revision protocol (\<open>normalizeSubscriptionMessage\<close> in the TypeScript client).
  Parameters of the model: \<open>sha\<close>, the hexadecimal SHA-256 of an encoded value; \<open>len\<close> and
  \<open>patch_len\<close>, the lengths of the encodings. One runtime epoch; results that are not
  split by visibility; \<open>sequence\<close> is the next subscription revision, \<open>stamp\<close> the next
  cache sequence number. Metrics, traces and mutation ids are left out.
\<close>

section \<open>Hashes and cache revisions\<close>

text \<open>The payload without an object-valued top-level \<open>perf\<close> member.\<close>

definition semantic_payload :: "json \<Rightarrow> json" where
  "semantic_payload payload = (case members_of payload of
     None \<Rightarrow> payload
   | Some ms \<Rightarrow> (case map_of ms ''perf'' of
       Some (JObj _) \<Rightarrow> JObj (filter (\<lambda>(k, v). k \<noteq> ''perf'') ms)
     | _ \<Rightarrow> payload))"

definition zero_pad :: "nat \<Rightarrow> string \<Rightarrow> string" where
  "zero_pad w s = replicate (w - length s) (CHR ''0'') @ s"

definition next_cache_revision :: "nat \<Rightarrow> nat \<Rightarrow> string \<Rightarrow> string" where
  "next_cache_revision started sequence h =
    zero_pad 13 (nat_dec started) @ '':'' @ zero_pad 20 (nat_dec sequence) @ '':'' @ h"

definition revision_matches :: "string \<Rightarrow> string \<Rightarrow> bool" where
  "revision_matches revision h =
    (let suffix = rev (takeWhile (\<lambda>c. c \<noteq> CHR '':'') (rev revision)) in
     CHR '':'' \<in> set revision \<and> suffix \<noteq> '''' \<and> suffix = h)"

lemma revision_matches_next:
  assumes "CHR '':'' \<notin> set h" "h \<noteq> ''''"
  shows "revision_matches (next_cache_revision st sq h) h' \<longleftrightarrow> h' = h"
proof -
  have "takeWhile (\<lambda>c. c \<noteq> CHR '':'') (rev h @ CHR '':'' # r) = rev h" for r
    using assms(1) by (subst takeWhile_append2) auto
  then show ?thesis using assms by (auto simp: revision_matches_def next_cache_revision_def Let_def)
qed

section \<open>The group's view and its listeners\<close>

record group_view =
  gv_last :: "json option"
  gv_hash :: "string option"
  gv_revision :: nat
  gv_single :: "nat option"
  gv_stale :: bool
  gv_error :: string
  gv_retain :: bool

record view_listener =
  v_token :: nat
  v_alive :: bool
  v_page_patch :: bool
  v_object_patch :: bool
  v_order_delta :: bool
  v_cache :: string

datatype delivery =
    Full json nat string
  | Progress nat
  | Patched patch_message nat nat string

record view_config =
  vc_max_bytes :: nat
  vc_started :: nat

definition minimum_patch_bytes :: nat where "minimum_patch_bytes = 512"

section \<open>Delivery to one listener\<close>

fun downgraded :: "view_listener \<Rightarrow> json \<Rightarrow> delivery \<Rightarrow> delivery" where
  "downgraded l payload (Patched m base revision cache) =
    (if (case m of Page_Patch _ _ \<Rightarrow> \<not> v_page_patch l | Object_Patch _ \<Rightarrow> \<not> v_object_patch l | Rows_Patch _ \<Rightarrow> False)
        \<or> \<not> v_order_delta l \<and> message_uses_order_delta m
     then Full payload revision cache else Patched m base revision cache)"
| "downgraded l payload d = d"

fun suppressed :: "string \<Rightarrow> view_listener \<Rightarrow> delivery \<Rightarrow> delivery" where
  "suppressed h l (Full payload revision cache) =
    (if revision_matches (v_cache l) h then Progress revision else Full payload revision cache)"
| "suppressed h l d = d"

fun cache_after :: "view_listener \<Rightarrow> delivery \<Rightarrow> view_listener" where
  "cache_after l (Full _ _ cache) = (if cache = '''' then l else l\<lparr>v_cache := cache\<rparr>)"
| "cache_after l (Patched _ _ _ cache) = (if cache = '''' then l else l\<lparr>v_cache := cache\<rparr>)"
| "cache_after l (Progress _) = l"

text \<open>What one listener is sent, and the listener with its live cache revision.\<close>

definition deliver :: "string \<Rightarrow> json \<Rightarrow> delivery \<Rightarrow> view_listener \<Rightarrow> view_listener \<times> delivery option" where
  "deliver h payload d l =
    (if \<not> v_alive l then (l, None)
     else let d' = suppressed h l (downgraded l payload d) in (cache_after l d', Some d'))"

definition broadcast :: "string \<Rightarrow> json \<Rightarrow> delivery \<Rightarrow> view_listener list \<Rightarrow> (view_listener \<times> delivery option) list" where
  "broadcast h payload d ls = map (deliver h payload d) ls"

section \<open>The completion of a run\<close>

definition same_single :: "group_view \<Rightarrow> view_listener list \<Rightarrow> bool" where
  "same_single v ls = (case ls of [l] \<Rightarrow> gv_single v = Some (v_token l) | _ \<Rightarrow> False)"

definition completed_view :: "view_config \<Rightarrow> nat \<Rightarrow> string \<Rightarrow> nat \<Rightarrow> json \<Rightarrow> view_listener list \<Rightarrow> group_view \<Rightarrow> group_view" where
  "completed_view cfg sequence h bytes payload ls v =
    v\<lparr>gv_revision := sequence, gv_stale := False, gv_hash := Some h, gv_error := '''',
      gv_single := (case ls of [l] \<Rightarrow> Some (v_token l) | _ \<Rightarrow> None),
      gv_last := (if (length ls > 1 \<or> gv_retain v) \<and> bytes \<le> vc_max_bytes cfg then Some payload else None)\<rparr>"

definition chosen_message ::
  "view_config \<Rightarrow> (json \<Rightarrow> nat) \<Rightarrow> (patch_message \<Rightarrow> nat) \<Rightarrow> nat \<Rightarrow> string \<Rightarrow> json \<Rightarrow> group_view \<Rightarrow> delivery" where
  "chosen_message cfg len patch_len sequence cache payload v =
    (case gv_last v of
       Some previous \<Rightarrow>
         if len previous < minimum_patch_bytes then Full payload sequence cache
         else (case keyed_result_patch previous payload of
                 Some m \<Rightarrow> if patch_len m < len payload * 7 div 10
                            then Patched m (gv_revision v) sequence cache else Full payload sequence cache
               | None \<Rightarrow> Full payload sequence cache)
     | None \<Rightarrow> Full payload sequence cache)"

definition complete_result ::
  "view_config \<Rightarrow> (json \<Rightarrow> string) \<Rightarrow> (json \<Rightarrow> nat) \<Rightarrow> (patch_message \<Rightarrow> nat) \<Rightarrow> nat \<Rightarrow> nat \<Rightarrow> string \<Rightarrow> json \<Rightarrow>
   view_listener list \<Rightarrow> group_view \<Rightarrow> group_view \<times> (view_listener \<times> delivery option) list" where
  "complete_result cfg sha len patch_len sequence stamp reason payload ls v =
    (let h = sha (semantic_payload payload);
         quiet = (gv_hash v = Some h \<and> (gv_last v \<noteq> None \<or> same_single v ls)) in
     if reason = ''invalidate'' \<and> quiet then (v\<lparr>gv_error := ''''\<rparr>, map (\<lambda>l. (l, None)) ls)
     else
       let v' = completed_view cfg sequence h (len payload) payload ls v in
       if quiet then (v', broadcast h payload (Progress sequence) ls)
       else (v', broadcast h payload
               (chosen_message cfg len patch_len sequence (next_cache_revision (vc_started cfg) stamp h) payload v) ls))"

text \<open>\<open>completeError\<close>: the message is broadcast only when nothing was shown yet.\<close>

definition complete_error :: "string \<Rightarrow> group_view \<Rightarrow> group_view \<times> bool" where
  "complete_error message v =
    (if gv_hash v = None then (v\<lparr>gv_error := message\<rparr>, True) else (v, False))"

text \<open>\<open>sendFullTo\<close>: the replay of the retained snapshot to a late listener.\<close>

definition send_full :: "view_config \<Rightarrow> (json \<Rightarrow> string) \<Rightarrow> nat \<Rightarrow> json \<Rightarrow> nat \<Rightarrow> view_listener \<Rightarrow> view_listener \<times> delivery option" where
  "send_full cfg sha stamp payload revision l =
    (let h = sha (semantic_payload payload); cache = next_cache_revision (vc_started cfg) stamp h in
     if \<not> v_alive l then (l, None)
     else if revision_matches (v_cache l) h then (l, Some (Progress revision))
     else (cache_after l (Full payload revision cache), Some (Full payload revision cache)))"

section \<open>The client\<close>

record mirror =
  m_revision :: "nat option"
  m_result :: "json option"

definition accepts :: "nat \<Rightarrow> mirror \<Rightarrow> bool" where
  "accepts next mi = (case m_revision mi of None \<Rightarrow> True | Some r \<Rightarrow> r < next)"

text \<open>The second component: whether the client asks for a full snapshot instead.\<close>

fun client_receive :: "delivery \<Rightarrow> mirror \<Rightarrow> mirror \<times> bool" where
  "client_receive (Progress r) mi =
    (if m_result mi = None then (mi, True)
     else if accepts r mi then (mi\<lparr>m_revision := Some r\<rparr>, False) else (mi, False))"
| "client_receive (Full payload r _) mi =
    (if accepts r mi then (mi\<lparr>m_revision := Some r, m_result := Some payload\<rparr>, False) else (mi, False))"
| "client_receive (Patched m base r _) mi =
    (if m_revision mi \<noteq> Some base then (mi, True)
     else if \<not> accepts r mi then (mi, False)
     else (case Option.bind (m_result mi) (\<lambda>p. client_apply p m) of
             None \<Rightarrow> (mi, True)
           | Some payload \<Rightarrow> (mi\<lparr>m_revision := Some r, m_result := Some payload\<rparr>, False)))"

fun receive_all :: "delivery option \<Rightarrow> mirror \<Rightarrow> mirror \<times> bool" where
  "receive_all None mi = (mi, False)"
| "receive_all (Some d) mi = client_receive d mi"

section \<open>Listeners stay in step\<close>

text \<open>
  The client shows \<open>cur\<close>, the payload of the group's last completed run, at the group's
  revision; the retained snapshot and the listener's live cache revision speak of \<open>cur\<close>.
\<close>

definition in_step :: "(json \<Rightarrow> string) \<Rightarrow> json \<Rightarrow> group_view \<Rightarrow> view_listener \<Rightarrow> mirror \<Rightarrow> bool" where
  "in_step sha cur v l mi \<longleftrightarrow> v_alive l \<and> m_result mi = Some cur \<and> m_revision mi = Some (gv_revision v) \<and>
     gv_hash v = Some (sha (semantic_payload cur)) \<and> gv_last v \<in> {None, Some cur} \<and>
     (\<forall>h. revision_matches (v_cache l) h \<longrightarrow> h = sha (semantic_payload cur))"

lemma semantic_array [simp]: "semantic_payload (JArr rs) = JArr rs"
  by (simp add: semantic_payload_def)

lemma next_cache_nonempty [simp]: "next_cache_revision st sq h \<noteq> ''''"
  by (simp add: next_cache_revision_def)

definition hex_hash :: "(json \<Rightarrow> string) \<Rightarrow> bool" where
  "hex_hash sha \<longleftrightarrow> (\<forall>p. sha p \<noteq> '''' \<and> CHR '':'' \<notin> set (sha p))"

lemma delivered_in_step:
  assumes sha: "hex_hash sha" and free: "sha (JArr rs) = sha (JArr qs) \<Longrightarrow> rs = qs"
    and plain: "list_all plain_row rs" "list_all plain_row qs"
    and i: "in_step sha (JArr rs) v l mi" and later: "gv_revision v < sequence"
    and d: "d = Progress sequence \<and> rs = qs \<or>
            d = chosen_message cfg len patch_len sequence (next_cache_revision st sq (sha (JArr qs))) (JArr qs) v"
    and dl: "deliver (sha (JArr qs)) (JArr qs) d l = (l', out)"
    and v': "gv_revision v' = sequence" "gv_hash v' = Some (sha (JArr qs))" "gv_last v' \<in> {None, Some (JArr qs)}"
  shows "\<exists>mi'. receive_all out mi = (mi', False) \<and> in_step sha (JArr qs) v' l' mi'"
proof -
  let ?h = "sha (JArr qs)" and ?c = "next_cache_revision st sq (sha (JArr qs))"
  have cache: "revision_matches ?c h' \<longleftrightarrow> h' = ?h" for h'
    using sha by (intro revision_matches_next) (auto simp: hex_hash_def)
  have acc: "accepts sequence mi" using i later by (simp add: accepts_def in_step_def)
  consider (progress) "suppressed ?h l (downgraded l (JArr qs) d) = Progress sequence" "rs = qs"
    | (full) "suppressed ?h l (downgraded l (JArr qs) d) = Full (JArr qs) sequence ?c"
    | (patch) m where "suppressed ?h l (downgraded l (JArr qs) d) = Patched m (gv_revision v) sequence ?c"
        "keyed_result_patch (JArr rs) (JArr qs) = Some m"
  proof -
    have "rs = qs" if "revision_matches (v_cache l) ?h" using i that free by (auto simp: in_step_def)
    then have f: "thesis" if "downgraded l (JArr qs) d = Full (JArr qs) sequence ?c"
      using that progress full by (cases "revision_matches (v_cache l) ?h") auto
    show thesis
    proof (cases "d = Progress sequence \<and> rs = qs")
      case True
      then show thesis using progress by simp
    next
      case False
      then have c: "d = chosen_message cfg len patch_len sequence ?c (JArr qs) v" using d by blast
      then consider "d = Full (JArr qs) sequence ?c"
        | m where "d = Patched m (gv_revision v) sequence ?c" "keyed_result_patch (JArr rs) (JArr qs) = Some m"
        using i by (auto simp: chosen_message_def in_step_def split: option.splits if_splits)
      then show thesis
      proof cases
        case 1
        then show thesis using f by simp
      next
        case (2 m)
        have "downgraded l (JArr qs) d = Full (JArr qs) sequence ?c \<or> downgraded l (JArr qs) d = d"
          unfolding 2(1) downgraded.simps(1) by metis
        then show thesis
        proof
          assume "downgraded l (JArr qs) d = d"
          then show thesis using 2 by (intro patch) simp_all
        qed (rule f)
      qed
    qed
  qed
  then show ?thesis
  proof cases
    case progress
    then show ?thesis using dl i acc v' by (auto simp: deliver_def in_step_def Let_def)
  next
    case full
    then show ?thesis using dl i acc v' cache by (auto simp: deliver_def in_step_def Let_def)
  next
    case (patch m)
    have "client_apply (JArr rs) m = Some (JArr qs)"
      using rows.exact[of "JArr rs" "JArr qs"] patch(2) plain by simp
    then show ?thesis using patch dl i acc v' cache by (auto simp: deliver_def in_step_def Let_def)
  qed
qed


definition toy_sha :: "json \<Rightarrow> string" where
  "toy_sha p = (if p = JArr old_rows then ''aa'' else ''bb'')"

definition shown_view :: group_view where
  "shown_view = \<lparr>gv_last = Some (JArr old_rows), gv_hash = Some ''aa'', gv_revision = 4, gv_single = None,
     gv_stale = False, gv_error = '''', gv_retain = True\<rparr>"

definition some_listener :: view_listener where
  "some_listener = \<lparr>v_token = 1, v_alive = True, v_page_patch = True, v_object_patch = True, v_order_delta = True, v_cache = ''''\<rparr>"

definition some_config :: view_config where "some_config = \<lparr>vc_max_bytes = 100000, vc_started = 1\<rparr>"

definition complete_new :: "group_view \<times> (view_listener \<times> delivery option) list" where
  "complete_new = complete_result some_config toy_sha (\<lambda>_. 1000) (\<lambda>_. 100) 5 7 ''invalidate'' (JArr new_rows)
     [some_listener] shown_view"


text \<open>
  the replay of the retained snapshot puts a late listener in step.
\<close>

theorem replay_puts_in_step:
  assumes "gv_last v = Some cur" and "gv_hash v = Some (sha (semantic_payload cur))" and "hex_hash sha"
    and "v_alive l" and "v_cache l = ''''"
    and "send_full cfg sha sequence cur (gv_revision v) l = (l', out)"
  shows "\<exists>mi'. receive_all out \<lparr>m_revision = None, m_result = None\<rparr> = (mi', False) \<and> in_step sha cur v l' mi'"
proof -
  let ?h = "sha (semantic_payload cur)" and ?c = "next_cache_revision (vc_started cfg) sequence (sha (semantic_payload cur))"
  have cache: "revision_matches ?c h' \<longleftrightarrow> h' = ?h" for h'
    using assms(3) by (intro revision_matches_next) (auto simp: hex_hash_def)
  have "\<not> revision_matches (v_cache l) ?h" using assms(5) by (simp add: revision_matches_def)
  then have "out = Some (Full cur (gv_revision v) ?c)" "l' = l\<lparr>v_cache := ?c\<rparr>"
    using assms(4,6) by (auto simp: send_full_def Let_def)
  then show ?thesis using assms cache by (simp add: in_step_def accepts_def)
qed

lemma replay_puts_in_step_witness:
  "\<exists>mi' l'. in_step toy_sha (JArr old_rows) shown_view l' mi'"
proof -
  obtain l' out where r: "send_full some_config toy_sha 9 (JArr old_rows) (gv_revision shown_view) some_listener = (l', out)"
    by (meson surj_pair)
  have "gv_last shown_view = Some (JArr old_rows)" "gv_hash shown_view = Some (toy_sha (semantic_payload (JArr old_rows)))"
    "hex_hash toy_sha" "v_alive some_listener" "v_cache some_listener = ''''"
    by (simp_all add: shown_view_def toy_sha_def hex_hash_def some_listener_def)
  then show ?thesis using replay_puts_in_step[OF _ _ _ _ _ r] by blast
qed

section \<open>A join after an idle invalidation\<close>

text \<open>
  The snapshot is stale, so the joining listener was not served it; the run it requested
  finds the result unchanged and announces progress. The listener, which has nothing, must
  ask again; a one-shot query of the client, which only waits for a result, waits in vain.
\<close>

lemma unchanged_run_answers_new_listener_with_progress:
  "map snd (snd (complete_result some_config toy_sha (\<lambda>_. 1000) (\<lambda>_. 100) 5 7 ''initial'' (JArr old_rows)
      [some_listener] (shown_view\<lparr>gv_stale := True\<rparr>))) = [Some (Progress 5)] \<and>
   client_receive (Progress 5) \<lparr>m_revision = None, m_result = None\<rparr> = (\<lparr>m_revision = None, m_result = None\<rparr>, True)"
  by (simp add: complete_result_def shown_view_def toy_sha_def broadcast_def deliver_def some_listener_def Let_def)

end
