(* ===== verification/Shared_Group.thy ===== *)
theory Shared_Group
  imports Change_Match
begin

text \<open>
  The life of one shared subscription group (\<open>sharedSubscription\<close> in \<open>subscriptions.go\<close>):
  how change notifications become executions of the group's query. A group runs at most one
  execution at a time; requests that arrive meanwhile are coalesced into one trailing run,
  and a notification of a commit that a pending, active or remembered run covers is dropped.
  Each definition is one critical section of \<open>group.mu\<close>. Go sets are lists of their
  elements; the counters \<open>requested\<close> and \<open>completed\<close> (uint64) are naturals; times are
  milliseconds.
\<close>

section \<open>State\<close>

record shared_group =
  sg_listeners :: "nat list"
  sg_running :: bool
  sg_coalescing :: bool
  sg_awaiting :: bool
  sg_dirty :: bool
  sg_stale_idle :: bool
  sg_requested :: nat
  sg_completed :: nat
  sg_reason :: string
  sg_changed_at :: int
  sg_pending_commits :: "string list"
  sg_active_commits :: "string list"
  sg_pending_requests :: "string list"
  sg_active_requests :: "string list"
  sg_pending_tables :: "string list"
  sg_active_tables :: "string list"
  sg_pending_tasks :: "string list"
  sg_active_tasks :: "string list"
  sg_done_ids :: "string list"
  sg_done_order :: "string list"
  sg_snapshot :: "json option"
  sg_error :: string

text \<open>A group as \<open>attach\<close> creates it.\<close>

definition new_group :: shared_group where
  "new_group = \<lparr>sg_listeners = [], sg_running = False, sg_coalescing = False, sg_awaiting = True,
     sg_dirty = False, sg_stale_idle = False, sg_requested = 0, sg_completed = 0, sg_reason = '''',
     sg_changed_at = 0, sg_pending_commits = [], sg_active_commits = [], sg_pending_requests = [],
     sg_active_requests = [], sg_pending_tables = [], sg_active_tables = [], sg_pending_tasks = [],
     sg_active_tasks = [], sg_done_ids = [], sg_done_order = [], sg_snapshot = None, sg_error = ''''\<rparr>"

section \<open>Which requests a commit's notification repeats\<close>

text \<open>\<open>strings.SplitN(id, "\x00", 2)\<close> and the tables after the separator.\<close>

definition split_commit_request :: "string \<Rightarrow> (string \<times> string list) option" where
  "split_commit_request r = (case cut (CHR 0x00) r of
     (c, Some ts) \<Rightarrow> if c = '''' then None else Some (c, filter (\<lambda>t. t \<noteq> '''') (split_on (CHR 0x1F) ts))
   | _ \<Rightarrow> None)"

definition request_covered_by :: "string list \<Rightarrow> string \<Rightarrow> bool" where
  "request_covered_by existing r =
    (r \<in> set existing \<or>
     (case split_commit_request r of
        None \<Rightarrow> False
      | Some (c, ts) \<Rightarrow> list_ex (\<lambda>e. case split_commit_request e of
            None \<Rightarrow> False
          | Some (d, us) \<Rightarrow> d = c \<and> list_all (\<lambda>t. t \<in> set us) ts) existing))"

definition commit_already_requested :: "shared_group \<Rightarrow> string \<Rightarrow> bool" where
  "commit_already_requested g r \<longleftrightarrow>
     request_covered_by (sg_pending_requests g) r \<or> request_covered_by (sg_active_requests g) r \<or>
     request_covered_by (sg_done_ids g) r"

definition retained_commit_ids :: nat where "retained_commit_ids = 256"

fun forget_oldest :: "nat \<Rightarrow> shared_group \<Rightarrow> shared_group" where
  "forget_oldest 0 g = g"
| "forget_oldest (Suc n) g = (case sg_done_order g of
     [] \<Rightarrow> g
   | c # cs \<Rightarrow> forget_oldest n (g\<lparr>sg_done_order := cs, sg_done_ids := filter (\<lambda>x. x \<noteq> c) (sg_done_ids g)\<rparr>))"

definition remember_one :: "string \<Rightarrow> shared_group \<Rightarrow> shared_group" where
  "remember_one c g = (if c \<in> set (sg_done_ids g) then g
     else g\<lparr>sg_done_ids := c # sg_done_ids g, sg_done_order := sg_done_order g @ [c]\<rparr>)"

definition remember_completed :: "string list \<Rightarrow> shared_group \<Rightarrow> shared_group" where
  "remember_completed cs g = (let g' = fold remember_one cs g in
     forget_oldest (length (sg_done_order g') - retained_commit_ids) g')"

section \<open>Requests\<close>

definition insert_new :: "string list \<Rightarrow> string list \<Rightarrow> string list" where
  "insert_new xs ys = fold (\<lambda>x acc. if x = '''' \<or> x \<in> set acc then acc else acc @ [x]) xs ys"

definition change_task_ids :: "table_change \<Rightarrow> string list" where
  "change_task_ids c = c_tasks c @
     concat (map (\<lambda>(t, d). d_tasks d @ (if t = ''tasks'' then d_rows d else [])) (c_details c))"

definition note_change :: "table_change \<Rightarrow> shared_group \<Rightarrow> shared_group" where
  "note_change c g = g\<lparr>sg_pending_tables := insert_new (table_change_tables c) (sg_pending_tables g),
     sg_pending_tasks := insert_new (change_task_ids c) (sg_pending_tasks g)\<rparr>"

text \<open>The second component: whether a goroutine executing \<open>run\<close> is started.\<close>

definition request_batch ::
  "string \<Rightarrow> int \<Rightarrow> string \<Rightarrow> string \<Rightarrow> table_change list \<Rightarrow> shared_group \<Rightarrow> shared_group \<times> bool" where
  "request_batch reason changed_at raw_commit raw_request changes g0 =
    (let commit = trim_space raw_commit; request = trim_space raw_request;
         g = fold note_change changes g0;
         latest = max changed_at (sg_changed_at g) in
     if request \<noteq> '''' \<and> commit_already_requested g request then (g\<lparr>sg_changed_at := latest\<rparr>, False)
     else
       let g1 = g\<lparr>sg_requested := sg_requested g + 1, sg_reason := reason,
             sg_pending_commits := insert_new [commit] (sg_pending_commits g),
             sg_pending_requests := insert_new [request] (sg_pending_requests g),
             sg_changed_at := latest\<rparr> in
       if sg_running g1 then (if sg_coalescing g1 then g1 else g1\<lparr>sg_dirty := True\<rparr>, False)
       else (g1\<lparr>sg_running := True\<rparr>, True))"

definition request_commit :: "string \<Rightarrow> int \<Rightarrow> string \<Rightarrow> shared_group \<Rightarrow> shared_group \<times> bool" where
  "request_commit reason at commit g = request_batch reason at commit commit [] g"

definition request_plain :: "string \<Rightarrow> int \<Rightarrow> shared_group \<Rightarrow> shared_group \<times> bool" where
  "request_plain reason at g = request_commit reason at '''' g"

section \<open>Runs\<close>

record group_run =
  run_requested :: nat
  run_reason :: string
  run_changed_at :: int
  run_commits :: "string list"
  run_requests :: "string list"
  run_tables :: "string list"
  run_tasks :: "string list"
  run_listeners :: "nat list"

definition run_begin :: "shared_group \<Rightarrow> shared_group \<times> group_run" where
  "run_begin g =
    (g\<lparr>sg_coalescing := False, sg_dirty := False,
       sg_active_commits := sg_pending_commits g, sg_pending_commits := [],
       sg_active_requests := sg_pending_requests g, sg_pending_requests := [],
       sg_active_tables := sg_pending_tables g, sg_pending_tables := [],
       sg_active_tasks := sg_pending_tasks g, sg_pending_tasks := []\<rparr>,
     \<lparr>run_requested = sg_requested g, run_reason = sg_reason g, run_changed_at = sg_changed_at g,
       run_commits = sg_pending_commits g, run_requests = sg_pending_requests g,
       run_tables = sg_pending_tables g, run_tasks = sg_pending_tasks g, run_listeners = sg_listeners g\<rparr>)"

definition clear_active :: "shared_group \<Rightarrow> shared_group" where
  "clear_active g = g\<lparr>sg_active_commits := [], sg_active_requests := [], sg_active_tables := [], sg_active_tasks := []\<rparr>"

definition finish_run :: "nat \<Rightarrow> shared_group \<Rightarrow> shared_group" where
  "finish_run requested g =
    (clear_active (remember_completed (sg_active_requests g) g))\<lparr>sg_completed := requested, sg_running := False\<rparr>"

text \<open>The exit of a run that found no listeners or a cancelled group.\<close>

definition run_without_listeners :: "bool \<Rightarrow> group_run \<Rightarrow> shared_group \<Rightarrow> shared_group" where
  "run_without_listeners cancelled r g =
    finish_run (run_requested r)
      (if run_listeners r = [] \<and> \<not> cancelled \<and> run_reason r = ''invalidate''
       then g\<lparr>sg_stale_idle := True\<rparr> else g)"

text \<open>The end of a run; the second component: whether another run is scheduled.\<close>

definition run_end :: "group_run \<Rightarrow> shared_group \<Rightarrow> shared_group \<times> bool" where
  "run_end r g =
    (let g' = (clear_active (remember_completed (run_requests r) g))\<lparr>sg_completed := run_requested r\<rparr> in
     if sg_dirty g' \<or> sg_requested g' > run_requested r then (g'\<lparr>sg_coalescing := True\<rparr>, True)
     else (g'\<lparr>sg_running := False\<rparr>, False))"

section \<open>Listeners\<close>

datatype attach_action = Replay json | Send_Error string | Wait_For_Run | Request_Initial

text \<open>The group part of \<open>attach\<close>: \<open>created\<close> when this attach created the group.\<close>

definition attach_group :: "bool \<Rightarrow> nat \<Rightarrow> shared_group \<Rightarrow> shared_group \<times> attach_action" where
  "attach_group created token g =
    (let g' = g\<lparr>sg_listeners := (if token \<in> set (sg_listeners g) then sg_listeners g else sg_listeners g @ [token])\<rparr> in
     (g', case (if sg_stale_idle g then None else sg_snapshot g) of
        Some payload \<Rightarrow> Replay payload
      | None \<Rightarrow> if sg_error g \<noteq> '''' then Send_Error (sg_error g)
          else if \<not> created \<and> (sg_running g \<or> sg_awaiting g) then Wait_For_Run
          else Request_Initial))"

definition mark_listener_ready :: "shared_group \<Rightarrow> shared_group" where
  "mark_listener_ready g = g\<lparr>sg_awaiting := False\<rparr>"

definition detach_group :: "nat \<Rightarrow> shared_group \<Rightarrow> shared_group" where
  "detach_group token g = g\<lparr>sg_listeners := filter (\<lambda>t. t \<noteq> token) (sg_listeners g)\<rparr>"

section \<open>A group at work\<close>

text \<open>
  The group together with its database: \<open>mc_db\<close> counts the committed transactions,
  \<open>mc_shown\<close> is the version the last completed execution read, \<open>mc_asked\<close> the newest
  version a notification asked for. A notification that carries a commit id comes after
  that commit (\<open>ver\<close> maps commits to versions); one without id asks for the present state.
  The runner executes \<open>run\<close>: scheduled, past its first critical section, past its read.
\<close>

datatype runner = Parked | Scheduled | Checked group_run | Read group_run nat

record machine =
  mc_group :: shared_group
  mc_runner :: runner
  mc_db :: nat
  mc_shown :: nat
  mc_asked :: nat

definition start_machine :: machine where
  "start_machine = \<lparr>mc_group = new_group, mc_runner = Parked, mc_db = 0, mc_shown = 0, mc_asked = 0\<rparr>"

definition commit_of :: "string \<Rightarrow> string" where
  "commit_of r = (case split_commit_request r of Some (c, _) \<Rightarrow> c | None \<Rightarrow> r)"

definition asks_for :: "(string \<Rightarrow> nat) \<Rightarrow> string \<Rightarrow> machine \<Rightarrow> nat" where
  "asks_for ver request m = (if trim_space request = '''' then mc_db m else ver (commit_of (trim_space request)))"

definition notify :: "(string \<Rightarrow> nat) \<Rightarrow> string \<Rightarrow> int \<Rightarrow> string \<Rightarrow> string \<Rightarrow> table_change list \<Rightarrow> machine \<Rightarrow> machine" where
  "notify ver reason at commit request changes m =
    (let (g, spawned) = request_batch reason at commit request changes (mc_group m) in
     m\<lparr>mc_group := g, mc_runner := (if spawned then Scheduled else mc_runner m),
       mc_asked := max (mc_asked m) (asks_for ver request m)\<rparr>)"

text \<open>The runner's own step, when its executions find an authorised listener and succeed.\<close>

fun runner_step :: "machine \<Rightarrow> machine" where
  "runner_step m = (case mc_runner m of
     Parked \<Rightarrow> m
   | Scheduled \<Rightarrow> (let (g, r) = run_begin (mc_group m) in m\<lparr>mc_group := g, mc_runner := Checked r\<rparr>)
   | Checked r \<Rightarrow> m\<lparr>mc_runner := Read r (mc_db m)\<rparr>
   | Read r v \<Rightarrow> (let (g, again) = run_end r (mc_group m) in
       m\<lparr>mc_group := g, mc_shown := v, mc_runner := (if again then Scheduled else Parked)\<rparr>))"

inductive machine_step :: "(string \<Rightarrow> nat) \<Rightarrow> machine \<Rightarrow> machine \<Rightarrow> bool" for ver where
  commit: "machine_step ver m (m\<lparr>mc_db := mc_db m + 1\<rparr>)"
| notification: "asks_for ver request m \<le> mc_db m \<Longrightarrow>
    machine_step ver m (notify ver reason at commit request changes m)"
| runs: "machine_step ver m (runner_step m)"
| attach: "machine_step ver m (m\<lparr>mc_group := fst (attach_group created token (mc_group m))\<rparr>)"
| detach: "machine_step ver m (m\<lparr>mc_group := detach_group token (mc_group m)\<rparr>)"
| ready: "machine_step ver m (m\<lparr>mc_group := mark_listener_ready (mc_group m)\<rparr>)"

section \<open>The remembered commits\<close>

definition memory_ok :: "shared_group \<Rightarrow> bool" where
  "memory_ok g \<longleftrightarrow> distinct (sg_done_order g) \<and> set (sg_done_ids g) = set (sg_done_order g) \<and>
     length (sg_done_order g) \<le> retained_commit_ids"

definition same_but_memory :: "shared_group \<Rightarrow> shared_group \<Rightarrow> bool" where
  "same_but_memory g h \<longleftrightarrow> (\<exists>a b. h = g\<lparr>sg_done_ids := a, sg_done_order := b\<rparr>)"

lemma forget_oldest_spec:
  "distinct (sg_done_order g) \<Longrightarrow> set (sg_done_ids g) = set (sg_done_order g) \<Longrightarrow>
   (\<exists>a. forget_oldest n g = g\<lparr>sg_done_ids := a, sg_done_order := drop n (sg_done_order g)\<rparr> \<and>
        set a = set (drop n (sg_done_order g)))"
proof (induction n g rule: forget_oldest.induct)
  case (1 g)
  have "g = g\<lparr>sg_done_ids := sg_done_ids g, sg_done_order := drop 0 (sg_done_order g)\<rparr>" by simp
  then show ?case using 1 by (intro exI[of _ "sg_done_ids g"]) simp
next
  case (2 n g)
  show ?case
  proof (cases "sg_done_order g")
    case Nil
    then show ?thesis using 2 by (intro exI[of _ "sg_done_ids g"]) simp
  next
    case (Cons c cs)
    let ?h = "g\<lparr>sg_done_order := cs, sg_done_ids := filter (\<lambda>x. x \<noteq> c) (sg_done_ids g)\<rparr>"
    have "distinct (sg_done_order ?h)" "set (sg_done_ids ?h) = set (sg_done_order ?h)"
      using 2(2,3) Cons by auto
    from "2.IH"[OF Cons this] show ?thesis using Cons by auto
  qed
qed

lemma remember_fold_spec:
  "distinct (sg_done_order g) \<Longrightarrow> set (sg_done_ids g) = set (sg_done_order g) \<Longrightarrow>
   (\<exists>a b. fold remember_one cs g = g\<lparr>sg_done_ids := a, sg_done_order := b\<rparr> \<and>
      distinct b \<and> set a = set b \<and> set b = set (sg_done_order g) \<union> set cs)"
proof (induction cs arbitrary: g)
  case Nil
  then show ?case by (intro exI[of _ "sg_done_ids g"] exI[of _ "sg_done_order g"]) simp
next
  case (Cons c cs)
  show ?case
  proof (cases "c \<in> set (sg_done_ids g)")
    case True
    then have "remember_one c g = g" "insert c (set (sg_done_order g) \<union> set cs) = set (sg_done_order g) \<union> set cs"
      using Cons.prems by (auto simp: remember_one_def)
    then show ?thesis using Cons.IH[OF Cons.prems] by simp
  next
    case False
    let ?h = "g\<lparr>sg_done_ids := c # sg_done_ids g, sg_done_order := sg_done_order g @ [c]\<rparr>"
    have "distinct (sg_done_order ?h)" "set (sg_done_ids ?h) = set (sg_done_order ?h)"
      using Cons.prems False by auto
    from Cons.IH[OF this] show ?thesis using False by (auto simp: remember_one_def)
  qed
qed

lemma remember_spec:
  assumes "memory_ok g"
  shows "memory_ok (remember_completed cs g) \<and> same_but_memory g (remember_completed cs g) \<and>
    set (sg_done_ids (remember_completed cs g)) \<subseteq> set (sg_done_ids g) \<union> set cs"
proof -
  obtain a b where f: "fold remember_one cs g = g\<lparr>sg_done_ids := a, sg_done_order := b\<rparr>"
      "distinct b" "set a = set b" "set b = set (sg_done_order g) \<union> set cs"
    using remember_fold_spec[of g cs] assms by (auto simp: memory_ok_def)
  let ?n = "length b - retained_commit_ids"
  obtain a' where a': "forget_oldest ?n (g\<lparr>sg_done_ids := a, sg_done_order := b\<rparr>) =
      g\<lparr>sg_done_ids := a', sg_done_order := drop ?n b\<rparr>" "set a' = set (drop ?n b)"
    using forget_oldest_spec[of "g\<lparr>sg_done_ids := a, sg_done_order := b\<rparr>" ?n] f(2,3) by auto
  have r: "remember_completed cs g = g\<lparr>sg_done_ids := a', sg_done_order := drop ?n b\<rparr>"
    using a'(1) by (simp add: remember_completed_def f(1))
  have "set a' \<subseteq> set (sg_done_ids g) \<union> set cs"
    using a'(2) f(4) assms by (auto simp: memory_ok_def dest: in_set_dropD)
  then show ?thesis using f(2) a'(2)
    by (auto simp: r memory_ok_def same_but_memory_def)
qed

section \<open>No notification is lost\<close>

lemma covered_same_commit:
  assumes "request_covered_by xs r"
  shows "\<exists>e \<in> set xs. commit_of e = commit_of r"
proof (cases "r \<in> set xs")
  case False
  then obtain c ts e d us where "split_commit_request r = Some (c, ts)" "e \<in> set xs"
      "split_commit_request e = Some (d, us)" "d = c"
    using assms by (auto simp: request_covered_by_def list_ex_iff split: option.splits)
  then show ?thesis by (auto simp: commit_of_def intro!: bexI[of _ e])
qed auto

definition upto :: "(string \<Rightarrow> nat) \<Rightarrow> string list \<Rightarrow> nat \<Rightarrow> bool" where
  "upto ver rs v \<longleftrightarrow> (\<forall>r \<in> set rs. ver (commit_of r) \<le> v)"

lemma upto_covered: "upto ver xs v \<Longrightarrow> request_covered_by xs r \<Longrightarrow> ver (commit_of r) \<le> v"
  using covered_same_commit[of xs r] by (auto simp: upto_def)

lemma upto_mono: "upto ver xs v \<Longrightarrow> v \<le> w \<Longrightarrow> upto ver xs w"
  by (auto simp: upto_def intro: order_trans)

lemma upto_insert: "upto ver xs v \<Longrightarrow> (r \<noteq> '''' \<Longrightarrow> ver (commit_of r) \<le> v) \<Longrightarrow> upto ver (insert_new [r] xs) v"
  by (auto simp: upto_def insert_new_def)

text \<open>
  The invariant: \<open>wp\<close> bounds what the pending requests ask for, \<open>wa\<close> what the active run
  must show.
\<close>

definition coverage :: "(string \<Rightarrow> nat) \<Rightarrow> machine \<Rightarrow> nat \<Rightarrow> nat \<Rightarrow> bool" where
  "coverage ver m wp wa \<longleftrightarrow>
     mc_asked m \<le> max wp (max wa (mc_shown m)) \<and> wp \<le> mc_db m \<and> wa \<le> mc_db m \<and> mc_shown m \<le> mc_db m \<and>
     upto ver (sg_pending_requests (mc_group m)) wp \<and> upto ver (sg_active_requests (mc_group m)) (max wa (mc_shown m)) \<and>
     upto ver (sg_done_ids (mc_group m)) (mc_shown m)"

fun runner_ok :: "shared_group \<Rightarrow> nat \<Rightarrow> nat \<Rightarrow> nat \<Rightarrow> nat \<Rightarrow> (string \<Rightarrow> nat) \<Rightarrow> runner \<Rightarrow> bool" where
  "runner_ok g db shown wp wa ver Parked = (\<not> sg_running g \<and> wp \<le> shown \<and> wa \<le> shown)"
| "runner_ok g db shown wp wa ver Scheduled = (sg_running g \<and> wa \<le> shown)"
| "runner_ok g db shown wp wa ver (Checked r) = (sg_running g \<and> \<not> sg_coalescing g \<and>
     run_requests r = sg_active_requests g \<and> run_requested r \<le> sg_requested g \<and>
     (run_requested r = sg_requested g \<longrightarrow> wp = 0))"
| "runner_ok g db shown wp wa ver (Read r v) = (sg_running g \<and> \<not> sg_coalescing g \<and>
     run_requests r = sg_active_requests g \<and> run_requested r \<le> sg_requested g \<and>
     (run_requested r = sg_requested g \<longrightarrow> wp = 0) \<and> wa \<le> v \<and> shown \<le> v \<and> v \<le> db)"

definition machine_ok :: "(string \<Rightarrow> nat) \<Rightarrow> machine \<Rightarrow> bool" where
  "machine_ok ver m \<longleftrightarrow> memory_ok (mc_group m) \<and> (\<exists>wp wa. coverage ver m wp wa \<and>
     runner_ok (mc_group m) (mc_db m) (mc_shown m) wp wa ver (mc_runner m))"

lemma machine_okI: "memory_ok (mc_group m) \<Longrightarrow> coverage ver m wp wa \<Longrightarrow>
    runner_ok (mc_group m) (mc_db m) (mc_shown m) wp wa ver (mc_runner m) \<Longrightarrow> machine_ok ver m"
  by (auto simp: machine_ok_def)

lemma note_changes_frame:
  "\<exists>t k. fold note_change cs g = g\<lparr>sg_pending_tables := t, sg_pending_tasks := k\<rparr>"
proof (induction cs arbitrary: g)
  case Nil
  show ?case by (intro exI[of _ "sg_pending_tables g"] exI[of _ "sg_pending_tasks g"]) simp
next
  case (Cons c cs)
  show ?case using Cons[of "note_change c g"] by (auto simp: note_change_def)
qed

text \<open>A request as a change of the fields the invariant reads.\<close>

lemma request_batch_cases:
  assumes "request_batch reason at commit request changes g = (g', spawned)"
  obtains (repeated) "trim_space request \<noteq> ''''" "commit_already_requested g (trim_space request)" "\<not> spawned"
      "sg_requested g' = sg_requested g" "sg_pending_requests g' = sg_pending_requests g"
      "sg_running g' = sg_running g" "sg_active_requests g' = sg_active_requests g" "sg_coalescing g' = sg_coalescing g"
      "sg_done_ids g' = sg_done_ids g" "sg_done_order g' = sg_done_order g"
    | (accepted) "sg_requested g' = Suc (sg_requested g)"
      "sg_pending_requests g' = insert_new [trim_space request] (sg_pending_requests g)"
      "sg_running g'" "spawned = (\<not> sg_running g)"
      "sg_active_requests g' = sg_active_requests g" "sg_coalescing g' = sg_coalescing g"
      "sg_done_ids g' = sg_done_ids g" "sg_done_order g' = sg_done_order g"
proof -
  obtain t k where n: "fold note_change changes g = g\<lparr>sg_pending_tables := t, sg_pending_tasks := k\<rparr>"
    using note_changes_frame by blast
  have same: "commit_already_requested (g\<lparr>sg_pending_tables := t, sg_pending_tasks := k\<rparr>) x = commit_already_requested g x" for x
    by (simp add: commit_already_requested_def)
  show thesis
  proof (cases "trim_space request \<noteq> '''' \<and> commit_already_requested g (trim_space request)")
    case True
    then show thesis using assms
      by (intro repeated) (auto simp: request_batch_def n same Let_def)
  next
    case False
    then show thesis using assms
      by (intro accepted) (auto simp: request_batch_def n same Let_def split: if_splits)
  qed
qed

lemma notify_ok:
  assumes ok: "machine_ok ver m" and known: "asks_for ver request m \<le> mc_db m"
  shows "machine_ok ver (notify ver reason at commit request changes m)"
proof -
  let ?g = "mc_group m" and ?T = "asks_for ver request m"
  obtain g' spawned where r: "request_batch reason at commit request changes ?g = (g', spawned)"
    by (meson surj_pair)
  have n: "notify ver reason at commit request changes m =
      m\<lparr>mc_group := g', mc_runner := (if spawned then Scheduled else mc_runner m), mc_asked := max (mc_asked m) ?T\<rparr>"
    by (simp add: notify_def r)
  obtain wp wa where c: "coverage ver m wp wa" and ro: "runner_ok ?g (mc_db m) (mc_shown m) wp wa ver (mc_runner m)"
    and mem: "memory_ok ?g"
    using ok by (auto simp: machine_ok_def)
  from r show ?thesis
  proof (cases rule: request_batch_cases)
    case repeated
    have t: "?T = ver (commit_of (trim_space request))" using repeated(1) by (simp add: asks_for_def)
    have "?T \<le> max wp (max wa (mc_shown m))"
      using repeated(2) c upto_covered[of ver _ _ "trim_space request"]
      unfolding t commit_already_requested_def coverage_def by (metis max.coboundedI1 max.coboundedI2)
    then have "coverage ver (notify ver reason at commit request changes m) wp wa"
      using c repeated by (simp add: n coverage_def)
    moreover have "runner_ok g' (mc_db m) (mc_shown m) wp wa ver (mc_runner m)"
      using ro repeated by (cases "mc_runner m") auto
    moreover have "memory_ok g'" using mem repeated by (simp add: memory_ok_def)
    ultimately show ?thesis using repeated by (intro machine_okI[where wp = wp and wa = wa]) (simp_all add: n)
  next
    case accepted
    have p: "upto ver (sg_pending_requests g') (max wp ?T)"
      using c accepted(2) by (auto simp: coverage_def asks_for_def intro!: upto_insert intro: upto_mono)
    then have cov: "coverage ver (notify ver reason at commit request changes m) (max wp ?T) wa"
      using c known accepted by (auto simp: n coverage_def)
    have "runner_ok g' (mc_db m) (mc_shown m) (max wp ?T) wa ver (if spawned then Scheduled else mc_runner m)"
      using ro accepted by (cases "mc_runner m") auto
    moreover have "memory_ok g'" using mem accepted by (simp add: memory_ok_def)
    ultimately show ?thesis using cov
      by (intro machine_okI[where wp = "max wp ?T" and wa = wa]) (simp_all add: n)
  qed
qed

lemma run_end_cases:
  assumes "run_end r g = (g', again)" "memory_ok g"
  shows "memory_ok g' \<and> set (sg_done_ids g') \<subseteq> set (sg_done_ids g) \<union> set (run_requests r) \<and>
    sg_pending_requests g' = sg_pending_requests g \<and> sg_active_requests g' = [] \<and>
    sg_running g' = (again \<and> sg_running g) \<and>
    again = (sg_dirty g \<or> run_requested r < sg_requested g) \<and> sg_requested g' = sg_requested g"
proof -
  obtain a b where h: "remember_completed (run_requests r) g = g\<lparr>sg_done_ids := a, sg_done_order := b\<rparr>"
    and m: "memory_ok (g\<lparr>sg_done_ids := a, sg_done_order := b\<rparr>)" "set a \<subseteq> set (sg_done_ids g) \<union> set (run_requests r)"
    using remember_spec[OF assms(2), of "run_requests r"] by (auto simp: same_but_memory_def)
  show ?thesis using assms(1) m
    by (auto simp: run_end_def h clear_active_def memory_ok_def Let_def split: if_splits)
qed

declare runner_step.simps [simp del]

lemma runner_step_ok:
  assumes ok: "machine_ok ver m"
  shows "machine_ok ver (runner_step m)"
proof -
  let ?g = "mc_group m"
  obtain wp wa where c: "coverage ver m wp wa" and ro: "runner_ok ?g (mc_db m) (mc_shown m) wp wa ver (mc_runner m)"
    and mem: "memory_ok ?g"
    using ok by (auto simp: machine_ok_def)
  show ?thesis
  proof (cases "mc_runner m")
    case Parked
    then show ?thesis using ok by (simp add: runner_step.simps)
  next
    case Scheduled
    obtain g r where b: "run_begin ?g = (g, r)" by (meson surj_pair)
    have s: "runner_step m = m\<lparr>mc_group := g, mc_runner := Checked r\<rparr>" using Scheduled b by (simp add: runner_step.simps)
    have g: "sg_pending_requests g = []" "sg_active_requests g = sg_pending_requests ?g" "run_requests r = sg_pending_requests ?g"
      "sg_done_ids g = sg_done_ids ?g" "sg_done_order g = sg_done_order ?g" "run_requested r = sg_requested g"
      "sg_running g = sg_running ?g" "\<not> sg_coalescing g"
      using b by (auto simp: run_begin_def)
    have "coverage ver (runner_step m) 0 (max wp wa)"
      unfolding s coverage_def using c ro Scheduled upto_mono[of ver "sg_pending_requests ?g" wp "max (max wp wa) (mc_shown m)"]
      by (auto simp: coverage_def g) (simp add: upto_def)
    moreover have "runner_ok g (mc_db m) (mc_shown m) 0 (max wp wa) ver (Checked r)"
      using ro Scheduled g by simp
    moreover have "memory_ok g" using mem by (simp add: memory_ok_def g)
    ultimately show ?thesis
      by (intro machine_okI[where wp = 0 and wa = "max wp wa"]) (simp_all add: s)
  next
    case (Checked r)
    have s: "runner_step m = m\<lparr>mc_runner := Read r (mc_db m)\<rparr>" using Checked by (simp add: runner_step.simps)
    have "coverage ver (runner_step m) wp wa" using c by (simp add: s coverage_def)
    moreover have "runner_ok ?g (mc_db m) (mc_shown m) wp wa ver (Read r (mc_db m))"
      using ro Checked c by (simp add: coverage_def)
    ultimately show ?thesis using mem by (intro machine_okI[where wp = wp and wa = wa]) (simp_all add: s)
  next
    case (Read r v)
    obtain g again where e: "run_end r ?g = (g, again)" by (meson surj_pair)
    note end_facts = run_end_cases[OF e mem]
    have s: "runner_step m = m\<lparr>mc_group := g, mc_shown := v, mc_runner := (if again then Scheduled else Parked)\<rparr>"
      using Read e by (simp add: runner_step.simps)
    have r: "run_requests r = sg_active_requests ?g" "wa \<le> v" "mc_shown m \<le> v" "v \<le> mc_db m" "sg_running ?g"
      "run_requested r = sg_requested ?g \<longrightarrow> wp = 0" "run_requested r \<le> sg_requested ?g"
      using ro Read by auto
    have finished: "upto ver (sg_done_ids g) v"
    proof -
      have "upto ver (sg_done_ids ?g) v" "upto ver (run_requests r) v"
        using c r(1-3) by (auto simp: coverage_def intro: upto_mono)
      then show ?thesis using end_facts by (auto simp: upto_def)
    qed
    have "coverage ver (runner_step m) wp wa"
      using c end_facts r finished by (auto simp: s coverage_def upto_def)
    moreover have "runner_ok g (mc_db m) v wp wa ver (if again then Scheduled else Parked)"
      using end_facts r by auto
    ultimately show ?thesis using end_facts by (intro machine_okI[where wp = wp and wa = wa]) (simp_all add: s)
  qed
qed

lemma machine_step_ok: "machine_step ver m m' \<Longrightarrow> machine_ok ver m \<Longrightarrow> machine_ok ver m'"
proof (induction rule: machine_step.induct)
  case (commit m)
  then obtain wp wa where c: "coverage ver m wp wa" "memory_ok (mc_group m)"
    "runner_ok (mc_group m) (mc_db m) (mc_shown m) wp wa ver (mc_runner m)"
    by (auto simp: machine_ok_def)
  have "runner_ok (mc_group m) (mc_db m + 1) (mc_shown m) wp wa ver (mc_runner m)"
    using c(3) by (cases "mc_runner m") auto
  moreover have "coverage ver (m\<lparr>mc_db := mc_db m + 1\<rparr>) wp wa" using c(1) by (auto simp: coverage_def)
  ultimately show ?case using c(2) by (auto simp: machine_ok_def)
next
  case (notification request m reason at commit changes)
  then show ?case using notify_ok by blast
next
  case (runs m)
  then show ?case using runner_step_ok by blast
next
  case (attach m created token)
  have r: "runner_ok (fst (attach_group created token g)) db shown wp wa ver x = runner_ok g db shown wp wa ver x" for g db shown wp wa x
    by (cases x) (auto simp: attach_group_def)
  show ?case using attach unfolding machine_ok_def
    by (simp add: r coverage_def memory_ok_def) (simp add: attach_group_def)
next
  case (detach m token)
  have r: "runner_ok (detach_group token g) db shown wp wa ver x = runner_ok g db shown wp wa ver x" for g db shown wp wa x
    by (cases x) (auto simp: detach_group_def)
  show ?case using detach unfolding machine_ok_def
    by (simp add: r coverage_def memory_ok_def) (simp add: detach_group_def)
next
  case (ready m)
  have r: "runner_ok (mark_listener_ready g) db shown wp wa ver x = runner_ok g db shown wp wa ver x" for g db shown wp wa x
    by (cases x) (auto simp: mark_listener_ready_def)
  show ?case using ready unfolding machine_ok_def
    by (simp add: r coverage_def memory_ok_def) (simp add: mark_listener_ready_def)
qed

lemma start_ok: "machine_ok ver start_machine"
  by (intro machine_okI[where wp = 0 and wa = 0])
     (simp_all add: start_machine_def new_group_def memory_ok_def coverage_def upto_def)

interpretation group: step_invariant "\<lambda>m. m = start_machine" "machine_step ver" "machine_ok ver" for ver
  by unfold_locales (auto intro: start_ok machine_step_ok)

lemma reachable_ok: "(machine_step ver)\<^sup>*\<^sup>* start_machine m \<Longrightarrow> machine_ok ver m"
  by (rule group.inv_reachable) simp_all

text \<open>
  Left alone, the runner parks: \<open>settled\<close> holds when no request arrived since the run began,
  so the run that ends is the last one.
\<close>

definition settled :: "machine \<Rightarrow> bool" where
  "settled m \<longleftrightarrow> (case mc_runner m of
     Checked r \<Rightarrow> \<not> sg_dirty (mc_group m) \<and> run_requested r = sg_requested (mc_group m)
   | Read r v \<Rightarrow> \<not> sg_dirty (mc_group m) \<and> run_requested r = sg_requested (mc_group m)
   | _ \<Rightarrow> True)"

lemma settled_begin: "mc_runner m = Scheduled \<Longrightarrow> settled (runner_step m) \<and> (\<exists>r. mc_runner (runner_step m) = Checked r)"
  by (simp add: runner_step.simps run_begin_def settled_def)

lemma settled_read: "mc_runner m = Checked r \<Longrightarrow> settled m \<Longrightarrow> settled (runner_step m)"
  by (simp add: runner_step.simps settled_def)

lemma remember_counters:
  "memory_ok g \<Longrightarrow> sg_dirty (remember_completed cs g) = sg_dirty g \<and> sg_requested (remember_completed cs g) = sg_requested g"
  using remember_spec[of g cs] by (auto simp: same_but_memory_def)

lemma settled_end:
  assumes "mc_runner m = Read r v" "settled m" "memory_ok (mc_group m)"
  shows "mc_runner (runner_step m) = Parked"
proof -
  obtain g again where e: "run_end r (mc_group m) = (g, again)" by (meson surj_pair)
  have "\<not> again" using run_end_cases[OF e assms(3)] assms by (simp add: settled_def)
  then show ?thesis using assms(1) e by (simp add: runner_step.simps)
qed

lemma runner_asked: "mc_asked (runner_step m) = mc_asked m"
  by (cases "mc_runner m") (auto simp: runner_step.simps split: prod.splits)

lemma parked_stays: "mc_runner m = Parked \<Longrightarrow> runner_step m = m"
  by (simp add: runner_step.simps)

lemma parked_in:
  assumes "machine_ok ver m"
  shows "mc_runner m = Scheduled \<Longrightarrow> mc_runner ((runner_step ^^ 3) m) = Parked"
    and "mc_runner m = Read r v \<Longrightarrow> mc_runner ((runner_step ^^ 4) m) = Parked"
    and "mc_runner m = Checked r \<Longrightarrow> mc_runner ((runner_step ^^ 5) m) = Parked"
proof -
  have sched: "mc_runner ((runner_step ^^ 3) n) = Parked" if ok: "machine_ok ver n" and s: "mc_runner n = Scheduled" for n
  proof -
    obtain r where c: "mc_runner (runner_step n) = Checked r" "settled (runner_step n)"
      using settled_begin[OF s] by blast
    have r: "mc_runner (runner_step (runner_step n)) = Read r (mc_db (runner_step n))"
      using c by (simp add: runner_step.simps[of "runner_step n"])
    have "memory_ok (mc_group (runner_step (runner_step n)))"
      using runner_step_ok[OF runner_step_ok[OF ok]] by (simp add: machine_ok_def)
    then show ?thesis using settled_end[OF r settled_read[OF c]] by (simp add: numeral_3_eq_3)
  qed
  then show "mc_runner m = Scheduled \<Longrightarrow> mc_runner ((runner_step ^^ 3) m) = Parked" using assms by blast
  have read: "mc_runner ((runner_step ^^ 4) n) = Parked" if ok: "machine_ok ver n" and s: "mc_runner n = Read r v" for n r v
  proof -
    have "mc_runner (runner_step n) = Parked \<or> mc_runner (runner_step n) = Scheduled"
      using s by (auto simp: runner_step.simps split: prod.splits)
    moreover have "(runner_step ^^ 4) n = (runner_step ^^ 3) (runner_step n)"
      by (simp add: funpow_swap1 numeral_eq_Suc)
    ultimately show ?thesis using sched runner_step_ok[OF ok] by (auto simp: parked_stays numeral_3_eq_3)
  qed
  then show "mc_runner m = Read r v \<Longrightarrow> mc_runner ((runner_step ^^ 4) m) = Parked" using assms by blast
  show "mc_runner m = Checked r \<Longrightarrow> mc_runner ((runner_step ^^ 5) m) = Parked"
  proof -
    assume c: "mc_runner m = Checked r"
    then have "mc_runner (runner_step m) = Read r (mc_db m)" by (simp add: runner_step.simps)
    moreover have "(runner_step ^^ 5) m = (runner_step ^^ 4) (runner_step m)"
      by (simp add: funpow_swap1 numeral_eq_Suc)
    ultimately show ?thesis using read runner_step_ok[OF assms] by metis
  qed
qed

lemma funpow_ok: "machine_ok ver m \<Longrightarrow> machine_ok ver ((runner_step ^^ n) m) \<and> mc_asked ((runner_step ^^ n) m) = mc_asked m"
  by (induction n) (auto simp: runner_asked runner_step_ok)

lemma parked_more: "mc_runner ((runner_step ^^ n) m) = Parked \<Longrightarrow> mc_runner ((runner_step ^^ (k + n)) m) = Parked"
  by (induction k) (auto simp: parked_stays)


text \<open>A commit announced twice while its first run has already begun.\<close>

definition twice_notified :: machine where
  "twice_notified =
    notify (\<lambda>_. 1) ''invalidate'' 5 ''c1'' ''c1'' [] (runner_step
      (notify (\<lambda>_. 1) ''invalidate'' 5 ''c1'' ''c1'' [] (start_machine\<lparr>mc_db := 1\<rparr>)))"


text \<open>
  the memory of answered commits is bounded: at most 256 ids, each once, the set and
  the queue that orders its eviction always agreeing.
\<close>

theorem completed_commits_bounded:
  assumes "(machine_step ver)\<^sup>*\<^sup>* start_machine m"
  shows "length (sg_done_order (mc_group m)) \<le> 256 \<and> distinct (sg_done_order (mc_group m)) \<and>
    set (sg_done_ids (mc_group m)) = set (sg_done_order (mc_group m))"
  using reachable_ok[OF assms] by (auto simp: machine_ok_def memory_ok_def retained_commit_ids_def)

lemma completed_commits_bounded_witness:
  "length (sg_done_order (mc_group (start_machine\<lparr>mc_db := 1\<rparr>))) \<le> 256"
proof -
  have "machine_step (\<lambda>_. 0) start_machine (start_machine\<lparr>mc_db := 1\<rparr>)"
    using machine_step.commit[of "\<lambda>_. 0" start_machine] by (simp add: start_machine_def)
  then show ?thesis using completed_commits_bounded[of "\<lambda>_. 0" "start_machine\<lparr>mc_db := 1\<rparr>"] by blast
qed

section \<open>Early exits\<close>

text \<open>
  A listener that attaches between the first critical section of a run that found no
  listeners and its \<open>finishRun\<close> is told to wait for that run, which delivers nothing: the
  group is then idle with a listener that was never answered.
\<close>

definition idle_group :: shared_group where
  "idle_group = new_group\<lparr>sg_awaiting := False\<rparr>"

definition attach_during_exit :: "shared_group \<times> attach_action" where
  "attach_during_exit =
    (let (g1, _) = request_commit ''invalidate'' 7 ''c1'' idle_group;
         (g2, r) = run_begin g1;
         (g3, action) = attach_group False 1 g2
     in (run_without_listeners False r g3, action))"

lemma attach_during_early_exit_unanswered:
  "(case attach_during_exit of (g, action) \<Rightarrow>
      action = Wait_For_Run \<and> sg_listeners g = [1] \<and> \<not> sg_running g \<and> sg_snapshot g = None)"
  by code_simp

text \<open>
  A recovery request (\<open>refreshTenant\<close>: notifications may have been missed) that finds no
  listeners does not mark the snapshot stale: the next listener is served the old one.
\<close>

definition recover_while_idle :: "shared_group \<Rightarrow> shared_group \<times> attach_action" where
  "recover_while_idle g =
    (let (g1, _) = request_plain ''recover'' 7 g; (g2, r) = run_begin g1
     in attach_group False 1 (run_without_listeners False r g2))"

lemma recover_while_idle_serves_old_snapshot:
  "snd (recover_while_idle (idle_group\<lparr>sg_snapshot := Some (JArr [])\<rparr>)) = Replay (JArr [])"
  by code_simp

end
