(* ===== verification/Subscription_Manager.thy ===== *)
theory Subscription_Manager
  imports Shared_Group "HOL-Library.AList"
begin

text \<open>
  The registry of shared groups (\<open>subscriptionManager\<close> in \<open>subscriptions.go\<close>): which group
  a listener joins, the indexes by table through which a committed change finds its
  candidate groups, and the release of idle groups. Parameter of the model: \<open>key_of\<close>, the
  key, read dependencies and unknown-dependencies flag that \<open>groupKeyAndDependencies\<close>
  computes from a subscription and the deployed manifest. The timer of an idle group is
  the flag \<open>g_idle\<close>; the indexes are sets of group keys.
\<close>

section \<open>State\<close>

record subscriber =
  s_token :: nat
  s_project :: string
  s_tenant :: string
  s_path :: string

record managed_group =
  g_project :: string
  g_tenant :: string
  g_reads :: "group_reads"
  g_rows :: "string list"
  g_body :: shared_group
  g_idle :: bool

type_synonym table_key = "string \<times> string \<times> string"

record manager =
  mg_groups :: "(string \<times> managed_group) list"
  mg_by_table :: "(table_key \<times> string) list"
  mg_broad :: "((string \<times> string) \<times> string) list"
  mg_listeners :: nat

definition new_manager :: manager where
  "new_manager = \<lparr>mg_groups = [], mg_by_table = [], mg_broad = [], mg_listeners = 0\<rparr>"

section \<open>Indexes\<close>

definition add_new :: "'a \<Rightarrow> 'a list \<Rightarrow> 'a list" where
  "add_new x xs = (if x \<in> set xs then xs else xs @ [x])"

definition index_group :: "string \<Rightarrow> managed_group \<Rightarrow> manager \<Rightarrow> manager" where
  "index_group key g m =
    (if gr_unknown (g_reads g) then m\<lparr>mg_broad := add_new ((g_project g, g_tenant g), key) (mg_broad m)\<rparr>
     else m\<lparr>mg_by_table :=
       fold (\<lambda>r. add_new ((g_project g, g_tenant g, r_table r), key)) (gr_reads (g_reads g)) (mg_by_table m)\<rparr>)"

definition unindex_group :: "string \<Rightarrow> manager \<Rightarrow> manager" where
  "unindex_group key m = m\<lparr>mg_by_table := filter (\<lambda>(_, k). k \<noteq> key) (mg_by_table m),
     mg_broad := filter (\<lambda>(_, k). k \<noteq> key) (mg_broad m)\<rparr>"

section \<open>Attaching\<close>

definition group_full :: "nat \<Rightarrow> managed_group \<Rightarrow> bool" where
  "group_full fanout g \<longleftrightarrow> length (sg_listeners (g_body g)) \<ge> fanout"

definition shard_key :: "string \<Rightarrow> nat \<Rightarrow> string" where
  "shard_key base n = base @ '':'' @ nat_dec n"

text \<open>
  The loop over the shards of a base key; fuel bounds it by the number of groups, one more
  than the shards that can exist.
\<close>

fun find_shard :: "nat \<Rightarrow> nat \<Rightarrow> string \<Rightarrow> nat \<Rightarrow> string \<Rightarrow> manager \<Rightarrow> string option" where
  "find_shard 0 fanout base n key m = None"
| "find_shard (Suc fuel) fanout base n key m =
    (case map_of (mg_groups m) key of
       None \<Rightarrow> Some key
     | Some g \<Rightarrow> if fanout = 0 \<or> \<not> group_full fanout g then Some key
         else find_shard fuel fanout base (n + 1) (shard_key base n) m)"

definition attach :: "nat \<Rightarrow> (subscriber \<Rightarrow> string \<times> group_reads) \<Rightarrow> subscriber \<Rightarrow> manager \<Rightarrow> (manager \<times> attach_action) option" where
  "attach fanout key_of sub m =
    (let (base, reads) = key_of sub in
     case find_shard (length (mg_groups m) + 1) fanout base 1 base m of
       None \<Rightarrow> None
     | Some key \<Rightarrow>
         let created = (map_of (mg_groups m) key = None);
             g = (case map_of (mg_groups m) key of
                    Some g \<Rightarrow> g
                  | None \<Rightarrow> \<lparr>g_project = s_project sub, g_tenant = s_tenant sub, g_reads = reads,
                      g_rows = [], g_body = new_group, g_idle = False\<rparr>);
             m1 = (if created then index_group key g m else m);
             (body, action) = attach_group created (s_token sub) (g_body g);
             fresh = (s_token sub \<notin> set (sg_listeners (g_body g)))
         in Some (m1\<lparr>mg_groups := AList.update key (g\<lparr>g_body := body, g_idle := False\<rparr>) (mg_groups m1),
                     mg_listeners := (if fresh then mg_listeners m1 + 1 else mg_listeners m1)\<rparr>, action))"

section \<open>Detaching and expiry\<close>

text \<open>The group \<open>detach\<close> and \<open>request\<close> act on: by key, by token when there is none.\<close>

definition locate :: "(subscriber \<Rightarrow> string \<times> group_reads) \<Rightarrow> subscriber \<Rightarrow> manager \<Rightarrow> string option" where
  "locate key_of sub m =
    (let key = fst (key_of sub) in
     if map_of (mg_groups m) key \<noteq> None then Some key
     else map_option fst (find (\<lambda>(k, g). s_token sub \<in> set (sg_listeners (g_body g))) (mg_groups m)))"

definition detach :: "(subscriber \<Rightarrow> string \<times> group_reads) \<Rightarrow> subscriber \<Rightarrow> manager \<Rightarrow> manager" where
  "detach key_of sub m =
    (case locate key_of sub m of
       None \<Rightarrow> m
     | Some key \<Rightarrow> (case map_of (mg_groups m) key of
         None \<Rightarrow> m
       | Some g \<Rightarrow>
           let had = (s_token sub \<in> set (sg_listeners (g_body g)));
               body = detach_group (s_token sub) (g_body g)
           in m\<lparr>mg_groups := AList.update key (g\<lparr>g_body := body, g_idle := (g_idle g \<or> sg_listeners body = [])\<rparr>) (mg_groups m),
                mg_listeners := (if had then mg_listeners m - 1 else mg_listeners m)\<rparr>))"

text \<open>The timer of an idle group fires.\<close>

definition expire :: "string \<Rightarrow> manager \<Rightarrow> manager" where
  "expire key m = (case map_of (mg_groups m) key of
     None \<Rightarrow> m
   | Some g \<Rightarrow>
       if sg_listeners (g_body g) \<noteq> [] then m\<lparr>mg_groups := AList.update key (g\<lparr>g_idle := False\<rparr>) (mg_groups m)\<rparr>
       else unindex_group key (m\<lparr>mg_groups := AList.delete key (mg_groups m)\<rparr>))"

section \<open>Changes\<close>

definition candidate_tables :: "table_change \<Rightarrow> string list" where
  "candidate_tables c = append_unique_strings [] (table_change_tables c @ table_map_keys (c_declared c))"

definition change_candidates :: "string \<Rightarrow> string \<Rightarrow> table_change \<Rightarrow> manager \<Rightarrow> string list" where
  "change_candidates project tenant c m = remdups (
     map snd (filter (\<lambda>(scope, _). scope = (project, tenant)) (mg_broad m)) @
     (if c_broad c \<and> effective_table_count c = 0
      then map fst (filter (\<lambda>(_, g). g_project g = project \<and> g_tenant g = tenant) (mg_groups m)) else []) @
     concat (map (\<lambda>t. map snd (filter (\<lambda>(k, _). k = (project, tenant, t)) (mg_by_table m))) (candidate_tables c)))"

definition selected :: "string \<Rightarrow> string \<Rightarrow> table_change \<Rightarrow> manager \<Rightarrow> string list" where
  "selected project tenant c m = filter (\<lambda>k. case map_of (mg_groups m) k of
       None \<Rightarrow> False
     | Some g \<Rightarrow> fst (match_result (g_reads g) (g_rows g) c)) (change_candidates project tenant c m)"

definition request_group :: "string \<Rightarrow> int \<Rightarrow> string \<Rightarrow> string \<Rightarrow> table_change list \<Rightarrow> string \<Rightarrow> manager \<Rightarrow> manager \<times> string list" where
  "request_group reason at commit request changes key m = (case map_of (mg_groups m) key of
     None \<Rightarrow> (m, [])
   | Some g \<Rightarrow> (case request_batch reason at commit request changes (g_body g) of (body, spawned) \<Rightarrow>
       (m\<lparr>mg_groups := AList.update key (g\<lparr>g_body := body\<rparr>) (mg_groups m)\<rparr>, if spawned then [key] else [])))"

text \<open>The second component: the groups whose runner was started.\<close>

definition request_all :: "string \<Rightarrow> int \<Rightarrow> string \<Rightarrow> string \<Rightarrow> table_change list \<Rightarrow> string list \<Rightarrow> manager \<Rightarrow> manager \<times> string list" where
  "request_all reason at commit request changes ks m =
    fold (\<lambda>k (m, started). let (m', new) = request_group reason at commit request changes k m in (m', started @ new)) ks (m, [])"

definition request_change :: "string \<Rightarrow> string \<Rightarrow> table_change \<Rightarrow> manager \<Rightarrow> manager \<times> string list" where
  "request_change project tenant c m =
    request_all ''invalidate'' (c_changed_at c) (c_commit c) (trim_space (c_commit c)) [c] (selected project tenant c m) m"

definition refresh_tenant :: "int \<Rightarrow> string \<Rightarrow> string \<Rightarrow> manager \<Rightarrow> manager \<times> string list" where
  "refresh_tenant now project tenant m =
    request_all ''recover'' now '''' '''' []
      (map fst (filter (\<lambda>(_, g). g_project g = project \<and> g_tenant g = tenant) (mg_groups m))) m"

section \<open>Steps and invariant\<close>

inductive manager_step :: "nat \<Rightarrow> (subscriber \<Rightarrow> string \<times> group_reads) \<Rightarrow> manager \<Rightarrow> manager \<Rightarrow> bool" for fanout key_of where
  attach: "attach fanout key_of sub m = Some (m', action) \<Longrightarrow> manager_step fanout key_of m m'"
| detach: "manager_step fanout key_of m (detach key_of sub m)"
| expire: "manager_step fanout key_of m (expire key m)"
| change: "manager_step fanout key_of m (fst (request_change project tenant c m))"
| refresh: "manager_step fanout key_of m (fst (refresh_tenant now project tenant m))"
| run: "map_of (mg_groups m) key = Some g \<Longrightarrow> sg_listeners body = sg_listeners (g_body g) \<Longrightarrow>
    manager_step fanout key_of m (m\<lparr>mg_groups := AList.update key (g\<lparr>g_body := body, g_rows := rows\<rparr>) (mg_groups m)\<rparr>)"

definition weight :: "managed_group \<Rightarrow> nat" where "weight g = length (sg_listeners (g_body g))"

definition total :: "(string \<times> managed_group) list \<Rightarrow> nat" where
  "total gs = sum_list (map (\<lambda>(_, g). weight g) gs)"

definition indexed :: "manager \<Rightarrow> string \<Rightarrow> managed_group \<Rightarrow> bool" where
  "indexed m key g \<longleftrightarrow>
     (if gr_unknown (g_reads g) then ((g_project g, g_tenant g), key) \<in> set (mg_broad m)
      else \<forall>r \<in> set (gr_reads (g_reads g)). ((g_project g, g_tenant g, r_table r), key) \<in> set (mg_by_table m))"

definition proper_reads :: "group_reads \<Rightarrow> bool" where
  "proper_reads g \<longleftrightarrow> list_all (\<lambda>r. trim_space (r_table r) = r_table r \<and> r_table r \<noteq> '''') (gr_reads g)"

definition manager_ok :: "manager \<Rightarrow> bool" where
  "manager_ok m \<longleftrightarrow> distinct (map fst (mg_groups m)) \<and>
     (\<forall>(k, g) \<in> set (mg_groups m). indexed m k g \<and> proper_reads (g_reads g) \<and> distinct (sg_listeners (g_body g))) \<and>
     mg_listeners m = total (mg_groups m)"

lemma total_update:
  assumes "distinct (map fst gs)"
  shows "total (AList.update k g' gs) + (case map_of gs k of None \<Rightarrow> 0 | Some g \<Rightarrow> weight g) = total gs + weight g'"
  using assms
proof (induction gs)
  case (Cons kg gs)
  show ?case
  proof (cases "fst kg = k")
    case True
    then show ?thesis by (cases kg) (simp add: total_def)
  next
    case False
    then show ?thesis using Cons by (cases kg) (auto simp: total_def split: option.splits)
  qed
qed (simp add: total_def)

lemma total_delete:
  "distinct (map fst gs) \<Longrightarrow> map_of gs k = Some g \<Longrightarrow> total (AList.delete k gs) + weight g = total gs"
proof (induction gs)
  case (Cons kg gs)
  show ?case
  proof (cases "fst kg = k")
    case True
    then have "map_of gs k = None" using Cons.prems by (cases kg) (auto simp: map_of_eq_None_iff)
    then have "AList.delete k gs = gs" by (simp add: delete_id map_of_eq_None_iff)
    then show ?thesis using True Cons.prems by (cases kg) (simp add: total_def)
  next
    case False
    then show ?thesis using Cons by (cases kg) (simp add: total_def)
  qed
qed simp

lemma set_update_groups: "(k, g) \<in> set (AList.update key g' gs) \<Longrightarrow> (k, g) = (key, g') \<or> (k, g) \<in> set gs"
  by (induction gs) (auto split: if_splits)

text \<open>A group is replaced by one of the same subscription.\<close>

lemma replace_ok:
  assumes ok: "manager_ok m" and g: "map_of (mg_groups m) key = Some g"
    and same: "g_project g' = g_project g" "g_tenant g' = g_tenant g" "g_reads g' = g_reads g"
    and n: "n + weight g = mg_listeners m + weight g'" and ls: "distinct (sg_listeners (g_body g'))"
  shows "manager_ok (m\<lparr>mg_groups := AList.update key g' (mg_groups m), mg_listeners := n\<rparr>)"
proof -
  let ?m = "m\<lparr>mg_groups := AList.update key g' (mg_groups m), mg_listeners := n\<rparr>"
  have d: "distinct (map fst (mg_groups m))" using ok by (simp add: manager_ok_def)
  have i: "indexed ?m k h = indexed m k h" for k h by (simp add: indexed_def)
  have "indexed m key g" "proper_reads (g_reads g)" using ok map_of_SomeD[OF g] by (auto simp: manager_ok_def)
  then have "indexed m key g'" "proper_reads (g_reads g')" using same by (simp_all add: indexed_def)
  then have "\<forall>(k, h) \<in> set (mg_groups ?m). indexed m k h \<and> proper_reads (g_reads h) \<and> distinct (sg_listeners (g_body h))"
    using ok ls by (auto simp: manager_ok_def dest!: set_update_groups)
  moreover have "n = total (mg_groups ?m)"
    using total_update[OF d, of key g'] n g ok by (simp add: manager_ok_def)
  ultimately show ?thesis unfolding manager_ok_def i using distinct_update[OF d] by simp
qed

lemma replace_body_ok:
  assumes "manager_ok m" "map_of (mg_groups m) key = Some g"
    and "g_project g' = g_project g" "g_tenant g' = g_tenant g" "g_reads g' = g_reads g"
    and "sg_listeners (g_body g') = sg_listeners (g_body g)"
  shows "manager_ok (m\<lparr>mg_groups := AList.update key g' (mg_groups m)\<rparr>)"
proof -
  have "distinct (sg_listeners (g_body g'))"
    using assms(1,6) map_of_SomeD[OF assms(2)] by (auto simp: manager_ok_def)
  then show ?thesis using replace_ok[OF assms(1-5), of "mg_listeners m"] assms(6) by (simp add: weight_def)
qed

lemma request_batch_listeners:
  "request_batch reason at commit request changes g = (g', spawned) \<Longrightarrow> sg_listeners g' = sg_listeners g"
proof -
  obtain t k where n: "fold note_change changes g = g\<lparr>sg_pending_tables := t, sg_pending_tasks := k\<rparr>"
    using note_changes_frame by blast
  show "request_batch reason at commit request changes g = (g', spawned) \<Longrightarrow> sg_listeners g' = sg_listeners g"
    by (auto simp: request_batch_def n Let_def split: if_splits)
qed

lemma request_group_ok: "manager_ok m \<Longrightarrow> manager_ok (fst (request_group reason at commit request changes key m))"
  by (auto simp: request_group_def intro!: replace_body_ok dest: request_batch_listeners split: option.splits prod.splits)

lemma request_all_ok:
  assumes "manager_ok m"
  shows "manager_ok (fst (request_all reason at commit request changes ks m))"
proof -
  have "manager_ok (fst (fold (\<lambda>k (m, started). let (m', new) = request_group reason at commit request changes k m in (m', started @ new)) ks x))"
    if "manager_ok (fst x)" for x
    using that
  proof (induction ks arbitrary: x)
    case (Cons k ks)
    obtain n st where x: "x = (n, st)" by (cases x)
    obtain n' new where r: "request_group reason at commit request changes k n = (n', new)" by (meson surj_pair)
    have "manager_ok n'" using Cons.prems request_group_ok[of n reason at commit request changes k] r x by simp
    then show ?case using Cons.IH[of "(n', st @ new)"] r x by simp
  qed simp
  then show ?thesis using assms by (simp add: request_all_def)
qed

lemma set_add_new: "set (add_new x xs) = insert x (set xs)"
  by (auto simp: add_new_def)

lemma set_index_reads:
  "set (fold (\<lambda>r. add_new ((p, t, r_table r), key)) rs xs) = (\<lambda>r. ((p, t, r_table r), key)) ` set rs \<union> set xs"
  by (induction rs arbitrary: xs) (auto simp: set_add_new)

lemma index_group_grows:
  "indexed m k h \<Longrightarrow> indexed (index_group key g m) k h" "indexed (index_group key g m) key g"
  by (auto simp: indexed_def index_group_def set_add_new set_index_reads)

lemma index_group_frame: "mg_groups (index_group key g m) = mg_groups m" "mg_listeners (index_group key g m) = mg_listeners m"
  by (simp_all add: index_group_def)

lemma attach_group_listeners:
  "attach_group created token g = (g', action) \<Longrightarrow>
     length (sg_listeners g') = length (sg_listeners g) + (if token \<in> set (sg_listeners g) then 0 else 1) \<and>
     (distinct (sg_listeners g) \<longrightarrow> distinct (sg_listeners g'))"
  by (auto simp: attach_group_def Let_def)

lemma indexed_cong:
  "g_project g = g_project h \<Longrightarrow> g_tenant g = g_tenant h \<Longrightarrow> g_reads g = g_reads h \<Longrightarrow> indexed m k g = indexed m k h"
  by (simp add: indexed_def)

lemma listeners_distinct: "manager_ok m \<Longrightarrow> map_of (mg_groups m) key = Some g \<Longrightarrow> distinct (sg_listeners (g_body g))"
  by (auto simp: manager_ok_def dest!: map_of_SomeD)

lemma attach_ok:
  assumes ok: "manager_ok m" and proper: "proper_reads (snd (key_of sub))"
    and a: "attach fanout key_of sub m = Some (m', action)"
  shows "manager_ok m'"
proof -
  obtain base reads where k: "key_of sub = (base, reads)" by (cases "key_of sub")
  obtain key where f: "find_shard (length (mg_groups m) + 1) fanout base 1 base m = Some key"
    using a by (auto simp: attach_def k split: option.splits)
  show ?thesis
  proof (cases "map_of (mg_groups m) key")
    case (Some g)
    obtain body where b: "attach_group False (s_token sub) (g_body g) = (body, action)"
      and m': "m' = m\<lparr>mg_groups := AList.update key (g\<lparr>g_body := body, g_idle := False\<rparr>) (mg_groups m),
          mg_listeners := (if s_token sub \<notin> set (sg_listeners (g_body g)) then mg_listeners m + 1 else mg_listeners m)\<rparr>"
      using a f Some by (auto simp: attach_def k Let_def split: prod.splits)
    show ?thesis unfolding m'
      by (rule replace_ok[OF ok Some]) (use attach_group_listeners[OF b] listeners_distinct[OF ok Some] in \<open>auto simp: weight_def\<close>)
  next
    case None
    define g0 where "g0 = \<lparr>g_project = s_project sub, g_tenant = s_tenant sub, g_reads = reads, g_rows = [],
        g_body = new_group, g_idle = False\<rparr>"
    let ?m1 = "index_group key g0 m"
    obtain body where b: "attach_group True (s_token sub) new_group = (body, action)"
      and m': "m' = ?m1\<lparr>mg_groups := AList.update key (g0\<lparr>g_body := body, g_idle := False\<rparr>) (mg_groups m),
          mg_listeners := mg_listeners m + 1\<rparr>"
      using a f None by (auto simp: attach_def k Let_def index_group_frame new_group_def g0_def split: prod.splits)
    define h where "h = g0\<lparr>g_body := body, g_idle := False\<rparr>"
    have hm: "mg_groups m' = AList.update key h (mg_groups m)" "mg_listeners m' = mg_listeners m + 1"
      "indexed m' x y = indexed ?m1 x y" for x y
      unfolding m' h_def by (simp_all add: indexed_def)
    have d: "distinct (map fst (mg_groups m))" using ok by (simp add: manager_ok_def)
    have "indexed ?m1 key h" using index_group_grows(2)[of key g0 m] by (subst indexed_cong[of h g0]) (simp_all add: h_def)
    moreover have "proper_reads (g_reads h)" "distinct (sg_listeners (g_body h))" "weight h = 1"
      using proper k attach_group_listeners[OF b] by (simp_all add: h_def g0_def new_group_def weight_def)
    ultimately have "\<forall>(x, y) \<in> set (mg_groups m'). indexed ?m1 x y \<and> proper_reads (g_reads y) \<and> distinct (sg_listeners (g_body y))"
      using ok by (auto simp: hm(1) manager_ok_def index_group_grows(1) dest!: set_update_groups)
    moreover have "mg_listeners m' = total (mg_groups m')"
      using total_update[OF d, of key h] None ok \<open>weight h = 1\<close> by (simp add: hm manager_ok_def)
    moreover have "distinct (map fst (mg_groups m'))" using distinct_update[OF d] by (simp add: hm)
    ultimately show ?thesis unfolding manager_ok_def hm(3) by simp
  qed
qed

lemma length_filter_out:
  "distinct xs \<Longrightarrow> length (filter (\<lambda>x. x \<noteq> t) xs) + (if t \<in> set xs then 1 else 0) = length xs"
  by (induction xs) auto

lemma detach_ok:
  assumes ok: "manager_ok m"
  shows "manager_ok (detach key_of sub m)"
proof (cases "locate key_of sub m")
  case None
  then show ?thesis using ok by (simp add: detach_def)
next
  case (Some key)
  show ?thesis
  proof (cases "map_of (mg_groups m) key")
    case None
    then show ?thesis using ok Some by (simp add: detach_def)
  next
    case g: (Some g)
    let ?t = "s_token sub" and ?ls = "sg_listeners (g_body g)"
    let ?body = "detach_group ?t (g_body g)"
    have ds: "distinct ?ls" by (rule listeners_distinct[OF ok g])
    have "?ls \<noteq> [] \<Longrightarrow> 0 < mg_listeners m"
      using total_delete[OF _ g] ok by (cases ?ls) (auto simp: manager_ok_def weight_def)
    then have n: "(if ?t \<in> set ?ls then mg_listeners m - 1 else mg_listeners m) + length ?ls =
        mg_listeners m + length (sg_listeners ?body)"
      using length_filter_out[OF ds, of ?t] by (cases "?t \<in> set ?ls"; cases ?ls) (auto simp: detach_group_def split: if_splits)
    have "detach key_of sub m = m\<lparr>mg_groups := AList.update key (g\<lparr>g_body := ?body,
          g_idle := (g_idle g \<or> sg_listeners ?body = [])\<rparr>) (mg_groups m),
        mg_listeners := (if ?t \<in> set ?ls then mg_listeners m - 1 else mg_listeners m)\<rparr>"
      using Some g by (simp add: detach_def Let_def)
    then show ?thesis
      by (simp only:) (rule replace_ok[OF ok g], use n ds in \<open>simp_all add: weight_def detach_group_def\<close>)
  qed
qed

lemma indexed_unindex: "k \<noteq> key \<Longrightarrow> indexed m k g \<Longrightarrow> indexed (unindex_group key m) k g"
  by (auto simp: indexed_def unindex_group_def)

lemma expire_ok:
  assumes ok: "manager_ok m"
  shows "manager_ok (expire key m)"
proof (cases "map_of (mg_groups m) key")
  case None
  then show ?thesis using ok by (simp add: expire_def)
next
  case g: (Some g)
  show ?thesis
  proof (cases "sg_listeners (g_body g) = []")
    case False
    then show ?thesis using g by (simp add: expire_def) (rule replace_body_ok[OF ok g]; simp)
  next
    case True
    let ?m = "expire key m"
    have e: "mg_groups ?m = AList.delete key (mg_groups m)" "mg_listeners ?m = mg_listeners m"
      "indexed ?m k h = indexed (unindex_group key m) k h" for k h
      using g True by (simp_all add: expire_def unindex_group_def indexed_def)
    have d: "distinct (map fst (mg_groups m))" using ok by (simp add: manager_ok_def)
    have "\<forall>(k, h) \<in> set (mg_groups ?m). indexed (unindex_group key m) k h \<and> proper_reads (g_reads h) \<and> distinct (sg_listeners (g_body h))"
      using ok by (auto simp: e manager_ok_def AList.delete_eq intro: indexed_unindex)
    moreover have "mg_listeners ?m = total (mg_groups ?m)"
      using total_delete[OF d g] ok True by (simp add: e manager_ok_def weight_def)
    moreover have "distinct (map fst (mg_groups ?m))" using d by (simp add: e AList.delete_eq distinct_map_filter')
    ultimately show ?thesis unfolding manager_ok_def e(3) by simp
  qed
qed

lemma manager_step_ok:
  assumes "manager_step fanout key_of m m'" "manager_ok m" "\<And>sub. proper_reads (snd (key_of sub))"
  shows "manager_ok m'"
  using assms
proof (induction rule: manager_step.induct)
  case (attach sub m m' action)
  then show ?case using attach_ok by blast
next
  case (run m key g body rows)
  then show ?case by (auto intro!: replace_body_ok)
qed (auto simp: request_change_def refresh_tenant_def intro: detach_ok expire_ok request_all_ok)

lemma new_manager_ok: "manager_ok new_manager"
  by (simp add: manager_ok_def new_manager_def total_def)

text \<open>The keys of a deployment whose read tables are proper names.\<close>

definition proper_keys :: "(subscriber \<Rightarrow> string \<times> group_reads) \<Rightarrow> bool" where
  "proper_keys key_of \<longleftrightarrow> (\<forall>sub. proper_reads (snd (key_of sub)))"

interpretation registry: step_invariant "\<lambda>m. m = new_manager"
    "\<lambda>m m'. manager_step fanout key_of m m' \<and> proper_keys key_of" manager_ok for fanout key_of
  by unfold_locales (auto simp: proper_keys_def intro: new_manager_ok manager_step_ok)

lemma manager_reachable_ok:
  assumes "(manager_step fanout key_of)\<^sup>*\<^sup>* new_manager m" "proper_keys key_of"
  shows "manager_ok m"
  using registry.inv_reachable[of new_manager fanout key_of m] assms by simp

section \<open>Every matching group is found\<close>

lemma fold_unique_set:
  "set (fold (\<lambda>v acc. let w = trim_space v in if w = '''' \<or> w \<in> set acc then acc else acc @ [w]) vals acc) =
     set acc \<union> {w. w \<noteq> '''' \<and> (\<exists>v \<in> set vals. w = trim_space v)}"
  by (induction vals arbitrary: acc) (auto simp: Let_def)

lemma candidate_table:
  assumes "change_contains_table c t" "trim_space t = t" "t \<noteq> ''''"
  shows "t \<in> set (candidate_tables c)"
proof -
  have "t \<in> set (table_change_tables c)"
    using assms(1) by (auto simp: change_contains_table_def table_change_tables_def split: if_splits)
  then show ?thesis using assms(2,3)
    by (auto simp: candidate_tables_def append_unique_strings_def fold_unique_set intro!: bexI[of _ t])
qed

lemma read_matches_table: "read_matches g rows c r \<Longrightarrow> change_contains_table c (r_table r)"
  unfolding read_matches_def Let_def by (rule ccontr) simp

lemma matching_selected:
  assumes ok: "manager_ok m"
    and "(k, g) \<in> set (mg_groups m)" and "g_project g = project" and "g_tenant g = tenant"
    and "fst (match_result (g_reads g) (g_rows g) c)"
  shows "k \<in> set (selected project tenant c m)"
proof -
  from ok have look: "map_of (mg_groups m) k = Some g" using assms(2) by (simp add: manager_ok_def)
  have idx: "indexed m k g" and proper: "proper_reads (g_reads g)" using ok assms(2) by (auto simp: manager_ok_def)
  consider (unknown) "gr_unknown (g_reads g)"
    | (broad) "c_broad c \<and> effective_table_count c = 0"
    | (table) r where "\<not> gr_unknown (g_reads g)" "r \<in> set (gr_reads (g_reads g))" "change_contains_table c (r_table r)"
    using assms(5) by (auto simp: match_result_def list_ex_iff dest: read_matches_table split: if_splits)
  then have "k \<in> set (change_candidates project tenant c m)"
  proof cases
    case unknown
    then have "((project, tenant), k) \<in> set (mg_broad m)" using idx assms(3,4) by (simp add: indexed_def)
    then have "k \<in> set (map snd (filter (\<lambda>(scope, _). scope = (project, tenant)) (mg_broad m)))"
      by (simp add: image_iff)
    then show ?thesis unfolding change_candidates_def set_remdups set_append by blast
  next
    case broad
    have "k \<in> set (map fst (filter (\<lambda>(_, g). g_project g = project \<and> g_tenant g = tenant) (mg_groups m)))"
      using assms(2-4) by (force simp: image_iff)
    then show ?thesis unfolding change_candidates_def set_remdups set_append if_P[OF broad] by blast
  next
    case (table r)
    then have "((project, tenant, r_table r), k) \<in> set (mg_by_table m)" using idx assms(3,4) by (simp add: indexed_def)
    moreover have "r_table r \<in> set (candidate_tables c)"
      using table proper by (intro candidate_table) (auto simp: proper_reads_def list_all_iff)
    ultimately have "k \<in> set (concat (map (\<lambda>t. map snd (filter (\<lambda>(k, _). k = (project, tenant, t)) (mg_by_table m))) (candidate_tables c)))"
      by (auto intro!: bexI[of _ "r_table r"] rev_image_eqI)
    then show ?thesis unfolding change_candidates_def set_remdups set_append by blast
  qed
  then show ?thesis using look assms(5) by (simp add: selected_def)
qed

lemma request_group_other: "k \<noteq> key \<Longrightarrow>
    map_of (mg_groups (fst (request_group reason at commit request changes key m))) k = map_of (mg_groups m) k"
  by (auto simp: request_group_def update_conv' split: option.splits prod.splits)

definition request_fold ::
  "string \<Rightarrow> int \<Rightarrow> string \<Rightarrow> string \<Rightarrow> table_change list \<Rightarrow> string list \<Rightarrow> manager \<times> string list \<Rightarrow> manager \<times> string list" where
  "request_fold reason at commit request changes ks x =
    fold (\<lambda>k (m, started). let (m', new) = request_group reason at commit request changes k m in (m', started @ new)) ks x"

lemma request_fold_Cons:
  "request_fold reason at commit request changes (k # ks) (m, st) =
     request_fold reason at commit request changes ks
       (fst (request_group reason at commit request changes k m), st @ snd (request_group reason at commit request changes k m))"
  by (simp add: request_fold_def split: prod.splits)

lemma request_fold_frame:
  "k \<notin> set ks \<Longrightarrow> map_of (mg_groups (fst (request_fold reason at commit request changes ks x))) k = map_of (mg_groups (fst x)) k \<and>
     set (snd x) \<subseteq> set (snd (request_fold reason at commit request changes ks x))"
proof (induction ks arbitrary: x)
  case (Cons j ks)
  show ?case using Cons.IH[of "(fst (request_group reason at commit request changes j (fst x)), snd x @ snd (request_group reason at commit request changes j (fst x)))"]
      Cons.prems request_group_other[of k j reason at commit request changes "fst x"]
    by (cases x) (auto simp: request_fold_Cons)
qed (simp add: request_fold_def)

lemma request_fold_at:
  assumes "distinct ks" "k \<in> set ks" "map_of (mg_groups (fst x)) k = Some g"
    and "request_batch reason at commit request changes (g_body g) = (body, spawned)"
  shows "map_of (mg_groups (fst (request_fold reason at commit request changes ks x))) k = Some (g\<lparr>g_body := body\<rparr>) \<and>
     (spawned \<longrightarrow> k \<in> set (snd (request_fold reason at commit request changes ks x)))"
  using assms
proof (induction ks arbitrary: x)
  case (Cons j ks)
  obtain m st where x: "x = (m, st)" by (cases x)
  let ?r = "request_group reason at commit request changes j m"
  show ?case
  proof (cases "j = k")
    case True
    have r: "?r = (m\<lparr>mg_groups := AList.update k (g\<lparr>g_body := body\<rparr>) (mg_groups m)\<rparr>, if spawned then [k] else [])"
      using Cons.prems True x by (simp add: request_group_def)
    have "k \<notin> set ks" using Cons.prems True by simp
    from request_fold_frame[OF this, of reason at commit request changes "(fst ?r, st @ snd ?r)"]
    show ?thesis by (auto simp: x request_fold_Cons True r[unfolded True] update_conv')
  next
    case False
    then show ?thesis
      using Cons.IH[of "(fst ?r, st @ snd ?r)"] Cons.prems request_group_other[of k j reason at commit request changes m]
      by (simp add: x request_fold_Cons)
  qed
qed simp

lemma request_all_fold: "request_all reason at commit request changes ks m = request_fold reason at commit request changes ks (m, [])"
  by (simp add: request_all_def request_fold_def)

lemma selected_distinct: "distinct (selected project tenant c m)"
  by (simp add: selected_def change_candidates_def)

text \<open>
  C18: the indexes are complete. In every reachable registry, whatever listeners came and
  went, a committed change selects every live group of its tenant whose reads it matches:
  no group waits for a notification that never comes.
\<close>

theorem every_matching_group_selected:
  assumes "(manager_step fanout key_of)\<^sup>*\<^sup>* new_manager m" and "proper_keys key_of"
    and "(k, g) \<in> set (mg_groups m)" and "g_project g = project" and "g_tenant g = tenant"
    and "fst (match_result (g_reads g) (g_rows g) c)"
  shows "k \<in> set (selected project tenant c m)"
  by (rule matching_selected[OF manager_reachable_ok[OF assms(1,2)] assms(3-6)])

text \<open>
  the listener count that the metrics report is the number of listeners of the live
  groups, and no listener is counted twice.
\<close>

theorem listener_count_exact:
  assumes "(manager_step fanout key_of)\<^sup>*\<^sup>* new_manager m" and "proper_keys key_of"
  shows "mg_listeners m = total (mg_groups m) \<and> distinct (map fst (mg_groups m))"
  using manager_reachable_ok[OF assms] by (simp add: manager_ok_def)

definition tasks_key :: "subscriber \<Rightarrow> string \<times> group_reads" where
  "tasks_key sub = (''k'', tasks_group)"

definition subscriber_of :: "nat \<Rightarrow> subscriber" where
  "subscriber_of t = \<lparr>s_token = t, s_project = ''p'', s_tenant = ''t'', s_path = ''tasks.list''\<rparr>"

definition one_listener :: manager where
  "one_listener = fst (the (attach 0 tasks_key (subscriber_of 1) new_manager))"

lemma one_listener_reachable: "(manager_step 0 tasks_key)\<^sup>*\<^sup>* new_manager one_listener"
proof -
  have "attach 0 tasks_key (subscriber_of 1) new_manager = Some (one_listener, Request_Initial)" by code_simp
  then show ?thesis by (blast intro: manager_step.attach)
qed

lemma tasks_key_proper: "proper_keys tasks_key"
proof -
  have "proper_reads tasks_group" by code_simp
  then show ?thesis by (simp add: tasks_key_def proper_keys_def)
qed

lemma every_matching_group_selected_witness:
  "''k'' \<in> set (selected ''p'' ''t'' title_change one_listener)"
proof -
  have g: "mg_groups one_listener = [(''k'', snd (hd (mg_groups one_listener)))]" by code_simp
  have f: "g_project (snd (hd (mg_groups one_listener))) = ''p''" "g_tenant (snd (hd (mg_groups one_listener))) = ''t''"
    "fst (match_result (g_reads (snd (hd (mg_groups one_listener)))) (g_rows (snd (hd (mg_groups one_listener)))) title_change)"
    by code_simp+
  have "(''k'', snd (hd (mg_groups one_listener))) \<in> set (mg_groups one_listener)" by (subst g) simp
  then show ?thesis
    by (rule every_matching_group_selected[OF one_listener_reachable tasks_key_proper _ f])
qed

lemma listener_count_exact_witness: "mg_listeners one_listener = total (mg_groups one_listener)"
  using listener_count_exact[OF one_listener_reachable tasks_key_proper] by blast

section \<open>Overflow shards\<close>

text \<open>
  When a group is full its key gets a second shard; \<open>detach\<close> looks for the listener in the
  first shard only. The listener stays, and its shard never becomes idle.
\<close>

definition overflow_detached :: manager where
  "overflow_detached =
    (let m1 = fst (the (attach 1 tasks_key (subscriber_of 1) new_manager));
         m2 = fst (the (attach 1 tasks_key (subscriber_of 2) m1))
     in detach tasks_key (subscriber_of 2) m2)"

lemma overflow_listener_not_detached:
  "map (\<lambda>(k, g). (k, sg_listeners (g_body g), g_idle g)) (mg_groups overflow_detached) =
     [(''k'', [1], False), (''k:1'', [2], False)] \<and> mg_listeners overflow_detached = 2"
  by code_simp

section \<open>The search for a shard ends\<close>

lemma find_shard_visits:
  "find_shard fuel fanout base n key m = None \<Longrightarrow>
    set (take fuel (key # map (shard_key base) [n..<n + fuel])) \<subseteq> fst ` set (mg_groups m)"
proof (induction fuel fanout base n key m rule: find_shard.induct)
  case (2 fuel fanout base n key m)
  then obtain g where g: "map_of (mg_groups m) key = Some g"
      "find_shard fuel fanout base (n + 1) (shard_key base n) m = None" "fanout \<noteq> 0" "group_full fanout g"
    by (auto split: option.splits if_splits)
  have "key \<in> fst ` set (mg_groups m)" using map_of_SomeD[OF g(1)] by (auto intro: rev_image_eqI)
  moreover have "set (take fuel (shard_key base n # map (shard_key base) [n + 1..<n + 1 + fuel])) \<subseteq> fst ` set (mg_groups m)"
    using "2.IH"[OF g(1)] g by simp
  moreover have "[n..<n + Suc fuel] = n # [n + 1..<n + 1 + fuel]" by (simp add: upt_conv_Cons)
  ultimately show ?case by simp
qed simp

lemma shard_key_inj: "shard_key base a = shard_key base b \<longleftrightarrow> a = b"
  by (auto simp: shard_key_def dest: nat_dec_inj)

text \<open>
  C32: attaching always ends: the loop over the shards of a full group reaches a group with
  room, or a key without group, within one step more than there are groups.
\<close>

theorem attach_total: "attach fanout key_of sub m \<noteq> None"
proof -
  obtain base reads where k: "key_of sub = (base, reads)" by (cases "key_of sub")
  let ?n = "length (mg_groups m)"
  let ?ks = "take (?n + 1) (base # map (shard_key base) [1..<1 + (?n + 1)])"
  have d: "distinct (base # map (shard_key base) [1..<1 + (?n + 1)])"
    by (auto simp: distinct_map inj_on_def shard_key_inj) (auto simp: shard_key_def)
  have "length ?ks = ?n + 1" by simp
  moreover have "distinct ?ks" using d by (rule distinct_take)
  ultimately have "card (set ?ks) = ?n + 1" by (simp only: distinct_card)
  moreover have "card (fst ` set (mg_groups m)) \<le> ?n"
    by (metis card_length length_map list.set_map)
  ultimately have "\<not> set ?ks \<subseteq> fst ` set (mg_groups m)"
    using card_mono[of "fst ` set (mg_groups m)" "set ?ks"] by (intro notI) simp
  then have "find_shard (?n + 1) fanout base 1 base m \<noteq> None" using find_shard_visits by metis
  then show ?thesis by (auto simp: attach_def k Let_def split: option.splits prod.splits)
qed

end
