(* ===== verification/Tenant_Listeners.thy ===== *)
theory Tenant_Listeners
  imports Change_Match "HOL-Library.AList" "HOL-Library.Multiset"
begin

text \<open>
  The shared LISTEN connection of a tenant (\<open>tenant_listeners.go\<close>): reference counting by
  the live groups and synchronised collections, the idle expiry, the replacement of a
  listener whose route changed, the readiness barrier and the health that lets a commit be
  trusted to notifications. Pointers and channels are numbers: \<open>ln_id\<close> is the listener
  itself, \<open>ln_ready\<close> its \<open>ready\<close> channel, \<open>ls_closed\<close> the channels closed so far and
  \<open>ls_cancelled\<close> the listeners whose context was cancelled. \<open>ln_idle\<close> says that the idle
  timer is set; a timer that was stopped too late still calls \<open>expire\<close>.
\<close>

section \<open>State\<close>

type_synonym listener_key = "string \<times> string"

record listener =
  ln_id :: nat
  ln_url :: string
  ln_refs :: nat
  ln_idle :: bool
  ln_ready :: nat
  ln_connected :: bool
  ln_recover :: bool

record listeners =
  ls_active :: "(listener_key \<times> listener) list"
  ls_next :: nat
  ls_closed :: "nat list"
  ls_cancelled :: "nat list"

definition new_listeners :: listeners where
  "new_listeners = \<lparr>ls_active = [], ls_next = 0, ls_closed = [], ls_cancelled = []\<rparr>"

definition set_listener :: "listener_key \<Rightarrow> listener \<Rightarrow> listeners \<Rightarrow> listeners" where
  "set_listener key l s = s\<lparr>ls_active := AList.update key l (ls_active s)\<rparr>"

section \<open>Operations\<close>

text \<open>
  The listener for a database address; \<open>None\<close> when there is no address, listeners are
  switched off or the limit is reached. The third component: whether the collections of the
  tenant were marked out of date.
\<close>

definition acquire :: "int \<Rightarrow> string \<Rightarrow> listener_key \<Rightarrow> listeners \<Rightarrow> listeners \<times> nat option \<times> bool" where
  "acquire limit raw key s =
    (let url = trim_space raw; n = ls_next s in
     if url = '''' \<or> limit = 0 then (s, None, False)
     else case map_of (ls_active s) key of
       Some l \<Rightarrow>
         if ln_url l \<noteq> url then
           let r = \<lparr>ln_id = n, ln_url = url, ln_refs = ln_refs l + 1, ln_idle = False, ln_ready = n,
                    ln_connected = False, ln_recover = True\<rparr>
           in (set_listener key r (s\<lparr>ls_next := n + 1, ls_cancelled := ln_id l # ls_cancelled s\<rparr>), Some n, True)
         else (set_listener key (l\<lparr>ln_refs := ln_refs l + 1, ln_idle := False\<rparr>) s, Some (ln_ready l), False)
     | None \<Rightarrow>
         if int (length (ls_active s)) \<ge> limit then (s, None, False)
         else (set_listener key \<lparr>ln_id = n, ln_url = url, ln_refs = 1, ln_idle = False, ln_ready = n,
                 ln_connected = False, ln_recover = False\<rparr> (s\<lparr>ls_next := n + 1\<rparr>), Some n, False))"

definition mark_needs_recovery :: "listener_key \<Rightarrow> listeners \<Rightarrow> listeners" where
  "mark_needs_recovery key s = (case map_of (ls_active s) key of
     None \<Rightarrow> s
   | Some l \<Rightarrow> set_listener key (l\<lparr>ln_recover := True\<rparr>) s)"

text \<open>Called by the goroutine of listener \<open>i\<close>; the result says whether a recovery is due.\<close>

definition mark_ready :: "listener_key \<Rightarrow> nat \<Rightarrow> listeners \<Rightarrow> listeners \<times> bool" where
  "mark_ready key i s = (case map_of (ls_active s) key of
     None \<Rightarrow> (s, False)
   | Some l \<Rightarrow>
       if ln_id l \<noteq> i then (s, False)
       else (set_listener key (l\<lparr>ln_recover := False, ln_connected := True\<rparr>)
               (if ln_connected l then s else s\<lparr>ls_closed := ln_ready l # ls_closed s\<rparr>), ln_recover l))"

text \<open>The result: whether the collections of the tenant were marked out of date.\<close>

definition mark_disconnected :: "listener_key \<Rightarrow> nat \<Rightarrow> listeners \<Rightarrow> listeners \<times> bool" where
  "mark_disconnected key i s = (case map_of (ls_active s) key of
     None \<Rightarrow> (s, False)
   | Some l \<Rightarrow>
       if ln_id l \<noteq> i \<or> \<not> ln_connected l then (s, False)
       else (set_listener key (l\<lparr>ln_connected := False, ln_recover := True, ln_ready := ls_next s\<rparr>)
               (s\<lparr>ls_next := ls_next s + 1\<rparr>), True))"

text \<open>The barrier to wait for, if any, and whether the action was run.\<close>

definition while_connected :: "listener_key \<Rightarrow> listeners \<Rightarrow> nat option \<times> bool" where
  "while_connected key s = (case map_of (ls_active s) key of
     None \<Rightarrow> (None, False)
   | Some l \<Rightarrow> (Some (ln_ready l), ln_connected l))"

definition release :: "listener_key \<Rightarrow> listeners \<Rightarrow> listeners" where
  "release key s = (case map_of (ls_active s) key of
     None \<Rightarrow> s
   | Some l \<Rightarrow>
       let refs = (if 0 < ln_refs l then ln_refs l - 1 else ln_refs l)
       in set_listener key (l\<lparr>ln_refs := refs, ln_idle := (ln_idle l \<or> refs = 0)\<rparr>) s)"

text \<open>The idle timer of listener \<open>i\<close> fires.\<close>

definition expire_listener :: "listener_key \<Rightarrow> nat \<Rightarrow> listeners \<Rightarrow> listeners" where
  "expire_listener key i s = (case map_of (ls_active s) key of
     None \<Rightarrow> s
   | Some l \<Rightarrow>
       if ln_id l \<noteq> i \<or> ln_refs l \<noteq> 0 then s
       else s\<lparr>ls_active := AList.delete key (ls_active s), ls_cancelled := i # ls_cancelled s\<rparr>)"

definition healthy :: "listener_key \<Rightarrow> listeners \<Rightarrow> bool" where
  "healthy key s = (case map_of (ls_active s) key of
     None \<Rightarrow> False
   | Some l \<Rightarrow> ln_connected l \<and> \<not> ln_recover l)"

text \<open>
  The goroutine of a listener connected: the result says whether it refreshes the groups of
  the tenant and replays its change log.
\<close>

definition run_connected :: "bool \<Rightarrow> listener_key \<Rightarrow> nat \<Rightarrow> listeners \<Rightarrow> listeners \<times> bool" where
  "run_connected connected_before key i s =
    (let (s', due) = mark_ready key i s in (s', connected_before \<or> due))"

text \<open>The wait before the next attempt, in milliseconds.\<close>

definition first_backoff :: nat where "first_backoff = 250"

definition next_backoff :: "nat \<Rightarrow> nat" where
  "next_backoff b = (if b < 10000 then (if 2 * b > 10000 then 10000 else 2 * b) else b)"

section \<open>Notifications\<close>

record notice =
  no_table :: string
  no_operation :: string
  no_mutation :: string
  no_broad :: bool
  no_ids :: "string list"
  no_tasks :: "string list"
  no_users :: "string list"
  no_workspaces :: "string list"
  no_columns :: "string list"

text \<open>
  The table notification \<open>wait\<close> schedules; \<open>decode\<close> is the JSON decoder, \<open>None\<close> in the result
  a notification that only marks the listener as in need of recovery.
\<close>

definition notice_of :: "(string \<Rightarrow> notice option) \<Rightarrow> string \<Rightarrow> notice option" where
  "notice_of decode raw =
    (if raw \<noteq> '''' \<and> hd raw \<noteq> CHR ''{'' then
       Some \<lparr>no_table = raw, no_operation = '''', no_mutation = '''', no_broad = True, no_ids = [], no_tasks = [],
             no_users = [], no_workspaces = [], no_columns = []\<rparr>
     else (case decode raw of
       None \<Rightarrow> None
     | Some n \<Rightarrow> if no_table n = '''' then None else Some n))"

definition normalized_columns :: "string list \<Rightarrow> string list" where
  "normalized_columns vs = filter (\<lambda>v. v \<noteq> '''') (map trim_space vs)"

definition observed_change :: "int \<Rightarrow> notice \<Rightarrow> table_change" where
  "observed_change now n = \<lparr>c_table = no_table n, c_tables = [], c_broad = no_broad n, c_rows = remdups (no_ids n),
     c_tasks = remdups (no_tasks n), c_users = remdups (no_users n), c_workspaces = remdups (no_workspaces n),
     c_operation = no_operation n, c_columns = normalized_columns (no_columns n), c_changed_at = now,
     c_details = [], c_declared = [], c_commit = trim_space (no_mutation n)\<rparr>"

section \<open>Steps\<close>

text \<open>
  The users of the listeners: a call that acquired holds one reference until it releases it.
  The second component of the state collects the keys of the references held.
\<close>

inductive listener_step :: "int \<Rightarrow> listeners \<times> listener_key list \<Rightarrow> listeners \<times> listener_key list \<Rightarrow> bool" for limit where
  acquired: "acquire limit url key s = (s', Some ready, out) \<Longrightarrow> listener_step limit (s, hs) (s', key # hs)"
| refused: "acquire limit url key s = (s', None, out) \<Longrightarrow> listener_step limit (s, hs) (s', hs)"
| release: "key \<in> set hs \<Longrightarrow> listener_step limit (s, hs) (release key s, remove1 key hs)"
| expire: "listener_step limit (s, hs) (expire_listener key i s, hs)"
| ready: "listener_step limit (s, hs) (fst (mark_ready key i s), hs)"
| disconnected: "listener_step limit (s, hs) (fst (mark_disconnected key i s), hs)"
| recovery: "listener_step limit (s, hs) (mark_needs_recovery key s, hs)"

definition listener_ok :: "listeners \<Rightarrow> nat \<Rightarrow> listener \<Rightarrow> bool" where
  "listener_ok s n l \<longleftrightarrow> ln_refs l = n \<and> (ln_idle l \<longleftrightarrow> n = 0) \<and> ln_ready l < ls_next s \<and> ln_id l < ls_next s \<and>
     (ln_connected l \<longleftrightarrow> ln_ready l \<in> set (ls_closed s)) \<and> ln_id l \<notin> set (ls_cancelled s)"

definition listeners_ok :: "int \<Rightarrow> listeners \<times> listener_key list \<Rightarrow> bool" where
  "listeners_ok limit x \<longleftrightarrow> (let (s, hs) = x in
     distinct (map fst (ls_active s)) \<and>
     (\<forall>k l k' l'. map_of (ls_active s) k = Some l \<longrightarrow> map_of (ls_active s) k' = Some l' \<longrightarrow>
        ln_id l = ln_id l' \<or> ln_ready l = ln_ready l' \<longrightarrow> k = k') \<and>
     (\<forall>k l. map_of (ls_active s) k = Some l \<longrightarrow> listener_ok s (count_list hs k) l) \<and>
     (\<forall>k. map_of (ls_active s) k = None \<longrightarrow> count_list hs k = 0) \<and>
     (\<forall>c \<in> set (ls_closed s) \<union> set (ls_cancelled s). c < ls_next s) \<and>
     (0 \<le> limit \<longrightarrow> int (length (ls_active s)) \<le> limit))"

lemma length_update: "length (AList.update k v xs) = (if map_of xs k = None then length xs + 1 else length xs)"
  by (induction xs) auto

lemma length_delete: "length (AList.delete k xs) \<le> length xs"
  by (induction xs) auto

lemma count_remove1: "count_list (remove1 k hs) j = (if j = k then count_list hs j - 1 else count_list hs j)"
  by (induction hs) (auto simp: count_list_0_iff)

lemma listeners_okI:
  assumes "distinct (map fst (ls_active s))"
    and "\<And>k l k' l'. map_of (ls_active s) k = Some l \<Longrightarrow> map_of (ls_active s) k' = Some l' \<Longrightarrow>
       ln_id l = ln_id l' \<or> ln_ready l = ln_ready l' \<Longrightarrow> k = k'"
    and "\<And>k l. map_of (ls_active s) k = Some l \<Longrightarrow> listener_ok s (count_list hs k) l"
    and "\<And>k. map_of (ls_active s) k = None \<Longrightarrow> count_list hs k = 0"
    and "\<And>c. c \<in> set (ls_closed s) \<or> c \<in> set (ls_cancelled s) \<Longrightarrow> c < ls_next s"
    and "0 \<le> limit \<Longrightarrow> int (length (ls_active s)) \<le> limit"
  shows "listeners_ok limit (s, hs)"
  unfolding listeners_ok_def Let_def prod.case
  by (intro conjI allI impI ballI) (use assms in \<open>auto intro: assms(2)\<close>)

lemma listeners_okD:
  assumes "listeners_ok limit (s, hs)"
  shows "distinct (map fst (ls_active s))"
    and "\<And>k l k' l'. map_of (ls_active s) k = Some l \<Longrightarrow> map_of (ls_active s) k' = Some l' \<Longrightarrow>
       ln_id l = ln_id l' \<or> ln_ready l = ln_ready l' \<Longrightarrow> k = k'"
    and "\<And>k l. map_of (ls_active s) k = Some l \<Longrightarrow> listener_ok s (count_list hs k) l"
    and "\<And>k. map_of (ls_active s) k = None \<Longrightarrow> count_list hs k = 0"
    and "\<And>c. c \<in> set (ls_closed s) \<or> c \<in> set (ls_cancelled s) \<Longrightarrow> c < ls_next s"
    and "0 \<le> limit \<Longrightarrow> int (length (ls_active s)) \<le> limit"
proof -
  note ok = assms[unfolded listeners_ok_def Let_def prod.case]
  show "distinct (map fst (ls_active s))" using ok by (elim conjE)
  show "k = k'" if "map_of (ls_active s) k = Some l" "map_of (ls_active s) k' = Some l'"
      "ln_id l = ln_id l' \<or> ln_ready l = ln_ready l'" for k l k' l'
    using ok that by (elim conjE) blast
  show "listener_ok s (count_list hs k) l" if "map_of (ls_active s) k = Some l" for k l
    using ok that by (elim conjE) blast
  show "count_list hs k = 0" if "map_of (ls_active s) k = None" for k
    using ok that by (elim conjE) blast
  show "c < ls_next s" if "c \<in> set (ls_closed s) \<or> c \<in> set (ls_cancelled s)" for c
    using ok that by (elim conjE) blast
  show "int (length (ls_active s)) \<le> limit" if "0 \<le> limit"
    using ok that by (elim conjE) blast
qed

text \<open>
  The update of one listener: it keeps its name and channel or takes fresh ones, other
  channels stay as they are, and no other listener is cancelled.
\<close>

lemma update_listener_ok:
  assumes ok: "listeners_ok limit (s, hs)"
    and act: "ls_active s' = AList.update key l (ls_active s)" and nx: "ls_next s \<le> ls_next s'"
    and cl: "\<And>c. c < ls_next s \<Longrightarrow> c \<noteq> closing \<Longrightarrow> c \<in> set (ls_closed s') \<longleftrightarrow> c \<in> set (ls_closed s)"
    and ca: "\<And>c. c < ls_next s \<Longrightarrow> c \<noteq> cancelling \<Longrightarrow> c \<in> set (ls_cancelled s') \<longleftrightarrow> c \<in> set (ls_cancelled s)"
    and bound: "\<And>c. c \<in> set (ls_closed s') \<or> c \<in> set (ls_cancelled s') \<Longrightarrow> c < ls_next s'"
    and old: "\<And>k m. k \<noteq> key \<Longrightarrow> map_of (ls_active s) k = Some m \<Longrightarrow> ln_id m \<noteq> cancelling \<and> ln_ready m \<noteq> closing"
    and fresh: "\<And>k m. k \<noteq> key \<Longrightarrow> map_of (ls_active s) k = Some m \<Longrightarrow> ln_id l \<noteq> ln_id m \<and> ln_ready l \<noteq> ln_ready m"
    and l: "listener_ok s' (count_list hs' key) l"
    and hs: "\<And>k. k \<noteq> key \<Longrightarrow> count_list hs' k = count_list hs k"
    and len: "0 \<le> limit \<Longrightarrow> int (length (AList.update key l (ls_active s))) \<le> limit"
  shows "listeners_ok limit (s', hs')"
proof (rule listeners_okI)
  note okD = listeners_okD[OF ok]
  have mp: "map_of (ls_active s') k = (if k = key then Some l else map_of (ls_active s) k)" for k
    by (simp add: act update_conv')
  show "distinct (map fst (ls_active s'))" using distinct_update[OF okD(1)] by (simp add: act)
  show "k = k'" if "map_of (ls_active s') k = Some m" "map_of (ls_active s') k' = Some m'"
      "ln_id m = ln_id m' \<or> ln_ready m = ln_ready m'" for k m k' m'
    using that okD(2)[of k m k' m'] fresh[of k m] fresh[of k' m'] unfolding mp by (auto split: if_splits)
  show "listener_ok s' (count_list hs' k) m" if "map_of (ls_active s') k = Some m" for k m
  proof (cases "k = key")
    case True
    then show ?thesis using that l mp by simp
  next
    case False
    then have m: "map_of (ls_active s) k = Some m" using that mp by simp
    have o: "listener_ok s (count_list hs k) m" by (rule okD(3)[OF m])
    have "ln_ready m \<in> set (ls_closed s') \<longleftrightarrow> ln_ready m \<in> set (ls_closed s)"
      "ln_id m \<in> set (ls_cancelled s') \<longleftrightarrow> ln_id m \<in> set (ls_cancelled s)"
      using cl[of "ln_ready m"] ca[of "ln_id m"] o old[OF False m] by (simp_all add: listener_ok_def)
    then show ?thesis using o hs[OF False] nx by (simp add: listener_ok_def)
  qed
  show "count_list hs' k = 0" if "map_of (ls_active s') k = None" for k
    using that okD(4)[of k] hs[of k] unfolding mp by (auto split: if_splits)
  show "c < ls_next s'" if "c \<in> set (ls_closed s') \<or> c \<in> set (ls_cancelled s')" for c by (rule bound[OF that])
  show "int (length (ls_active s')) \<le> limit" if "0 \<le> limit" using len[OF that] by (simp add: act)
qed

section \<open>Every operation keeps the invariant\<close>

lemma new_listeners_ok: "listeners_ok limit (new_listeners, [])"
  by (simp add: listeners_ok_def new_listeners_def)

text \<open>An update that leaves the channels and cancellations alone.\<close>

lemma same_barriers_ok:
  assumes ok: "listeners_ok limit (s, hs)" and m: "map_of (ls_active s) key = Some m"
    and l: "ln_id l = ln_id m" "ln_ready l = ln_ready m" "ln_connected l = ln_connected m"
    and refs: "ln_refs l = count_list hs' key" "ln_idle l \<longleftrightarrow> count_list hs' key = 0"
    and hs: "\<And>k. k \<noteq> key \<Longrightarrow> count_list hs' k = count_list hs k"
  shows "listeners_ok limit (set_listener key l s, hs')"
proof (rule update_listener_ok[OF ok, where key = key and l = l and closing = "ls_next s" and cancelling = "ls_next s"])
  note okD = listeners_okD[OF ok]
  show "ln_id l \<noteq> ln_id n \<and> ln_ready l \<noteq> ln_ready n" if "k \<noteq> key" "map_of (ls_active s) k = Some n" for k n
    using okD(2)[OF m that(2)] that l by auto
  show "ln_id n \<noteq> ls_next s \<and> ln_ready n \<noteq> ls_next s" if "map_of (ls_active s) k = Some n" for k n
    using okD(3)[OF that] by (simp add: listener_ok_def)
  show "listener_ok (set_listener key l s) (count_list hs' key) l"
    using okD(3)[OF m] l refs by (simp add: listener_ok_def set_listener_def)
  show "int (length (AList.update key l (ls_active s))) \<le> limit" if "0 \<le> limit"
    using okD(6)[OF that] m by (simp add: length_update)
qed (use hs listeners_okD(5)[OF ok] in \<open>auto simp: set_listener_def\<close>)

lemma recovery_ok: "listeners_ok limit (s, hs) \<Longrightarrow> listeners_ok limit (mark_needs_recovery key s, hs)"
  using listeners_okD(3)[of limit s hs key]
  by (cases "map_of (ls_active s) key") (auto simp: mark_needs_recovery_def listener_ok_def intro!: same_barriers_ok)

lemma release_ok:
  assumes ok: "listeners_ok limit (s, hs)" and h: "key \<in> set hs"
  shows "listeners_ok limit (release key s, remove1 key hs)"
proof -
  have c: "count_list hs key \<noteq> 0" using h by (simp add: count_list_0_iff)
  obtain l where l: "map_of (ls_active s) key = Some l"
    using c listeners_okD(4)[OF ok, of key] by (cases "map_of (ls_active s) key") auto
  have "listener_ok s (count_list hs key) l" by (rule listeners_okD(3)[OF ok l])
  then show ?thesis using l c
    by (auto simp: release_def listener_ok_def Let_def count_remove1 intro!: same_barriers_ok[OF ok l])
qed

lemma ready_ok:
  assumes ok: "listeners_ok limit (s, hs)"
  shows "listeners_ok limit (fst (mark_ready key i s), hs)"
proof (cases "map_of (ls_active s) key")
  case None
  then show ?thesis using ok by (simp add: mark_ready_def)
next
  case (Some m)
  note okD = listeners_okD[OF ok]
  have o: "listener_ok s (count_list hs key) m" by (rule okD(3)[OF Some])
  consider (other) "ln_id m \<noteq> i" | (again) "ln_id m = i" "ln_connected m" | (first) "ln_id m = i" "\<not> ln_connected m" by blast
  then show ?thesis
  proof cases
    case other
    then show ?thesis using ok Some by (simp add: mark_ready_def)
  next
    case again
    then show ?thesis using Some o
      by (auto simp: mark_ready_def listener_ok_def intro!: same_barriers_ok[OF ok Some])
  next
    case first
    let ?l = "m\<lparr>ln_recover := False, ln_connected := True\<rparr>"
    let ?s = "set_listener key ?l (s\<lparr>ls_closed := ln_ready m # ls_closed s\<rparr>)"
    have "listeners_ok limit (?s, hs)"
    proof (rule update_listener_ok[OF ok, where key = key and l = ?l and closing = "ln_ready m" and cancelling = "ls_next s"])
      show "ln_id n \<noteq> ls_next s \<and> ln_ready n \<noteq> ln_ready m" if "k \<noteq> key" "map_of (ls_active s) k = Some n" for k n
        using okD(2)[OF Some that(2)] okD(3)[OF that(2)] that by (auto simp: listener_ok_def)
      show "ln_id ?l \<noteq> ln_id n \<and> ln_ready ?l \<noteq> ln_ready n" if "k \<noteq> key" "map_of (ls_active s) k = Some n" for k n
        using okD(2)[OF Some that(2)] that by auto
      show "c < ls_next ?s" if "c \<in> set (ls_closed ?s) \<or> c \<in> set (ls_cancelled ?s)" for c
        using that okD(5)[of c] o by (auto simp: set_listener_def listener_ok_def)
      show "int (length (AList.update key ?l (ls_active s))) \<le> limit" if "0 \<le> limit"
        using okD(6)[OF that] Some by (simp add: length_update)
    qed (use first o in \<open>auto simp: set_listener_def listener_ok_def\<close>)
    then show ?thesis using first Some by (simp add: mark_ready_def)
  qed
qed

lemma disconnected_ok:
  assumes ok: "listeners_ok limit (s, hs)"
  shows "listeners_ok limit (fst (mark_disconnected key i s), hs)"
proof (cases "map_of (ls_active s) key")
  case None
  then show ?thesis using ok by (simp add: mark_disconnected_def)
next
  case (Some m)
  note okD = listeners_okD[OF ok]
  have o: "listener_ok s (count_list hs key) m" by (rule okD(3)[OF Some])
  show ?thesis
  proof (cases "ln_id m \<noteq> i \<or> \<not> ln_connected m")
    case True
    then show ?thesis using ok Some by (simp add: mark_disconnected_def)
  next
    case False
    let ?l = "m\<lparr>ln_connected := False, ln_recover := True, ln_ready := ls_next s\<rparr>"
    let ?s = "set_listener key ?l (s\<lparr>ls_next := ls_next s + 1\<rparr>)"
    have "listeners_ok limit (?s, hs)"
    proof (rule update_listener_ok[OF ok, where key = key and l = ?l and closing = "ls_next s" and cancelling = "ls_next s"])
      show "ln_id n \<noteq> ls_next s \<and> ln_ready n \<noteq> ls_next s" if "k \<noteq> key" "map_of (ls_active s) k = Some n" for k n
        using okD(3)[OF that(2)] by (simp add: listener_ok_def)
      show "ln_id ?l \<noteq> ln_id n \<and> ln_ready ?l \<noteq> ln_ready n" if "k \<noteq> key" "map_of (ls_active s) k = Some n" for k n
        using okD(2)[OF Some that(2)] okD(3)[OF that(2)] that by (auto simp: listener_ok_def)
      show "c < ls_next ?s" if "c \<in> set (ls_closed ?s) \<or> c \<in> set (ls_cancelled ?s)" for c
        using that okD(5)[of c] by (auto simp: set_listener_def)
      show "int (length (AList.update key ?l (ls_active s))) \<le> limit" if "0 \<le> limit"
        using okD(6)[OF that] Some by (simp add: length_update)
      show "listener_ok ?s (count_list hs key) ?l"
        using False o okD(5)[of "ls_next s"] by (auto simp: set_listener_def listener_ok_def)
    qed (auto simp: set_listener_def)
    then show ?thesis using False Some by (simp add: mark_disconnected_def)
  qed
qed

lemma expire_listener_ok:
  assumes ok: "listeners_ok limit (s, hs)"
  shows "listeners_ok limit (expire_listener key i s, hs)"
proof (cases "map_of (ls_active s) key")
  case None
  then show ?thesis using ok by (simp add: expire_listener_def)
next
  case (Some m)
  note okD = listeners_okD[OF ok]
  have o: "listener_ok s (count_list hs key) m" by (rule okD(3)[OF Some])
  show ?thesis
  proof (cases "ln_id m \<noteq> i \<or> ln_refs m \<noteq> 0")
    case True
    then show ?thesis using ok Some by (simp add: expire_listener_def)
  next
    case False
    let ?s = "s\<lparr>ls_active := AList.delete key (ls_active s), ls_cancelled := i # ls_cancelled s\<rparr>"
    have mp: "map_of (ls_active ?s) k = (if k = key then None else map_of (ls_active s) k)" for k
      by (simp add: delete_conv')
    have "listeners_ok limit (?s, hs)"
    proof (rule listeners_okI)
      show "distinct (map fst (ls_active ?s))" using okD(1) by (simp add: distinct_delete)
      show "k = k'" if "map_of (ls_active ?s) k = Some l" "map_of (ls_active ?s) k' = Some l'"
          "ln_id l = ln_id l' \<or> ln_ready l = ln_ready l'" for k l k' l'
        using that okD(2)[of k l k' l'] unfolding mp by (auto split: if_splits)
      show "listener_ok ?s (count_list hs k) l" if "map_of (ls_active ?s) k = Some l" for k l
      proof -
        have k: "k \<noteq> key" "map_of (ls_active s) k = Some l" using that unfolding mp by (auto split: if_splits)
        then have "ln_id l \<noteq> i" using okD(2)[OF Some k(2)] False by auto
        then show ?thesis using okD(3)[OF k(2)] by (simp add: listener_ok_def)
      qed
      show "count_list hs k = 0" if "map_of (ls_active ?s) k = None" for k
        using that okD(4)[of k] o False unfolding mp by (auto simp: listener_ok_def split: if_splits)
      show "c < ls_next ?s" if "c \<in> set (ls_closed ?s) \<or> c \<in> set (ls_cancelled ?s)" for c
        using that okD(5)[of c] o False by (auto simp: listener_ok_def)
      show "int (length (ls_active ?s)) \<le> limit" if "0 \<le> limit"
        using okD(6)[OF that] length_delete[of key "ls_active s"] by simp
    qed
    then show ?thesis using False Some by (simp add: expire_listener_def)
  qed
qed

lemma acquire_ok:
  assumes ok: "listeners_ok limit (s, hs)" and a: "acquire limit url key s = (s', Some ready, out)"
  shows "listeners_ok limit (s', key # hs)"
proof (cases "map_of (ls_active s) key")
  note okD = listeners_okD[OF ok]
  have other: "ln_id n \<noteq> ls_next s \<and> ln_ready n \<noteq> ls_next s" if "map_of (ls_active s) k = Some n" for k n
    using okD(3)[OF that] by (simp add: listener_ok_def)
  {
    case None
    let ?l = "\<lparr>ln_id = ls_next s, ln_url = trim_space url, ln_refs = 1, ln_idle = False, ln_ready = ls_next s,
        ln_connected = False, ln_recover = False\<rparr>"
    have s': "s' = set_listener key ?l (s\<lparr>ls_next := ls_next s + 1\<rparr>)" and room: "\<not> int (length (ls_active s)) \<ge> limit"
      using a None by (auto simp: acquire_def Let_def split: if_splits)
    have zero: "count_list hs key = 0" by (rule okD(4)[OF None])
    show ?thesis unfolding s'
    proof (rule update_listener_ok[OF ok, where key = key and l = ?l and closing = "ls_next s" and cancelling = "ls_next s"])
      show "c < ls_next (set_listener key ?l (s\<lparr>ls_next := ls_next s + 1\<rparr>))"
        if "c \<in> set (ls_closed (set_listener key ?l (s\<lparr>ls_next := ls_next s + 1\<rparr>))) \<or>
            c \<in> set (ls_cancelled (set_listener key ?l (s\<lparr>ls_next := ls_next s + 1\<rparr>)))" for c
        using that okD(5)[of c] by (auto simp: set_listener_def)
      show "int (length (AList.update key ?l (ls_active s))) \<le> limit" if "0 \<le> limit"
        using room None by (simp add: length_update)
      show "listener_ok (set_listener key ?l (s\<lparr>ls_next := ls_next s + 1\<rparr>)) (count_list (key # hs) key) ?l"
        using zero okD(5)[of "ls_next s"] by (auto simp: set_listener_def listener_ok_def)
      show "ln_id ?l \<noteq> ln_id n \<and> ln_ready ?l \<noteq> ln_ready n" if "map_of (ls_active s) k = Some n" for k n
        using other[OF that] by simp
    qed (use other in \<open>simp_all add: set_listener_def\<close>)
  next
    case (Some m)
    have o: "listener_ok s (count_list hs key) m" by (rule okD(3)[OF Some])
    show ?thesis
    proof (cases "ln_url m = trim_space url")
      case True
      then have "s' = set_listener key (m\<lparr>ln_refs := ln_refs m + 1, ln_idle := False\<rparr>) s"
        using a Some by (auto simp: acquire_def Let_def split: if_splits)
      then show ?thesis using o by (auto simp: listener_ok_def intro!: same_barriers_ok[OF ok Some])
    next
      case False
      let ?l = "\<lparr>ln_id = ls_next s, ln_url = trim_space url, ln_refs = ln_refs m + 1, ln_idle = False, ln_ready = ls_next s,
          ln_connected = False, ln_recover = True\<rparr>"
      let ?s = "set_listener key ?l (s\<lparr>ls_next := ls_next s + 1, ls_cancelled := ln_id m # ls_cancelled s\<rparr>)"
      have s': "s' = ?s" using a Some False by (auto simp: acquire_def Let_def split: if_splits)
      show ?thesis unfolding s'
      proof (rule update_listener_ok[OF ok, where key = key and l = ?l and closing = "ls_next s" and cancelling = "ln_id m"])
        show "ln_id n \<noteq> ln_id m \<and> ln_ready n \<noteq> ls_next s" if "k \<noteq> key" "map_of (ls_active s) k = Some n" for k n
          using okD(2)[OF Some that(2)] other[OF that(2)] that by auto
        show "c < ls_next ?s" if "c \<in> set (ls_closed ?s) \<or> c \<in> set (ls_cancelled ?s)" for c
          using that okD(5)[of c] o by (auto simp: set_listener_def listener_ok_def)
        show "int (length (AList.update key ?l (ls_active s))) \<le> limit" if "0 \<le> limit"
          using okD(6)[OF that] Some by (simp add: length_update)
        show "listener_ok ?s (count_list (key # hs) key) ?l"
          using o okD(5)[of "ls_next s"] by (auto simp: set_listener_def listener_ok_def)
        show "ln_id ?l \<noteq> ln_id n \<and> ln_ready ?l \<noteq> ln_ready n" if "map_of (ls_active s) k = Some n" for k n
          using other[OF that] by simp
      qed (simp_all add: set_listener_def)
    qed
  }
qed

lemma refused_same: "acquire limit url key s = (s', None, out) \<Longrightarrow> s' = s"
  by (auto simp: acquire_def Let_def split: option.splits if_splits)

interpretation refcount: step_invariant "\<lambda>x. x = (new_listeners, [])" "listener_step limit" "listeners_ok limit" for limit
proof unfold_locales
  show "listeners_ok limit x" if "x = (new_listeners, [])" for x using that new_listeners_ok by simp
  show "listeners_ok limit y" if "listeners_ok limit x" "listener_step limit x y" for x y
    using that(2,1)
    by cases (auto intro: acquire_ok release_ok expire_listener_ok ready_ok disconnected_ok recovery_ok dest: refused_same)
qed
section \<open>References, expiry and recovery\<close>

lemma listeners_reachable_ok: "(listener_step limit)\<^sup>*\<^sup>* (new_listeners, []) (s, hs) \<Longrightarrow> listeners_ok limit (s, hs)"
  using refcount.inv_reachable by blast

lemma expire_held:
  assumes "map_of (ls_active s) key = Some l" "ln_refs l \<noteq> 0"
  shows "expire_listener key i s = s"
  using assms by (simp add: expire_listener_def)

text \<open>
  While somebody holds a reference to the listener of a tenant, the listener is there, its
  goroutine is not cancelled, its count is the number of holders and no idle timer can
  remove it; its readiness barrier is open exactly while it is disconnected. An active
  listener nobody holds has its idle timer set, and there are never more than the limit.
\<close>

theorem listener_kept_while_held:
  assumes "(listener_step limit)\<^sup>*\<^sup>* (new_listeners, []) (s, hs)"
  shows "(\<forall>key \<in> set hs. \<exists>l. map_of (ls_active s) key = Some l \<and> ln_refs l = count_list hs key \<and>
      ln_id l \<notin> set (ls_cancelled s) \<and> (ln_connected l \<longleftrightarrow> ln_ready l \<in> set (ls_closed s)) \<and>
      (\<forall>i. expire_listener key i s = s)) \<and>
    (\<forall>k l. map_of (ls_active s) k = Some l \<longrightarrow> k \<notin> set hs \<longrightarrow> ln_idle l) \<and>
    (0 \<le> limit \<longrightarrow> int (length (ls_active s)) \<le> limit)"
proof -
  have ok: "listeners_ok limit (s, hs)" by (rule listeners_reachable_ok[OF assms])
  note okD = listeners_okD[OF ok]
  have "\<exists>l. map_of (ls_active s) key = Some l \<and> ln_refs l = count_list hs key \<and> ln_id l \<notin> set (ls_cancelled s) \<and>
      (ln_connected l \<longleftrightarrow> ln_ready l \<in> set (ls_closed s)) \<and> (\<forall>i. expire_listener key i s = s)" if "key \<in> set hs" for key
  proof -
    have c: "count_list hs key \<noteq> 0" using that by (simp add: count_list_0_iff)
    obtain l where l: "map_of (ls_active s) key = Some l"
      using c okD(4)[of key] by (cases "map_of (ls_active s) key") auto
    then show ?thesis using okD(3)[OF l] c by (auto simp: listener_ok_def expire_held)
  qed
  moreover have "ln_idle l" if "map_of (ls_active s) k = Some l" "k \<notin> set hs" for k l
    using okD(3)[OF that(1)] that(2) by (simp add: listener_ok_def count_list_0_iff)
  ultimately show ?thesis using okD(6) by blast
qed

lemma listener_kept_while_held_witness:
  "\<exists>s. (listener_step 1)\<^sup>*\<^sup>* (new_listeners, []) (s, [(''p'', ''t'')]) \<and>
     map_option ln_refs (map_of (ls_active s) (''p'', ''t'')) = Some 1 \<and> int (length (ls_active s)) \<le> 1"
proof -
  let ?k = "(''p'', ''t'')"
  define s where "s = fst (acquire 1 ''postgres://t'' ?k new_listeners)"
  have a: "acquire 1 ''postgres://t'' ?k new_listeners = (s, Some 0, False)"
    unfolding s_def by code_simp
  have r: "(listener_step 1)\<^sup>*\<^sup>* (new_listeners, []) (s, [?k])"
    by (rule r_into_rtranclp, rule listener_step.acquired[OF a])
  have "map_option ln_refs (map_of (ls_active s) ?k) = Some 1"
    using listener_kept_while_held[OF r] by auto
  then show ?thesis using r listener_kept_while_held[OF r] by auto
qed



text \<open>
  A group whose tenant was refused a listener still releases one when it expires: the
  listener that a synchronised collection of the same tenant acquired later is taken away.
\<close>

definition refused_group_run :: "listeners \<times> nat option \<times> nat option \<times> nat option" where
  "refused_group_run =
    (let (s1, other, _) = acquire 1 ''postgres://a'' (''p'', ''a'') new_listeners;
         (s2, refused, _) = acquire 1 ''postgres://b'' (''p'', ''b'') s1;
         s3 = expire_listener (''p'', ''a'') 0 (release (''p'', ''a'') s2);
         (s4, collection, _) = acquire 1 ''postgres://b'' (''p'', ''b'') s3;
         s5 = release (''p'', ''b'') s4
     in (expire_listener (''p'', ''b'') 1 s5, other, refused, collection))"

lemma refused_group_takes_listener:
  "case refused_group_run of (s, other, refused, collection) \<Rightarrow>
     refused = None \<and> collection = Some 1 \<and> map_of (ls_active s) (''p'', ''b'') = None"
  by code_simp

text \<open>The waits between attempts stay between the first one and ten seconds.\<close>

lemma backoff_bounded: "(next_backoff ^^ n) first_backoff \<in> {250..10000}"
  by (induction n) (auto simp: first_backoff_def next_backoff_def)

end
