(* ===== verification/Pending_Changes.thy ===== *)
theory Pending_Changes
  imports Subscription_Manager Tenant_Listeners
begin

text \<open>
  The batching of table changes between a commit and the groups (\<open>scheduleTableChange\<close>,
  \<open>flushTableChange\<close>, \<open>mergeTableChangeDetail\<close>, \<open>pendingChangeForDelivery\<close> in \<open>ws.go\<close>): changes of
  one commit, or of the same tables, collect in a batch until its timer fires, then leave
  as one change for \<open>requestChange\<close>. Notifications of triggers carry rows and columns; the
  change a mutation declares names tables only. A map from tables to details is an
  association list, a set the list of its members. Not modelled: the caches themselves (the
  tables whose entries are invalidated are part of the results) and \<open>resetSyncsForVisibilityChange\<close>.
\<close>

section \<open>Batches\<close>

record incoming =
  in_project :: string
  in_tenant :: string
  in_observed :: bool
  in_change :: table_change

record pending_change =
  p_project :: string
  p_tenant :: string
  p_commit :: string
  p_declared :: "string list"
  p_observed :: "(string \<times> table_detail) list"
  p_invalidated :: "string list"
  p_other :: "(string \<times> table_detail) list"
  p_at :: int

record change_queue =
  q_pending :: "(string \<times> pending_change) list"
  q_timers :: "(string \<times> nat) list"

definition empty_pending :: pending_change where
  "empty_pending = \<lparr>p_project = '''', p_tenant = '''', p_commit = '''', p_declared = [], p_observed = [],
     p_invalidated = [], p_other = [], p_at = 0\<rparr>"

definition empty_detail :: table_detail where
  "empty_detail = \<lparr>d_operation = '''', d_columns = [], d_rows = [], d_tasks = [], d_users = [], d_workspaces = [],
     d_precise = False, d_broad = False\<rparr>"

definition empty_queue :: change_queue where
  "empty_queue = \<lparr>q_pending = [], q_timers = []\<rparr>"

section \<open>Merging the details of a table\<close>

definition detail_for_table :: "table_change \<Rightarrow> string \<Rightarrow> bool \<Rightarrow> table_detail" where
  "detail_for_table c t precise = (case map_of (c_details c) t of
     Some d \<Rightarrow> d\<lparr>d_precise := (d_precise d \<or> precise)\<rparr>
   | None \<Rightarrow> \<lparr>d_operation = c_operation c, d_columns = c_columns c, d_rows = c_rows c, d_tasks = c_tasks c,
       d_users = c_users c, d_workspaces = c_workspaces c, d_precise = precise, d_broad = c_broad c\<rparr>)"

definition add_keys :: "string list \<Rightarrow> string list \<Rightarrow> string list" where
  "add_keys cur nxt = fold add_new nxt cur"

definition merge_detail :: "table_detail \<Rightarrow> table_detail \<Rightarrow> table_detail" where
  "merge_detail cur nxt =
    (let clash = d_operation cur \<noteq> '''' \<and> d_operation nxt \<noteq> '''' \<and> d_operation cur \<noteq> d_operation nxt
     in \<lparr>d_operation = (if d_operation cur = '''' then d_operation nxt else if clash then '''' else d_operation cur),
         d_columns = append_unique_strings (d_columns cur) (d_columns nxt),
         d_rows = add_keys (d_rows cur) (d_rows nxt), d_tasks = add_keys (d_tasks cur) (d_tasks nxt),
         d_users = add_keys (d_users cur) (d_users nxt), d_workspaces = add_keys (d_workspaces cur) (d_workspaces nxt),
         d_precise = (d_precise cur \<or> d_precise nxt), d_broad = (d_broad cur \<or> d_broad nxt \<or> clash)\<rparr>)"

section \<open>Scheduling\<close>

abbreviation unit_sep :: string where "unit_sep \<equiv> [CHR 0x1F]"

definition batch_key :: "incoming \<Rightarrow> string" where
  "batch_key i =
    (let tables = table_change_tables (in_change i); commit = trim_space (c_commit (in_change i))
     in join_with '':'' [in_project i, in_tenant i,
          if commit \<noteq> '''' then ''commit'' @ unit_sep @ commit else join_with unit_sep tables])"

definition merged_at :: "string \<Rightarrow> int \<Rightarrow> int \<Rightarrow> int" where
  "merged_at commit old now =
    (if commit \<noteq> '''' then (if old = 0 \<or> 0 < now \<and> now < old then now else old)
     else if now > old then now else old)"

definition detail_or_empty :: "(string \<times> table_detail) list \<Rightarrow> string \<Rightarrow> table_detail" where
  "detail_or_empty ds t = (case map_of ds t of None \<Rightarrow> empty_detail | Some d \<Rightarrow> d)"

text \<open>One turn of the loop over the tables of a change.\<close>

definition note_table :: "incoming \<Rightarrow> string \<Rightarrow> pending_change \<Rightarrow> pending_change" where
  "note_table i raw p =
    (let t = trim_space raw; c = in_change i in
     if t = '''' then p
     else if in_observed i then
       p\<lparr>p_observed := AList.update t (merge_detail (detail_or_empty (p_observed p) t) (detail_for_table c t True)) (p_observed p),
         p_invalidated := add_new t (p_invalidated p)\<rparr>
     else if p_commit p \<noteq> '''' \<and> c_broad c then p\<lparr>p_declared := add_new t (p_declared p)\<rparr>
     else p\<lparr>p_other := AList.update t
       (merge_detail (detail_or_empty (p_other p) t) (detail_for_table c t (\<not> c_broad c))) (p_other p)\<rparr>)"

definition add_change :: "incoming \<Rightarrow> pending_change \<Rightarrow> pending_change" where
  "add_change i p =
    (let commit = trim_space (c_commit (in_change i)) in
     fold (note_table i) (table_change_tables (in_change i))
       (p\<lparr>p_project := in_project i, p_tenant := in_tenant i, p_commit := commit,
          p_at := merged_at commit (p_at p) (c_changed_at (in_change i))\<rparr>))"

text \<open>In milliseconds.\<close>

definition batch_debounce :: nat where "batch_debounce = 75"
definition batch_trigger :: nat where "batch_trigger = 1"

definition batch_delay :: "incoming \<Rightarrow> nat" where
  "batch_delay i = (if in_observed i \<or> trim_space (c_commit (in_change i)) = '''' then batch_trigger else batch_debounce)"

text \<open>The second component: the tables whose cached results are invalidated before returning.\<close>

definition schedule_change :: "incoming \<Rightarrow> change_queue \<Rightarrow> change_queue \<times> string list" where
  "schedule_change i q =
    (let key = batch_key i;
         p = (case map_of (q_pending q) key of None \<Rightarrow> empty_pending | Some p \<Rightarrow> p)
     in (q\<lparr>q_pending := AList.update key (add_change i p) (q_pending q),
           q_timers := AList.update key (batch_delay i) (q_timers q)\<rparr>,
         if in_observed i then table_change_tables (in_change i) else []))"

section \<open>Delivery\<close>

definition broad_detail :: table_detail where
  "broad_detail = empty_detail\<lparr>d_broad := True\<rparr>"

definition authoritative :: "bool \<Rightarrow> pending_change \<Rightarrow> bool" where
  "authoritative trusted p \<longleftrightarrow> p_observed p \<noteq> [] \<and> (p_commit p = '''' \<or> trusted)"

definition delivered_details :: "bool \<Rightarrow> pending_change \<Rightarrow> (string \<times> table_detail) list" where
  "delivered_details trusted p =
    (let base = (if authoritative trusted p then p_observed p
       else map (\<lambda>t. (t, broad_detail)) (remdups (p_declared p @ map fst (p_observed p) @ map fst (p_other p))))
     in if p_commit p = '''' then fold (\<lambda>(t, d). AList.update t d) (p_other p) base else base)"

definition delivered_change :: "bool \<Rightarrow> pending_change \<Rightarrow> table_change" where
  "delivered_change trusted p =
    (let details = delivered_details trusted p;
         c = \<lparr>c_table = '''', c_tables = map fst details, c_broad = (\<not> authoritative trusted p), c_rows = [], c_tasks = [],
              c_users = [], c_workspaces = [], c_operation = '''', c_columns = [], c_changed_at = p_at p,
              c_details = details, c_declared = p_declared p, c_commit = p_commit p\<rparr>
     in case details of
          [(t, d)] \<Rightarrow> c\<lparr>c_table := t, c_operation := d_operation d, c_columns := d_columns d, c_rows := d_rows d,
            c_tasks := d_tasks d, c_users := d_users d, c_workspaces := d_workspaces d, c_broad := d_broad d\<rparr>
        | _ \<Rightarrow> c)"

definition touches_landlord :: "string list \<Rightarrow> pending_change \<Rightarrow> bool" where
  "touches_landlord landlords p \<longleftrightarrow> list_ex (\<lambda>t. t \<in> set landlords) (p_declared p)"

text \<open>
  What a flush hands on: the project and tenant, the change and the tables whose caches are
  invalidated (\<open>None\<close> for all of the tenant).
\<close>

record delivery =
  dl_project :: string
  dl_tenant :: string
  dl_change :: table_change
  dl_caches :: "string list option"

definition flush_change :: "listeners \<Rightarrow> (string \<Rightarrow> string list) \<Rightarrow> string \<Rightarrow> change_queue \<Rightarrow> change_queue \<times> delivery option" where
  "flush_change ls landlords key q =
    (let q' = q\<lparr>q_pending := AList.delete key (q_pending q), q_timers := AList.delete key (q_timers q)\<rparr>
     in case map_of (q_pending q) key of
       None \<Rightarrow> (q', None)
     | Some p \<Rightarrow>
         let trusted = healthy (p_project p, p_tenant p) ls in
         if p_commit p \<noteq> '''' \<and> trusted \<and> p_observed p = [] \<and> \<not> touches_landlord (landlords (p_project p)) p then (q', None)
         else
           let c0 = delivered_change trusted p;
               c = (if table_change_tables c0 = [] \<or> c_tables c0 = [] \<and> trim_space (c_table c0) = '''' then c0\<lparr>c_broad := True\<rparr> else c0)
           in (q', Some \<lparr>dl_project = p_project p, dl_tenant = p_tenant p, dl_change = c,
                 dl_caches = (if table_change_tables c = [] then None
                   else Some (filter (\<lambda>t. t \<notin> set (p_invalidated p)) (table_change_tables c)))\<rparr>))"

section \<open>A merged detail covers its parts\<close>

text \<open>
  \<open>covers d m\<close>: the detail \<open>m\<close> selects every read that \<open>d\<close> selects. A set that is empty in \<open>d\<close>
  means that nothing is known, so \<open>m\<close> may not know more.
\<close>

definition set_covers :: "string list \<Rightarrow> string list \<Rightarrow> bool" where
  "set_covers xs ys \<longleftrightarrow> set xs \<subseteq> set ys \<and> (xs = [] \<longrightarrow> ys = [])"

definition covers :: "table_detail \<Rightarrow> table_detail \<Rightarrow> bool" where
  "covers d m \<longleftrightarrow> (d_precise m \<longrightarrow> d_precise d) \<and>
     set_covers (d_rows d) (d_rows m) \<and> set_covers (d_tasks d) (d_tasks m) \<and>
     set_covers (d_users d) (d_users m) \<and> set_covers (d_workspaces d) (d_workspaces m) \<and>
     (d_broad m \<or> \<not> d_broad d \<and> d_operation m = d_operation d \<and> set_covers (d_columns d) (d_columns m))"

lemma set_covers_refl [simp]: "set_covers xs xs"
  by (simp add: set_covers_def)

lemma set_covers_trans: "set_covers xs ys \<Longrightarrow> set_covers ys zs \<Longrightarrow> set_covers xs zs"
  by (auto simp: set_covers_def)

lemma covers_trans: "covers d m \<Longrightarrow> covers m n \<Longrightarrow> covers d n"
  by (auto simp: covers_def intro: set_covers_trans)

lemma intersects_mono: "intersects_strings xs ys \<Longrightarrow> set ys \<subseteq> set zs \<Longrightarrow> intersects_strings xs zs"
  by (auto simp: intersects_strings_def list_ex_iff)

lemma result_tasks_mono:
  assumes "set_covers (d_tasks d) (d_tasks m)"
  shows "result_tasks_match m rows = Some False \<Longrightarrow> result_tasks_match d rows = Some False"
    and "result_tasks_match d rows = None \<Longrightarrow> result_tasks_match m rows = None"
  using assms intersects_mono[of rows "d_tasks d" "d_tasks m"]
  by (auto simp: result_tasks_match_def set_covers_def split: if_splits)

lemma column_arg_mono:
  "set_covers (d_workspaces d) (d_workspaces m) \<Longrightarrow> column_arg_matches col args d \<Longrightarrow> column_arg_matches col args m"
  by (auto simp: column_arg_matches_def set_covers_def split: arg_value.splits if_splits)

lemma id_arg_mono: "set_covers xs ys \<Longrightarrow> id_arg_matches r a args xs \<Longrightarrow> id_arg_matches r a args ys"
  by (auto simp: id_arg_matches_def set_covers_def split: arg_value.splits if_splits)

lemma option_case_imp:
  "(A \<longrightarrow> B) \<Longrightarrow> (\<And>x. F x \<longrightarrow> G x) \<Longrightarrow>
    (case y of None \<Rightarrow> A | Some x \<Rightarrow> F x) \<longrightarrow> (case y of None \<Rightarrow> B | Some x \<Rightarrow> G x)"
  by (cases y) auto

lemma if_imp: "(A \<longrightarrow> B) \<Longrightarrow> (C \<longrightarrow> D) \<Longrightarrow> (if P then A else C) \<longrightarrow> (if P then B else D)"
  by auto

lemma predicate_mono:
  assumes c: "set_covers (d_rows d) (d_rows m)" "set_covers (d_tasks d) (d_tasks m)" "set_covers (d_users d) (d_users m)"
      "set_covers (d_workspaces d) (d_workspaces m)"
    and p: "read_predicate_matches raw args user d rows"
  shows "read_predicate_matches raw args user m rows"
proof -
  let ?p = "trim_space raw"
  have u: "d_users d = [] \<Longrightarrow> d_users m = []" "x \<in> set (d_users d) \<Longrightarrow> x \<in> set (d_users m)" for x
    using c(3) by (auto simp: set_covers_def)
  have t: "(case result_tasks_match d rows of None \<Rightarrow> True | Some b \<Rightarrow> b) \<longrightarrow>
      (case result_tasks_match m rows of None \<Rightarrow> True | Some b \<Rightarrow> b)"
    using result_tasks_mono[OF c(2), of rows] by (cases "result_tasks_match d rows"; cases "result_tasks_match m rows") auto
  have tc: "(case result_tasks_match d rows of Some False \<Rightarrow> column_arg_matches x args d | _ \<Rightarrow> True) \<longrightarrow>
      (case result_tasks_match m rows of Some False \<Rightarrow> column_arg_matches x args m | _ \<Rightarrow> True)" for x
    using result_tasks_mono[OF c(2), of rows] column_arg_mono[OF c(4), of x args]
    by (cases "result_tasks_match d rows"; cases "result_tasks_match m rows") (auto split: bool.splits)
  have cu: "(if P \<or> d_users d = [] then True else case user of None \<Rightarrow> True
        | Some y \<Rightarrow> trim_space y = '''' \<or> trim_space y \<in> set (d_users d)) \<longrightarrow>
      (if P \<or> d_users m = [] then True else case user of None \<Rightarrow> True
        | Some y \<Rightarrow> trim_space y = '''' \<or> trim_space y \<in> set (d_users m))" for P
    using u by (cases user) auto
  have ids: "id_arg_matches r x args (d_rows d) \<longrightarrow> id_arg_matches r x args (d_rows m)"
    "id_arg_matches r x args (d_tasks d) \<longrightarrow> id_arg_matches r x args (d_tasks m)"
    "column_arg_matches x args d \<longrightarrow> column_arg_matches x args m" for r x
    using id_arg_mono[OF c(1)] id_arg_mono[OF c(2)] column_arg_mono[OF c(4)] by blast+
  have "read_predicate_matches raw args user d rows \<longrightarrow> read_predicate_matches raw args user m rows"
    unfolding read_predicate_matches_def Let_def
    by (rule t tc cu ids option_case_imp if_imp impI | assumption)+
  then show ?thesis using p by simp
qed

lemma match_skeleton:
  assumes "(if pr \<and> \<not> pm then False else if \<not> pr \<or> br \<or> i \<or> dl then True
      else if u \<and> cn \<and> cne \<and> \<not> ic then False else if u \<and> cn \<and> (fi \<or> w \<and> oi) then True else e \<or> er \<or> ix)"
    and "pr' \<longrightarrow> pr" "pm \<longrightarrow> pm'" "e \<longrightarrow> e'" "ix \<longrightarrow> ix'"
    and "br' \<or> \<not> br \<and> i' = i \<and> dl' = dl \<and> u' = u \<and> cn' = cn \<and> (ic \<longrightarrow> ic') \<and> (fi \<longrightarrow> fi') \<and> (oi \<longrightarrow> oi')"
  shows "if pr' \<and> \<not> pm' then False else if \<not> pr' \<or> br' \<or> i' \<or> dl' then True
      else if u' \<and> cn' \<and> cne \<and> \<not> ic' then False else if u' \<and> cn' \<and> (fi' \<or> w \<and> oi') then True else e' \<or> er \<or> ix'"
  using assms by argo

lemma read_matches_mono:
  assumes "read_matches g rows c r" and "change_contains_table c' (r_table r)"
    and "covers (table_detail_of c (r_table r)) (table_detail_of c' (r_table r))"
  shows "read_matches g rows c' r"
proof -
  define d m where "d = table_detail_of c (r_table r)" and "m = table_detail_of c' (r_table r)"
  let ?cols = "r_columns r @ r_filters r @ r_orders r"
  have cv: "covers d m" using assms(3) by (simp add: d_def m_def)
  have ct: "change_contains_table c (r_table r)" by (rule read_matches_table[OF assms(1)])
  have sub: "d_broad m \<or> \<not> d_broad d \<and> d_operation m = d_operation d \<and> set (d_columns d) \<subseteq> set (d_columns m) \<and>
      ((d_columns m \<noteq> []) = (d_columns d \<noteq> []))"
    "set (d_rows d) \<subseteq> set (d_rows m)" "d_rows d = [] \<longrightarrow> d_rows m = []"
    using cv by (auto simp: covers_def set_covers_def)
  have body: "if d_precise d \<and> \<not> read_predicate_matches (r_predicate r) (gr_args g) (gr_user g) d rows then False
      else if \<not> d_precise d \<or> d_broad d \<or> d_operation d = ''insert'' \<or> d_operation d = ''delete'' then True
      else if d_operation d = ''update'' \<and> d_columns d \<noteq> [] \<and> ?cols \<noteq> [] \<and> \<not> intersects_strings ?cols (d_columns d) then False
      else if d_operation d = ''update'' \<and> d_columns d \<noteq> [] \<and>
         (intersects_strings (r_filters r) (d_columns d) \<or> r_windowed r \<and> intersects_strings (r_orders r) (d_columns d)) then True
      else d_rows d = [] \<or> rows = [] \<or> intersects_strings rows (d_rows d)"
    using assms(1) ct unfolding read_matches_def Let_def d_def[symmetric] by (simp only: if_False not_True_eq_False)
  have "if d_precise m \<and> \<not> read_predicate_matches (r_predicate r) (gr_args g) (gr_user g) m rows then False
      else if \<not> d_precise m \<or> d_broad m \<or> d_operation m = ''insert'' \<or> d_operation m = ''delete'' then True
      else if d_operation m = ''update'' \<and> d_columns m \<noteq> [] \<and> ?cols \<noteq> [] \<and> \<not> intersects_strings ?cols (d_columns m) then False
      else if d_operation m = ''update'' \<and> d_columns m \<noteq> [] \<and>
         (intersects_strings (r_filters r) (d_columns m) \<or> r_windowed r \<and> intersects_strings (r_orders r) (d_columns m)) then True
      else d_rows m = [] \<or> rows = [] \<or> intersects_strings rows (d_rows m)"
  proof (rule match_skeleton[OF body])
    show "d_precise m \<longrightarrow> d_precise d" using cv by (simp add: covers_def)
    show "read_predicate_matches (r_predicate r) (gr_args g) (gr_user g) d rows \<longrightarrow>
        read_predicate_matches (r_predicate r) (gr_args g) (gr_user g) m rows"
      using cv by (auto simp: covers_def intro: predicate_mono)
    show "intersects_strings rows (d_rows d) \<longrightarrow> intersects_strings rows (d_rows m)"
      using sub(2) intersects_mono by blast
    have "intersects_strings xs (d_columns d) \<longrightarrow> intersects_strings xs (d_columns m)" if "\<not> d_broad m" for xs
      using sub(1) that intersects_mono by blast
    then show "d_broad m \<or> \<not> d_broad d \<and> (d_operation m = ''insert'') = (d_operation d = ''insert'') \<and>
        (d_operation m = ''delete'') = (d_operation d = ''delete'') \<and> (d_operation m = ''update'') = (d_operation d = ''update'') \<and>
        (d_columns m \<noteq> []) = (d_columns d \<noteq> []) \<and>
        (intersects_strings ?cols (d_columns d) \<longrightarrow> intersects_strings ?cols (d_columns m)) \<and>
        (intersects_strings (r_filters r) (d_columns d) \<longrightarrow> intersects_strings (r_filters r) (d_columns m)) \<and>
        (intersects_strings (r_orders r) (d_columns d) \<longrightarrow> intersects_strings (r_orders r) (d_columns m))"
      using sub(1) by metis
  qed (use sub(3) in blast)
  then show ?thesis using assms(2) unfolding read_matches_def Let_def m_def[symmetric] by (simp only: if_False not_True_eq_False)
qed

lemma match_result_mono:
  assumes m: "fst (match_result g rows c)" and b: "\<not> (c_broad c \<and> effective_table_count c = 0)"
    and t: "\<And>r. r \<in> set (gr_reads g) \<Longrightarrow> change_contains_table c (r_table r) \<Longrightarrow> change_contains_table c' (r_table r) \<and>
       covers (table_detail_of c (r_table r)) (table_detail_of c' (r_table r))"
  shows "fst (match_result g rows c')"
proof (cases "gr_unknown g")
  case True
  then show ?thesis by (simp add: match_result_def)
next
  case False
  then obtain r where r: "r \<in> set (gr_reads g)" "read_matches g rows c r"
    using m b by (auto simp: match_result_def list_ex_iff split: if_splits)
  have "read_matches g rows c' r"
    using read_matches_mono[OF r(2)] t[OF r(1) read_matches_table[OF r(2)]] by blast
  then show ?thesis using r(1) by (auto simp: match_result_def list_ex_iff)
qed
section \<open>A batch covers its changes\<close>

text \<open>What is known in a detail: which of its parts are not empty.\<close>

definition shape :: "table_detail \<Rightarrow> bool list" where
  "shape d = [d_precise d, d_rows d = [], d_tasks d = [], d_users d = [], d_workspaces d = [], d_columns d = []]"

definition clean_columns :: "table_detail \<Rightarrow> bool" where
  "clean_columns d \<longleftrightarrow> list_all (\<lambda>c. trim_space c = c \<and> c \<noteq> '''') (d_columns d)"

text \<open>A merged detail of parts with shape \<open>k\<close> that name an operation exactly if \<open>named\<close>.\<close>

definition fits :: "bool list \<times> bool \<Rightarrow> table_detail \<Rightarrow> bool" where
  "fits k m \<longleftrightarrow> shape m = fst k \<and> (d_broad m \<or> (d_operation m \<noteq> '''') = snd k)"

definition fits_part :: "bool list \<times> bool \<Rightarrow> table_detail \<Rightarrow> bool" where
  "fits_part k d \<longleftrightarrow> shape d = fst k \<and> (d_operation d \<noteq> '''') = snd k \<and> clean_columns d"

lemma set_add_keys [simp]: "set (add_keys xs ys) = set xs \<union> set ys"
  unfolding add_keys_def by (induction ys arbitrary: xs) (auto simp: set_add_new)

lemma add_keys_Nil [simp]: "add_keys xs ys = [] \<longleftrightarrow> xs = [] \<and> ys = []"
  by (metis set_add_keys Un_empty set_empty)

lemma set_append_unique_clean:
  "list_all (\<lambda>c. trim_space c = c \<and> c \<noteq> '''') ys \<Longrightarrow> set (append_unique_strings xs ys) = set xs \<union> set ys"
  by (auto simp: append_unique_strings_def fold_unique_set list_all_iff)

lemma append_unique_Nil:
  "list_all (\<lambda>c. trim_space c = c \<and> c \<noteq> '''') ys \<Longrightarrow> append_unique_strings xs ys = [] \<longleftrightarrow> xs = [] \<and> ys = []"
  using set_append_unique_clean[of ys xs] by (metis Un_empty set_empty)

lemma set_covers_add: "(xs = []) = (ys = []) \<Longrightarrow> set_covers xs (add_keys xs ys) \<and> set_covers ys (add_keys xs ys)"
  by (auto simp: set_covers_def)

lemma set_covers_columns:
  "list_all (\<lambda>c. trim_space c = c \<and> c \<noteq> '''') ys \<Longrightarrow> (xs = []) = (ys = []) \<Longrightarrow>
     set_covers xs (append_unique_strings xs ys) \<and> set_covers ys (append_unique_strings xs ys)"
  by (auto simp: set_covers_def set_append_unique_clean append_unique_Nil)

lemma merge_first:
  assumes "clean_columns d"
  shows "covers d (merge_detail empty_detail d)" "covers (merge_detail empty_detail d) d"
    "shape (merge_detail empty_detail d) = shape d" "d_operation (merge_detail empty_detail d) = d_operation d"
    "d_broad (merge_detail empty_detail d) = d_broad d"
  using assms
  by (auto simp: covers_def merge_detail_def empty_detail_def shape_def clean_columns_def set_covers_def Let_def
      set_append_unique_clean append_unique_Nil)

lemma merge_more:
  assumes "fits k m" and "fits_part k d"
  shows "covers m (merge_detail m d)" "covers d (merge_detail m d)" "fits k (merge_detail m d)"
proof -
  have sh: "d_precise m = d_precise d" "(d_rows m = []) = (d_rows d = [])" "(d_tasks m = []) = (d_tasks d = [])"
    "(d_users m = []) = (d_users d = [])" "(d_workspaces m = []) = (d_workspaces d = [])"
    "(d_columns m = []) = (d_columns d = [])"
  proof -
    have "shape m = shape d" using assms by (simp add: fits_def fits_part_def)
    then show "d_precise m = d_precise d" "(d_rows m = []) = (d_rows d = [])" "(d_tasks m = []) = (d_tasks d = [])"
      "(d_users m = []) = (d_users d = [])" "(d_workspaces m = []) = (d_workspaces d = [])"
      "(d_columns m = []) = (d_columns d = [])"
      by (simp_all add: shape_def)
  qed
  have cl: "list_all (\<lambda>c. trim_space c = c \<and> c \<noteq> '''') (d_columns d)"
    using assms(2) by (simp add: fits_part_def clean_columns_def)
  have op: "d_broad m \<or> (d_operation m \<noteq> '''') = (d_operation d \<noteq> '''')"
    using assms by (auto simp: fits_def fits_part_def)
  note cov = set_covers_add[OF sh(2)] set_covers_add[OF sh(3)] set_covers_add[OF sh(4)] set_covers_add[OF sh(5)]
    set_covers_columns[OF cl sh(6)]
  show "covers m (merge_detail m d)" "covers d (merge_detail m d)"
    using cov sh(1) op by (auto simp: covers_def merge_detail_def Let_def)
  have "shape (merge_detail m d) = shape m"
    using sh cl by (simp add: shape_def merge_detail_def Let_def append_unique_Nil)
  then show "fits k (merge_detail m d)"
    using assms op by (auto simp: fits_def fits_part_def merge_detail_def Let_def)
qed

definition named_tables :: "pending_change \<Rightarrow> string set" where
  "named_tables p = set (p_declared p) \<union> fst ` set (p_observed p) \<union> fst ` set (p_other p)"

definition all_fit :: "(string \<Rightarrow> bool list \<times> bool) \<Rightarrow> pending_change \<Rightarrow> bool" where
  "all_fit K p \<longleftrightarrow> (\<forall>t m. map_of (p_observed p) t = Some m \<longrightarrow> fits (K t) m)"

definition observed_grows :: "pending_change \<Rightarrow> pending_change \<Rightarrow> bool" where
  "observed_grows p p' \<longleftrightarrow>
     (\<forall>t m. map_of (p_observed p) t = Some m \<longrightarrow> (\<exists>m'. map_of (p_observed p') t = Some m' \<and> covers m m'))"

lemma covers_refl: "covers d d"
  by (simp add: covers_def)

lemma observed_grows_refl: "observed_grows p p"
  by (auto simp: observed_grows_def covers_refl)

lemma observed_grows_trans: "observed_grows p q \<Longrightarrow> observed_grows q r \<Longrightarrow> observed_grows p r"
  unfolding observed_grows_def by (meson covers_trans)

text \<open>A change whose tables have proper names and whose observed details fit.\<close>

definition good_change :: "(string \<Rightarrow> bool list \<times> bool) \<Rightarrow> incoming \<Rightarrow> bool" where
  "good_change K i \<longleftrightarrow> (\<forall>t \<in> set (table_change_tables (in_change i)).
     trim_space t = t \<and> t \<noteq> '''' \<and> (in_observed i \<longrightarrow> fits_part (K t) (detail_for_table (in_change i) t True)))"

lemma note_table_step:
  assumes t: "trim_space t = t" "t \<noteq> ''''" and fit: "all_fit K p"
    and d: "in_observed i \<Longrightarrow> fits_part (K t) (detail_for_table (in_change i) t True)"
  shows "all_fit K (note_table i t p)" "observed_grows p (note_table i t p)"
    "named_tables (note_table i t p) = insert t (named_tables p)"
    "in_observed i \<Longrightarrow> \<exists>m. map_of (p_observed (note_table i t p)) t = Some m \<and> covers (detail_for_table (in_change i) t True) m"
proof -
  let ?d = "detail_for_table (in_change i) t True" and ?cur = "detail_or_empty (p_observed p) t"
  let ?m = "merge_detail ?cur ?d"
  have m: "fits (K t) ?m \<and> covers ?d ?m \<and> (\<forall>x. map_of (p_observed p) t = Some x \<longrightarrow> covers x ?m)" if "in_observed i"
  proof (cases "map_of (p_observed p) t")
    case None
    have "clean_columns ?d" using d[OF that] by (simp add: fits_part_def)
    from merge_first[OF this] show ?thesis using d[OF that] None
      by (simp add: detail_or_empty_def fits_def fits_part_def)
  next
    case (Some x)
    then have "fits (K t) x" using fit by (simp add: all_fit_def)
    from merge_more[OF this d[OF that]] show ?thesis using Some by (simp add: detail_or_empty_def)
  qed
  show "all_fit K (note_table i t p)" using fit m t
    by (auto simp: note_table_def all_fit_def Let_def update_conv')
  show "observed_grows p (note_table i t p)" using m t
    by (auto simp: note_table_def observed_grows_def Let_def update_conv' covers_refl)
  show "named_tables (note_table i t p) = insert t (named_tables p)" using t
    by (auto simp: note_table_def named_tables_def Let_def set_add_new dom_update[unfolded dom_map_of_conv_image_fst])
  show "\<exists>y. map_of (p_observed (note_table i t p)) t = Some y \<and> covers ?d y" if "in_observed i"
    using m[OF that] that t by (auto simp: note_table_def Let_def update_conv')
qed
lemma note_tables_steps:
  assumes "\<forall>t \<in> set ts. trim_space t = t \<and> t \<noteq> '''' \<and> (in_observed i \<longrightarrow> fits_part (K t) (detail_for_table (in_change i) t True))"
    and "all_fit K p"
  shows "all_fit K (fold (note_table i) ts p) \<and> observed_grows p (fold (note_table i) ts p) \<and>
    named_tables (fold (note_table i) ts p) = set ts \<union> named_tables p \<and>
    (in_observed i \<longrightarrow> (\<forall>t \<in> set ts. \<exists>m. map_of (p_observed (fold (note_table i) ts p)) t = Some m \<and>
       covers (detail_for_table (in_change i) t True) m))"
  using assms
proof (induction ts arbitrary: p)
  case Nil
  then show ?case by (simp add: observed_grows_refl)
next
  case (Cons t ts)
  have h: "trim_space t = t" "t \<noteq> ''''" "in_observed i \<Longrightarrow> fits_part (K t) (detail_for_table (in_change i) t True)"
    using Cons.prems(1) by auto
  note s = note_table_step[where K = K, OF h(1,2) Cons.prems(2) h(3)]
  have ih: "all_fit K (fold (note_table i) ts (note_table i t p)) \<and>
      observed_grows (note_table i t p) (fold (note_table i) ts (note_table i t p)) \<and>
      named_tables (fold (note_table i) ts (note_table i t p)) = set ts \<union> named_tables (note_table i t p) \<and>
      (in_observed i \<longrightarrow> (\<forall>t' \<in> set ts. \<exists>m. map_of (p_observed (fold (note_table i) ts (note_table i t p))) t' = Some m \<and>
         covers (detail_for_table (in_change i) t' True) m))"
    by (rule Cons.IH) (use Cons.prems s(1) in auto)
  have head: "\<exists>m. map_of (p_observed (fold (note_table i) ts (note_table i t p))) t = Some m \<and>
      covers (detail_for_table (in_change i) t True) m" if "in_observed i"
    using s(4)[OF that that] ih unfolding observed_grows_def by (meson covers_trans)
  show ?case using ih head s(2,3) by (auto intro: observed_grows_trans)
qed

definition gathers :: "incoming list \<Rightarrow> pending_change \<Rightarrow> bool" where
  "gathers is p \<longleftrightarrow> (\<forall>i \<in> set is. set (table_change_tables (in_change i)) \<subseteq> named_tables p \<and>
     (in_observed i \<longrightarrow> (\<forall>t \<in> set (table_change_tables (in_change i)). \<exists>m. map_of (p_observed p) t = Some m \<and>
        covers (detail_for_table (in_change i) t True) m)))"

lemma note_table_frame: "p_project (note_table i t p) = p_project p \<and> p_tenant (note_table i t p) = p_tenant p \<and>
    p_commit (note_table i t p) = p_commit p \<and> p_at (note_table i t p) = p_at p"
  by (simp add: note_table_def Let_def)

lemma note_tables_frame: "p_project (fold (note_table i) ts p) = p_project p \<and> p_tenant (fold (note_table i) ts p) = p_tenant p \<and>
    p_commit (fold (note_table i) ts p) = p_commit p \<and> p_at (fold (note_table i) ts p) = p_at p"
  by (induction ts arbitrary: p) (simp_all add: note_table_frame)

lemma add_change_frame: "p_project (add_change i p) = in_project i" "p_tenant (add_change i p) = in_tenant i"
    "p_commit (add_change i p) = trim_space (c_commit (in_change i))"
  by (simp_all add: add_change_def Let_def note_tables_frame)

lemma add_change_step:
  assumes "good_change K i" "all_fit K p"
  shows "all_fit K (add_change i p)" "observed_grows p (add_change i p)" "named_tables p \<subseteq> named_tables (add_change i p)"
    "gathers [i] (add_change i p)"
proof -
  let ?c = "trim_space (c_commit (in_change i))"
  let ?p = "p\<lparr>p_project := in_project i, p_tenant := in_tenant i, p_commit := ?c, p_at := merged_at ?c (p_at p) (c_changed_at (in_change i))\<rparr>"
  have e: "add_change i p = fold (note_table i) (table_change_tables (in_change i)) ?p"
    by (simp add: add_change_def Let_def)
  have "all_fit K ?p" using assms(2) by (simp add: all_fit_def)
  moreover have "observed_grows p q = observed_grows ?p q" "named_tables p = named_tables ?p" for q
    by (simp_all add: observed_grows_def named_tables_def)
  ultimately show "all_fit K (add_change i p)" "observed_grows p (add_change i p)" "named_tables p \<subseteq> named_tables (add_change i p)"
    "gathers [i] (add_change i p)"
    using note_tables_steps[of "table_change_tables (in_change i)" i K ?p] assms(1)
    by (auto simp: e gathers_def good_change_def)
qed

lemma gathers_grow:
  "gathers is p \<Longrightarrow> observed_grows p p' \<Longrightarrow> named_tables p \<subseteq> named_tables p' \<Longrightarrow> gathers is p'"
  unfolding gathers_def observed_grows_def by (meson covers_trans subset_trans)

lemma batch_gathers:
  assumes "\<forall>i \<in> set is. good_change K i" "all_fit K p" "gathers js p"
  shows "all_fit K (fold add_change is p) \<and> gathers (js @ is) (fold add_change is p)"
  using assms
proof (induction "is" arbitrary: js p)
  case (Cons i "is")
  have g: "good_change K i" using Cons.prems(1) by simp
  note s = add_change_step[OF g Cons.prems(2)]
  have "gathers (js @ [i]) (add_change i p)"
    using gathers_grow[OF Cons.prems(3) s(2,3)] s(4) by (auto simp: gathers_def)
  then show ?case using Cons.IH[of "add_change i p" "js @ [i]"] Cons.prems s(1) by simp
qed simp

text \<open>The batch of a list of changes that all have the same key.\<close>

definition batch_of :: "incoming list \<Rightarrow> pending_change" where
  "batch_of is = fold add_change is empty_pending"

lemma batch_of_gathers: "\<forall>i \<in> set is. good_change K i \<Longrightarrow> all_fit K (batch_of is) \<and> gathers is (batch_of is)"
  unfolding batch_of_def using batch_gathers[of "is" K empty_pending "[]"]
  by (simp add: all_fit_def gathers_def empty_pending_def)

text \<open>Changes of one commit of a tenant.\<close>

definition of_commit :: "string \<Rightarrow> string \<Rightarrow> string \<Rightarrow> incoming list \<Rightarrow> bool" where
  "of_commit pr te cid is \<longleftrightarrow> is \<noteq> [] \<and> cid \<noteq> '''' \<and>
     (\<forall>i \<in> set is. in_project i = pr \<and> in_tenant i = te \<and> trim_space (c_commit (in_change i)) = cid)"

lemma batch_of_frame:
  assumes "of_commit pr te cid is"
  shows "p_project (batch_of is) = pr" "p_tenant (batch_of is) = te" "p_commit (batch_of is) = cid"
proof -
  obtain js i where "is": "is = js @ [i]" using assms by (cases "is" rule: rev_cases) (auto simp: of_commit_def)
  show "p_project (batch_of is) = pr" "p_tenant (batch_of is) = te" "p_commit (batch_of is) = cid"
    using assms by (simp_all add: "is" batch_of_def add_change_frame of_commit_def)
qed

lemma delivered_tables:
  "set (c_tables (delivered_change trusted p)) = fst ` set (delivered_details trusted p)"
  "c_details (delivered_change trusted p) = delivered_details trusted p"
  by (auto simp: delivered_change_def Let_def split: list.splits)

lemma delivered_commit:
  assumes "p_commit p \<noteq> ''''"
  shows "authoritative trusted p \<Longrightarrow> delivered_details trusted p = p_observed p"
    and "\<not> authoritative trusted p \<Longrightarrow> map_of (delivered_details trusted p) t =
      (if t \<in> named_tables p then Some broad_detail else None)"
    and "\<not> authoritative trusted p \<Longrightarrow> fst ` set (delivered_details trusted p) = named_tables p"
  using assms by (auto simp: delivered_details_def Let_def named_tables_def map_of_map_restrict restrict_map_def image_image)

lemma contains_iff: "c_tables c \<noteq> [] \<Longrightarrow> change_contains_table c t \<longleftrightarrow> t \<in> set (c_tables c)"
  by (simp add: change_contains_table_def)

lemma covers_broad: "covers d broad_detail \<longleftrightarrow> d_rows d = [] \<and> d_tasks d = [] \<and> d_users d = [] \<and> d_workspaces d = []"
  by (auto simp: covers_def broad_detail_def empty_detail_def set_covers_def)
lemma table_change_tables_ne: "table_change_tables c \<noteq> []" "distinct (table_change_tables c)"
proof -
  have "set (sort (remdups (c_tables c))) = set (c_tables c)" by simp
  then show "table_change_tables c \<noteq> []"
    unfolding table_change_tables_def by (metis list.distinct(1) set_empty)
qed (simp add: table_change_tables_def)

lemma note_tables_alone:
  assumes "in_observed i" "distinct ts" "\<forall>t \<in> set ts. map_of (p_observed p) t = None"
    and "\<forall>t \<in> set ts. trim_space t = t \<and> t \<noteq> '''' \<and> fits_part (K t) (detail_for_table (in_change i) t True)"
    and "map_of (p_observed (fold (note_table i) ts p)) t = Some m"
  shows "map_of (p_observed p) t = Some m \<or> t \<in> set ts \<and> covers m (detail_for_table (in_change i) t True)"
  using assms
proof (induction ts arbitrary: p)
  case (Cons u us)
  let ?d = "detail_for_table (in_change i) u True"
  have u: "trim_space u = u" "u \<noteq> ''''" "fits_part (K u) ?d" "map_of (p_observed p) u = None" using Cons.prems(3,4) by auto
  have e: "map_of (p_observed (note_table i u p)) x = (if x = u then Some (merge_detail empty_detail ?d) else map_of (p_observed p) x)" for x
    using u Cons.prems(1) by (simp add: note_table_def Let_def update_conv' detail_or_empty_def)
  have "map_of (p_observed (note_table i u p)) t = Some m \<or> t \<in> set us \<and> covers m (detail_for_table (in_change i) t True)"
    by (rule Cons.IH) (use Cons.prems in \<open>auto simp: e\<close>)
  moreover have "covers (merge_detail empty_detail ?d) ?d" using u(3) by (intro merge_first(2)) (simp add: fits_part_def)
  ultimately show ?case by (auto simp: e split: if_splits)
qed simp

lemma alone_covered:
  assumes "good_change K i" "in_observed i" "map_of (p_observed (batch_of [i])) t = Some m"
  shows "t \<in> set (table_change_tables (in_change i)) \<and> covers m (detail_for_table (in_change i) t True)"
proof -
  let ?c = "trim_space (c_commit (in_change i))"
  let ?p = "empty_pending\<lparr>p_project := in_project i, p_tenant := in_tenant i, p_commit := ?c,
      p_at := merged_at ?c (p_at empty_pending) (c_changed_at (in_change i))\<rparr>"
  have p: "p_observed ?p = []" by (simp add: empty_pending_def)
  have "map_of (p_observed ?p) t = Some m \<or> t \<in> set (table_change_tables (in_change i)) \<and> covers m (detail_for_table (in_change i) t True)"
  proof (rule note_tables_alone[where K = K, OF assms(2) table_change_tables_ne(2)])
    show "map_of (p_observed (fold (note_table i) (table_change_tables (in_change i)) ?p)) t = Some m"
      using assms(3) by (simp add: batch_of_def add_change_def Let_def)
  qed (use assms(1,2) p in \<open>auto simp: good_change_def\<close>)
  then show ?thesis by (simp add: p)
qed

lemma gathers_named: "gathers is p \<Longrightarrow> i \<in> set is \<Longrightarrow> set (table_change_tables (in_change i)) \<subseteq> named_tables p"
  by (simp add: gathers_def)

lemma named_ne: "gathers is p \<Longrightarrow> i \<in> set is \<Longrightarrow> named_tables p \<noteq> {}"
  using gathers_named[of "is" p i] table_change_tables_ne(1)[of "in_change i"] by (metis set_empty subset_empty)

lemma gathers_observed: "gathers is p \<Longrightarrow> i \<in> set is \<Longrightarrow> in_observed i \<Longrightarrow> p_observed p \<noteq> []"
proof -
  obtain t where "t \<in> set (table_change_tables (in_change i))"
    using table_change_tables_ne(1)[of "in_change i"] by (meson last_in_set)
  then show "gathers is p \<Longrightarrow> i \<in> set is \<Longrightarrow> in_observed i \<Longrightarrow> p_observed p \<noteq> []" by (auto simp: gathers_def)
qed

lemma detail_of_delivered:
  "map_of (delivered_details trusted p) t = Some d \<Longrightarrow> table_detail_of (delivered_change trusted p) t = d"
  by (simp add: table_detail_of_def delivered_tables)

text \<open>The tables named by the batch of one change that no trigger observed.\<close>

lemma unobserved_named:
  assumes "\<not> in_observed i" "good_change K i"
  shows "named_tables (batch_of [i]) = set (table_change_tables (in_change i))"
proof -
  let ?c = "trim_space (c_commit (in_change i))"
  let ?p = "empty_pending\<lparr>p_project := in_project i, p_tenant := in_tenant i, p_commit := ?c,
      p_at := merged_at ?c (p_at empty_pending) (c_changed_at (in_change i))\<rparr>"
  have "named_tables ?p = {}" by (simp add: named_tables_def empty_pending_def)
  moreover have "all_fit K ?p" by (simp add: all_fit_def empty_pending_def)
  ultimately show ?thesis
    using note_tables_steps[of "table_change_tables (in_change i)" i K ?p] assms
    by (auto simp: batch_of_def add_change_def Let_def good_change_def)
qed

lemma batch_covers_alone:
  assumes c: "of_commit pr te cid is" and good: "\<forall>i \<in> set is. good_change K i" and i: "i \<in> set is"
    and why: "in_observed i \<or> \<not> trusted"
    and m: "fst (match_result g rows (delivered_change trusted (batch_of [i])))"
  shows "fst (match_result g rows (delivered_change trusted (batch_of is)))"
proof (rule match_result_mono[OF m])
  let ?a = "batch_of [i]" and ?b = "batch_of is"
  have ca: "of_commit pr te cid [i]" using c i by (simp add: of_commit_def)
  have cid: "p_commit ?a \<noteq> ''''" "p_commit ?b \<noteq> ''''" using batch_of_frame[OF ca] batch_of_frame[OF c] c by (auto simp: of_commit_def)
  have gi: "good_change K i" using good i by blast
  have ga: "gathers [i] ?a" using batch_of_gathers[of "[i]" K] gi by simp
  have gb: "gathers is ?b" using batch_of_gathers[OF good] by blast
  have tb: "set (c_tables (delivered_change trusted p)) = fst ` set (delivered_details trusted p)" for p
    by (rule delivered_tables)
  have key: "t \<in> set (c_tables (delivered_change trusted ?b)) \<and>
      covers (table_detail_of (delivered_change trusted ?a) t) (table_detail_of (delivered_change trusted ?b) t)"
    and ne: "c_tables (delivered_change trusted ?a) \<noteq> []"
    if "t \<in> set (c_tables (delivered_change trusted ?a))" for t
  proof -
    show "c_tables (delivered_change trusted ?a) \<noteq> []" using that by auto
    show "t \<in> set (c_tables (delivered_change trusted ?b)) \<and>
      covers (table_detail_of (delivered_change trusted ?a) t) (table_detail_of (delivered_change trusted ?b) t)"
    proof (cases trusted)
      case True
      then have o: "in_observed i" using why by simp
      have au: "authoritative trusted ?a" "authoritative trusted ?b"
        using True gathers_observed[OF ga _ o] gathers_observed[OF gb i o] by (simp_all add: authoritative_def)
      have "t \<in> fst ` set (p_observed ?a)" using that by (simp add: tb delivered_commit(1)[OF cid(1) au(1)])
      then have "map_of (p_observed ?a) t \<noteq> None" by (simp add: map_of_eq_None_iff)
      then obtain d where d: "map_of (p_observed ?a) t = Some d" by blast
      have t: "t \<in> set (table_change_tables (in_change i))" "covers d (detail_for_table (in_change i) t True)"
        using alone_covered[OF gi o d] by auto
      obtain e where e: "map_of (p_observed ?b) t = Some e" "covers (detail_for_table (in_change i) t True) e"
        using gb i o t(1) unfolding gathers_def by blast
      have "t \<in> fst ` set (p_observed ?b)" using e(1) by (metis domI dom_map_of_conv_image_fst)
      moreover have "table_detail_of (delivered_change trusted ?a) t = d" "table_detail_of (delivered_change trusted ?b) t = e"
        using d e(1) by (simp_all add: detail_of_delivered delivered_commit(1)[OF cid(1) au(1)] delivered_commit(1)[OF cid(2) au(2)])
      ultimately show ?thesis using covers_trans[OF t(2) e(2)] by (simp add: tb delivered_commit(1)[OF cid(2) au(2)])
    next
      case False
      then have na: "\<not> authoritative trusted ?a" "\<not> authoritative trusted ?b" using cid by (simp_all add: authoritative_def)
      have t: "t \<in> named_tables ?a" using that by (simp add: tb delivered_commit(3)[OF cid(1) na(1)])
      have "named_tables ?a = set (table_change_tables (in_change i))"
      proof (cases "in_observed i")
        case False
        then show ?thesis by (rule unobserved_named[OF _ gi])
      next
        case True
        have "p_declared ?a = [] \<and> p_other ?a = []"
        proof -
          have "p_declared (fold (note_table i) ts p) = p_declared p \<and> p_other (fold (note_table i) ts p) = p_other p" for ts p
            using True by (induction ts arbitrary: p) (simp_all add: note_table_def Let_def)
          then show ?thesis by (simp add: batch_of_def add_change_def Let_def empty_pending_def)
        qed
        moreover have "x \<in> set (table_change_tables (in_change i))" if "x \<in> fst ` set (p_observed ?a)" for x
        proof -
          have "map_of (p_observed ?a) x \<noteq> None" using that by (simp add: map_of_eq_None_iff)
          then obtain m where "map_of (p_observed ?a) x = Some m" by blast
          then show ?thesis using alone_covered[OF gi True] by blast
        qed
        moreover have "set (table_change_tables (in_change i)) \<subseteq> named_tables ?a" by (rule gathers_named[OF ga]) simp
        ultimately show ?thesis unfolding named_tables_def by auto
      qed
      then have "t \<in> named_tables ?b" using t gathers_named[OF gb i] by auto
      moreover have "table_detail_of (delivered_change trusted ?a) t = broad_detail"
        using t by (intro detail_of_delivered) (simp add: delivered_commit(2)[OF cid(1) na(1)])
      moreover have "table_detail_of (delivered_change trusted ?b) t = broad_detail"
        using calculation(1) by (intro detail_of_delivered) (simp add: delivered_commit(2)[OF cid(2) na(2)])
      ultimately show ?thesis by (simp add: tb delivered_commit(3)[OF cid(2) na(2)] covers_refl)
    qed
  qed
  have "set (c_tables (delivered_change trusted ?a)) \<noteq> {}"
  proof (cases "authoritative trusted ?a")
    case True
    then show ?thesis by (simp add: tb delivered_commit(1)[OF cid(1)] authoritative_def)
  next
    case False
    then show ?thesis using named_ne[OF ga] by (simp add: tb delivered_commit(3)[OF cid(1) False])
  qed
  then have nonempty: "c_tables (delivered_change trusted ?a) \<noteq> []" by auto
  then show "\<not> (c_broad (delivered_change trusted ?a) \<and> effective_table_count (delivered_change trusted ?a) = 0)"
    by (simp add: effective_table_count_def)
  show "change_contains_table (delivered_change trusted ?b) (r_table r) \<and>
      covers (table_detail_of (delivered_change trusted ?a) (r_table r)) (table_detail_of (delivered_change trusted ?b) (r_table r))"
    if "change_contains_table (delivered_change trusted ?a) (r_table r)" for r
  proof -
    have r: "r_table r \<in> set (c_tables (delivered_change trusted ?a))" using that nonempty by (simp add: contains_iff)
    then have b: "r_table r \<in> set (c_tables (delivered_change trusted ?b))" using key by blast
    then have "c_tables (delivered_change trusted ?b) \<noteq> []" by auto
    then show ?thesis using key[OF r] b by (simp add: contains_iff)
  qed
qed

section \<open>The queue\<close>

definition schedule_all :: "incoming list \<Rightarrow> change_queue \<Rightarrow> change_queue" where
  "schedule_all js q = fold (\<lambda>i q. fst (schedule_change i q)) js q"

lemma schedule_all_pending:
  "map_of (q_pending (schedule_all js q)) key =
    (let is = filter (\<lambda>i. batch_key i = key) js in
     if is = [] then map_of (q_pending q) key
     else Some (fold add_change is (case map_of (q_pending q) key of None \<Rightarrow> empty_pending | Some p \<Rightarrow> p)))"
proof (induction js arbitrary: q)
  case (Cons i js)
  show ?case
    using Cons[of "fst (schedule_change i q)"]
    by (auto simp: schedule_all_def schedule_change_def Let_def update_conv')
qed (simp add: schedule_all_def)

text \<open>
  A batch has a timer from the moment it exists until it is flushed: its keys are those of
  the timers, whatever is scheduled and whichever timers fire, late ones included.
\<close>

inductive queue_step :: "change_queue \<Rightarrow> change_queue \<Rightarrow> bool" where
  schedule: "queue_step q (fst (schedule_change i q))"
| fire: "queue_step q (fst (flush_change ls landlords key q))"

definition armed :: "change_queue \<Rightarrow> bool" where
  "armed q \<longleftrightarrow> (\<forall>key. (map_of (q_pending q) key = None) = (map_of (q_timers q) key = None)) \<and>
     (\<forall>key d. map_of (q_timers q) key = Some d \<longrightarrow> d \<le> batch_debounce)"

lemma flush_queue: "fst (flush_change ls landlords key q) =
    q\<lparr>q_pending := AList.delete key (q_pending q), q_timers := AList.delete key (q_timers q)\<rparr>"
  by (simp add: flush_change_def Let_def split: option.splits)

lemma armed_step: "armed q \<Longrightarrow> queue_step q q' \<Longrightarrow> armed q'"
proof -
  assume a: "armed q" and s: "queue_step q q'"
  from s show "armed q'"
  proof cases
    case (schedule i)
    then show ?thesis using a
      by (auto simp: armed_def schedule_change_def Let_def update_conv' batch_delay_def batch_trigger_def batch_debounce_def)
  next
    case (fire ls landlords key)
    then show ?thesis using a by (auto simp: armed_def flush_queue delete_conv')
  qed
qed

interpretation timers: step_invariant "\<lambda>q. q = empty_queue" queue_step armed
proof unfold_locales
  show "armed q" if "q = empty_queue" for q using that by (simp add: armed_def empty_queue_def)
  show "armed q'" if "armed q" "queue_step q q'" for q q' by (rule armed_step[OF that])
qed

lemma batch_of_same_key:
  assumes "of_commit pr te cid is" "i \<in> set is"
  shows "batch_key i = join_with '':'' [pr, te, ''commit'' @ unit_sep @ cid]"
  using assms by (auto simp: of_commit_def batch_key_def Let_def)

lemma scheduled_batch:
  assumes "of_commit pr te cid is" and "is = filter (\<lambda>i. batch_key i = key) js" and "map_of (q_pending q) key = None"
  shows "map_of (q_pending (schedule_all js q)) key = Some (batch_of is)"
  using assms schedule_all_pending[of js q key] by (auto simp: Let_def batch_of_def of_commit_def)

lemma flush_delivers:
  assumes p: "map_of (q_pending q) key = Some p" and f: "flush_change ls landlords key q = (q', Some dl)"
    and ne: "c_tables (delivered_change (healthy (p_project p, p_tenant p) ls) p) \<noteq> []"
  shows "dl_project dl = p_project p \<and> dl_tenant dl = p_tenant p \<and>
    dl_change dl = delivered_change (healthy (p_project p, p_tenant p) ls) p \<and>
    dl_caches dl = Some (filter (\<lambda>t. t \<notin> set (p_invalidated p)) (table_change_tables (dl_change dl)))"
  using f ne by (auto simp: flush_change_def p Let_def table_change_tables_ne split: if_splits)

lemma batch_tables_ne:
  assumes c: "of_commit pr te cid is" and good: "\<forall>i \<in> set is. good_change K i"
  shows "c_tables (delivered_change trusted (batch_of is)) \<noteq> []"
proof -
  let ?b = "batch_of is"
  have cid: "p_commit ?b \<noteq> ''''" using batch_of_frame[OF c] c by (auto simp: of_commit_def)
  obtain i where i: "i \<in> set is" using c by (metis of_commit_def last_in_set)
  have "named_tables ?b \<noteq> {}" using named_ne[OF _ i] batch_of_gathers[OF good] by blast
  then have "set (c_tables (delivered_change trusted ?b)) \<noteq> {}"
    unfolding delivered_tables(1)
    by (cases "authoritative trusted ?b") (simp_all add: delivered_commit(1,3)[OF cid] authoritative_def)
  then show ?thesis by auto
qed


text \<open>
  A commit is dropped only with a reason: when a flush hands nothing on although its key
  had a batch, the batch is one commit whose tenant has a trusted listener, no
  notification of it arrived, and no table it declares belongs to the landlord.
\<close>

theorem dropped_commit_justified:
  assumes "of_commit pr te cid is" and "is = filter (\<lambda>i. batch_key i = key) js" and "map_of (q_pending q) key = None"
    and "\<forall>i \<in> set is. good_change K i"
    and "flush_change ls landlords key (schedule_all js q) = (q', None)"
  shows "healthy (pr, te) ls \<and> (\<forall>i \<in> set is. \<not> in_observed i) \<and> \<not> touches_landlord (landlords pr) (batch_of is)"
proof -
  have b: "map_of (q_pending (schedule_all js q)) key = Some (batch_of is)" by (rule scheduled_batch[OF assms(1-3)])
  have "healthy (pr, te) ls \<and> p_observed (batch_of is) = [] \<and> \<not> touches_landlord (landlords pr) (batch_of is)"
    using assms(5) by (simp add: flush_change_def b Let_def batch_of_frame[OF assms(1)] split: if_splits)
  then show ?thesis using gathers_observed[of "is" "batch_of is"] batch_of_gathers[OF assms(4)] by blast
qed

section \<open>Concrete batches\<close>

definition declared_title :: incoming where
  "declared_title = \<lparr>in_project = ''p'', in_tenant = ''t'', in_observed = False,
     in_change = title_change\<lparr>c_tables := [''tasks''], c_broad := True\<rparr>\<rparr>"

definition observed_title :: incoming where
  "observed_title = \<lparr>in_project = ''p'', in_tenant = ''t'', in_observed = True, in_change = title_change\<rparr>"

definition title_shape :: "string \<Rightarrow> bool list \<times> bool" where
  "title_shape t = ([True, False, True, True, True, False], True)"

definition trusted_listener :: listeners where
  "trusted_listener = fst (mark_ready (''p'', ''t'') 0 (fst (acquire 1 ''postgres://t'' (''p'', ''t'') new_listeners)))"

definition title_key :: string where "title_key = batch_key declared_title"

definition title_queue :: change_queue where
  "title_queue = schedule_all [declared_title, observed_title] empty_queue"


lemma dropped_commit_justified_witness:
  "flush_change trusted_listener (\<lambda>_. []) title_key (schedule_all [declared_title] empty_queue) = (empty_queue, None) \<and>
   healthy (''p'', ''t'') trusted_listener"
proof -
  let ?is = "[declared_title]"
  have c: "of_commit ''p'' ''t'' ''c1'' ?is" "?is = filter (\<lambda>i. batch_key i = title_key) ?is"
    "map_of (q_pending empty_queue) title_key = None" "\<forall>i \<in> set ?is. good_change title_shape i"
    by code_simp+
  have f: "flush_change trusted_listener (\<lambda>_. []) title_key (schedule_all ?is empty_queue) = (empty_queue, None)" by code_simp
  show ?thesis using dropped_commit_justified[OF c f] f by simp
qed

section \<open>Caches\<close>

lemma note_tables_invalidated:
  "t \<in> set (p_invalidated (fold (note_table i) ts p)) \<Longrightarrow>
     t \<in> set (p_invalidated p) \<or> in_observed i \<and> t \<in> trim_space ` set ts"
proof (induction ts arbitrary: p)
  case (Cons u us)
  have "set (p_invalidated (note_table i u p)) \<subseteq> set (p_invalidated p) \<union> (if in_observed i then {trim_space u} else {})"
    by (auto simp: note_table_def Let_def set_add_new)
  then show ?case using Cons.IH[of "note_table i u p"] Cons.prems by (auto split: if_splits)
qed simp

lemma batch_invalidated:
  assumes "t \<in> set (p_invalidated (fold add_change is p))"
  shows "t \<in> set (p_invalidated p) \<or> (\<exists>i \<in> set is. in_observed i \<and> t \<in> trim_space ` set (table_change_tables (in_change i)))"
  using assms
proof (induction "is" arbitrary: p)
  case (Cons i "is")
  have "t \<in> set (p_invalidated (add_change i p)) \<Longrightarrow>
      t \<in> set (p_invalidated p) \<or> in_observed i \<and> t \<in> trim_space ` set (table_change_tables (in_change i))"
    by (auto simp: add_change_def Let_def dest!: note_tables_invalidated)
  then show ?case using Cons.IH[of "add_change i p"] Cons.prems by auto
qed simp

text \<open>
  No delivered table keeps its cached results: each is invalidated by the flush, or was
  when a notification of the batch for it was scheduled.
\<close>

theorem delivered_tables_invalidated:
  assumes "of_commit pr te cid is" and "is = filter (\<lambda>i. batch_key i = key) js" and "map_of (q_pending q) key = None"
    and "\<forall>i \<in> set is. good_change K i"
    and "flush_change ls landlords key (schedule_all js q) = (q', Some dl)"
    and "t \<in> set (table_change_tables (dl_change dl))"
  shows "(\<exists>ts. dl_caches dl = Some ts \<and> t \<in> set ts) \<or>
    (\<exists>i \<in> set is. in_observed i \<and> t \<in> set (snd (schedule_change i q0)))"
proof -
  have b: "map_of (q_pending (schedule_all js q)) key = Some (batch_of is)" by (rule scheduled_batch[OF assms(1-3)])
  have d: "dl_caches dl = Some (filter (\<lambda>t. t \<notin> set (p_invalidated (batch_of is))) (table_change_tables (dl_change dl)))"
    using flush_delivers[OF b assms(5)] batch_tables_ne[OF assms(1,4)] batch_of_frame[OF assms(1)] by simp
  show ?thesis
  proof (cases "t \<in> set (p_invalidated (batch_of is))")
    case False
    then show ?thesis using d assms(6) by simp
  next
    case True
    then have "t \<in> set (p_invalidated (fold add_change is empty_pending))" by (simp add: batch_of_def)
    then obtain i where i: "i \<in> set is" "in_observed i" "t \<in> trim_space ` set (table_change_tables (in_change i))"
      using batch_invalidated[of t "is" empty_pending] by (auto simp: empty_pending_def)
    then have "t \<in> set (table_change_tables (in_change i))" using assms(4) by (auto simp: good_change_def)
    then show ?thesis using i by (auto simp: schedule_change_def Let_def)
  qed
qed

lemma delivered_tables_invalidated_witness:
  "\<exists>dl. snd (flush_change trusted_listener (\<lambda>_. []) title_key title_queue) = Some dl \<and>
     ((\<exists>ts. dl_caches dl = Some ts \<and> ''tasks'' \<in> set ts) \<or>
      (\<exists>i \<in> {declared_title, observed_title}. in_observed i \<and> ''tasks'' \<in> set (snd (schedule_change i empty_queue))))"
proof -
  let ?is = "[declared_title, observed_title]"
  have c: "of_commit ''p'' ''t'' ''c1'' ?is" "?is = filter (\<lambda>i. batch_key i = title_key) ?is"
    "map_of (q_pending empty_queue) title_key = None" "\<forall>i \<in> set ?is. good_change title_shape i"
    by code_simp+
  have o: "map_option (\<lambda>dl. table_change_tables (dl_change dl)) (snd (flush_change trusted_listener (\<lambda>_. []) title_key title_queue)) = Some [''tasks'']"
    by code_simp
  then obtain dl where "snd (flush_change trusted_listener (\<lambda>_. []) title_key title_queue) = Some dl" by blast
  then obtain q' where f: "flush_change trusted_listener (\<lambda>_. []) title_key (schedule_all ?is empty_queue) = (q', Some dl)"
    unfolding title_queue_def by (metis prod.collapse)
  have t: "''tasks'' \<in> set (table_change_tables (dl_change dl))" using o f by (simp add: title_queue_def)
  show ?thesis using delivered_tables_invalidated[OF c f t, of empty_queue] f by (auto simp: title_queue_def)
qed

section \<open>Changes a batch forgets\<close>

text \<open>
  A transaction that updates 500 or more rows of a table and then one row more: the first
  notification is broad and names no rows, the second names one. Merged, they claim that
  row alone, and a query by the id of another changed row is not woken.
\<close>

definition bulk_update :: incoming where
  "bulk_update = \<lparr>in_project = ''p'', in_tenant = ''t'', in_observed = True,
     in_change = title_change\<lparr>c_broad := True, c_rows := []\<rparr>\<rparr>"

definition by_required_id :: "string \<Rightarrow> group_reads" where
  "by_required_id i = \<lparr>gr_reads = [\<lparr>r_table = ''tasks'', r_columns = [''title''], r_filters = [], r_orders = [],
      r_windowed = False, r_predicate = ''requiredIdArg:id''\<rparr>],
     gr_unknown = False, gr_args = Some (JObj [(''id'', JStr i)]), gr_user = None\<rparr>"

lemma bulk_update_forgotten:
  "fst (match_result (by_required_id ''a'') [''a''] (delivered_change True (batch_of [bulk_update]))) \<and>
   \<not> fst (match_result (by_required_id ''a'') [''a''] (delivered_change True (batch_of [bulk_update, observed_title])))"
  by code_simp

text \<open>
  A mutation that writes a tenant table and a landlord table: the tenant's notification
  replaces the declared tables, so the landlord table, which no listener of the tenant can
  observe, is neither delivered nor invalidated.
\<close>

definition landlord_write :: incoming where
  "landlord_write = declared_title\<lparr>in_change := (in_change declared_title)\<lparr>c_tables := [''plans'', ''tasks'']\<rparr>\<rparr>"

lemma landlord_write_forgotten:
  "map_option (\<lambda>dl. (c_tables (dl_change dl), dl_caches dl))
     (snd (flush_change trusted_listener (\<lambda>_. [''plans'']) title_key (schedule_all [landlord_write, observed_title] empty_queue))) =
   Some ([''tasks''], Some [])"
  by code_simp

text \<open>
  Outside a commit the rows a caller names replace the rows a notification named for the
  same table.
\<close>

definition row_change :: "bool \<Rightarrow> string \<Rightarrow> incoming" where
  "row_change observed row = \<lparr>in_project = ''p'', in_tenant = ''t'', in_observed = observed,
     in_change = title_change\<lparr>c_commit := '''', c_rows := [row], c_operation := ''''\<rparr>\<rparr>"

lemma observed_row_replaced:
  "d_rows (table_detail_of (delivered_change True (batch_of [row_change True ''a'', row_change False ''b''])) ''tasks'') = [''b'']"
  by code_simp

end
