(* ===== verification/Spec2Isabelle.thy ===== *)
theory Spec2Isabelle
  imports Auth_Run Cron_Expr Query_Admission Sync_Run Migrating_Store Scheduler Mutation_Tx Supervisor Query_Cache Tenant_Targets Result_Delivery Pending_Changes
begin

text \<open>
  The runtime server of Gonvex (Go, under \<open>src/server\<close>): a backend that runs the queries,
  mutations and scheduled jobs of deployed projects against one PostgreSQL database per
  tenant and keeps the live queries of its clients up to date over WebSockets. This
  development models the parts that carry its own logic; each theory opens with what it
  holds. Names follow the Go code; times are integers in the unit the code uses, machine
  integers are written with their wrap-around where it can be reached.

  \<^bold>\<open>The program and its theories.\<close>

  \<^item> Foundations. \<open>Gonvex_Prelude\<close>: outcomes of a Go function, the string functions of its
    standard library, 64-bit wrap-around, stable sorting, the locale \<open>step_invariant\<close> of
    components that are step relations. \<open>Json_Value\<close>: JSON values, Go maps filled from
    objects, the number text of Go and of JavaScript.

  \<^item> Live queries, from a commit to the screen. \<open>Tenant_Listeners\<close> (\<open>tenant_listeners.go\<close>)
    keeps one LISTEN connection per tenant in use and knows whether its notifications can
    be trusted. \<open>Pending_Changes\<close> (scheduleTableChange, flushTableChange and what they call in
    \<open>ws.go\<close>) collects the changes of a commit into one. \<open>Change_Match\<close> (\<open>matchResult\<close> and the read
    predicates of \<open>subscriptions.go\<close>, the change records of \<open>ws.go\<close>) decides whether a
    committed change concerns a group of listeners. \<open>Subscription_Manager\<close>
    (\<open>subscriptionManager\<close>: attach, detach, expire, requestChange, the indexes) finds the
    groups. \<open>Shared_Group\<close> (\<open>sharedSubscription\<close>: request, run, finishRun) turns
    notifications into executions, one definition per critical section.
    \<open>Result_Delivery\<close> (completeResult, broadcastTo, sendFullTo and the revision protocol of
    the TypeScript client) delivers a result to each listener; \<open>Keyed_Patch\<close>
    (keyedResultPatch and the client's applyKeyedPatch) computes and applies the difference
    that is sent instead of the whole result. \<open>Query_Admission\<close> (\<open>query_admission.go\<close>)
    gives executions their permits; \<open>Query_Cache\<close> (\<open>cache.go\<close>, executeTenantQueryForCallerCached)
    answers them from Valkey while their tables are unchanged.

  \<^item> Synchronised collections. \<open>Sync_Log\<close> (\<open>schema/sync.go\<close> and the definitions, reading and
    pruning of \<open>server/sync.go\<close>) is the durable log of row changes that triggers write in each
    tenant's database. \<open>Sync_Collection\<close> (\<open>deliverSync\<close>, \<open>deliverAuthoritativeSync\<close>, \<open>openSync\<close>,
    \<open>notifySyncRevision\<close> and what they call in \<open>server/sync.go\<close>) is the server's side of a
    collection; \<open>Sync_Session\<close> adds the client of the protocol (\<open>packages/client/src/index.ts\<close>)
    and the relation between the two, and \<open>Sync_Run\<close> the session: database, subscription,
    messages under way and client.

  \<^item> Scheduled jobs. \<open>Cron_Expr\<close> (\<open>cronexpr.go\<close>), \<open>Cron_Registry\<close> (\<open>pkg/gonvex/cron.go\<close>),
    \<open>Scheduler\<close> (\<open>scheduler.go\<close>). \<open>Job_Store\<close> is the interface \<open>scheduledJobStore\<close> with
    the locales of its contract, which \<open>Postgres_Store\<close>, \<open>Valkey_Store\<close> and
    \<open>Migrating_Store\<close> (the two side by side during a rolling upgrade) interpret.

  \<^item> Mutations. \<open>Mutation_Tx\<close> (\<open>mutation_idempotency.go\<close>, \<open>deferred_scheduler.go\<close>,
    \<open>runMutationInTx\<close> of \<open>ws.go\<close>): the transaction of a mutation, the idempotency key that
    makes a resent one harmless, and the jobs that wait for the commit.

  \<^item> The process. \<open>Supervisor\<close> (\<open>supervisor/supervisor.go\<close>): the gateway that hands requests
    to a runtime worker, replaces and drains it.

  \<^item> Sign-in of an application's users. \<open>App_Auth\<close> (\<open>app_auth.go\<close>): authorization codes,
    sessions, rotating refresh tokens and their revocation, one operation at a time;
    \<open>Auth_Run\<close>: the same overlapping, with the row locks and the statement snapshots of
    PostgreSQL.

  \<^item> Schema changes. \<open>Sql_Migration\<close> (\<open>sqlmigration/migration.go\<close>) parses, splits and
    applies migrations; \<open>Tenant_Targets\<close> (\<open>tenants.go\<close>, \<open>migrations.go\<close>) chooses the
    databases and rolls out.

  \<^bold>\<open>What the lemmas show.\<close>

  \<^item> Live queries: a listener lives as long as somebody holds it and regains trust only by a
    recovery; batching loses no wake-up (\<open>batch_loses_no_wakeup\<close>) and drops only commits that
    are proved empty; a change that matching skips leaves the result unchanged
    (\<open>skipped_change_keeps_result\<close>); every group that matches is found
    (\<open>every_matching_group_selected\<close>) and woken (\<open>change_wakes_group\<close>, below); a group settles
    on a result as new as everything notified (\<open>group_catches_up\<close>); a listener in step stays
    in step (\<open>completion_keeps_in_step\<close>); patches are exact (the three \<open>message_roundtrip\<close>
    theorems of \<open>Keyed_Patch\<close>, through the locale \<open>patch_codec\<close>); a cached answer is as new as
    the last invalidation (\<open>cached_answer_own_and_fresh\<close>); permits are conserved and
    no wakeup is lost (\<open>Query_Admission\<close>).

  \<^item> Synchronised collections: the log, replayed from a revision it still covers, leads to the
    tables as they are (\<open>replay_range\<close>, \<open>replay_from_later\<close>); every delivery keeps the rows of the
    client and what the server believes of them in step (\<open>sync_in_step\<close>), the rows shown are the
    matching rows of the table (\<open>sync_rows_exact\<close>), and one delivery reaches the newest revision
    (\<open>sync_delivery_reaches_head\<close>); the logged columns suffice (\<open>logged_columns_cover\<close>) and a
    malformed answer is refused (\<open>malformed_answer_refused\<close>).

  \<^item> Jobs: at most one holder of a job, in each store and across both; completed jobs stay
    completed; claims follow the priority; dispatch conserves jobs and advances crons; the
    next run of a cron is the least matching minute.

  \<^item> Mutations: a mutation that is sent again takes effect once, its success answers are
    committed results, its jobs follow the commit, and buffering them changes nothing else.

  \<^item> Sign-in: a code and a refresh token buy at most one session each
    (\<open>code_and_token_sold_once\<close>), a login has one open refresh token and a fixed end
    (\<open>login_has_one_open_token\<close>), and a logout that no refresh overlaps ends the login
    (\<open>logout_ends_login\<close>); one that is overlapped does not (\<open>overlapping_logout_misses\<close>).

  \<^item> The gateway: requests are counted exactly, a draining worker gets no more of them, an
    active one serves, and stopping is bounded.

  \<^item> Migrations: splitting is lossless and inverts rendering; application makes exactly the
    progress it reports and is idempotent; a roll-out does not depend on its schedule.

  The theorems that end in \<open>_witness\<close> apply each property at a concrete input. Theorems that
  show a defect of the code state the behaviour as it is; they are the ones the text
  before them introduces as a divergence between the two ends of a protocol, between a
  comment and the code, or as an unanswered or lost request.

  \<^bold>\<open>Concurrency.\<close> Critical sections are single definitions; goroutines are step relations
  (\<open>adm_step\<close>, \<open>log_step\<close>, \<open>session_step\<close>, \<open>machine_step\<close>, \<open>manager_step\<close>, \<open>listener_step\<close>, \<open>queue_step\<close>,
  \<open>tx_step\<close>, \<open>auth_step\<close>, \<open>gateway_step\<close>, \<open>cache_step\<close>) or histories of calls, and the theorems
  quantify over all interleavings. The catching-up theorem speaks of runs that find an
  authorised listener and a query that succeeds; what the early exits of \<open>run\<close> lose is
  shown after it.

  \<^bold>\<open>Bounds and fuel.\<close> The scans of migrations and of cron minutes carry fuel (the length of
  the text; the minutes of the horizon), which their lemmas show to be enough.
  \<open>find_shard\<close> has one unit more than there are groups: each step of the loop finds a
  different existing key, so it ends before. The runner of a group parks within five steps.

  \<^bold>\<open>Parameters.\<close> The databases behind SQL statements, SHA-256, the lengths of encodings, the
  key of a subscription and the calendar's time-zone tables are arguments of the
  definitions; what is assumed of them is in the hypotheses.

  \<^bold>\<open>Not modelled.\<close> HTTP handlers, dashboards, metrics, logs, file storage and the database
  pools: they call libraries and the database and keep little state of their own. Of the
  sign-in, memberships and invitations, the check of Google's tokens and the rate limits.
  Of live queries, results split by visibility (\<open>executeVisibilityShared\<close>,
  \<open>completePartitionedResult\<close>) and the connection watermarks of \<open>ws.go\<close>. The registry and
  creation of tenant databases, which is a sequence of calls of PostgreSQL, and the
  generation of SQL for the data API. The load generator and the other command line tools
  under \<open>src/cmd\<close>, which are not part of the server.
\<close>

section \<open>From a committed change to an execution\<close>

lemma request_wakes:
  assumes "request_batch reason at commit request changes g = (body, spawned)"
  shows "(sg_running body \<or> trim_space request \<noteq> '''' \<and> commit_already_requested g (trim_space request)) \<and>
    (spawned \<or> sg_running g \<or> trim_space request \<noteq> '''' \<and> commit_already_requested g (trim_space request))"
  using assms by (cases rule: request_batch_cases) auto

text \<open>
  C1: a committed change reaches every group it matches. In every reachable registry,
  after \<open>requestChange\<close> each live group of the tenant that the change matches has a running
  executor, or a request of this very commit had already been taken; and an idle group
  that had not seen the commit is among those whose run is started.
\<close>

theorem change_wakes_group:
  assumes "(manager_step fanout key_of)\<^sup>*\<^sup>* new_manager m" and "proper_keys key_of"
    and "(k, g) \<in> set (mg_groups m)" and "g_project g = proj" and "g_tenant g = ten"
    and "fst (match_result (g_reads g) (g_rows g) c)"
    and "request_change proj ten c m = (m', started)"
  defines "covered \<equiv> trim_space (c_commit c) \<noteq> '''' \<and> commit_already_requested (g_body g) (trim_space (c_commit c))"
  shows "\<exists>body. map_of (mg_groups m') k = Some (g\<lparr>g_body := body\<rparr>) \<and> (sg_running body \<or> covered) \<and>
    (k \<in> set started \<or> sg_running (g_body g) \<or> covered)"
proof -
  let ?ks = "selected proj ten c m" and ?r = "trim_space (c_commit c)"
  have ok: "manager_ok m" by (rule manager_reachable_ok[OF assms(1,2)])
  have look: "map_of (mg_groups m) k = Some g" using ok assms(3) by (simp add: manager_ok_def)
  obtain body spawned where b: "request_batch ''invalidate'' (c_changed_at c) (c_commit c) ?r [c] (g_body g) = (body, spawned)"
    by (meson surj_pair)
  have sel: "k \<in> set ?ks" by (rule matching_selected[OF ok assms(3-6)])
  have "map_of (mg_groups m') k = Some (g\<lparr>g_body := body\<rparr>) \<and> (spawned \<longrightarrow> k \<in> set started)"
    using request_fold_at[OF selected_distinct sel _ b, of "(m, [])"] look assms(7)
    by (simp add: request_change_def request_all_fold)
  then show ?thesis using request_wakes[OF b] by (auto simp: covered_def)
qed

lemma change_wakes_group_witness:
  "\<exists>body. map_of (mg_groups (fst (request_change ''p'' ''t'' title_change one_listener))) ''k'' =
      Some ((snd (hd (mg_groups one_listener)))\<lparr>g_body := body\<rparr>)"
proof -
  let ?g = "snd (hd (mg_groups one_listener))"
  obtain m' started where r: "request_change ''p'' ''t'' title_change one_listener = (m', started)" by (meson surj_pair)
  have f: "(''k'', ?g) \<in> set (mg_groups one_listener)" "g_project ?g = ''p''" "g_tenant ?g = ''t''"
    "fst (match_result (g_reads ?g) (g_rows ?g) title_change)"
  proof -
    have "mg_groups one_listener = [(''k'', ?g)]" by code_simp
    then show "(''k'', ?g) \<in> set (mg_groups one_listener)" by (metis list.set_intros(1))
  qed code_simp+
  show ?thesis using change_wakes_group[OF one_listener_reachable tasks_key_proper f r] r by auto
qed

end
